(* ===== verification/Nos_Types.thy ===== *)
theory Nos_Types
  imports Main "HOL-Library.Word" "HOL-Library.Multiset"
begin

text \<open>
  Shared vocabulary of the development: machine integers, the status codes of
  \<^verbatim>\<open>include/nos_types.h\<close>, C strings, the array-backed index stack that both the buffer pool
  and the key-value store use as their free list, and the named theorem collections that the
  component theories fill.

  Conventions used everywhere.  A C array is a list of the array's fixed length, next to the
  count the C code keeps; \<open>take count arr\<close> is what the code regards as the contents.
  Values that callers choose (sizes, identifiers, hashes, times, lengths) are words of the C
  width, so that arithmetic on them wraps.  Indices and counts that the code only ever uses to
  address an array of at most 1024 elements are natural numbers; the invariants show that they
  stay in range.  A pointer that may be null is an option.
\<close>

unbundle bit_operations_syntax

named_theorems nos_inv \<open>preservation of component invariants\<close>
named_theorems nos_abs \<open>effect of an operation on the abstract view of its state\<close>

type_synonym u8 = "8 word"
type_synonym u16 = "16 word"
type_synonym u32 = "32 word"
type_synonym u64 = "64 word"

datatype nos_status_t = NOS_OK | NOS_ERR | NOS_ERR_NOMEM | NOS_ERR_NOT_FOUND | NOS_ERR_BUSY | NOS_ERR_TIMEOUT

section \<open>Word arithmetic without wrap-around\<close>

lemma unat_inc: "unat x < unat y \<Longrightarrow> unat (x + 1) = unat x + 1" for x y :: "'a::len word"
proof -
  assume "unat x < unat y"
  then have "unat x + 1 < 2 ^ LENGTH('a)" using unsigned_less[of y, where ?'a = nat] by linarith
  then show ?thesis by (simp add: unat_word_ariths)
qed

lemma unat_lt_2_32: "unat x < 2 ^ 32" for x :: u32
  by (rule order_less_le_trans[OF unsigned_less]) simp

lemma unat_lt_2_64: "unat x < 2 ^ 64" for x :: u64
  by (rule order_less_le_trans[OF unsigned_less]) simp

lemma unat_mult_no_wrap:
  "unat x * unat y < 2 ^ LENGTH('a) \<Longrightarrow> unat (x * y) = unat x * unat y" for x y :: "'a::len word"
  by (simp add: unat_word_ariths)

lemma unat_dec: "0 < unat x \<Longrightarrow> unat (x - 1) = unat x - 1" for x :: "'a::len word"
  by (simp add: unat_gt_0 unat_minus_one)

lemma unat_plus_no_wrap:
  "unat x + unat y < 2 ^ LENGTH('a) \<Longrightarrow> unat (x + y) = unat x + unat y" for x y :: "'a::len word"
  by (simp add: unat_word_ariths)

section \<open>C strings\<close>

text \<open>
  A C string is the list of its characters before the terminating NUL.  All name fields of the
  program are zero-initialised arrays of \<open>n + 1\<close> bytes that are only written by
  \<^verbatim>\<open>strncpy(dst, src, n)\<close>; \<^verbatim>\<open>strncpy\<close> pads with NUL and the last byte is never
  written, so the string stored is the first \<open>n\<close> characters of the source.
\<close>

definition c_strncpy :: "nat \<Rightarrow> string \<Rightarrow> string" where
  "c_strncpy n src = take n src"

lemma c_strncpy_short [simp]: "length s \<le> n \<Longrightarrow> c_strncpy n s = s"
  by (simp add: c_strncpy_def)

lemma length_c_strncpy: "length (c_strncpy n s) \<le> n"
  by (simp add: c_strncpy_def)

lemma c_strncpy_long_neq: "n < length s \<Longrightarrow> c_strncpy n s \<noteq> s"
  by (metis c_strncpy_def length_take min_less_iff_conj nat_less_le)

section \<open>Array-backed stacks of free indices\<close>

text \<open>
  \<^verbatim>\<open>x = fs[tp--]\<close> and \<^verbatim>\<open>fs[++tp] = x\<close> on an array \<^verbatim>\<open>fs\<close> with a signed
  \<^verbatim>\<open>tp\<close> that is \<open>-1\<close> when the stack is empty.
\<close>

definition stack_items :: "'a list \<Rightarrow> int \<Rightarrow> 'a list" where
  "stack_items fs tp = take (nat (tp + 1)) fs"

definition stack_ok :: "'a list \<Rightarrow> int \<Rightarrow> bool" where
  "stack_ok fs tp \<longleftrightarrow> -1 \<le> tp \<and> tp < int (length fs)"

lemma stack_items_empty [simp]: "stack_items fs (-1) = []"
  by (simp add: stack_items_def)

lemma length_stack_items: "stack_ok fs tp \<Longrightarrow> int (length (stack_items fs tp)) = tp + 1"
  by (auto simp: stack_items_def stack_ok_def)

lemma stack_items_empty_iff: "stack_ok fs tp \<Longrightarrow> stack_items fs tp = [] \<longleftrightarrow> tp < 0"
  by (auto simp: stack_items_def stack_ok_def)

lemma stack_push:
  assumes "stack_ok fs tp" "tp + 1 < int (length fs)"
  shows "stack_items (fs[nat (tp + 1) := x]) (tp + 1) = stack_items fs tp @ [x]"
    and "stack_ok (fs[nat (tp + 1) := x]) (tp + 1)"
proof -
  from assms have l: "nat (tp + 1) < length fs" by (auto simp: stack_ok_def)
  have n: "nat (tp + 1 + 1) = Suc (nat (tp + 1))" using assms by (auto simp: stack_ok_def)
  have "take (Suc (nat (tp + 1))) (fs[nat (tp + 1) := x]) = take (nat (tp + 1)) fs @ [x]"
    using l by (simp add: take_Suc_conv_app_nth)
  then show "stack_items (fs[nat (tp + 1) := x]) (tp + 1) = stack_items fs tp @ [x]"
    unfolding stack_items_def n .
  show "stack_ok (fs[nat (tp + 1) := x]) (tp + 1)"
    using assms by (auto simp: stack_ok_def)
qed

lemma stack_pop:
  assumes "stack_ok fs tp" "0 \<le> tp"
  shows "stack_items fs tp = stack_items fs (tp - 1) @ [fs ! nat tp]"
    and "stack_ok fs (tp - 1)"
proof -
  from assms have l: "nat tp < length fs" and n: "nat (tp + 1) = Suc (nat tp)"
    by (auto simp: stack_ok_def)
  from l show "stack_items fs tp = stack_items fs (tp - 1) @ [fs ! nat tp]"
    by (simp add: stack_items_def n take_Suc_conv_app_nth)
  show "stack_ok fs (tp - 1)" using assms by (auto simp: stack_ok_def)
qed

section \<open>Swap-remove\<close>

text \<open>
  \<^verbatim>\<open>arr[i] = arr[--count]\<close>: the element at \<open>i\<close> is replaced by the last one of the
  first \<open>count\<close>.
\<close>

definition swap_remove :: "'a list \<Rightarrow> nat \<Rightarrow> nat \<Rightarrow> 'a list" where
  "swap_remove arr n i = arr[i := arr ! (n - 1)]"

lemma length_swap_remove [simp]: "length (swap_remove arr n i) = length arr"
  by (simp add: swap_remove_def)

lemma mset_swap_remove:
  assumes "i < n" "n \<le> length arr"
  shows "mset (take (n - 1) (swap_remove arr n i)) = mset (take n arr) - {#arr ! i#}"
proof -
  obtain m where n: "n = Suc m" using assms(1) by (cases n) auto
  have m: "m < length arr" using assms n by simp
  have t: "take n arr = take m arr @ [arr ! m]" using m n by (simp add: take_Suc_conv_app_nth)
  show ?thesis
  proof (cases "i = m")
    case True
    then show ?thesis using n t by (simp add: swap_remove_def)
  next
    case False
    then have i: "i < m" using assms n by simp
    then have "i < length (take m arr)" using m by simp
    then have "mset ((take m arr)[i := arr ! m]) = add_mset (arr ! m) (mset (take m arr) - {#take m arr ! i#})"
      by (rule mset_update)
    moreover have "take m arr ! i = arr ! i" using i by simp
    moreover have "arr ! i \<in># mset (take m arr)"
      using \<open>i < length (take m arr)\<close> nth_mem[of i "take m arr"] \<open>take m arr ! i = arr ! i\<close> by simp
    ultimately show ?thesis
      using n t i by (simp add: swap_remove_def take_update_swap)
  qed
qed

section \<open>Linear search\<close>

text \<open>\<^verbatim>\<open>for (i = 0; i < n; i++) if (P(arr[i])) return i;\<close>\<close>

fun find_from :: "('a \<Rightarrow> bool) \<Rightarrow> 'a list \<Rightarrow> nat \<Rightarrow> nat \<Rightarrow> nat option" where
  "find_from P xs i 0 = None"
| "find_from P xs i (Suc n) = (if P (xs ! i) then Some i else find_from P xs (i + 1) n)"

definition find_idx :: "('a \<Rightarrow> bool) \<Rightarrow> 'a list \<Rightarrow> nat \<Rightarrow> nat option" where
  "find_idx P xs n = find_from P xs 0 n"

lemma find_from_None: "find_from P xs i n = None \<longleftrightarrow> (\<forall>j. i \<le> j \<and> j < i + n \<longrightarrow> \<not> P (xs ! j))"
proof (induction n arbitrary: i)
  case (Suc n)
  have "i \<le> j \<and> j < i + Suc n \<longleftrightarrow> j = i \<or> (i + 1 \<le> j \<and> j < i + 1 + n)" for j by auto
  then show ?case using Suc[of "i + 1"] by auto
qed auto

lemma find_from_SomeD:
  "find_from P xs i n = Some m \<Longrightarrow> i \<le> m \<and> m < i + n \<and> P (xs ! m) \<and> (\<forall>j. i \<le> j \<and> j < m \<longrightarrow> \<not> P (xs ! j))"
proof (induction n arbitrary: i)
  case (Suc n)
  show ?case
  proof (cases "P (xs ! i)")
    case False
    then have *: "i + 1 \<le> m \<and> m < i + 1 + n \<and> P (xs ! m) \<and> (\<forall>j. i + 1 \<le> j \<and> j < m \<longrightarrow> \<not> P (xs ! j))"
      using Suc.IH[of "i + 1"] Suc.prems by simp
    have "\<not> P (xs ! j)" if "i \<le> j" "j < m" for j using * False that by (cases "j = i") auto
    then show ?thesis using * by simp
  qed (use Suc.prems in auto)
qed simp

lemma find_idx_None: "find_idx P xs n = None \<longleftrightarrow> (\<forall>j < n. \<not> P (xs ! j))"
  by (simp add: find_idx_def find_from_None)

lemma find_idx_SomeD: "find_idx P xs n = Some i \<Longrightarrow> i < n \<and> P (xs ! i) \<and> (\<forall>j < i. \<not> P (xs ! j))"
  using find_from_SomeD[of P xs 0 n i] by (simp add: find_idx_def)

lemma find_from_cong: "(\<And>j. i \<le> j \<Longrightarrow> j < i + n \<Longrightarrow> P (xs ! j) = Q (ys ! j)) \<Longrightarrow> find_from P xs i n = find_from Q ys i n"
  by (induction n arbitrary: i) simp_all

lemma find_idx_cong: "(\<And>j. j < n \<Longrightarrow> P (xs ! j) = Q (ys ! j)) \<Longrightarrow> find_idx P xs n = find_idx Q ys n"
  unfolding find_idx_def by (rule find_from_cong) simp

lemma find_idx_ex: "j < n \<Longrightarrow> P (xs ! j) \<Longrightarrow> \<exists>i. find_idx P xs n = Some i"
  using find_idx_None[of P xs n] by auto

lemma find_idx_unique:
  "i < n \<Longrightarrow> P (xs ! i) \<Longrightarrow> (\<And>j. j < n \<Longrightarrow> P (xs ! j) \<Longrightarrow> j = i) \<Longrightarrow> find_idx P xs n = Some i"
  using find_idx_ex[of i n P xs] find_idx_SomeD[of P xs n] by blast

end
