(* ===== verification/Nos_Mgr.thy ===== *)
theory Nos_Mgr
  imports Nos_Types
begin

text \<open>
  The manager process, \<^verbatim>\<open>src/mgr/nos_mgr_main.c\<close>: it starts, stops and restarts the node processes of
  its manifest and follows their state.  The operating system is part of the state: \<open>os_procs\<close> are the
  children of the manager that have not been waited for.  Children end on their own: \<open>os_script\<close> holds, for
  every system call that looks at a child, what happened since the one before (children that ended, with
  their status), the identifier the next \<^verbatim>\<open>fork\<close> gives and whether the next signal can be sent.
  What the manager prints is \<open>mgr_out\<close>, as messages without their layout.
\<close>

section \<open>Data\<close>

datatype mgr_node_state_t = MGR_NODE_STOPPED | MGR_NODE_RUNNING | MGR_NODE_EXITED

record nos_mgr_node_def_t =
  md_name :: string
  md_binary :: string
  md_uds_path :: string

record mgr_node_t =
  mn_def :: nos_mgr_node_def_t
  mn_pid :: int
  mn_state :: mgr_node_state_t
  mn_started_at :: int
  mn_exit_status :: int

definition MGR_MAX_NODES :: nat where "MGR_MAX_NODES = 32"

text \<open>A child is alive or has ended with a status that nobody has fetched.\<close>

datatype proc = Alive | Zombie int

record sys_step =
  step_exits :: "(int \<times> int) list"
  step_fork :: "int option"
  step_kill_ok :: bool
  step_time :: int

definition quiet :: sys_step where
  "quiet = \<lparr>step_exits = [], step_fork = None, step_kill_ok = True, step_time = 0\<rparr>"

datatype mgr_msg = UnknownNode string | AlreadyRunning string int | NotExecutable string | StartFailed string | Started string int
  | NotRunning string | StopFailed string | Stopped string | Killed string | NodeRow string "int option" string string string string
  | HelpText | UnknownCommand string

record mgr_state =
  g_nodes :: "mgr_node_t list"
  mgr_keep_running :: bool
  mgr_out :: "mgr_msg list"
  os_procs :: "int \<rightharpoonup> proc"
  os_script :: "sys_step list"
  os_spawned :: "(int \<times> string \<times> string) list"

definition mgr_print :: "mgr_msg \<Rightarrow> mgr_state \<Rightarrow> mgr_state" where
  "mgr_print m s = s\<lparr>mgr_out := mgr_out s @ [m]\<rparr>"

definition upd_node :: "nat \<Rightarrow> (mgr_node_t \<Rightarrow> mgr_node_t) \<Rightarrow> mgr_state \<Rightarrow> mgr_state" where
  "upd_node i f s = s\<lparr>g_nodes := (g_nodes s)[i := f (g_nodes s ! i)]\<rparr>"

section \<open>System calls\<close>

definition proc_exit :: "int \<times> int \<Rightarrow> (int \<rightharpoonup> proc) \<Rightarrow> (int \<rightharpoonup> proc)" where
  "proc_exit e ps = (if ps (fst e) = Some Alive then ps(fst e \<mapsto> Zombie (snd e)) else ps)"

definition sys_tick :: "mgr_state \<Rightarrow> sys_step \<times> mgr_state" where
  "sys_tick s =
    (case os_script s of
       [] \<Rightarrow> (quiet, s)
     | r # rs \<Rightarrow> (r, s\<lparr>os_script := rs, os_procs := fold proc_exit (step_exits r) (os_procs s)\<rparr>))"

text \<open>\<^verbatim>\<open>waitpid(pid, &status, WNOHANG)\<close>: the result and the status.\<close>

definition waitpid_nohang :: "int \<Rightarrow> mgr_state \<Rightarrow> int \<times> int \<times> mgr_state" where
  "waitpid_nohang pid s =
    (let s1 = snd (sys_tick s) in
     case os_procs s1 pid of
       None \<Rightarrow> (-1, 0, s1)
     | Some Alive \<Rightarrow> (0, 0, s1)
     | Some (Zombie st) \<Rightarrow> (pid, st, s1\<lparr>os_procs := (os_procs s1)(pid := None)\<rparr>))"

text \<open>\<^verbatim>\<open>waitpid(pid, &status, 0)\<close> after \<^verbatim>\<open>SIGKILL\<close>: the child is fetched, with its status or, when it was still
  alive, the status of a process killed by signal 9.\<close>

definition waitpid_killed :: "int \<Rightarrow> mgr_state \<Rightarrow> int \<times> mgr_state" where
  "waitpid_killed pid s =
    (case os_procs s pid of
       None \<Rightarrow> (0, s)
     | Some Alive \<Rightarrow> (9, s\<lparr>os_procs := (os_procs s)(pid := None)\<rparr>)
     | Some (Zombie st) \<Rightarrow> (st, s\<lparr>os_procs := (os_procs s)(pid := None)\<rparr>))"

text \<open>\<^verbatim>\<open>kill\<close> can be refused; to a child that has ended it succeeds without effect.\<close>

definition sys_kill :: "int \<Rightarrow> mgr_state \<Rightarrow> bool \<times> mgr_state" where
  "sys_kill pid s = (case sys_tick s of (r, s1) \<Rightarrow> (step_kill_ok r \<and> os_procs s1 pid \<noteq> None, s1))"

text \<open>\<^verbatim>\<open>fork\<close>, which gives an identifier that is positive and not in use.\<close>

definition sys_fork :: "string \<Rightarrow> string \<Rightarrow> mgr_state \<Rightarrow> int option \<times> mgr_state" where
  "sys_fork name binary s =
    (case sys_tick s of (r, s1) \<Rightarrow>
       (case step_fork r of
          None \<Rightarrow> (None, s1)
        | Some pid \<Rightarrow> if pid \<le> 0 \<or> os_procs s1 pid \<noteq> None then (None, s1)
            else (Some pid, s1\<lparr>os_procs := (os_procs s1)(pid \<mapsto> Alive), os_spawned := os_spawned s1 @ [(pid, name, binary)]\<rparr>)))"

definition sys_time :: "mgr_state \<Rightarrow> int \<times> mgr_state" where
  "sys_time s = (case sys_tick s of (r, s1) \<Rightarrow> (step_time r, s1))"

section \<open>Operations\<close>

definition state_name :: "mgr_node_state_t \<Rightarrow> string" where
  "state_name st = (case st of MGR_NODE_STOPPED \<Rightarrow> ''STOPPED'' | MGR_NODE_RUNNING \<Rightarrow> ''RUNNING'' | MGR_NODE_EXITED \<Rightarrow> ''EXITED'')"

text \<open>The manifest is the list of definitions before the entry without a name.\<close>

definition mgr_init_nodes :: "nos_mgr_node_def_t list \<Rightarrow> mgr_state \<Rightarrow> mgr_state" where
  "mgr_init_nodes defs s = s\<lparr>g_nodes := g_nodes s @ map (\<lambda>d. \<lparr>mn_def = d, mn_pid = -1, mn_state = MGR_NODE_STOPPED, mn_started_at = 0, mn_exit_status = 0\<rparr>)
     (take (MGR_MAX_NODES - length (g_nodes s)) defs)\<rparr>"

definition find_node :: "string \<Rightarrow> mgr_state \<Rightarrow> nat option" where
  "find_node name s = (if name = [] then None else find_idx (\<lambda>n. md_name (mn_def n) = name) (g_nodes s) (length (g_nodes s)))"

definition refresh_node :: "nat \<Rightarrow> mgr_state \<Rightarrow> mgr_state" where
  "refresh_node i s =
    (let n = g_nodes s ! i in
     if mn_state n \<noteq> MGR_NODE_RUNNING \<or> mn_pid n \<le> 0 then s
     else (case waitpid_nohang (mn_pid n) s of (ret, status, s1) \<Rightarrow>
       if ret = mn_pid n then upd_node i (\<lambda>n. n\<lparr>mn_exit_status := status, mn_pid := -1, mn_state := MGR_NODE_EXITED\<rparr>) s1 else s1))"

definition refresh_nodes :: "mgr_state \<Rightarrow> mgr_state" where
  "refresh_nodes s = fold refresh_node [0..<length (g_nodes s)] s"

text \<open>\<^verbatim>\<open>%02ld\<close>.\<close>

fun dec_digits :: "nat \<Rightarrow> string" where
  "dec_digits n = (if n < 10 then [char_of (48 + n)] else dec_digits (n div 10) @ [char_of (48 + n mod 10)])"

declare dec_digits.simps [simp del]

definition two_digits :: "int \<Rightarrow> string" where
  "two_digits z = (let ds = dec_digits (nat \<bar>z\<bar>); sg = (if z < 0 then ''-'' else []) in sg @ replicate (2 - length sg - length ds) (CHR ''0'') @ ds)"

text \<open>Division of C rounds towards zero.\<close>

definition c_quot :: "int \<Rightarrow> int \<Rightarrow> int" where
  "c_quot a b = (if a < 0 then - ((- a) div b) else a div b)"

definition c_rem :: "int \<Rightarrow> int \<Rightarrow> int" where
  "c_rem a b = a - b * c_quot a b"

definition format_uptime :: "int \<Rightarrow> mgr_node_t \<Rightarrow> string" where
  "format_uptime now n =
    (if mn_state n \<noteq> MGR_NODE_RUNNING \<or> mn_started_at n = 0 then ''-''
     else let seconds = now - mn_started_at n in
       two_digits (c_quot seconds 3600) @ '':'' @ two_digits (c_quot (c_rem seconds 3600) 60) @ '':'' @ two_digits (c_rem seconds 60))"

definition show_node :: "nat \<Rightarrow> mgr_state \<Rightarrow> mgr_state" where
  "show_node i s =
    (let n = g_nodes s ! i in
     case (if mn_state n \<noteq> MGR_NODE_RUNNING \<or> mn_started_at n = 0 then (0, s) else sys_time s) of (now, s1) \<Rightarrow>
       mgr_print (NodeRow (md_name (mn_def n)) (if mn_pid n > 0 then Some (mn_pid n) else None) (state_name (mn_state n)) (format_uptime now n)
         (md_uds_path (mn_def n)) (md_binary (mn_def n))) s1)"

definition show_nodes :: "mgr_state \<Rightarrow> mgr_state" where
  "show_nodes s = (let s1 = refresh_nodes s in fold show_node [0..<length (g_nodes s1)] s1)"

text \<open>\<open>executable\<close> is \<^verbatim>\<open>access(binary, X_OK) == 0\<close>.\<close>

definition start_node :: "(string \<Rightarrow> bool) \<Rightarrow> string \<Rightarrow> mgr_state \<Rightarrow> mgr_state" where
  "start_node executable name s =
    (case find_node name s of
       None \<Rightarrow> mgr_print (UnknownNode name) s
     | Some i \<Rightarrow>
         let s1 = refresh_node i s; n = g_nodes s1 ! i; d = mn_def n in
         if mn_state n = MGR_NODE_RUNNING then mgr_print (AlreadyRunning (md_name d) (mn_pid n)) s1
         else if \<not> executable (md_binary d) then mgr_print (NotExecutable (md_binary d)) s1
         else (case sys_fork (md_name d) (md_binary d) s1 of
             (None, s2) \<Rightarrow> mgr_print (StartFailed (md_name d)) s2
           | (Some pid, s2) \<Rightarrow> (case sys_time s2 of (now, s3) \<Rightarrow>
               mgr_print (Started (md_name d) pid)
                 (upd_node i (\<lambda>n. n\<lparr>mn_pid := pid, mn_state := MGR_NODE_RUNNING, mn_started_at := now, mn_exit_status := 0\<rparr>) s3))))"

definition set_stopped :: "nat \<Rightarrow> int \<Rightarrow> mgr_state \<Rightarrow> mgr_state" where
  "set_stopped i status = upd_node i (\<lambda>n. n\<lparr>mn_pid := -1, mn_state := MGR_NODE_STOPPED, mn_exit_status := status\<rparr>)"

text \<open>The loop that waits for the child, at most \<open>k\<close> times a tenth of a second.\<close>

primrec wait_loop :: "nat \<Rightarrow> nat \<Rightarrow> int \<Rightarrow> mgr_state \<Rightarrow> bool \<times> mgr_state" where
  "wait_loop i 0 pid s = (False, s)"
| "wait_loop i (Suc k) pid s =
    (case waitpid_nohang pid s of (ret, status, s1) \<Rightarrow>
       if ret = pid then (True, mgr_print (Stopped (md_name (mn_def (g_nodes s ! i)))) (set_stopped i status s1)) else wait_loop i k pid s1)"

definition stop_node :: "string \<Rightarrow> mgr_state \<Rightarrow> mgr_state" where
  "stop_node name s =
    (case find_node name s of
       None \<Rightarrow> mgr_print (UnknownNode name) s
     | Some i \<Rightarrow>
         let s1 = refresh_node i s; n = g_nodes s1 ! i; nm = md_name (mn_def n) in
         if mn_state n \<noteq> MGR_NODE_RUNNING \<or> mn_pid n \<le> 0 then mgr_print (NotRunning nm) s1
         else let pid = mn_pid n in
           (case sys_kill pid s1 of
              (False, s2) \<Rightarrow> mgr_print (StopFailed nm) s2
            | (True, s2) \<Rightarrow> (case wait_loop i 30 pid s2 of
                (True, s3) \<Rightarrow> s3
              | (False, s3) \<Rightarrow> (case sys_kill pid s3 of
                  (False, s4) \<Rightarrow> s4
                | (True, s4) \<Rightarrow> (case waitpid_killed pid s4 of (status, s5) \<Rightarrow> mgr_print (Killed nm) (set_stopped i status s5))))))"

definition restart_node :: "(string \<Rightarrow> bool) \<Rightarrow> string \<Rightarrow> mgr_state \<Rightarrow> mgr_state" where
  "restart_node executable name s =
    (case find_node name s of
       None \<Rightarrow> mgr_print (UnknownNode name) s
     | Some i \<Rightarrow> start_node executable name (if mn_state (g_nodes s ! i) = MGR_NODE_RUNNING then stop_node name s else s))"

definition print_help :: "mgr_state \<Rightarrow> mgr_state" where
  "print_help s = mgr_print HelpText s"

definition trim_front :: "string \<Rightarrow> string" where
  "trim_front = dropWhile (\<lambda>c. c = CHR '' '' \<or> c = CHR 0x09)"

definition trim_back :: "string \<Rightarrow> string" where
  "trim_back s = rev (dropWhile (\<lambda>c. c = CHR 0x0A \<or> c = CHR 0x0D \<or> c = CHR '' '' \<or> c = CHR 0x09) (rev s))"

definition trim :: "string \<Rightarrow> string" where
  "trim s = trim_back (trim_front s)"

definition strncmp_eq :: "string \<Rightarrow> string \<Rightarrow> bool" where
  "strncmp_eq s pre \<longleftrightarrow> take (length pre) s = pre"

definition handle_command :: "(string \<Rightarrow> bool) \<Rightarrow> string \<Rightarrow> mgr_state \<Rightarrow> mgr_state" where
  "handle_command executable line s0 =
    (let cmd = trim line; s = refresh_nodes s0 in
     if cmd = [] then s
     else if cmd = ''help'' then print_help s
     else if cmd = ''show nodes'' then show_nodes s
     else if strncmp_eq cmd ''start '' then start_node executable (trim (drop 6 cmd)) s
     else if strncmp_eq cmd ''stop '' then stop_node (trim (drop 5 cmd)) s
     else if strncmp_eq cmd ''restart '' then restart_node executable (trim (drop 8 cmd)) s
     else if cmd = ''quit'' \<or> cmd = ''exit'' then s\<lparr>mgr_keep_running := False\<rparr>
     else mgr_print (UnknownCommand cmd) s)"

text \<open>The input is what is typed, in lines as \<^verbatim>\<open>fgets\<close> delivers them, and the signals \<^verbatim>\<open>SIGINT\<close> and \<^verbatim>\<open>SIGTERM\<close>
  at the points where they arrive: while the process waits for a line, or while it executes one.  A handler installed with
  \<^verbatim>\<open>signal\<close> of the GNU C library restarts the system call that it interrupts, so that \<^verbatim>\<open>fgets\<close> goes on waiting.\<close>

datatype mgr_input = Typed string | Signal_reading | Signal_working

definition mgr_signal_handler :: "mgr_state \<Rightarrow> mgr_state" where
  "mgr_signal_handler s = s\<lparr>mgr_keep_running := False\<rparr>"

fun mgr_fgets :: "mgr_input list \<Rightarrow> mgr_state \<Rightarrow> (string \<times> mgr_input list) option \<times> mgr_state" where
  "mgr_fgets [] s = (None, s)"
| "mgr_fgets (Typed line # rest) s = (Some (line, rest), s)"
| "mgr_fgets (_ # rest) s = mgr_fgets rest (mgr_signal_handler s)"

lemma mgr_fgets_shorter: "mgr_fgets inp s = (Some (line, rest), s1) \<Longrightarrow> length rest < length inp"
  by (induction inp s rule: mgr_fgets.induct) auto

function mgr_loop :: "(string \<Rightarrow> bool) \<Rightarrow> mgr_input list \<Rightarrow> mgr_state \<Rightarrow> mgr_state" where
  "mgr_loop executable inp s =
    (if inp \<noteq> [] \<and> hd inp = Signal_working then mgr_loop executable (tl inp) (mgr_signal_handler s)
     else if \<not> mgr_keep_running s then s
     else (case mgr_fgets inp s of
         (None, s1) \<Rightarrow> s1
       | (Some (line, rest), s1) \<Rightarrow> mgr_loop executable rest (handle_command executable line s1)))"
  by pat_completeness auto

termination
  by (relation "measure (\<lambda>(_, inp, _). length inp)") (auto intro: mgr_fgets_shorter[OF sym])

declare mgr_loop.simps [simp del]

definition mgr_main :: "(string \<Rightarrow> bool) \<Rightarrow> nos_mgr_node_def_t list \<Rightarrow> mgr_input list \<Rightarrow> mgr_state \<Rightarrow> mgr_state" where
  "mgr_main executable defs inp s = refresh_nodes (mgr_loop executable inp (mgr_init_nodes defs s))"

section \<open>The children and the nodes\<close>

text \<open>
  The nodes that run are in one-to-one correspondence with the children of the manager: every
  child belongs to exactly one node, and a node has an identifier exactly when it runs.
\<close>

definition pids_ok :: "mgr_node_t list \<Rightarrow> int set \<Rightarrow> bool" where
  "pids_ok ns D \<longleftrightarrow> (\<forall>n \<in> set ns. mn_state n = MGR_NODE_RUNNING \<longleftrightarrow> mn_pid n > 0)
     \<and> (\<forall>i < length ns. \<forall>j < length ns. mn_pid (ns ! i) > 0 \<and> mn_pid (ns ! i) = mn_pid (ns ! j) \<longrightarrow> i = j)
     \<and> D = mn_pid ` set ns \<inter> {0<..}"

definition mgr_inv :: "mgr_state \<Rightarrow> bool" where
  "mgr_inv s \<longleftrightarrow> pids_ok (g_nodes s) (dom (os_procs s))"

lemma pids_ok_state: "pids_ok ns D \<Longrightarrow> i < length ns \<Longrightarrow> mn_state (ns ! i) = MGR_NODE_RUNNING \<longleftrightarrow> mn_pid (ns ! i) > 0"
  by (simp add: pids_ok_def)

lemma pids_ok_dom: "pids_ok ns D \<Longrightarrow> i < length ns \<Longrightarrow> mn_pid (ns ! i) > 0 \<Longrightarrow> mn_pid (ns ! i) \<in> D"
  by (auto simp: pids_ok_def)

lemma pids_image_update:
  assumes "i < length ns" "\<forall>j < length ns. mn_pid (ns ! i) > 0 \<and> mn_pid (ns ! i) = mn_pid (ns ! j) \<longrightarrow> i = j"
  shows "mn_pid ` set (ns[i := x]) \<inter> {0<..} = (mn_pid ` set ns \<inter> {0<..} - {mn_pid (ns ! i)}) \<union> ({mn_pid x} \<inter> {0<..})"
proof -
  define R where "R = mn_pid ` (!) ns ` ({..<length ns} - {i})"
  have "mn_pid ` set ns = insert (mn_pid (ns ! i)) R"
    using assms(1) by (auto simp: R_def set_conv_nth image_iff)
  moreover have "mn_pid ` set (ns[i := x]) = insert (mn_pid x) R"
    using assms(1) by (auto simp: R_def set_conv_nth image_iff nth_list_update split: if_splits)
  moreover have "mn_pid (ns ! i) \<notin> R \<or> mn_pid (ns ! i) \<le> 0" using assms(2) by (force simp: R_def)
  ultimately show ?thesis by auto
qed

lemma pids_ok_update:
  assumes ok: "pids_ok ns D" and i: "i < length ns" and st: "mn_state x = MGR_NODE_RUNNING \<longleftrightarrow> mn_pid x > 0"
    and fresh: "mn_pid x > 0 \<Longrightarrow> mn_pid x \<notin> D - {mn_pid (ns ! i)}"
  shows "pids_ok (ns[i := x]) ((D - {mn_pid (ns ! i)}) \<union> ({mn_pid x} \<inter> {0<..}))"
proof -
  have inj: "\<And>j k. j < length ns \<Longrightarrow> k < length ns \<Longrightarrow> mn_pid (ns ! j) > 0 \<Longrightarrow> mn_pid (ns ! j) = mn_pid (ns ! k) \<Longrightarrow> j = k"
    and D: "D = mn_pid ` set ns \<inter> {0<..}" using ok unfolding pids_ok_def by blast+
  have other: "mn_pid (ns ! k) \<noteq> mn_pid x" if "k < length ns" "k \<noteq> i" "mn_pid x > 0" for k
  proof
    assume e: "mn_pid (ns ! k) = mn_pid x"
    then have "mn_pid x \<in> D" using D that nth_mem[OF that(1)] by (metis IntI greaterThan_iff imageI)
    then have "mn_pid (ns ! k) = mn_pid (ns ! i)" using fresh[OF that(3)] e by simp
    then show False using inj[OF that(1) i] e that by simp
  qed
  have "\<forall>n \<in> set (ns[i := x]). mn_state n = MGR_NODE_RUNNING \<longleftrightarrow> mn_pid n > 0"
    using ok st set_update_subset_insert[of ns i x] unfolding pids_ok_def by blast
  moreover have "j = k" if "j < length ns" "k < length ns" "mn_pid (ns[i := x] ! j) > 0" "mn_pid (ns[i := x] ! j) = mn_pid (ns[i := x] ! k)" for j k
    using that inj[of j k] other[of j] other[of k] by (cases "j = i"; cases "k = i") (auto simp: nth_list_update)
  moreover have "(D - {mn_pid (ns ! i)}) \<union> ({mn_pid x} \<inter> {0<..}) = mn_pid ` set (ns[i := x]) \<inter> {0<..}"
    using pids_image_update[OF i, of x] inj[OF i] D by blast
  ultimately show ?thesis unfolding pids_ok_def by simp
qed

section \<open>What the system calls do to the children\<close>

lemma dom_proc_exit [simp]: "dom (proc_exit e ps) = dom ps"
  by (auto simp: proc_exit_def)

lemma dom_fold_exit [simp]: "dom (fold proc_exit es ps) = dom ps"
  by (induction es arbitrary: ps) simp_all

lemma sys_tick_frame [simp]:
  "g_nodes (snd (sys_tick s)) = g_nodes s" "dom (os_procs (snd (sys_tick s))) = dom (os_procs s)" "mgr_out (snd (sys_tick s)) = mgr_out s"
  "os_spawned (snd (sys_tick s)) = os_spawned s" "mgr_keep_running (snd (sys_tick s)) = mgr_keep_running s"
  by (simp_all add: sys_tick_def split: list.split)

lemma tick_proc_None: "os_procs (snd (sys_tick s)) pid = None \<longleftrightarrow> pid \<notin> dom (os_procs s)"
  by (metis domIff sys_tick_frame(2))

lemma waitpid_nohang_spec:
  assumes "waitpid_nohang pid s = (ret, st, s')" "0 < pid"
  shows "g_nodes s' = g_nodes s" "os_spawned s' = os_spawned s" "mgr_keep_running s' = mgr_keep_running s"
    "dom (os_procs s') = (if ret = pid then dom (os_procs s) - {pid} else dom (os_procs s))"
    "ret = pid \<Longrightarrow> pid \<in> dom (os_procs s)" "pid \<in> dom (os_procs s) \<Longrightarrow> ret = pid \<or> ret = 0"
proof -
  note w = assms(1)[symmetric, unfolded waitpid_nohang_def Let_def]
  have "(g_nodes s' = g_nodes s \<and> os_spawned s' = os_spawned s \<and> mgr_keep_running s' = mgr_keep_running s)
    \<and> dom (os_procs s') = (if ret = pid then dom (os_procs s) - {pid} else dom (os_procs s))
    \<and> (ret = pid \<longrightarrow> pid \<in> dom (os_procs s)) \<and> (pid \<in> dom (os_procs s) \<longrightarrow> ret = pid \<or> ret = 0)"
  proof (cases "os_procs (snd (sys_tick s)) pid")
    case None
    then have "pid \<notin> dom (os_procs s)" by (simp add: tick_proc_None)
    then show ?thesis using w None assms(2) by simp
  next
    case (Some x)
    then have "pid \<in> dom (os_procs s)" using tick_proc_None[of s pid] by auto
    then show ?thesis using w Some assms(2) by (cases x) simp_all
  qed
  then show "g_nodes s' = g_nodes s" "os_spawned s' = os_spawned s" "mgr_keep_running s' = mgr_keep_running s"
    "dom (os_procs s') = (if ret = pid then dom (os_procs s) - {pid} else dom (os_procs s))"
    "ret = pid \<Longrightarrow> pid \<in> dom (os_procs s)" "pid \<in> dom (os_procs s) \<Longrightarrow> ret = pid \<or> ret = 0" by blast+
qed

lemma sys_kill_frame [simp]:
  "g_nodes (snd (sys_kill pid s)) = g_nodes s" "dom (os_procs (snd (sys_kill pid s))) = dom (os_procs s)" "os_spawned (snd (sys_kill pid s)) = os_spawned s"
  "mgr_keep_running (snd (sys_kill pid s)) = mgr_keep_running s"
  by (simp_all add: sys_kill_def case_prod_beta)

lemma sys_kill_ok: "fst (sys_kill pid s) \<Longrightarrow> pid \<in> dom (os_procs s)"
  using tick_proc_None[of s pid] by (auto simp: sys_kill_def case_prod_beta)

lemma waitpid_killed_frame [simp]:
  "g_nodes (snd (waitpid_killed pid s)) = g_nodes s" "dom (os_procs (snd (waitpid_killed pid s))) = dom (os_procs s) - {pid}"
  "os_spawned (snd (waitpid_killed pid s)) = os_spawned s" "mgr_keep_running (snd (waitpid_killed pid s)) = mgr_keep_running s"
  by (simp_all add: waitpid_killed_def domIff split: option.split proc.split)

lemma sys_fork_frame [simp]:
  "g_nodes (snd (sys_fork name binary s)) = g_nodes s" "mgr_keep_running (snd (sys_fork name binary s)) = mgr_keep_running s"
  by (simp_all add: sys_fork_def case_prod_beta split: option.split)

lemma sys_fork_failed:
  "fst (sys_fork name binary s) = None \<Longrightarrow> dom (os_procs (snd (sys_fork name binary s))) = dom (os_procs s) \<and> os_spawned (snd (sys_fork name binary s)) = os_spawned s"
  by (cases "step_fork (fst (sys_tick s))") (simp_all add: sys_fork_def case_prod_beta split: if_splits)

lemma sys_fork_done:
  assumes "fst (sys_fork name binary s) = Some pid"
  shows "0 < pid" "pid \<notin> dom (os_procs s)" "dom (os_procs (snd (sys_fork name binary s))) = insert pid (dom (os_procs s))"
    "os_spawned (snd (sys_fork name binary s)) = os_spawned s @ [(pid, name, binary)]"
  using assms tick_proc_None[of s pid] by (cases "step_fork (fst (sys_tick s))"; simp add: sys_fork_def case_prod_beta split: if_splits)+

lemma sys_time_frame [simp]:
  "g_nodes (snd (sys_time s)) = g_nodes s" "dom (os_procs (snd (sys_time s))) = dom (os_procs s)" "os_spawned (snd (sys_time s)) = os_spawned s"
  "mgr_keep_running (snd (sys_time s)) = mgr_keep_running s"
  by (simp_all add: sys_time_def case_prod_beta)

section \<open>The operations keep the correspondence\<close>

lemma mgr_print_frame [simp]:
  "g_nodes (mgr_print m s) = g_nodes s" "os_procs (mgr_print m s) = os_procs s" "os_spawned (mgr_print m s) = os_spawned s"
  "mgr_keep_running (mgr_print m s) = mgr_keep_running s" "mgr_inv (mgr_print m s) = mgr_inv s"
  by (simp_all add: mgr_print_def mgr_inv_def)

lemma upd_node_frame [simp]:
  "g_nodes (upd_node i f s) = (g_nodes s)[i := f (g_nodes s ! i)]" "os_procs (upd_node i f s) = os_procs s" "os_spawned (upd_node i f s) = os_spawned s"
  "mgr_keep_running (upd_node i f s) = mgr_keep_running s"
  by (simp_all add: upd_node_def)

lemma mgr_inv_cong: "g_nodes s' = g_nodes s \<Longrightarrow> dom (os_procs s') = dom (os_procs s) \<Longrightarrow> mgr_inv s' = mgr_inv s"
  by (simp add: mgr_inv_def)

text \<open>A node whose child was fetched loses its identifier.\<close>

lemma mgr_inv_fetched:
  assumes "mgr_inv s" "i < length (g_nodes s)" "g_nodes s' = g_nodes s" "dom (os_procs s') = dom (os_procs s) - {mn_pid (g_nodes s ! i)}"
    and "\<And>n. mn_state (f n) \<noteq> MGR_NODE_RUNNING \<and> mn_pid (f n) = -1"
  shows "mgr_inv (upd_node i f s')"
  using pids_ok_update[OF assms(1)[unfolded mgr_inv_def] assms(2), of "f (g_nodes s ! i)"] assms(3-5) by (simp add: mgr_inv_def)

text \<open>A node that does not run takes a new child.\<close>

lemma mgr_inv_started:
  assumes "mgr_inv s" "i < length (g_nodes s)" "mn_state (g_nodes s ! i) \<noteq> MGR_NODE_RUNNING" "0 < pid" "pid \<notin> dom (os_procs s)"
    and "g_nodes s' = g_nodes s" "dom (os_procs s') = insert pid (dom (os_procs s))"
    and "\<And>n. mn_state (f n) = MGR_NODE_RUNNING \<and> mn_pid (f n) = pid"
  shows "mgr_inv (upd_node i f s')"
proof -
  have ok: "pids_ok (g_nodes s) (dom (os_procs s))" using assms(1) by (simp add: mgr_inv_def)
  have np: "mn_pid (g_nodes s ! i) \<notin> dom (os_procs s)" using pids_ok_state[OF ok assms(2)] assms(3) ok by (auto simp: pids_ok_def)
  have "pids_ok ((g_nodes s)[i := f (g_nodes s ! i)]) ((dom (os_procs s) - {mn_pid (g_nodes s ! i)}) \<union> ({mn_pid (f (g_nodes s ! i))} \<inter> {0<..}))"
    using assms(4,5,8) by (intro pids_ok_update[OF ok assms(2)]) simp_all
  moreover have "(dom (os_procs s) - {mn_pid (g_nodes s ! i)}) \<union> ({mn_pid (f (g_nodes s ! i))} \<inter> {0<..}) = insert pid (dom (os_procs s))"
    using np assms(4,8) by auto
  ultimately show ?thesis using assms(6,7) by (simp add: mgr_inv_def)
qed

lemma refresh_node_spec:
  assumes "mgr_inv s" "i < length (g_nodes s)"
  shows "mgr_inv (refresh_node i s)" "length (g_nodes (refresh_node i s)) = length (g_nodes s)" "map mn_def (g_nodes (refresh_node i s)) = map mn_def (g_nodes s)"
    "os_spawned (refresh_node i s) = os_spawned s" "mgr_keep_running (refresh_node i s) = mgr_keep_running s"
    "j \<noteq> i \<Longrightarrow> g_nodes (refresh_node i s) ! j = g_nodes s ! j"
    "mn_state (g_nodes (refresh_node i s) ! i) = MGR_NODE_RUNNING \<Longrightarrow> g_nodes (refresh_node i s) = g_nodes s"
    "mn_state (g_nodes s ! i) \<noteq> MGR_NODE_RUNNING \<Longrightarrow> refresh_node i s = s"
proof -
  let ?n = "g_nodes s ! i" and ?r = "refresh_node i s"
  have "mgr_inv ?r \<and> length (g_nodes ?r) = length (g_nodes s) \<and> map mn_def (g_nodes ?r) = map mn_def (g_nodes s) \<and> os_spawned ?r = os_spawned s
    \<and> mgr_keep_running ?r = mgr_keep_running s \<and> (j \<noteq> i \<longrightarrow> g_nodes ?r ! j = g_nodes s ! j)
    \<and> (mn_state (g_nodes ?r ! i) = MGR_NODE_RUNNING \<longrightarrow> g_nodes ?r = g_nodes s) \<and> (mn_state ?n \<noteq> MGR_NODE_RUNNING \<longrightarrow> ?r = s)"
  proof (cases "mn_state ?n \<noteq> MGR_NODE_RUNNING \<or> mn_pid ?n \<le> 0")
    case True
    then show ?thesis using assms by (simp add: refresh_node_def Let_def)
  next
    case False
    then have p: "0 < mn_pid ?n" by simp
    obtain ret st s1 where w: "waitpid_nohang (mn_pid ?n) s = (ret, st, s1)" by (metis prod_cases3)
    note f = waitpid_nohang_spec[OF w p]
    let ?f = "\<lambda>n. n\<lparr>mn_exit_status := st, mn_pid := -1, mn_state := MGR_NODE_EXITED\<rparr>"
    have r: "?r = (if ret = mn_pid ?n then upd_node i ?f s1 else s1)" using False w by (simp add: refresh_node_def Let_def)
    show ?thesis
    proof (cases "ret = mn_pid ?n")
      case True
      then have "mgr_inv (upd_node i ?f s1)" using f(1,4) by (intro mgr_inv_fetched[OF assms]) simp_all
      moreover have "map mn_def ((g_nodes s)[i := ?f ?n]) = map mn_def (g_nodes s)" using assms(2) by (simp add: map_update list_update_same_conv)
      ultimately show ?thesis using r True f(1-3) False assms(2) by simp
    next
      case nf: False
      then show ?thesis using r f(1-4) False assms mgr_inv_cong[of s1 s] by simp
    qed
  qed
  then show "mgr_inv ?r" "length (g_nodes ?r) = length (g_nodes s)" "map mn_def (g_nodes ?r) = map mn_def (g_nodes s)" "os_spawned ?r = os_spawned s"
    "mgr_keep_running ?r = mgr_keep_running s" "j \<noteq> i \<Longrightarrow> g_nodes ?r ! j = g_nodes s ! j"
    "mn_state (g_nodes ?r ! i) = MGR_NODE_RUNNING \<Longrightarrow> g_nodes ?r = g_nodes s" "mn_state ?n \<noteq> MGR_NODE_RUNNING \<Longrightarrow> ?r = s" by blast+
qed

lemma fold_refresh_spec:
  assumes "mgr_inv s" "\<forall>i \<in> set is. i < length (g_nodes s)"
  shows "mgr_inv (fold refresh_node is s) \<and> length (g_nodes (fold refresh_node is s)) = length (g_nodes s)
    \<and> map mn_def (g_nodes (fold refresh_node is s)) = map mn_def (g_nodes s) \<and> os_spawned (fold refresh_node is s) = os_spawned s
    \<and> mgr_keep_running (fold refresh_node is s) = mgr_keep_running s"
  using assms
proof (induction "is" arbitrary: s)
  case (Cons i js)
  then have i: "i < length (g_nodes s)" by simp
  note f = refresh_node_spec[OF Cons.prems(1) i]
  show ?case using Cons.IH[of "refresh_node i s"] Cons.prems(2) f(1-5) by simp
qed simp

lemma refresh_nodes_spec:
  assumes "mgr_inv s"
  shows "mgr_inv (refresh_nodes s)" "length (g_nodes (refresh_nodes s)) = length (g_nodes s)" "map mn_def (g_nodes (refresh_nodes s)) = map mn_def (g_nodes s)"
    "os_spawned (refresh_nodes s) = os_spawned s" "mgr_keep_running (refresh_nodes s) = mgr_keep_running s"
  using fold_refresh_spec[OF assms, of "[0..<length (g_nodes s)]"] by (simp_all add: refresh_nodes_def)

lemma find_node_SomeD: "find_node name s = Some i \<Longrightarrow> i < length (g_nodes s) \<and> md_name (mn_def (g_nodes s ! i)) = name \<and> name \<noteq> []"
  by (auto simp: find_node_def dest!: find_idx_SomeD split: if_splits)

lemma map_def_nth: "map mn_def ns = map mn_def ms \<Longrightarrow> i < length ms \<Longrightarrow> mn_def (ns ! i) = mn_def (ms ! i)"
  by (metis length_map nth_map)

text \<open>The node that was looked up, after its state was brought up to date.\<close>

lemma refresh_found:
  assumes "mgr_inv s" "find_node name s = Some i"
  shows "mgr_inv (refresh_node i s)" "i < length (g_nodes (refresh_node i s))" "i < length (g_nodes s)" "mn_def (g_nodes (refresh_node i s) ! i) = mn_def (g_nodes s ! i)"
    "md_name (mn_def (g_nodes s ! i)) = name"
proof -
  have i: "i < length (g_nodes s)" "md_name (mn_def (g_nodes s ! i)) = name" using find_node_SomeD[OF assms(2)] by blast+
  note f = refresh_node_spec[OF assms(1) i(1)]
  show "mgr_inv (refresh_node i s)" "i < length (g_nodes (refresh_node i s))" "i < length (g_nodes s)" "md_name (mn_def (g_nodes s ! i)) = name" using f i by simp_all
  show "mn_def (g_nodes (refresh_node i s) ! i) = mn_def (g_nodes s ! i)" using map_def_nth[OF f(3) i(1)] .
qed

lemma start_node_done:
  assumes "mgr_inv s" "find_node name s = Some i" "mn_state (g_nodes (refresh_node i s) ! i) \<noteq> MGR_NODE_RUNNING" "executable (md_binary (mn_def (g_nodes s ! i)))"
    and "fst (sys_fork name (md_binary (mn_def (g_nodes s ! i))) (refresh_node i s)) = Some pid"
  shows "mgr_inv (start_node executable name s)" "os_spawned (start_node executable name s) = os_spawned s @ [(pid, name, md_binary (mn_def (g_nodes s ! i)))]"
    "\<exists>now. g_nodes (start_node executable name s) = (g_nodes s)[i := (g_nodes s ! i)\<lparr>mn_pid := pid, mn_state := MGR_NODE_RUNNING, mn_started_at := now, mn_exit_status := 0\<rparr>]"
    "mgr_keep_running (start_node executable name s) = mgr_keep_running s"
proof -
  let ?d = "mn_def (g_nodes s ! i)"
  note r = refresh_found[OF assms(1,2)]
  note f = refresh_node_spec[OF assms(1) r(3)]
  define s2 where "s2 = snd (sys_fork name (md_binary ?d) (refresh_node i s))"
  define now where "now = fst (sys_time s2)"
  define s3 where "s3 = snd (sys_time s2)"
  let ?f = "\<lambda>n. n\<lparr>mn_pid := pid, mn_state := MGR_NODE_RUNNING, mn_started_at := now, mn_exit_status := 0\<rparr>"
  have fk: "sys_fork name (md_binary ?d) (refresh_node i s) = (Some pid, s2)" using assms(5) by (simp add: s2_def prod_eq_iff)
  have e: "start_node executable name s = mgr_print (Started name pid) (upd_node i ?f s3)"
    using assms(2-4) r(4,5) fk by (simp add: start_node_def Let_def now_def s3_def case_prod_beta)
  note d = sys_fork_done[OF assms(5)]
  have s3: "g_nodes s3 = g_nodes (refresh_node i s)" "dom (os_procs s3) = insert pid (dom (os_procs (refresh_node i s)))"
    "os_spawned s3 = os_spawned s @ [(pid, name, md_binary ?d)]" "mgr_keep_running s3 = mgr_keep_running s" using d f(4,5) by (simp_all add: s3_def s2_def)
  show "mgr_inv (start_node executable name s)" unfolding e using mgr_inv_started[OF r(1,2) assms(3) d(1,2) s3(1,2), of ?f] by simp
  show "os_spawned (start_node executable name s) = os_spawned s @ [(pid, name, md_binary ?d)]" "mgr_keep_running (start_node executable name s) = mgr_keep_running s"
    unfolding e using s3 by simp_all
  have "(g_nodes (refresh_node i s))[i := ?f (g_nodes (refresh_node i s) ! i)] = (g_nodes s)[i := ?f (g_nodes s ! i)]"
  proof (rule nth_equalityI)
    fix j assume "j < length ((g_nodes (refresh_node i s))[i := ?f (g_nodes (refresh_node i s) ! i)])"
    then show "(g_nodes (refresh_node i s))[i := ?f (g_nodes (refresh_node i s) ! i)] ! j = (g_nodes s)[i := ?f (g_nodes s ! i)] ! j"
      using r(2-4) f(6)[of j] by (cases "j = i") (simp_all add: mgr_node_t.equality)
  qed (simp add: f(2))
  then show "\<exists>now. g_nodes (start_node executable name s) = (g_nodes s)[i := (g_nodes s ! i)\<lparr>mn_pid := pid, mn_state := MGR_NODE_RUNNING, mn_started_at := now, mn_exit_status := 0\<rparr>]"
    unfolding e using s3(1) by auto
qed

text \<open>Otherwise a start only brings the node up to date and prints why.\<close>

lemma start_node_refused:
  assumes "mgr_inv s" "find_node name s = Some i"
    and "mn_state (g_nodes (refresh_node i s) ! i) = MGR_NODE_RUNNING \<or> \<not> executable (md_binary (mn_def (g_nodes s ! i)))
      \<or> fst (sys_fork name (md_binary (mn_def (g_nodes s ! i))) (refresh_node i s)) = None"
  shows "g_nodes (start_node executable name s) = g_nodes (refresh_node i s)" "dom (os_procs (start_node executable name s)) = dom (os_procs (refresh_node i s))"
    "os_spawned (start_node executable name s) = os_spawned s" "mgr_keep_running (start_node executable name s) = mgr_keep_running s"
proof -
  note r = refresh_found[OF assms(1,2)]
  note f = refresh_node_spec[OF assms(1) r(3)]
  let ?b = "md_binary (mn_def (g_nodes s ! i))"
  obtain res s2 where fk: "sys_fork name ?b (refresh_node i s) = (res, s2)" by (cases "sys_fork name ?b (refresh_node i s)")
  have n: "res = None \<Longrightarrow> g_nodes s2 = g_nodes (refresh_node i s) \<and> dom (os_procs s2) = dom (os_procs (refresh_node i s)) \<and> os_spawned s2 = os_spawned s \<and> mgr_keep_running s2 = mgr_keep_running s"
    using sys_fork_failed[of name ?b "refresh_node i s"] sys_fork_frame[of name ?b "refresh_node i s"] fk f(4,5) by simp
  consider "mn_state (g_nodes (refresh_node i s) ! i) = MGR_NODE_RUNNING" | "mn_state (g_nodes (refresh_node i s) ! i) \<noteq> MGR_NODE_RUNNING" "\<not> executable ?b"
    | "mn_state (g_nodes (refresh_node i s) ! i) \<noteq> MGR_NODE_RUNNING" "executable ?b" "res = None" using assms(3) fk by auto
  then have "g_nodes (start_node executable name s) = g_nodes (refresh_node i s) \<and> dom (os_procs (start_node executable name s)) = dom (os_procs (refresh_node i s))
      \<and> os_spawned (start_node executable name s) = os_spawned s \<and> mgr_keep_running (start_node executable name s) = mgr_keep_running s"
    by cases (use assms(2) r(4,5) f(4,5) fk n in \<open>simp_all add: start_node_def Let_def\<close>)
  then show "g_nodes (start_node executable name s) = g_nodes (refresh_node i s)" "dom (os_procs (start_node executable name s)) = dom (os_procs (refresh_node i s))"
    "os_spawned (start_node executable name s) = os_spawned s" "mgr_keep_running (start_node executable name s) = mgr_keep_running s" by blast+
qed

lemma set_stopped_frame [simp]: "mgr_keep_running (set_stopped i st s) = mgr_keep_running s" "os_spawned (set_stopped i st s) = os_spawned s" "os_procs (set_stopped i st s) = os_procs s"
  "g_nodes (set_stopped i st s) = (g_nodes s)[i := (g_nodes s ! i)\<lparr>mn_pid := -1, mn_state := MGR_NODE_STOPPED, mn_exit_status := st\<rparr>]"
  by (simp_all add: set_stopped_def)

text \<open>What a stop achieves: the child is fetched and the node is marked, nothing else changes.\<close>

definition stopped_at :: "nat \<Rightarrow> mgr_state \<Rightarrow> mgr_state \<Rightarrow> bool" where
  "stopped_at i s s' \<longleftrightarrow> (\<exists>st. g_nodes s' = (g_nodes s)[i := (g_nodes s ! i)\<lparr>mn_pid := -1, mn_state := MGR_NODE_STOPPED, mn_exit_status := st\<rparr>])
     \<and> dom (os_procs s') = dom (os_procs s) - {mn_pid (g_nodes s ! i)} \<and> os_spawned s' = os_spawned s \<and> mgr_keep_running s' = mgr_keep_running s"

definition same_nodes :: "mgr_state \<Rightarrow> mgr_state \<Rightarrow> bool" where
  "same_nodes s s' \<longleftrightarrow> g_nodes s' = g_nodes s \<and> dom (os_procs s') = dom (os_procs s) \<and> os_spawned s' = os_spawned s \<and> mgr_keep_running s' = mgr_keep_running s"

lemma stopped_atI:
  "g_nodes s' = (g_nodes s)[i := (g_nodes s ! i)\<lparr>mn_pid := -1, mn_state := MGR_NODE_STOPPED, mn_exit_status := st\<rparr>] \<Longrightarrow>
    dom (os_procs s') = dom (os_procs s) - {mn_pid (g_nodes s ! i)} \<Longrightarrow> os_spawned s' = os_spawned s \<Longrightarrow> mgr_keep_running s' = mgr_keep_running s \<Longrightarrow> stopped_at i s s'"
  unfolding stopped_at_def by blast

lemma same_then_stopped: "same_nodes s s1 \<Longrightarrow> stopped_at i s1 s2 \<Longrightarrow> stopped_at i s s2"
  by (simp add: same_nodes_def stopped_at_def)

lemma same_nodes_trans: "same_nodes s s1 \<Longrightarrow> same_nodes s1 s2 \<Longrightarrow> same_nodes s s2"
  by (simp add: same_nodes_def)

lemma wait_loop_spec:
  assumes "0 < pid" "pid = mn_pid (g_nodes s ! i)" "wait_loop i k pid s = (ok, s')"
  shows "if ok then stopped_at i s s' else same_nodes s s'"
  using assms
proof (induction k arbitrary: s)
  case (Suc k)
  obtain ret st s1 where w: "waitpid_nohang pid s = (ret, st, s1)" by (metis prod_cases3)
  note f = waitpid_nohang_spec[OF w Suc.prems(1)]
  show ?case
  proof (cases "ret = pid")
    case True
    then have e: "ok" "s' = mgr_print (Stopped (md_name (mn_def (g_nodes s ! i)))) (set_stopped i st s1)" using Suc.prems w by auto
    show ?thesis using Suc.prems(2) f(1-4) True unfolding e(2) by (simp add: e(1) stopped_atI)
  next
    case False
    then have "if ok then stopped_at i s1 s' else same_nodes s1 s'" using Suc.IH[of s1] Suc.prems w f(1) by simp
    then show ?thesis using f(1-4) False by (simp add: stopped_at_def same_nodes_def split: if_splits)
  qed
qed (simp add: same_nodes_def)

lemma stopped_at_inv:
  assumes "mgr_inv s" "i < length (g_nodes s)" "stopped_at i s s'"
  shows "mgr_inv s'"
proof -
  obtain st where st: "g_nodes s' = (g_nodes s)[i := (g_nodes s ! i)\<lparr>mn_pid := -1, mn_state := MGR_NODE_STOPPED, mn_exit_status := st\<rparr>]"
    using assms(3) by (auto simp: stopped_at_def)
  show ?thesis using pids_ok_update[OF assms(1)[unfolded mgr_inv_def] assms(2), of "(g_nodes s ! i)\<lparr>mn_pid := -1, mn_state := MGR_NODE_STOPPED, mn_exit_status := st\<rparr>"] st assms(3)
    by (simp add: mgr_inv_def stopped_at_def)
qed

lemma stop_node_spec:
  assumes "mgr_inv s" "find_node name s = Some i"
  shows "if mn_state (g_nodes (refresh_node i s) ! i) = MGR_NODE_RUNNING
    then stopped_at i (refresh_node i s) (stop_node name s) \<or> same_nodes (refresh_node i s) (stop_node name s)
    else same_nodes (refresh_node i s) (stop_node name s)"
proof -
  let ?s1 = "refresh_node i s"
  note r = refresh_found[OF assms]
  let ?pid = "mn_pid (g_nodes ?s1 ! i)"
  have run: "mn_state (g_nodes ?s1 ! i) = MGR_NODE_RUNNING \<longleftrightarrow> 0 < ?pid" using pids_ok_state r(1,2) by (simp add: mgr_inv_def)
  obtain ok s2 where k1: "sys_kill ?pid ?s1 = (ok, s2)" by (cases "sys_kill ?pid ?s1")
  obtain ok' s3 where w: "wait_loop i 30 ?pid s2 = (ok', s3)" by (cases "wait_loop i 30 ?pid s2")
  obtain ok'' s4 where k2: "sys_kill ?pid s3 = (ok'', s4)" by (cases "sys_kill ?pid s3")
  obtain st s5 where f5: "waitpid_killed ?pid s4 = (st, s5)" by (cases "waitpid_killed ?pid s4")
  have s2: "same_nodes ?s1 s2" using sys_kill_frame[of ?pid ?s1] k1 by (simp add: same_nodes_def)
  have s4: "same_nodes s3 s4" using sys_kill_frame[of ?pid s3] k2 by (simp add: same_nodes_def)
  have s5: "g_nodes s5 = g_nodes s4" "dom (os_procs s5) = dom (os_procs s4) - {?pid}" "os_spawned s5 = os_spawned s4" "mgr_keep_running s5 = mgr_keep_running s4"
    using waitpid_killed_frame[of ?pid s4] f5 by simp_all
  show ?thesis
  proof (cases "0 < ?pid")
    case False
    then show ?thesis using assms(2) run by (simp add: stop_node_def same_nodes_def Let_def)
  next
    case p: True
    have w': "if ok' then stopped_at i s2 s3 else same_nodes s2 s3" using wait_loop_spec[OF p _ w] s2 by (simp add: same_nodes_def)
    have e: "stop_node name s = (if \<not> ok then mgr_print (StopFailed (md_name (mn_def (g_nodes ?s1 ! i)))) s2 else if ok' then s3 else if \<not> ok'' then s4
        else mgr_print (Killed (md_name (mn_def (g_nodes ?s1 ! i)))) (set_stopped i st s5))"
      using assms(2) run p k1 w k2 f5 by (simp add: stop_node_def Let_def split: bool.split)
    have killed: "stopped_at i ?s1 (mgr_print m (set_stopped i st s5))" if "same_nodes s2 s3" for m
      using same_nodes_trans[OF same_nodes_trans[OF s2 that] s4] s5 by (intro stopped_atI[where st = st]) (simp_all add: same_nodes_def)
    have "same_nodes ?s1 (mgr_print m s2)" for m using s2 by (simp add: same_nodes_def)
    then show ?thesis using run p w' same_then_stopped[OF s2] same_nodes_trans[OF s2] same_nodes_trans[OF _ s4] killed unfolding e by (simp split: if_splits)
  qed
qed

section \<open>Commands\<close>

lemma same_nodes_inv: "mgr_inv s \<Longrightarrow> same_nodes s s' \<Longrightarrow> mgr_inv s'"
  by (simp add: same_nodes_def mgr_inv_def)

lemma start_node_inv: "mgr_inv s \<Longrightarrow> mgr_inv (start_node executable name s)"
proof (cases "find_node name s")
  case None
  then show "mgr_inv s \<Longrightarrow> ?thesis" by (simp add: start_node_def)
next
  case (Some i)
  assume inv: "mgr_inv s"
  let ?b = "md_binary (mn_def (g_nodes s ! i))"
  show ?thesis
  proof (cases "mn_state (g_nodes (refresh_node i s) ! i) \<noteq> MGR_NODE_RUNNING \<and> executable ?b \<and> fst (sys_fork name ?b (refresh_node i s)) \<noteq> None")
    case True
    then show ?thesis using start_node_done(1)[where executable = executable, OF inv Some] by blast
  next
    case False
    then have "mn_state (g_nodes (refresh_node i s) ! i) = MGR_NODE_RUNNING \<or> \<not> executable ?b \<or> fst (sys_fork name ?b (refresh_node i s)) = None" by argo
    note n = start_node_refused(1,2)[where executable = executable, OF inv Some this]
    show ?thesis using mgr_inv_cong[OF n] refresh_found(1)[OF inv Some] by simp
  qed
qed

lemma stop_node_inv: "mgr_inv s \<Longrightarrow> mgr_inv (stop_node name s)"
proof (cases "find_node name s")
  case (Some i)
  assume inv: "mgr_inv s"
  note r = refresh_found[OF inv Some]
  have "stopped_at i (refresh_node i s) (stop_node name s) \<or> same_nodes (refresh_node i s) (stop_node name s)"
    using stop_node_spec[OF inv Some] by argo
  then show ?thesis using stopped_at_inv[OF r(1,2)] same_nodes_inv[OF r(1)] by blast
qed (simp add: stop_node_def)

lemma restart_node_inv: "mgr_inv s \<Longrightarrow> mgr_inv (restart_node executable name s)"
  by (simp add: restart_node_def start_node_inv stop_node_inv split: option.split)

lemma show_node_same: "same_nodes s (show_node i s)"
  by (simp add: show_node_def same_nodes_def Let_def case_prod_beta)

lemma show_nodes_inv: "mgr_inv s \<Longrightarrow> mgr_inv (show_nodes s)"
proof -
  assume "mgr_inv s"
  then have r: "mgr_inv (refresh_nodes s)" by (rule refresh_nodes_spec(1))
  have "same_nodes t (fold show_node is t)" for "is" t
  proof (induction "is" arbitrary: t)
    case (Cons i js)
    show ?case using same_nodes_trans[OF show_node_same Cons] by simp
  qed (simp add: same_nodes_def)
  then show ?thesis using same_nodes_inv[OF r] by (simp add: show_nodes_def Let_def)
qed

lemma handle_command_inv: "mgr_inv s \<Longrightarrow> mgr_inv (handle_command executable line s)"
  using refresh_nodes_spec(1)[of s]
  by (simp add: handle_command_def Let_def show_nodes_inv start_node_inv stop_node_inv restart_node_inv print_help_def) (simp add: mgr_inv_def)

lemma mgr_signal_inv [simp]: "mgr_inv (mgr_signal_handler s) = mgr_inv s"
  by (simp add: mgr_inv_def mgr_signal_handler_def)

lemma mgr_fgets_inv: "mgr_inv (snd (mgr_fgets inp s)) = mgr_inv s"
  by (induction inp s rule: mgr_fgets.induct) simp_all

lemma mgr_loop_inv: "mgr_inv s \<Longrightarrow> mgr_inv (mgr_loop executable inp s)"
proof (induction executable inp s rule: mgr_loop.induct)
  case (1 executable inp s)
  obtain r s1 where r: "mgr_fgets inp s = (r, s1)" by fastforce
  have "mgr_inv s1" using mgr_fgets_inv[of inp s] r 1(3) by simp
  then show ?case using 1 r handle_command_inv by (subst mgr_loop.simps) (auto split: option.split)
qed

text \<open>No command but the two for leaving changes the flag of the command loop, and none sets it.\<close>

lemma keep_running_calls [simp]:
  "mgr_keep_running (snd (snd (waitpid_nohang pid s))) = mgr_keep_running s" "mgr_keep_running (set_stopped i st s) = mgr_keep_running s"
  by (simp_all add: waitpid_nohang_def set_stopped_def Let_def split: option.split proc.split)

lemma keep_running_refresh [simp]: "mgr_keep_running (refresh_node i s) = mgr_keep_running s"
  by (simp add: refresh_node_def Let_def case_prod_beta)

lemma keep_running_fold: "(\<And>i s. mgr_keep_running (f i s) = mgr_keep_running s) \<Longrightarrow> mgr_keep_running (fold f xs s) = mgr_keep_running s"
  by (induction xs arbitrary: s) simp_all

lemma keep_running_wait [simp]: "mgr_keep_running (snd (wait_loop i k pid s)) = mgr_keep_running s"
  by (induction k arbitrary: s) (simp_all add: Let_def case_prod_beta)

lemma keep_running_ops [simp]:
  "mgr_keep_running (refresh_nodes s) = mgr_keep_running s" "mgr_keep_running (show_nodes s) = mgr_keep_running s"
  "mgr_keep_running (start_node executable name s) = mgr_keep_running s" "mgr_keep_running (stop_node name s) = mgr_keep_running s"
  by (simp_all add: refresh_nodes_def show_nodes_def show_node_def start_node_def stop_node_def Let_def case_prod_beta keep_running_fold split: option.split bool.split)

lemma handle_command_keep: "mgr_keep_running (handle_command executable line s) \<Longrightarrow> mgr_keep_running s"
  by (simp add: handle_command_def restart_node_def print_help_def Let_def split: if_splits option.splits)

lemma mgr_loop_ended: "\<not> mgr_keep_running s \<Longrightarrow> mgr_loop executable inp s = s"
proof (induction executable inp s rule: mgr_loop.induct)
  case (1 executable inp s)
  moreover from this have "mgr_signal_handler s = s" by (simp add: mgr_signal_handler_def)
  ultimately show ?case by (subst mgr_loop.simps) simp
qed

text \<open>A signal that arrives while the manager waits for a line does not end the wait: the manager leaves after it has carried out one more
  command, whatever that is.\<close>

lemma mgr_signal_waits:
  assumes "mgr_keep_running s"
  shows "mgr_loop executable [Signal_reading] s = mgr_signal_handler s"
    "mgr_loop executable (Signal_reading # Typed line # rest) s = handle_command executable line (mgr_signal_handler s)"
    "mgr_loop executable (Signal_working # rest) s = mgr_signal_handler s"
proof -
  have stop: "\<not> mgr_keep_running (mgr_signal_handler s)" by (simp add: mgr_signal_handler_def)
  show "mgr_loop executable [Signal_reading] s = mgr_signal_handler s" using assms by (subst mgr_loop.simps) simp
  have "\<not> mgr_keep_running (handle_command executable line (mgr_signal_handler s))" using handle_command_keep stop by blast
  then show "mgr_loop executable (Signal_reading # Typed line # rest) s = handle_command executable line (mgr_signal_handler s)"
    using assms by (subst mgr_loop.simps) (simp add: mgr_loop_ended)
  show "mgr_loop executable (Signal_working # rest) s = mgr_signal_handler s" using stop by (subst mgr_loop.simps) (simp add: mgr_loop_ended)
qed

lemma mgr_init_inv: "g_nodes s = [] \<Longrightarrow> os_procs s = Map.empty \<Longrightarrow> mgr_inv (mgr_init_nodes defs s)"
  by (auto simp: mgr_inv_def mgr_init_nodes_def pids_ok_def)

section \<open>Properties\<close>

definition mgr_boot :: mgr_state where
  "mgr_boot = \<lparr>g_nodes = [], mgr_keep_running = True, mgr_out = [], os_procs = Map.empty, os_script = [], os_spawned = []\<rparr>"

text \<open>C14.  In every run of the manager, whatever the commands and whenever its children end: each child that was started and not yet
  fetched belongs to exactly one node, a node is marked running exactly when it has such a child, and so no process
  is lost and none is started twice for a node.\<close>

theorem mgr_children_tracked:
  "let t = mgr_main executable defs inp (mgr_boot\<lparr>os_script := script\<rparr>) in
    (\<forall>n \<in> set (g_nodes t). mn_state n = MGR_NODE_RUNNING \<longleftrightarrow> mn_pid n \<in> dom (os_procs t))
    \<and> (\<forall>pid \<in> dom (os_procs t). \<exists>!i. i < length (g_nodes t) \<and> mn_pid (g_nodes t ! i) = pid)"
proof -
  define t where "t = mgr_main executable defs inp (mgr_boot\<lparr>os_script := script\<rparr>)"
  have "mgr_inv t" unfolding t_def mgr_main_def by (intro refresh_nodes_spec(1) mgr_loop_inv mgr_init_inv) (simp_all add: mgr_boot_def)
  then have ok: "pids_ok (g_nodes t) (dom (os_procs t))" by (simp add: mgr_inv_def)
  have "mn_state n = MGR_NODE_RUNNING \<longleftrightarrow> mn_pid n \<in> dom (os_procs t)" if "n \<in> set (g_nodes t)" for n
    using ok that unfolding pids_ok_def by (metis IntD2 IntI greaterThan_iff imageI)
  moreover have "\<exists>!i. i < length (g_nodes t) \<and> mn_pid (g_nodes t ! i) = pid" if "pid \<in> dom (os_procs t)" for pid
  proof -
    have "0 < pid" "pid \<in> mn_pid ` set (g_nodes t)" using ok that unfolding pids_ok_def by auto
    then obtain i where i: "i < length (g_nodes t)" "mn_pid (g_nodes t ! i) = pid" "0 < pid" by (auto simp: in_set_conv_nth)
    moreover have "j = i" if "j < length (g_nodes t)" "mn_pid (g_nodes t ! j) = pid" for j using ok i that unfolding pids_ok_def by metis
    ultimately show ?thesis by metis
  qed
  ultimately show ?thesis unfolding t_def[symmetric] Let_def by blast
qed

theorem mgr_children_tracked_witness:
  "let t = mgr_main (\<lambda>_. True) [\<lparr>md_name = ''n1'', md_binary = ''./n1'', md_uds_path = ''u''\<rparr>] [Typed ''start n1'']
      (mgr_boot\<lparr>os_script := [quiet\<lparr>step_fork := Some 7\<rparr>, quiet]\<rparr>) in
    os_procs t 7 = Some Alive \<and> (\<exists>!i. i < length (g_nodes t) \<and> mn_pid (g_nodes t ! i) = 7)"
proof -
  let ?t = "mgr_main (\<lambda>_. True) [\<lparr>md_name = ''n1'', md_binary = ''./n1'', md_uds_path = ''u''\<rparr>] [Typed ''start n1''] (mgr_boot\<lparr>os_script := [quiet\<lparr>step_fork := Some 7\<rparr>, quiet]\<rparr>)"
  have "os_procs ?t 7 = Some Alive" by code_simp
  moreover from this have "7 \<in> dom (os_procs ?t)" by blast
  ultimately show ?thesis using mgr_children_tracked[of "\<lambda>_. True" "[\<lparr>md_name = ''n1'', md_binary = ''./n1'', md_uds_path = ''u''\<rparr>]" "[Typed ''start n1'']" "[quiet\<lparr>step_fork := Some 7\<rparr>, quiet]"]
    unfolding Let_def by blast
qed

text \<open>When signals can be sent, a stop always ends the child.\<close>

definition kills_ok :: "mgr_state \<Rightarrow> bool" where
  "kills_ok s \<longleftrightarrow> (\<forall>r \<in> set (os_script s). step_kill_ok r)"

lemma kills_ok_tick: "kills_ok s \<Longrightarrow> kills_ok (snd (sys_tick s)) \<and> step_kill_ok (fst (sys_tick s))"
  by (auto simp: kills_ok_def sys_tick_def quiet_def split: list.splits)

lemma kills_ok_waitpid: "kills_ok s \<Longrightarrow> kills_ok (snd (snd (waitpid_nohang pid s)))"
  using kills_ok_tick[of s] by (auto simp: waitpid_nohang_def Let_def kills_ok_def split: option.split proc.split)

lemma kills_ok_frame [simp]: "kills_ok (mgr_print m s) = kills_ok s" "kills_ok (upd_node i f s) = kills_ok s" "kills_ok (set_stopped i st s) = kills_ok s"
  by (simp_all add: kills_ok_def mgr_print_def upd_node_def set_stopped_def)

lemma kills_ok_refresh: "kills_ok s \<Longrightarrow> kills_ok (refresh_node i s)"
  using kills_ok_waitpid[of s "mn_pid (g_nodes s ! i)"] by (simp add: refresh_node_def Let_def case_prod_beta)

lemma kills_ok_wait_loop: "kills_ok s \<Longrightarrow> kills_ok (snd (wait_loop i k pid s))"
proof (induction k arbitrary: s)
  case (Suc k)
  then show ?case using kills_ok_waitpid[OF Suc.prems, of pid] by (simp add: case_prod_beta)
qed simp

lemma kills_ok_kill: "kills_ok s \<Longrightarrow> pid \<in> dom (os_procs s) \<Longrightarrow> fst (sys_kill pid s) \<and> kills_ok (snd (sys_kill pid s))"
  using kills_ok_tick[of s] tick_proc_None[of s pid] by (simp add: sys_kill_def case_prod_beta)

lemma stop_node_ends:
  assumes "mgr_inv s" "find_node name s = Some i" "kills_ok s"
  shows "mn_state (g_nodes (stop_node name s) ! i) \<noteq> MGR_NODE_RUNNING"
proof -
  let ?s1 = "refresh_node i s"
  note r = refresh_found[OF assms(1,2)]
  let ?pid = "mn_pid (g_nodes ?s1 ! i)"
  have run: "mn_state (g_nodes ?s1 ! i) = MGR_NODE_RUNNING \<longleftrightarrow> 0 < ?pid" using pids_ok_state r(1,2) by (simp add: mgr_inv_def)
  show ?thesis
  proof (cases "0 < ?pid")
    case False
    then show ?thesis using assms(2) run by (simp add: stop_node_def Let_def)
  next
    case True
    have d: "?pid \<in> dom (os_procs ?s1)" using pids_ok_dom[of "g_nodes ?s1" "dom (os_procs ?s1)" i] r(1,2) True by (simp add: mgr_inv_def)
    define s2 where "s2 = snd (sys_kill ?pid ?s1)"
    have k: "sys_kill ?pid ?s1 = (True, s2)" "kills_ok s2" using kills_ok_kill[OF kills_ok_refresh[OF assms(3)] d] by (simp_all add: s2_def prod_eq_iff)
    have s2: "g_nodes s2 = g_nodes ?s1" "dom (os_procs s2) = dom (os_procs ?s1)" by (simp_all add: s2_def)
    obtain ok s3 where w: "wait_loop i 30 ?pid s2 = (ok, s3)" by (cases "wait_loop i 30 ?pid s2")
    have w': "if ok then stopped_at i s2 s3 else same_nodes s2 s3" using wait_loop_spec[OF True _ w] s2 by simp
    show ?thesis
    proof (cases ok)
      case True
      then show ?thesis using assms(2) run \<open>0 < ?pid\<close> k w w' s2 r(2) by (auto simp: stop_node_def Let_def stopped_at_def)
    next
      case False
      then have s3: "same_nodes s2 s3" "kills_ok s3" using w' kills_ok_wait_loop[OF k(2), of i 30 ?pid] w by simp_all
      define s4 where "s4 = snd (sys_kill ?pid s3)"
      have "sys_kill ?pid s3 = (True, s4)" using kills_ok_kill[OF s3(2), of ?pid] s3(1) s2 d by (simp add: same_nodes_def s4_def prod_eq_iff)
      moreover have "g_nodes s4 = g_nodes ?s1" using s3(1) s2 by (simp add: same_nodes_def s4_def)
      ultimately show ?thesis using assms(2) run True k w False r(2) by (simp add: stop_node_def Let_def case_prod_beta)
    qed
  qed
qed

lemma find_node_cong: "map mn_def (g_nodes s') = map mn_def (g_nodes s) \<Longrightarrow> find_node name s' = find_node name s"
proof -
  assume m: "map mn_def (g_nodes s') = map mn_def (g_nodes s)"
  then have l: "length (g_nodes s') = length (g_nodes s)" by (metis length_map)
  have "find_idx (\<lambda>n. md_name (mn_def n) = name) (g_nodes s') (length (g_nodes s)) = find_idx (\<lambda>n. md_name (mn_def n) = name) (g_nodes s) (length (g_nodes s))"
    using map_def_nth[OF m] by (intro find_idx_cong) simp
  then show ?thesis using l by (simp add: find_node_def)
qed

lemma stop_node_frame:
  assumes "mgr_inv s" "find_node name s = Some i"
  shows "map mn_def (g_nodes (stop_node name s)) = map mn_def (g_nodes s)" "os_spawned (stop_node name s) = os_spawned s"
    "j \<noteq> i \<Longrightarrow> g_nodes (stop_node name s) ! j = g_nodes s ! j"
proof -
  note r = refresh_found[OF assms] 
  note f = refresh_node_spec[OF assms(1) r(3)]
  consider "stopped_at i (refresh_node i s) (stop_node name s)" | "same_nodes (refresh_node i s) (stop_node name s)" using stop_node_spec[OF assms] by argo
  then have "map mn_def (g_nodes (stop_node name s)) = map mn_def (g_nodes (refresh_node i s)) \<and> os_spawned (stop_node name s) = os_spawned s
      \<and> (j \<noteq> i \<longrightarrow> g_nodes (stop_node name s) ! j = g_nodes (refresh_node i s) ! j)"
    by cases (use r(2) f(4) in \<open>auto simp: stopped_at_def same_nodes_def map_update list_update_same_conv\<close>)
  then show "map mn_def (g_nodes (stop_node name s)) = map mn_def (g_nodes s)" "os_spawned (stop_node name s) = os_spawned s"
    "j \<noteq> i \<Longrightarrow> g_nodes (stop_node name s) ! j = g_nodes s ! j" using f(3) f(6)[of j] by simp_all
qed

text \<open>C22.  A restart, when signals can be sent: the old process is ended and fetched before a new one is started, at most one new process is
  started and then the node runs with it, the start is refused only with the message that the binary is not executable or that
  \<^verbatim>\<open>fork\<close> failed, and no other node is touched.\<close>

theorem mgr_restart_correct:
  assumes "mgr_inv s" "find_node name s = Some i" "kills_ok s" and t: "t = restart_node executable name s"
  shows "((\<exists>pid. os_spawned t = os_spawned s @ [(pid, name, md_binary (mn_def (g_nodes s ! i)))] \<and> mn_state (g_nodes t ! i) = MGR_NODE_RUNNING \<and> mn_pid (g_nodes t ! i) = pid
        \<and> (mn_pid (g_nodes s ! i) > 0 \<longrightarrow> mn_pid (g_nodes s ! i) = pid \<or> mn_pid (g_nodes s ! i) \<notin> dom (os_procs t)))
      \<or> (os_spawned t = os_spawned s \<and> mn_state (g_nodes t ! i) \<noteq> MGR_NODE_RUNNING \<and> (mn_pid (g_nodes s ! i) > 0 \<longrightarrow> mn_pid (g_nodes s ! i) \<notin> dom (os_procs t))
        \<and> last (mgr_out t) \<in> {NotExecutable (md_binary (mn_def (g_nodes s ! i))), StartFailed name}))
    \<and> (\<forall>j. j \<noteq> i \<longrightarrow> g_nodes t ! j = g_nodes s ! j)"
proof -
  let ?b = "md_binary (mn_def (g_nodes s ! i))" and ?old = "mn_pid (g_nodes s ! i)"
  define u where "u = (if mn_state (g_nodes s ! i) = MGR_NODE_RUNNING then stop_node name s else s)"
  have i: "i < length (g_nodes s)" "md_name (mn_def (g_nodes s ! i)) = name" using find_node_SomeD[OF assms(2)] by blast+
  have u: "mgr_inv u" "map mn_def (g_nodes u) = map mn_def (g_nodes s)" "os_spawned u = os_spawned s" "mn_state (g_nodes u ! i) \<noteq> MGR_NODE_RUNNING"
      "\<And>j. j \<noteq> i \<Longrightarrow> g_nodes u ! j = g_nodes s ! j"
    using stop_node_inv[OF assms(1)] stop_node_frame[OF assms(1,2)] stop_node_ends[OF assms(1-3)] assms(1) by (simp_all add: u_def)
  have fu: "find_node name u = Some i" "mn_def (g_nodes u ! i) = mn_def (g_nodes s ! i)" "i < length (g_nodes u)" "length (g_nodes u) = length (g_nodes s)"
    using find_node_cong[OF u(2)] assms(2) map_def_nth[OF u(2) i(1)] arg_cong[OF u(2), of length] i by simp_all
  have ru: "refresh_node i u = u" using refresh_node_spec(8)[OF u(1) fu(3) u(4)] .
  have tu: "t = start_node executable name u" using t assms(2) by (simp add: restart_node_def u_def)
  have gone: "?old \<notin> dom (os_procs u)" if "?old > 0"
  proof
    assume "?old \<in> dom (os_procs u)"
    then obtain j where j: "j < length (g_nodes u)" "mn_pid (g_nodes u ! j) = ?old" using u(1) by (auto simp: mgr_inv_def pids_ok_def in_set_conv_nth)
    moreover have "\<not> 0 < mn_pid (g_nodes u ! i)" using pids_ok_state[of "g_nodes u" "dom (os_procs u)" i] u(1,4) fu(3) by (simp add: mgr_inv_def)
    ultimately have ji: "j \<noteq> i" using that by auto
    then have "mn_pid (g_nodes s ! j) = ?old" "j < length (g_nodes s)" using j u(5)[OF ji] fu(4) by simp_all
    with ji show False using assms(1) that i(1) by (auto simp: mgr_inv_def pids_ok_def)
  qed
  show ?thesis
  proof (cases "executable ?b \<and> fst (sys_fork name ?b u) \<noteq> None")
    case True
    then obtain pid where p: "fst (sys_fork name ?b u) = Some pid" by blast
    note d = start_node_done[of u name i executable pid, unfolded ru fu(2), OF u(1) fu(1) u(4) _ p]
    have "dom (os_procs t) \<subseteq> insert pid (dom (os_procs u))"
      using sys_fork_done(3)[OF p] fu True u(4) p i(2) by (auto simp: tu start_node_def ru Let_def case_prod_beta split: option.split)
    then show ?thesis using d True gone u(3,5) fu(3) unfolding tu by auto
  next
    case False
    then have "mn_state (g_nodes (refresh_node i u) ! i) = MGR_NODE_RUNNING \<or> \<not> executable (md_binary (mn_def (g_nodes u ! i))) \<or> fst (sys_fork name (md_binary (mn_def (g_nodes u ! i))) (refresh_node i u)) = None"
      unfolding ru fu(2) by argo
    note n = start_node_refused[where executable = executable, OF u(1) fu(1) this, unfolded ru, folded tu]
    have "last (mgr_out t) \<in> {NotExecutable ?b, StartFailed name}" using False fu u(4) i(2) by (auto simp: tu start_node_def ru Let_def case_prod_beta mgr_print_def split: option.split)
    then show ?thesis using n u(3-5) gone by auto
  qed
qed

definition mgr_demo :: mgr_state where
  "mgr_demo = mgr_boot\<lparr>g_nodes := [\<lparr>mn_def = \<lparr>md_name = ''n1'', md_binary = ''./n1'', md_uds_path = ''u''\<rparr>, mn_pid = 5, mn_state = MGR_NODE_RUNNING, mn_started_at = 1, mn_exit_status = 0\<rparr>],
    os_procs := [5 \<mapsto> Alive], os_script := replicate 33 quiet @ [quiet\<lparr>step_fork := Some 6\<rparr>]\<rparr>"

theorem mgr_restart_correct_witness:
  "mn_pid (g_nodes mgr_demo ! 0) \<notin> dom (os_procs (restart_node (\<lambda>_. True) ''n1'' mgr_demo)) \<and> os_spawned (restart_node (\<lambda>_. True) ''n1'' mgr_demo) = [(6, ''n1'', ''./n1'')]"
proof -
  have inv: "mgr_inv mgr_demo" by (simp add: mgr_inv_def pids_ok_def mgr_demo_def)
  have f: "find_node ''n1'' mgr_demo = Some 0" by (simp add: find_node_def find_idx_def mgr_demo_def)
  have k: "kills_ok mgr_demo" by (simp add: kills_ok_def mgr_demo_def quiet_def)
  have sp: "os_spawned (restart_node (\<lambda>_. True) ''n1'' mgr_demo) = [(6, ''n1'', ''./n1'')]" by code_simp
  have "os_spawned mgr_demo = []" "mn_pid (g_nodes mgr_demo ! 0) = 5" "md_binary (mn_def (g_nodes mgr_demo ! 0)) = ''./n1''" by (simp_all add: mgr_demo_def mgr_boot_def)
  then show ?thesis using mgr_restart_correct[OF inv f k refl, of "\<lambda>_. True"] sp by auto
qed

lemma trim_padded:
  assumes "w \<noteq> []" "hd w \<notin> {CHR '' '', CHR 0x09}" "last w \<notin> {CHR 0x0A, CHR 0x0D, CHR '' '', CHR 0x09}"
    and "set pre \<subseteq> {CHR '' '', CHR 0x09}" "set post \<subseteq> {CHR 0x0A, CHR 0x0D, CHR '' '', CHR 0x09}"
  shows "trim (pre @ w @ post) = w"
proof -
  have "trim_front (pre @ w @ post) = w @ post"
    using assms(1,2) dropWhile_append2[of pre "\<lambda>c. c = CHR '' '' \<or> c = CHR 0x09"] subsetD[OF assms(4)] by (cases w) (auto simp: trim_front_def)
  moreover have "trim_back (w @ post) = w"
    using assms(1,3) dropWhile_append2[of "rev post" "\<lambda>c. c = CHR 0x0A \<or> c = CHR 0x0D \<or> c = CHR '' '' \<or> c = CHR 0x09"] subsetD[OF assms(5)]
    by (cases w rule: rev_cases) (auto simp: trim_back_def)
  ultimately show ?thesis by (simp add: trim_def)
qed

text \<open>Reading a command: however it is padded with blanks, tabs and line ends, a start, stop or restart with a name that has no
  blanks at its ends is carried out on exactly that name.\<close>

theorem handle_command_padded:
  assumes "name \<noteq> []" "hd name \<notin> {CHR '' '', CHR 0x09}" "last name \<notin> {CHR 0x0A, CHR 0x0D, CHR '' '', CHR 0x09}"
    and "set pre \<subseteq> {CHR '' '', CHR 0x09}" "set mid \<subseteq> {CHR '' '', CHR 0x09}" "set post \<subseteq> {CHR 0x0A, CHR 0x0D, CHR '' '', CHR 0x09}"
  shows "handle_command executable (pre @ ''start '' @ mid @ name @ post) s = start_node executable name (refresh_nodes s)
    \<and> handle_command executable (pre @ ''stop '' @ mid @ name @ post) s = stop_node name (refresh_nodes s)
    \<and> handle_command executable (pre @ ''restart '' @ mid @ name @ post) s = restart_node executable name (refresh_nodes s)"
proof -
  have m: "trim (mid @ name) = name" using trim_padded[OF assms(1-3,5), of "[]"] by simp
  have c: "trim (pre @ (w @ mid @ name) @ post) = w @ mid @ name" if "w \<noteq> []" "hd w \<notin> {CHR '' '', CHR 0x09}" for w
    using that assms by (intro trim_padded) simp_all
  show ?thesis using c[of "''start ''"] c[of "''stop ''"] c[of "''restart ''"] m by (simp add: handle_command_def strncmp_eq_def Let_def)
qed

theorem handle_command_padded_witness:
  "handle_command (\<lambda>_. True) '' start   n1  '' mgr_boot = start_node (\<lambda>_. True) ''n1'' (refresh_nodes mgr_boot)"
  using handle_command_padded[of "''n1''" "'' ''" "''  ''" "''  ''" "\<lambda>_. True" mgr_boot] by simp

end
