(* ===== verification/Nos_Pool.thy ===== *)
theory Nos_Pool
  imports Nos_Types
begin

text \<open>
  The interface of a pool of indices.  The buffer bins (\<^verbatim>\<open>nos_buffer.c\<close>) and the key-value
  tables (\<^verbatim>\<open>nos_kv.c\<close>) hand out slots of a fixed array from a stack of free indices.  The
  locale \<open>index_pool\<close> states what both promise, and derives once what their clients rely on:
  an index that is held is never handed out again, and no index is ever lost.
\<close>

datatype pool_op = Lease | Return nat

locale index_pool =
  fixes n :: nat
    and inv :: "'s \<Rightarrow> bool"
    and avail :: "'s \<Rightarrow> nat list"
    and pop :: "'s \<Rightarrow> (nat \<times> 's) option"
    and push :: "nat \<Rightarrow> 's \<Rightarrow> 's"
  assumes avail_ok: "inv s \<Longrightarrow> distinct (avail s) \<and> set (avail s) \<subseteq> {..<n}"
    and pop_empty: "inv s \<Longrightarrow> avail s = [] \<Longrightarrow> pop s = None"
    and pop_some: "inv s \<Longrightarrow> avail s \<noteq> [] \<Longrightarrow>
      \<exists>i s'. pop s = Some (i, s') \<and> inv s' \<and> avail s = avail s' @ [i]"
    and push_ok: "inv s \<Longrightarrow> i < n \<Longrightarrow> i \<notin> set (avail s) \<Longrightarrow>
      inv (push i s) \<and> avail (push i s) = avail s @ [i]"
begin

text \<open>A client run: \<open>held\<close> are the indices leased and not yet returned, most recent first.
  Returning an index that is not held is outside the contract and skipped.\<close>

fun lease_run :: "pool_op list \<Rightarrow> nat list \<times> 's \<Rightarrow> nat list \<times> 's" where
  "lease_run [] c = c"
| "lease_run (Lease # ops) (held, s) =
    (case pop s of None \<Rightarrow> lease_run ops (held, s) | Some (i, s') \<Rightarrow> lease_run ops (i # held, s'))"
| "lease_run (Return i # ops) (held, s) =
    (if i \<in> set held then lease_run ops (remove1 i held, push i s) else lease_run ops (held, s))"

definition partitioned :: "nat list \<times> 's \<Rightarrow> bool" where
  "partitioned c \<longleftrightarrow> inv (snd c) \<and> distinct (fst c @ avail (snd c)) \<and> set (fst c @ avail (snd c)) = {..<n}"

lemma partitioned_lease:
  assumes "partitioned (held, s)" "pop s = Some (i, s')"
  shows "partitioned (i # held, s')" "i \<notin> set held"
proof -
  have "avail s \<noteq> []" using assms pop_empty by (auto simp: partitioned_def)
  then have "inv s' \<and> avail s = avail s' @ [i]"
    using assms pop_some[of s] by (auto simp: partitioned_def)
  then show "partitioned (i # held, s')" "i \<notin> set held"
    using assms(1) by (auto simp: partitioned_def)
qed

lemma partitioned_return:
  assumes "partitioned (held, s)" "i \<in> set held"
  shows "partitioned (remove1 i held, push i s)"
proof -
  have p: "inv s" "distinct held" "i < n" "i \<notin> set (avail s)" "set held \<inter> set (avail s) = {}"
    "set held \<union> set (avail s) = {..<n}"
    using assms by (auto simp: partitioned_def)
  then have "inv (push i s) \<and> avail (push i s) = avail s @ [i]" by (intro push_ok)
  moreover have "distinct (avail s)" using p avail_ok by blast
  ultimately show ?thesis
    using p assms(2) by (auto simp: partitioned_def set_remove1_eq)
qed

lemma lease_run_partitioned: "partitioned c \<Longrightarrow> partitioned (lease_run ops c)"
proof (induction ops c rule: lease_run.induct)
  case (2 ops held s)
  then show ?case
    by (cases "pop s") (auto simp: partitioned_lease)
next
  case (3 i ops held s)
  then show ?case by (simp add: partitioned_return)
qed simp

end

end
