(* ===== verification/Nos_Message.thy ===== *)
theory Nos_Message
  imports Nos_Types
begin

text \<open>
  The message envelope \<^verbatim>\<open>nos_service_msg_t\<close> of \<^verbatim>\<open>include/nos_service.h\<close> as it lies
  in memory.  The envelope is 32 bytes: two 16-bit fields followed by seven 32-bit fields, in
  little-endian order with no padding (the scheduler's inline assembly fixes the target to x86).
  The program reads and writes it through a cast of \<^verbatim>\<open>buf->data\<close>, so the model decodes it
  from and encodes it into the bytes of the buffer.  A read beyond the bytes of the region gives
  zero and a write beyond them is dropped; the theorems about messages keep the envelope
  inside the region.
\<close>

definition NOS_IPC_MAGIC :: u16 where "NOS_IPC_MAGIC = 0x4E4F"
definition NOS_IPC_VERSION :: u16 where "NOS_IPC_VERSION = 1"
definition NOS_MSG_F_NEED_REPLY :: u32 where "NOS_MSG_F_NEED_REPLY = 1"
definition NOS_MSG_F_REPLY :: u32 where "NOS_MSG_F_REPLY = 2"
definition NOS_MSG_F_IPC_CTRL :: u32 where "NOS_MSG_F_IPC_CTRL = 0x80000000"

lemmas msg_consts = NOS_IPC_MAGIC_def NOS_IPC_VERSION_def NOS_MSG_F_NEED_REPLY_def
  NOS_MSG_F_REPLY_def NOS_MSG_F_IPC_CTRL_def

record nos_service_msg_t =
  magic :: u16
  version :: u16
  dst_service :: u32
  src_component :: u32
  dst_component :: u32
  msg_code :: u32
  seq :: u32
  flags :: u32
  payload_len :: u32

definition sizeof_msg :: nat where
  "sizeof_msg = 32"

section \<open>Bytes in memory\<close>

definition get_byte :: "u8 list \<Rightarrow> nat \<Rightarrow> u8" where
  "get_byte bs i = (if i < length bs then bs ! i else 0)"

definition write_bytes :: "u8 list \<Rightarrow> nat \<Rightarrow> u8 list \<Rightarrow> u8 list" where
  "write_bytes bs off vs =
    map (\<lambda>i. if off \<le> i \<and> i < off + length vs then vs ! (i - off) else bs ! i) [0..<length bs]"

lemma length_write_bytes [simp]: "length (write_bytes bs off vs) = length bs"
  by (simp add: write_bytes_def)

lemma get_byte_write_bytes:
  "get_byte (write_bytes bs off vs) i =
    (if i < length bs \<and> off \<le> i \<and> i < off + length vs then vs ! (i - off) else get_byte bs i)"
  by (auto simp: get_byte_def write_bytes_def)

lemma get_byte_ext:
  "length as = length bs \<Longrightarrow> (\<And>i. i < length bs \<Longrightarrow> get_byte as i = get_byte bs i) \<Longrightarrow> as = bs"
  by (auto simp: get_byte_def intro: nth_equalityI)

text \<open>Little-endian integers.\<close>

definition get_u16 :: "u8 list \<Rightarrow> nat \<Rightarrow> u16" where
  "get_u16 bs i = ucast (get_byte bs i) OR push_bit 8 (ucast (get_byte bs (i + 1)))"

definition get_u32 :: "u8 list \<Rightarrow> nat \<Rightarrow> u32" where
  "get_u32 bs i = ucast (get_byte bs i) OR push_bit 8 (ucast (get_byte bs (i + 1)))
     OR push_bit 16 (ucast (get_byte bs (i + 2))) OR push_bit 24 (ucast (get_byte bs (i + 3)))"

definition bytes_u16 :: "u16 \<Rightarrow> u8 list" where
  "bytes_u16 w = [ucast w, ucast (drop_bit 8 w)]"

definition bytes_u32 :: "u32 \<Rightarrow> u8 list" where
  "bytes_u32 w = [ucast w, ucast (drop_bit 8 w), ucast (drop_bit 16 w), ucast (drop_bit 24 w)]"

lemma length_bytes [simp]: "length (bytes_u16 a) = 2" "length (bytes_u32 b) = 4"
  by (simp_all add: bytes_u16_def bytes_u32_def)

lemma join_u16: "(ucast (ucast w :: u8) :: u16) OR push_bit 8 (ucast (ucast (drop_bit 8 w) :: u8)) = w"
  by (rule bit_word_eqI) (auto simp: bit_simps)

lemma join_u32:
  "(ucast (ucast w :: u8) :: u32) OR push_bit 8 (ucast (ucast (drop_bit 8 w) :: u8))
     OR push_bit 16 (ucast (ucast (drop_bit 16 w) :: u8)) OR push_bit 24 (ucast (ucast (drop_bit 24 w) :: u8)) = w"
proof (rule bit_word_eqI)
  fix n assume n: "n < LENGTH(32)"
  consider "n < 8" | "8 \<le> n" "n < 16" | "16 \<le> n" "n < 24" | "24 \<le> n" by linarith
  then show "bit ((ucast (ucast w :: u8) :: u32) OR push_bit 8 (ucast (ucast (drop_bit 8 w) :: u8))
     OR push_bit 16 (ucast (ucast (drop_bit 16 w) :: u8)) OR push_bit 24 (ucast (ucast (drop_bit 24 w) :: u8))) n = bit w n"
    using n by cases (auto simp: bit_simps)
qed

lemma split_u16:
  fixes a b :: u8
  defines "w \<equiv> (ucast a :: u16) OR push_bit 8 (ucast b)"
  shows "ucast w = a" "ucast (drop_bit 8 w) = b"
  unfolding w_def by (rule bit_word_eqI; auto simp: bit_simps dest: bit_imp_le_length)+

lemma split_u32:
  fixes a b c d :: u8
  defines "w \<equiv> (ucast a :: u32) OR push_bit 8 (ucast b) OR push_bit 16 (ucast c) OR push_bit 24 (ucast d)"
  shows "ucast w = a" "ucast (drop_bit 8 w) = b" "ucast (drop_bit 16 w) = c" "ucast (drop_bit 24 w) = d"
  unfolding w_def by (rule bit_word_eqI; auto simp: bit_simps dest: bit_imp_le_length)+

section \<open>The envelope in memory\<close>

definition decode_msg :: "u8 list \<Rightarrow> nat \<Rightarrow> nos_service_msg_t" where
  "decode_msg bs off = \<lparr>
     magic = get_u16 bs off, version = get_u16 bs (off + 2),
     dst_service = get_u32 bs (off + 4), src_component = get_u32 bs (off + 8),
     dst_component = get_u32 bs (off + 12), msg_code = get_u32 bs (off + 16),
     seq = get_u32 bs (off + 20), flags = get_u32 bs (off + 24),
     payload_len = get_u32 bs (off + 28)\<rparr>"

definition encode_msg :: "nos_service_msg_t \<Rightarrow> u8 list" where
  "encode_msg m = bytes_u16 (magic m) @ bytes_u16 (version m) @ bytes_u32 (dst_service m)
     @ bytes_u32 (src_component m) @ bytes_u32 (dst_component m) @ bytes_u32 (msg_code m)
     @ bytes_u32 (seq m) @ bytes_u32 (flags m) @ bytes_u32 (payload_len m)"

lemma length_encode_msg [simp]: "length (encode_msg m) = sizeof_msg"
  by (simp add: encode_msg_def sizeof_msg_def)

lemma get_byte_write_inside:
  "i < length bs \<Longrightarrow> off \<le> i \<Longrightarrow> i < off + length vs \<Longrightarrow>
     get_byte (write_bytes bs off vs) i = get_byte vs (i - off)"
  by (simp add: get_byte_write_bytes) (simp add: get_byte_def less_diff_conv2)

lemma get_u16_write:
  "i + 2 \<le> length bs \<Longrightarrow> off \<le> i \<Longrightarrow> i + 2 \<le> off + length vs \<Longrightarrow>
     get_u16 (write_bytes bs off vs) i = get_u16 vs (i - off)"
  by (simp add: get_u16_def get_byte_write_inside Suc_diff_le)

lemma get_u32_write:
  "i + 4 \<le> length bs \<Longrightarrow> off \<le> i \<Longrightarrow> i + 4 \<le> off + length vs \<Longrightarrow>
     get_u32 (write_bytes bs off vs) i = get_u32 vs (i - off)"
  by (simp add: get_u32_def get_byte_write_inside Suc_diff_le)

lemma get_encode_msg:
  "get_u16 (encode_msg m) 0 = magic m" "get_u16 (encode_msg m) 2 = version m"
  "get_u32 (encode_msg m) 4 = dst_service m" "get_u32 (encode_msg m) 8 = src_component m"
  "get_u32 (encode_msg m) 12 = dst_component m" "get_u32 (encode_msg m) 16 = msg_code m"
  "get_u32 (encode_msg m) 20 = seq m" "get_u32 (encode_msg m) 24 = flags m"
  "get_u32 (encode_msg m) 28 = payload_len m"
  by (simp_all add: get_u16_def get_u32_def get_byte_def encode_msg_def bytes_u16_def bytes_u32_def
      join_u16 join_u32)

lemma decode_write_encode:
  assumes "off + sizeof_msg \<le> length bs"
  shows "decode_msg (write_bytes bs off (encode_msg m)) off = m"
  using assms
  by (simp add: decode_msg_def get_u16_write get_u32_write get_encode_msg sizeof_msg_def)

lemma decode_msg_cong:
  assumes "\<And>i. off \<le> i \<Longrightarrow> i < off + sizeof_msg \<Longrightarrow> get_byte as i = get_byte bs i"
  shows "decode_msg as off = decode_msg bs off"
  using assms by (simp add: decode_msg_def get_u16_def get_u32_def sizeof_msg_def)

lemma decode_write_disjoint:
  assumes "off + length vs \<le> o' \<or> o' + sizeof_msg \<le> off"
  shows "decode_msg (write_bytes bs off vs) o' = decode_msg bs o'"
  using assms by (intro decode_msg_cong) (auto simp: get_byte_write_bytes)

lemma bytes_u16_nth: "bytes_u16 (get_u16 bs i) = [get_byte bs i, get_byte bs (i + 1)]"
  unfolding bytes_u16_def get_u16_def using split_u16 by simp

lemma bytes_u32_nth:
  "bytes_u32 (get_u32 bs i) = [get_byte bs i, get_byte bs (i + 1), get_byte bs (i + 2), get_byte bs (i + 3)]"
  unfolding bytes_u32_def get_u32_def using split_u32 by simp

lemma encode_decode:
  "encode_msg (decode_msg bs off) = map (\<lambda>i. get_byte bs (off + i)) [0..<sizeof_msg]"
  by (simp add: encode_msg_def decode_msg_def bytes_u16_nth bytes_u32_nth sizeof_msg_def upt_rec eval_nat_numeral)

text \<open>Writing back an unmodified envelope changes nothing: updating one field of the decoded
  record and encoding it again is the same as the C assignment to that field.\<close>

lemma write_encode_decode: "write_bytes bs off (encode_msg (decode_msg bs off)) = bs"
  by (rule get_byte_ext) (auto simp: get_byte_write_bytes encode_decode sizeof_msg_def)

end
