(* ===== verification/Nos_Buffer.thy ===== *)
theory Nos_Buffer
  imports Nos_Pool Nos_Message
begin

text \<open>
  The reference-counted buffer pool of \<^verbatim>\<open>src/core/nos_buffer.c\<close>, with the reply contexts of
  \<^verbatim>\<open>src/core/nos_scheduler.c\<close> that a buffer owns.  A bin keeps an array of buffer headers
  and a stack of free indices; a buffer pointer is the pair of its bin and its index in the bin.
  Pointers into a bin's raw memory are offsets from \<^verbatim>\<open>raw_mem\<close>, as integers; the bytes of
  chunk \<open>j\<close> are kept in the buffer itself (field \<open>chunk\<close>), and
  \<open>chunk_regions_disjoint\<close> shows under which condition the chunks really are separate regions.
  The global lock makes every operation atomic; the reference count is an unbounded integer.
  The state is an extensible record: the scheduler and the transport extend it, and the
  operations below act on every extension.
\<close>

definition MAX_BINS :: nat where "MAX_BINS = 8"
definition CACHE_LINE_SIZE :: u32 where "CACHE_LINE_SIZE = 64"

record nos_reply_ctx_t =
  rc_ref_cnt :: u32
  ipc_conn :: "nat option"
  ipc_generation :: u32
  corr_id :: u32
  requester_component :: u32

record nos_buffer_t =
  raw_data :: int
  data :: int
  capacity :: u32
  len :: u32
  headroom :: u32
  tailroom :: u32
  ref_cnt :: int
  bin_idx :: nat
  pool_idx :: nat
  reply_ctx :: "nat option"
  chunk :: "u8 list"

record nos_buffer_bin_t =
  chunk_size :: u32
  chunk_count :: u32
  buffers :: "nos_buffer_t list"
  raw_mem_size :: u32
  free_stack :: "nat list"
  free_top :: int
  used_count :: u32
  peak_count :: u32

record nos_buffer_pool_def_t =
  def_chunk_size :: u32
  def_chunk_count :: u32

record buf_state =
  g_bins :: "nos_buffer_bin_t list"
  g_reply_ctxs :: "nat \<Rightarrow> nos_reply_ctx_t option"

type_synonym bufp = "nat \<times> nat"

section \<open>Reply contexts\<close>

definition nos_reply_ctx_create ::
  "nat option \<Rightarrow> nat option \<Rightarrow> u32 \<Rightarrow> u32 \<Rightarrow> u32 \<Rightarrow> 'z buf_state_scheme \<Rightarrow> nat option \<times> 'z buf_state_scheme" where
  "nos_reply_ctx_create calloc_result conn generation corr requester s =
    (case calloc_result of
       None \<Rightarrow> (None, s)
     | Some p \<Rightarrow> (Some p, s\<lparr>g_reply_ctxs := (g_reply_ctxs s)(p \<mapsto>
         \<lparr>rc_ref_cnt = 1, ipc_conn = conn, ipc_generation = generation, corr_id = corr,
          requester_component = requester\<rparr>)\<rparr>))"

definition nos_reply_ctx_retain :: "nat option \<Rightarrow> 'z buf_state_scheme \<Rightarrow> 'z buf_state_scheme" where
  "nos_reply_ctx_retain ctx s =
    (case ctx of None \<Rightarrow> s
     | Some p \<Rightarrow> s\<lparr>g_reply_ctxs := (g_reply_ctxs s)(p :=
         map_option (rc_ref_cnt_update (\<lambda>c. c + 1)) (g_reply_ctxs s p))\<rparr>)"

definition nos_reply_ctx_release :: "nat option \<Rightarrow> 'z buf_state_scheme \<Rightarrow> 'z buf_state_scheme" where
  "nos_reply_ctx_release ctx s =
    (case ctx of None \<Rightarrow> s
     | Some p \<Rightarrow> (case g_reply_ctxs s p of
         None \<Rightarrow> s
       | Some c \<Rightarrow> s\<lparr>g_reply_ctxs := (g_reply_ctxs s)(p :=
           (if rc_ref_cnt c = 1 then None else Some (c\<lparr>rc_ref_cnt := rc_ref_cnt c - 1\<rparr>)))\<rparr>))"

section \<open>Buffers of a state\<close>

definition valid_buf :: "'z buf_state_scheme \<Rightarrow> bufp \<Rightarrow> bool" where
  "valid_buf s p \<longleftrightarrow> fst p < length (g_bins s) \<and> snd p < length (buffers (g_bins s ! fst p))"

definition get_buf :: "'z buf_state_scheme \<Rightarrow> bufp \<Rightarrow> nos_buffer_t" where
  "get_buf s p = buffers (g_bins s ! fst p) ! snd p"

definition upd_bin :: "nat \<Rightarrow> (nos_buffer_bin_t \<Rightarrow> nos_buffer_bin_t) \<Rightarrow> 'z buf_state_scheme \<Rightarrow> 'z buf_state_scheme" where
  "upd_bin i f s = s\<lparr>g_bins := (g_bins s)[i := f (g_bins s ! i)]\<rparr>"

definition upd_buf :: "bufp \<Rightarrow> (nos_buffer_t \<Rightarrow> nos_buffer_t) \<Rightarrow> 'z buf_state_scheme \<Rightarrow> 'z buf_state_scheme" where
  "upd_buf p f = upd_bin (fst p) (\<lambda>b. b\<lparr>buffers := (buffers b)[snd p := f (buffers b ! snd p)]\<rparr>)"

section \<open>Operations\<close>

definition align_chunk :: "u32 \<Rightarrow> u32" where
  "align_chunk sz = (sz + CACHE_LINE_SIZE - 1) AND NOT (CACHE_LINE_SIZE - 1)"

definition init_buffer :: "nat \<Rightarrow> u32 \<Rightarrow> u8 list \<Rightarrow> nat \<Rightarrow> nos_buffer_t" where
  "init_buffer i csize region j =
    (let off = unat (of_nat j * csize :: u32) in
     \<lparr>raw_data = int off, data = int off, capacity = csize, len = 0, headroom = 0, tailroom = csize,
      ref_cnt = 0, bin_idx = i, pool_idx = j, reply_ctx = None,
      chunk = take (unat csize) (drop off region)\<rparr>)"

text \<open>One iteration of the loop of \<^verbatim>\<open>nos_buffer_init_pool\<close>: \<open>memalign i n\<close> is what
  \<^verbatim>\<open>posix_memalign\<close> returns for bin \<open>i\<close> when asked for \<open>n\<close> bytes, the bytes of the region or nothing.
  The inner loop pushes the indices in increasing order.\<close>

definition init_bin :: "(nat \<Rightarrow> u32 \<Rightarrow> u8 list option) \<Rightarrow> nat \<Rightarrow> nos_buffer_pool_def_t \<Rightarrow> nos_buffer_bin_t option" where
  "init_bin memalign i c =
    (let csize = align_chunk (def_chunk_size c); cnt = def_chunk_count c; req = csize * cnt in
     case memalign i req of
       None \<Rightarrow> None
     | Some region \<Rightarrow> Some \<lparr>chunk_size = csize, chunk_count = cnt,
         buffers = map (init_buffer i csize region) [0..<unat cnt],
         raw_mem_size = req, free_stack = [0..<unat cnt], free_top = int (unat cnt) - 1,
         used_count = 0, peak_count = 0\<rparr>)"

fun init_bins :: "(nat \<Rightarrow> u32 \<Rightarrow> u8 list option) \<Rightarrow> nat \<Rightarrow> nos_buffer_pool_def_t list \<Rightarrow>
    nos_buffer_bin_t list \<Rightarrow> nos_buffer_bin_t list option" where
  "init_bins memalign i [] bins = Some bins"
| "init_bins memalign i (c # cs) bins =
    (if def_chunk_size c > 0 \<and> i < MAX_BINS then
       (case init_bin memalign i c of
          None \<Rightarrow> None
        | Some b \<Rightarrow> init_bins memalign (i + 1) cs (bins @ [b]))
     else Some bins)"

text \<open>\<open>None\<close> is \<^verbatim>\<open>exit(EXIT_FAILURE)\<close>.\<close>

definition nos_buffer_init_pool ::
  "(nat \<Rightarrow> u32 \<Rightarrow> u8 list option) \<Rightarrow> nos_buffer_pool_def_t list option \<Rightarrow> 'z buf_state_scheme \<Rightarrow>
     (nos_status_t \<times> 'z buf_state_scheme) option" where
  "nos_buffer_init_pool memalign config s =
    (case config of
       None \<Rightarrow> Some (NOS_ERR, s)
     | Some cs \<Rightarrow>
         if length (g_bins s) > 0 then Some (NOS_OK, s)
         else (case init_bins memalign 0 cs [] of
             None \<Rightarrow> None
           | Some bins \<Rightarrow> Some (NOS_OK, s\<lparr>g_bins := bins\<rparr>)))"

definition nos_buffer_deinit_pool :: "'z buf_state_scheme \<Rightarrow> 'z buf_state_scheme" where
  "nos_buffer_deinit_pool s = s\<lparr>g_bins := []\<rparr>"

text \<open>The free list of a bin: \<^verbatim>\<open>free_stack[free_top--]\<close> and \<^verbatim>\<open>free_stack[++free_top] = idx\<close>.\<close>

definition bin_pop :: "nos_buffer_bin_t \<Rightarrow> (nat \<times> nos_buffer_bin_t) option" where
  "bin_pop b = (if free_top b \<ge> 0
     then Some (free_stack b ! nat (free_top b), b\<lparr>free_top := free_top b - 1\<rparr>) else None)"

definition bin_push :: "nat \<Rightarrow> nos_buffer_bin_t \<Rightarrow> nos_buffer_bin_t" where
  "bin_push idx b = b\<lparr>free_top := free_top b + 1, free_stack := (free_stack b)[nat (free_top b + 1) := idx]\<rparr>"

definition count_alloc :: "nos_buffer_bin_t \<Rightarrow> nos_buffer_bin_t" where
  "count_alloc b = b\<lparr>used_count := used_count b + 1,
     peak_count := (if used_count b + 1 > peak_count b then used_count b + 1 else peak_count b)\<rparr>"

definition alloc_reset :: "u32 \<Rightarrow> u32 \<Rightarrow> nos_buffer_t \<Rightarrow> nos_buffer_t" where
  "alloc_reset sz hr b = b\<lparr>ref_cnt := 1, headroom := hr, data := raw_data b + uint hr, len := sz,
     tailroom := capacity b - hr - sz, reply_ctx := None\<rparr>"

fun find_bin :: "nos_buffer_bin_t list \<Rightarrow> u32 \<Rightarrow> nat \<Rightarrow> nat option" where
  "find_bin [] need i = None"
| "find_bin (b # bs) need i =
    (if chunk_size b \<ge> need \<and> free_top b \<ge> 0 then Some i else find_bin bs need (i + 1))"

definition nos_buffer_alloc :: "u32 \<Rightarrow> u32 \<Rightarrow> 'z buf_state_scheme \<Rightarrow> bufp option \<times> 'z buf_state_scheme" where
  "nos_buffer_alloc sz hr s =
    (let total_needed = sz + hr in
     case find_bin (g_bins s) total_needed 0 of
       None \<Rightarrow> (None, s)
     | Some i \<Rightarrow>
         (case bin_pop (g_bins s ! i) of
            None \<Rightarrow> (None, s)
          | Some (idx, b) \<Rightarrow>
              (Some (i, idx),
               upd_bin i count_alloc
                 (upd_buf (i, idx) (alloc_reset sz hr) (upd_bin i (\<lambda>_. b) s)))))"

definition nos_buffer_retain :: "bufp option \<Rightarrow> 'z buf_state_scheme \<Rightarrow> 'z buf_state_scheme" where
  "nos_buffer_retain buf s =
    (case buf of None \<Rightarrow> s | Some p \<Rightarrow> upd_buf p (\<lambda>b. b\<lparr>ref_cnt := ref_cnt b + 1\<rparr>) s)"

definition release_reset :: "nos_buffer_t \<Rightarrow> nos_buffer_t" where
  "release_reset b = b\<lparr>data := raw_data b, len := 0, headroom := 0, tailroom := capacity b\<rparr>"

definition nos_buffer_release :: "bufp option \<Rightarrow> 'z buf_state_scheme \<Rightarrow> 'z buf_state_scheme" where
  "nos_buffer_release buf s =
    (case buf of
       None \<Rightarrow> s
     | Some p \<Rightarrow>
         (let b = get_buf s p; s1 = upd_buf p (\<lambda>b. b\<lparr>ref_cnt := ref_cnt b - 1\<rparr>) s in
          if ref_cnt b = 1 then
            (let s2 = upd_bin (bin_idx b) (\<lambda>bin. (bin_push (pool_idx b) bin)\<lparr>used_count := used_count bin - 1\<rparr>) s1;
                 s3 = upd_buf p release_reset s2
             in upd_buf p (\<lambda>b. b\<lparr>reply_ctx := None\<rparr>) (nos_reply_ctx_release (reply_ctx b) s3))
          else s1))"

definition nos_buffer_push :: "bufp option \<Rightarrow> u32 \<Rightarrow> 'z buf_state_scheme \<Rightarrow> int option \<times> 'z buf_state_scheme" where
  "nos_buffer_push buf sz s =
    (case buf of
       None \<Rightarrow> (None, s)
     | Some p \<Rightarrow>
         (let b = get_buf s p in
          if headroom b < sz then (None, s)
          else (Some (data b - uint sz),
                upd_buf p (\<lambda>b. b\<lparr>headroom := headroom b - sz, data := data b - uint sz, len := len b + sz\<rparr>) s)))"

definition nos_buffer_pull :: "bufp option \<Rightarrow> u32 \<Rightarrow> 'z buf_state_scheme \<Rightarrow> int option \<times> 'z buf_state_scheme" where
  "nos_buffer_pull buf sz s =
    (case buf of
       None \<Rightarrow> (None, s)
     | Some p \<Rightarrow>
         (let b = get_buf s p in
          if len b < sz then (None, s)
          else (Some (data b + uint sz),
                upd_buf p (\<lambda>b. b\<lparr>headroom := headroom b + sz, data := data b + uint sz, len := len b - sz\<rparr>) s)))"

text \<open>\<^verbatim>\<open>size_t\<close> arithmetic on 64 bits; a 32-bit operand is widened first.  On the target
  \<^verbatim>\<open>sizeof(nos_buffer_bin_t)\<close> is 48 and \<^verbatim>\<open>sizeof(nos_buffer_t)\<close> is 56.\<close>

definition bin_mem_usage :: "nos_buffer_bin_t \<Rightarrow> u64" where
  "bin_mem_usage b = 48 + ucast (chunk_count b) * (ucast (chunk_size b) + 56) + ucast (chunk_count b) * 4"

definition nos_buffer_get_total_mem_usage :: "'z buf_state_scheme \<Rightarrow> u64" where
  "nos_buffer_get_total_mem_usage s = fold (\<lambda>b total. total + bin_mem_usage b) (g_bins s) 0"

section \<open>Basic facts about state updates\<close>

lemma g_bins_upd_bin [simp]: "g_bins (upd_bin i f s) = (g_bins s)[i := f (g_bins s ! i)]"
  by (simp add: upd_bin_def)

lemma g_reply_ctxs_upd [simp]:
  "g_reply_ctxs (upd_bin i f s) = g_reply_ctxs s" "g_reply_ctxs (upd_buf p g s) = g_reply_ctxs s"
  by (simp_all add: upd_bin_def upd_buf_def)

lemma g_bins_reply_release [simp]: "g_bins (nos_reply_ctx_release c s) = g_bins s"
  by (auto simp: nos_reply_ctx_release_def split: option.splits)

lemma g_bins_reply_retain [simp]: "g_bins (nos_reply_ctx_retain c s) = g_bins s"
  by (auto simp: nos_reply_ctx_retain_def split: option.splits)

lemma get_buf_upd_buf:
  "valid_buf s p \<Longrightarrow> get_buf (upd_buf p f s) q = (if q = p then f (get_buf s p) else get_buf s q)"
  by (cases p; cases q)
    (auto simp: get_buf_def upd_buf_def valid_buf_def nth_list_update)

lemma valid_buf_upd_buf [simp]: "valid_buf (upd_buf p f s) q = valid_buf s q"
  by (cases "fst p < length (g_bins s)")
    (auto simp: valid_buf_def upd_buf_def nth_list_update)

section \<open>Well-formedness\<close>

text \<open>
  The index structure of a bin: the free stack lists, without repetition, exactly the buffers
  whose reference count is not positive, and the usage counter counts the others.
\<close>

definition bin_avail :: "nos_buffer_bin_t \<Rightarrow> nat list" where
  "bin_avail b = stack_items (free_stack b) (free_top b)"

definition bin_free_ok :: "nat \<Rightarrow> nos_buffer_bin_t \<Rightarrow> bool" where
  "bin_free_ok n b \<longleftrightarrow> length (free_stack b) = n \<and> stack_ok (free_stack b) (free_top b)
     \<and> distinct (bin_avail b) \<and> set (bin_avail b) \<subseteq> {..<n}"

definition bin_ok :: "nat \<Rightarrow> nos_buffer_bin_t \<Rightarrow> bool" where
  "bin_ok i b \<longleftrightarrow> bin_free_ok (unat (chunk_count b)) b
     \<and> length (buffers b) = unat (chunk_count b)
     \<and> (\<forall>j < unat (chunk_count b). bin_idx (buffers b ! j) = i \<and> pool_idx (buffers b ! j) = j
          \<and> capacity (buffers b ! j) = chunk_size b
          \<and> (j \<in> set (bin_avail b) \<longleftrightarrow> ref_cnt (buffers b ! j) \<le> 0))
     \<and> unat (used_count b) + length (bin_avail b) = unat (chunk_count b)
     \<and> used_count b \<le> peak_count b \<and> peak_count b \<le> chunk_count b"

definition pool_ok :: "'z buf_state_scheme \<Rightarrow> bool" where
  "pool_ok s \<longleftrightarrow> (\<forall>i < length (g_bins s). bin_ok i (g_bins s ! i))"

text \<open>The geometry of a buffer: head room, data and tail room fill the chunk.\<close>

definition buf_ok :: "nos_buffer_t \<Rightarrow> bool" where
  "buf_ok b \<longleftrightarrow> data b = raw_data b + uint (headroom b)
     \<and> uint (headroom b) + uint (len b) + uint (tailroom b) = uint (capacity b)
     \<and> length (chunk b) = unat (capacity b)"

definition bufs_ok :: "'z buf_state_scheme \<Rightarrow> bool" where
  "bufs_ok s \<longleftrightarrow> (\<forall>p. valid_buf s p \<longrightarrow> buf_ok (get_buf s p))"

lemma bufs_okD: "bufs_ok s \<Longrightarrow> valid_buf s p \<Longrightarrow> buf_ok (get_buf s p)"
  by (simp only: bufs_ok_def)

lemma bufs_ok_iff: "bufs_ok s \<longleftrightarrow> (\<forall>bin \<in> set (g_bins s). \<forall>b \<in> set (buffers bin). buf_ok b)"
  by (fastforce simp: bufs_ok_def valid_buf_def get_buf_def in_set_conv_nth)

subsection \<open>The free list of a bin is an index pool\<close>

lemma bin_avail_empty: "bin_free_ok n b \<Longrightarrow> bin_avail b = [] \<longleftrightarrow> free_top b < 0"
  by (simp add: bin_free_ok_def bin_avail_def stack_items_empty_iff)

lemma pool_bin_ok: "pool_ok s \<Longrightarrow> i < length (g_bins s) \<Longrightarrow> bin_ok i (g_bins s ! i)"
  by (simp add: pool_ok_def)

lemma bin_ok_free: "bin_ok i b \<Longrightarrow> bin_free_ok (unat (chunk_count b)) b"
  by (simp add: bin_ok_def)

lemma pool_bin_avail_empty:
  "pool_ok s \<Longrightarrow> i < length (g_bins s) \<Longrightarrow> bin_avail (g_bins s ! i) = [] \<longleftrightarrow> free_top (g_bins s ! i) < 0"
  by (rule bin_avail_empty [OF bin_ok_free [OF pool_bin_ok]])

lemma bin_pop_spec:
  assumes "bin_free_ok n b"
  shows "bin_avail b = [] \<Longrightarrow> bin_pop b = None"
    and "bin_avail b \<noteq> [] \<Longrightarrow> \<exists>i. bin_pop b = Some (i, b\<lparr>free_top := free_top b - 1\<rparr>)
      \<and> bin_free_ok n (b\<lparr>free_top := free_top b - 1\<rparr>)
      \<and> bin_avail b = bin_avail (b\<lparr>free_top := free_top b - 1\<rparr>) @ [i]"
proof -
  have ok: "stack_ok (free_stack b) (free_top b)" using assms by (simp add: bin_free_ok_def)
  have e: "bin_avail b = [] \<longleftrightarrow> free_top b < 0" using assms by (rule bin_avail_empty)
  then show "bin_avail b = [] \<Longrightarrow> bin_pop b = None" by (simp add: bin_pop_def)
  assume "bin_avail b \<noteq> []"
  then have t: "0 \<le> free_top b" using e by simp
  let ?b = "b\<lparr>free_top := free_top b - 1\<rparr>"
  have a: "bin_avail b = bin_avail ?b @ [free_stack b ! nat (free_top b)]"
    using stack_pop(1)[OF ok t] by (simp add: bin_avail_def)
  have "distinct (bin_avail ?b @ [free_stack b ! nat (free_top b)])"
    "set (bin_avail ?b @ [free_stack b ! nat (free_top b)]) \<subseteq> {..<n}"
    using assms unfolding bin_free_ok_def a by auto
  then have "bin_free_ok n ?b"
    using assms stack_pop(2)[OF ok t] by (simp add: bin_free_ok_def)
  then show "\<exists>i. bin_pop b = Some (i, ?b) \<and> bin_free_ok n ?b \<and> bin_avail b = bin_avail ?b @ [i]"
    using t a by (auto simp: bin_pop_def)
qed

lemma bin_push_spec:
  assumes "bin_free_ok n b" "i < n" "i \<notin> set (bin_avail b)"
  shows "bin_free_ok n (bin_push i b) \<and> bin_avail (bin_push i b) = bin_avail b @ [i]"
proof -
  have ok: "stack_ok (free_stack b) (free_top b)" and l: "length (free_stack b) = n"
    using assms by (auto simp: bin_free_ok_def)
  have "card (set (bin_avail b)) < n"
    using assms by (metis bin_free_ok_def card_lessThan finite_lessThan lessThan_iff psubsetI psubset_card_mono)
  then have "length (bin_avail b) < n"
    using assms(1) by (simp add: bin_free_ok_def distinct_card)
  then have "free_top b + 1 < int (length (free_stack b))"
    using length_stack_items[OF ok] l by (simp add: bin_avail_def)
  from stack_push[OF ok this, of i] show ?thesis
    using assms l by (auto simp: bin_free_ok_def bin_avail_def bin_push_def)
qed

interpretation bin_pool: index_pool n "bin_free_ok n" bin_avail bin_pop bin_push
  for n
proof unfold_locales
  fix b assume "bin_free_ok n b"
  then show "distinct (bin_avail b) \<and> set (bin_avail b) \<subseteq> {..<n}" by (simp add: bin_free_ok_def)
qed (use bin_pop_spec bin_push_spec in blast)+

section \<open>Allocation\<close>

lemma find_bin_Some:
  "find_bin bs need k = Some i \<Longrightarrow>
     k \<le> i \<and> i - k < length bs \<and> chunk_size (bs ! (i - k)) \<ge> need \<and> free_top (bs ! (i - k)) \<ge> 0
     \<and> (\<forall>j < i - k. \<not> (chunk_size (bs ! j) \<ge> need \<and> free_top (bs ! j) \<ge> 0))"
proof (induction bs need k rule: find_bin.induct)
  case (2 b bs need k)
  show ?case
  proof (cases "chunk_size b \<ge> need \<and> free_top b \<ge> 0")
    case True
    then show ?thesis using 2(2) by auto
  next
    case False
    then have IH: "k + 1 \<le> i \<and> i - (k + 1) < length bs \<and> chunk_size (bs ! (i - (k + 1))) \<ge> need
      \<and> free_top (bs ! (i - (k + 1))) \<ge> 0
      \<and> (\<forall>j < i - (k + 1). \<not> (chunk_size (bs ! j) \<ge> need \<and> free_top (bs ! j) \<ge> 0))"
      using 2 by auto
    then obtain d where d: "i - k = Suc d" "i - (k + 1) = d" by (metis Suc_diff_le Suc_eq_plus1 diff_Suc_Suc)
    have "\<not> (chunk_size ((b # bs) ! j) \<ge> need \<and> free_top ((b # bs) ! j) \<ge> 0)" if "j < Suc d" for j
      using that False IH d by (cases j) auto
    then show ?thesis using IH d by auto
  qed
qed simp

lemma find_bin_None:
  "find_bin bs need k = None \<longleftrightarrow> (\<forall>b \<in> set bs. \<not> (chunk_size b \<ge> need \<and> free_top b \<ge> 0))"
  by (induction bs need k rule: find_bin.induct) auto

text \<open>A successful allocation, unfolded: the first bin that is large enough and not empty gives
  its most recently freed buffer.\<close>

definition alloc_result :: "nat \<Rightarrow> u32 \<Rightarrow> u32 \<Rightarrow> nos_buffer_bin_t \<Rightarrow> nos_buffer_bin_t" where
  "alloc_result idx sz hr b = count_alloc (b\<lparr>free_top := free_top b - 1,
     buffers := (buffers b)[idx := alloc_reset sz hr (buffers b ! idx)]\<rparr>)"

lemma buffers_alloc_result [simp]:
  "buffers (alloc_result idx sz hr b) = (buffers b)[idx := alloc_reset sz hr (buffers b ! idx)]"
  by (simp add: alloc_result_def count_alloc_def)

lemma nos_buffer_alloc_Some:
  assumes "nos_buffer_alloc sz hr s = (Some p, s')" "pool_ok s"
  obtains i idx where "p = (i, idx)" "i < length (g_bins s)" "chunk_size (g_bins s ! i) \<ge> sz + hr"
    "\<forall>j < i. \<not> (chunk_size (g_bins s ! j) \<ge> sz + hr \<and> bin_avail (g_bins s ! j) \<noteq> [])"
    "bin_avail (g_bins s ! i) = bin_avail ((g_bins s ! i)\<lparr>free_top := free_top (g_bins s ! i) - 1\<rparr>) @ [idx]"
    "s' = s\<lparr>g_bins := (g_bins s)[i := alloc_result idx sz hr (g_bins s ! i)]\<rparr>"
proof -
  from assms(1) obtain i idx b where f: "find_bin (g_bins s) (sz + hr) 0 = Some i"
    and pop: "bin_pop (g_bins s ! i) = Some (idx, b)" and p: "p = (i, idx)"
    and s': "s' = upd_bin i count_alloc (upd_buf (i, idx) (alloc_reset sz hr) (upd_bin i (\<lambda>_. b) s))"
    by (auto simp: nos_buffer_alloc_def Let_def split: option.splits)
  note av = pool_bin_avail_empty[OF assms(2)]
  have i: "i < length (g_bins s)" "chunk_size (g_bins s ! i) \<ge> sz + hr" "free_top (g_bins s ! i) \<ge> 0"
    "\<forall>j < i. \<not> (chunk_size (g_bins s ! j) \<ge> sz + hr \<and> free_top (g_bins s ! j) \<ge> 0)"
    using find_bin_Some[OF f] by auto
  have b: "b = (g_bins s ! i)\<lparr>free_top := free_top (g_bins s ! i) - 1\<rparr>"
    and a: "bin_avail (g_bins s ! i) = bin_avail b @ [idx]"
    using bin_pop_spec(2)[OF bin_ok_free[OF pool_bin_ok[OF assms(2) i(1)]]] i(3) av[OF i(1)] pop by auto
  have "s' = s\<lparr>g_bins := (g_bins s)[i := alloc_result idx sz hr (g_bins s ! i)]\<rparr>"
    unfolding s' b upd_buf_def upd_bin_def alloc_result_def using i(1) by simp
  moreover have "\<forall>j < i. \<not> (chunk_size (g_bins s ! j) \<ge> sz + hr \<and> bin_avail (g_bins s ! j) \<noteq> [])"
    using i av by (auto simp: not_less)
  ultimately show ?thesis using that p i a b by blast
qed

lemma nos_buffer_alloc_None:
  assumes "pool_ok s"
  shows "fst (nos_buffer_alloc sz hr s) = None \<longleftrightarrow>
    (\<forall>b \<in> set (g_bins s). sz + hr \<le> chunk_size b \<longrightarrow> bin_avail b = [])"
proof -
  have av: "bin_avail b = [] \<longleftrightarrow> free_top b < 0" if "b \<in> set (g_bins s)" for b
    using that pool_bin_avail_empty[OF assms] unfolding in_set_conv_nth by blast
  have "fst (nos_buffer_alloc sz hr s) = None \<longleftrightarrow> find_bin (g_bins s) (sz + hr) 0 = None"
  proof (cases "find_bin (g_bins s) (sz + hr) 0")
    case (Some i)
    then have "free_top (g_bins s ! i) \<ge> 0" using find_bin_Some by fastforce
    then show ?thesis using Some by (simp add: nos_buffer_alloc_def bin_pop_def)
  qed (simp add: nos_buffer_alloc_def)
  then show ?thesis using av by (auto simp: find_bin_None not_le)
qed

lemma nos_buffer_alloc_None_state: "nos_buffer_alloc sz hr s = (None, s') \<Longrightarrow> s' = s"
  by (auto simp: nos_buffer_alloc_def Let_def split: option.splits)

lemma bin_ok_alloc_result:
  assumes ok: "bin_ok i b"
    and a: "bin_avail b = bin_avail (b\<lparr>free_top := free_top b - 1\<rparr>) @ [idx]"
  shows "bin_ok i (alloc_result idx sz hr b)"
proof -
  let ?n = "unat (chunk_count b)" and ?b' = "b\<lparr>free_top := free_top b - 1\<rparr>"
  have f: "bin_free_ok ?n b" using ok by (simp add: bin_ok_def)
  have f': "bin_free_ok ?n ?b'" using bin_pop_spec(2)[OF f] a by auto
  have dist: "idx \<notin> set (bin_avail ?b')" "idx < ?n"
    using f a by (auto simp: bin_free_ok_def)
  have av: "bin_avail (alloc_result idx sz hr b) = bin_avail ?b'"
    by (simp add: alloc_result_def bin_avail_def count_alloc_def)
  have used: "unat (used_count b) + length (bin_avail ?b') + 1 = ?n"
    using ok a by (simp add: bin_ok_def)
  then have "unat (used_count b) < unat (chunk_count b)" by simp
  then have nowrap: "unat (used_count b + 1) = unat (used_count b) + 1"
    by (rule unat_inc)
  have "bin_free_ok ?n (alloc_result idx sz hr b)"
    using f' by (simp add: bin_free_ok_def alloc_result_def bin_avail_def count_alloc_def)
  moreover have "\<forall>j < ?n. bin_idx (buffers (alloc_result idx sz hr b) ! j) = i
      \<and> pool_idx (buffers (alloc_result idx sz hr b) ! j) = j
      \<and> capacity (buffers (alloc_result idx sz hr b) ! j) = chunk_size b
      \<and> (j \<in> set (bin_avail ?b') \<longleftrightarrow> ref_cnt (buffers (alloc_result idx sz hr b) ! j) \<le> 0)"
  proof (intro allI impI)
    fix j assume "j < ?n"
    then show "bin_idx (buffers (alloc_result idx sz hr b) ! j) = i
      \<and> pool_idx (buffers (alloc_result idx sz hr b) ! j) = j
      \<and> capacity (buffers (alloc_result idx sz hr b) ! j) = chunk_size b
      \<and> (j \<in> set (bin_avail ?b') \<longleftrightarrow> ref_cnt (buffers (alloc_result idx sz hr b) ! j) \<le> 0)"
      using ok a dist
      by (cases "j = idx") (auto simp: bin_ok_def alloc_result_def count_alloc_def alloc_reset_def nth_list_update)
  qed
  moreover have "used_count b + 1 \<le> chunk_count b"
    using used nowrap by (simp add: word_le_nat_alt)
  ultimately show ?thesis
    using ok used nowrap unfolding bin_ok_def av
    by (auto simp: alloc_result_def count_alloc_def not_less)
qed

lemma pool_ok_alloc [nos_inv]:
  assumes "pool_ok s" "nos_buffer_alloc sz hr s = (r, s')"
  shows "pool_ok s'"
proof (cases r)
  case None
  then show ?thesis using assms nos_buffer_alloc_None_state by blast
next
  case (Some p)
  then have "nos_buffer_alloc sz hr s = (Some p, s')" using assms(2) by simp
  from this assms(1) show ?thesis
  proof (rule nos_buffer_alloc_Some)
    fix i idx assume "i < length (g_bins s)"
      "bin_avail (g_bins s ! i) = bin_avail ((g_bins s ! i)\<lparr>free_top := free_top (g_bins s ! i) - 1\<rparr>) @ [idx]"
      "s' = s\<lparr>g_bins := (g_bins s)[i := alloc_result idx sz hr (g_bins s ! i)]\<rparr>"
    then show ?thesis
      using assms(1) bin_ok_alloc_result by (auto simp: pool_ok_def nth_list_update)
  qed
qed

section \<open>Retain and release\<close>

definition release_result :: "nat \<Rightarrow> nos_buffer_bin_t \<Rightarrow> nos_buffer_bin_t" where
  "release_result j bin =
    (let b = buffers bin ! j in
     if ref_cnt b = 1 then
       (bin_push j bin)\<lparr>used_count := used_count bin - 1,
          buffers := (buffers bin)[j := (release_reset (b\<lparr>ref_cnt := 0\<rparr>))\<lparr>reply_ctx := None\<rparr>]\<rparr>
     else bin\<lparr>buffers := (buffers bin)[j := b\<lparr>ref_cnt := ref_cnt b - 1\<rparr>]\<rparr>)"

lemma pool_buf_idx:
  assumes "pool_ok s" "valid_buf s p"
  shows "bin_idx (get_buf s p) = fst p" "pool_idx (get_buf s p) = snd p"
  using assms by (auto simp: pool_ok_def valid_buf_def bin_ok_def get_buf_def)

lemma release_bins:
  assumes "pool_ok s" "valid_buf s p"
  shows "g_bins (nos_buffer_release (Some p) s) =
    (g_bins s)[fst p := release_result (snd p) (g_bins s ! fst p)]"
  using assms pool_buf_idx[OF assms]
  by (auto simp: nos_buffer_release_def Let_def upd_buf_def release_result_def get_buf_def valid_buf_def
      release_reset_def bin_push_def)

lemma bin_ok_buf_update:
  assumes "bin_ok i b" "j < unat (chunk_count b)"
    and "bin_idx x = i" "pool_idx x = j" "capacity x = chunk_size b"
    and "ref_cnt x \<le> 0 \<longleftrightarrow> ref_cnt (buffers b ! j) \<le> 0"
  shows "bin_ok i (b\<lparr>buffers := (buffers b)[j := x]\<rparr>)"
proof -
  have "bin_free_ok (unat (chunk_count b)) (b\<lparr>buffers := (buffers b)[j := x]\<rparr>)"
    using bin_ok_free[OF assms(1)] by (simp add: bin_free_ok_def bin_avail_def)
  moreover have "bin_avail (b\<lparr>buffers := (buffers b)[j := x]\<rparr>) = bin_avail b" by (simp add: bin_avail_def)
  ultimately show ?thesis using assms by (auto simp: bin_ok_def nth_list_update)
qed

lemma bin_ok_release_result:
  assumes ok: "bin_ok i b" and j: "j < unat (chunk_count b)"
  shows "bin_ok i (release_result j b)"
proof (cases "ref_cnt (buffers b ! j) = 1")
  case False
  then have "ref_cnt (buffers b ! j) - 1 \<le> 0 \<longleftrightarrow> ref_cnt (buffers b ! j) \<le> 0" by linarith
  moreover have "release_result j b = b\<lparr>buffers := (buffers b)[j := (buffers b ! j)\<lparr>ref_cnt := ref_cnt (buffers b ! j) - 1\<rparr>]\<rparr>"
    using False by (simp add: release_result_def Let_def)
  ultimately show ?thesis
    using bin_ok_buf_update[OF ok j] ok j by (simp add: bin_ok_def)
next
  case True
  let ?n = "unat (chunk_count b)" and ?r = "release_result j b"
  have f: "bin_free_ok ?n b" using ok by (rule bin_ok_free)
  have "j \<notin> set (bin_avail b)" using ok j True by (auto simp: bin_ok_def)
  then have p: "bin_free_ok ?n (bin_push j b)" "bin_avail (bin_push j b) = bin_avail b @ [j]"
    using bin_push_spec[OF f j] by auto
  have r: "?r = (bin_push j b)\<lparr>used_count := used_count b - 1,
      buffers := (buffers b)[j := (release_reset ((buffers b ! j)\<lparr>ref_cnt := 0\<rparr>))\<lparr>reply_ctx := None\<rparr>]\<rparr>"
    using True by (simp add: release_result_def Let_def)
  have av: "bin_avail ?r = bin_avail b @ [j]" using p(2) unfolding r by (simp add: bin_avail_def)
  have cc: "chunk_count ?r = chunk_count b" "chunk_size ?r = chunk_size b" "peak_count ?r = peak_count b"
    unfolding r by (simp_all add: bin_push_def)
  have "length (bin_avail b @ [j]) \<le> ?n"
    using p by (metis bin_free_ok_def card_lessThan card_mono distinct_card finite_lessThan)
  then have u: "unat (used_count b) > 0" using ok by (simp add: bin_ok_def)
  then have u': "unat (used_count b - 1) = unat (used_count b) - 1" by (rule unat_dec)
  have "bin_free_ok ?n ?r" using p(1) unfolding r by (simp add: bin_free_ok_def bin_avail_def)
  moreover have "length (buffers ?r) = ?n" using ok unfolding r by (simp add: bin_ok_def)
  moreover have "\<forall>k < ?n. bin_idx (buffers ?r ! k) = i \<and> pool_idx (buffers ?r ! k) = k
      \<and> capacity (buffers ?r ! k) = chunk_size b
      \<and> (k \<in> set (bin_avail b @ [j]) \<longleftrightarrow> ref_cnt (buffers ?r ! k) \<le> 0)"
    using ok j unfolding r by (auto simp: bin_ok_def nth_list_update release_reset_def)
  moreover have "unat (used_count ?r) + length (bin_avail b @ [j]) = ?n"
    using ok u u' unfolding r by (simp add: bin_ok_def)
  moreover have "unat (used_count b) \<le> unat (peak_count b)"
    using ok by (simp add: bin_ok_def word_le_nat_alt)
  then have "used_count ?r \<le> peak_count b"
    using u' unfolding r by (simp add: word_le_nat_alt)
  moreover have "peak_count b \<le> chunk_count b" using ok by (simp add: bin_ok_def)
  ultimately show ?thesis unfolding bin_ok_def av cc by simp
qed

lemma valid_buf_count: "pool_ok s \<Longrightarrow> valid_buf s p \<Longrightarrow> snd p < unat (chunk_count (g_bins s ! fst p))"
  by (auto simp: pool_ok_def valid_buf_def bin_ok_def)

lemma pool_ok_bins_update:
  assumes "pool_ok s" "g_bins s' = (g_bins s)[i := b]" "bin_ok i b"
  shows "pool_ok s'"
  unfolding pool_ok_def
proof (intro allI impI)
  fix k assume "k < length (g_bins s')"
  then show "bin_ok k (g_bins s' ! k)"
    using assms by (cases "k = i") (simp_all add: pool_ok_def)
qed

lemma pool_ok_release [nos_inv]:
  assumes "pool_ok s" "valid_buf s p"
  shows "pool_ok (nos_buffer_release (Some p) s)"
  using assms valid_buf_count[OF assms] pool_bin_ok[OF assms(1), of "fst p"]
  by (intro pool_ok_bins_update[OF assms(1) release_bins[OF assms]] bin_ok_release_result)
    (simp_all add: valid_buf_def)

lemma pool_ok_upd_buf:
  assumes "pool_ok s" "valid_buf s p"
    and "\<And>b. bin_idx (f b) = bin_idx b \<and> pool_idx (f b) = pool_idx b \<and> capacity (f b) = capacity b"
    and "ref_cnt (f (get_buf s p)) \<le> 0 \<longleftrightarrow> ref_cnt (get_buf s p) \<le> 0"
  shows "pool_ok (upd_buf p f s)"
proof -
  have ok: "bin_ok (fst p) (g_bins s ! fst p)" using assms by (auto simp: pool_ok_def valid_buf_def)
  have "bin_ok (fst p) ((g_bins s ! fst p)\<lparr>buffers :=
      (buffers (g_bins s ! fst p))[snd p := f (buffers (g_bins s ! fst p) ! snd p)]\<rparr>)"
    using assms(3,4) valid_buf_count[OF assms(1,2)] ok
    by (intro bin_ok_buf_update) (auto simp: bin_ok_def get_buf_def)
  then show ?thesis by (intro pool_ok_bins_update[OF assms(1), of _ "fst p"]) (simp_all add: upd_buf_def)
qed

lemma pool_ok_retain [nos_inv]:
  "pool_ok s \<Longrightarrow> valid_buf s p \<Longrightarrow> 1 \<le> ref_cnt (get_buf s p) \<Longrightarrow> pool_ok (nos_buffer_retain (Some p) s)"
  by (auto simp: nos_buffer_retain_def intro!: pool_ok_upd_buf)

lemma pool_ok_push [nos_inv]:
  "pool_ok s \<Longrightarrow> valid_buf s p \<Longrightarrow> nos_buffer_push (Some p) sz s = (r, s') \<Longrightarrow> pool_ok s'"
  by (auto simp: nos_buffer_push_def Let_def intro!: pool_ok_upd_buf split: if_splits)

lemma pool_ok_pull [nos_inv]:
  "pool_ok s \<Longrightarrow> valid_buf s p \<Longrightarrow> nos_buffer_pull (Some p) sz s = (r, s') \<Longrightarrow> pool_ok s'"
  by (auto simp: nos_buffer_pull_def Let_def intro!: pool_ok_upd_buf split: if_splits)

section \<open>Initialisation\<close>

lemma init_bin_ok:
  assumes "init_bin ma i c = Some b"
  shows "bin_ok i b"
proof -
  let ?n = "unat (def_chunk_count c)"
  from assms have b: "chunk_count b = def_chunk_count c" "free_stack b = [0..<?n]" "free_top b = int ?n - 1"
    "used_count b = 0" "peak_count b = 0"
    and bufs: "length (buffers b) = ?n" "\<And>j. j < ?n \<Longrightarrow> bin_idx (buffers b ! j) = i \<and> pool_idx (buffers b ! j) = j
      \<and> capacity (buffers b ! j) = chunk_size b \<and> ref_cnt (buffers b ! j) = 0"
    by (auto simp: init_bin_def Let_def init_buffer_def split: option.splits)
  moreover have "- 1 < uint (def_chunk_count c)" by (rule less_le_trans[OF _ uint_ge_0]) simp
  ultimately have "bin_avail b = [0..<?n]" "stack_ok (free_stack b) (free_top b)"
    by (simp_all add: bin_avail_def stack_items_def stack_ok_def)
  then show ?thesis using b bufs by (auto simp: bin_ok_def bin_free_ok_def)
qed

lemma init_bins_ok:
  "init_bins ma i cs bins = Some bins' \<Longrightarrow> length bins = i \<Longrightarrow> \<forall>k < length bins. bin_ok k (bins ! k) \<Longrightarrow>
     \<forall>k < length bins'. bin_ok k (bins' ! k)"
proof (induction ma i cs bins rule: init_bins.induct)
  case (2 ma i c cs bins)
  show ?case
  proof (cases "def_chunk_size c > 0 \<and> i < MAX_BINS")
    case True
    then obtain b where b: "init_bin ma i c = Some b" "init_bins ma (i + 1) cs (bins @ [b]) = Some bins'"
      using "2.prems"(1) by (auto split: option.splits)
    have "\<forall>k < length (bins @ [b]). bin_ok k ((bins @ [b]) ! k)"
      using "2.prems"(2,3) init_bin_ok[OF b(1)] by (auto simp: nth_append less_Suc_eq)
    then show ?thesis using "2.IH"[OF True b] "2.prems"(2) by simp
  next
    case False
    then have "bins' = bins" using "2.prems"(1) by (simp split: if_splits)
    then show ?thesis using "2.prems"(3) by simp
  qed
qed simp

lemma pool_ok_init:
  "nos_buffer_init_pool ma cfg s = Some (st, s') \<Longrightarrow> pool_ok s \<Longrightarrow> pool_ok s'"
  by (auto simp: nos_buffer_init_pool_def pool_ok_def split: option.splits if_splits dest!: init_bins_ok)

section \<open>The pool as a state machine\<close>

text \<open>One step is one call of the interface.  A client may only retain a buffer it holds.\<close>

inductive pool_step :: "'z buf_state_scheme \<Rightarrow> 'z buf_state_scheme \<Rightarrow> bool" where
  step_alloc: "nos_buffer_alloc sz hr s = (r, s') \<Longrightarrow> pool_step s s'"
| step_retain: "valid_buf s p \<Longrightarrow> 1 \<le> ref_cnt (get_buf s p) \<Longrightarrow> pool_step s (nos_buffer_retain (Some p) s)"
| step_release: "valid_buf s p \<Longrightarrow> pool_step s (nos_buffer_release (Some p) s)"
| step_push: "valid_buf s p \<Longrightarrow> nos_buffer_push (Some p) sz s = (a, s') \<Longrightarrow> pool_step s s'"
| step_pull: "valid_buf s p \<Longrightarrow> nos_buffer_pull (Some p) sz s = (a, s') \<Longrightarrow> pool_step s s'"

inductive pool_reachable ::
  "(nat \<Rightarrow> u32 \<Rightarrow> u8 list option) \<Rightarrow> nos_buffer_pool_def_t list \<Rightarrow> 'z buf_state_scheme \<Rightarrow> bool"
  for ma cs where
  pool_start: "g_bins s = [] \<Longrightarrow> nos_buffer_init_pool ma (Some cs) s = Some (st, s') \<Longrightarrow> pool_reachable ma cs s'"
| pool_next: "pool_reachable ma cs s \<Longrightarrow> pool_step s s' \<Longrightarrow> pool_reachable ma cs s'"

lemma pool_step_ok [nos_inv]: "pool_step s s' \<Longrightarrow> pool_ok s \<Longrightarrow> pool_ok s'"
  by (induction rule: pool_step.induct) (auto intro: nos_inv)

section \<open>Properties\<close>


lemma alloc_frame:
  assumes "nos_buffer_alloc sz hr s = (Some p, s')" "pool_ok s"
  shows "valid_buf s p" "ref_cnt (get_buf s p) \<le> 0"
    "get_buf s' p = alloc_reset sz hr (get_buf s p)"
    "\<And>q. q \<noteq> p \<Longrightarrow> get_buf s' q = get_buf s q"
    "\<And>q. valid_buf s' q = valid_buf s q"
    "unat (sz + hr) \<le> unat (capacity (get_buf s p))"
    "\<And>j. j < fst p \<Longrightarrow> sz + hr \<le> chunk_size (g_bins s ! j) \<Longrightarrow> bin_avail (g_bins s ! j) = []"
proof -
  from assms obtain i idx where p: "p = (i, idx)" and i: "i < length (g_bins s)" "chunk_size (g_bins s ! i) \<ge> sz + hr"
    and first: "\<forall>j < i. \<not> (chunk_size (g_bins s ! j) \<ge> sz + hr \<and> bin_avail (g_bins s ! j) \<noteq> [])"
    and av: "bin_avail (g_bins s ! i) = bin_avail ((g_bins s ! i)\<lparr>free_top := free_top (g_bins s ! i) - 1\<rparr>) @ [idx]"
    and s': "s' = s\<lparr>g_bins := (g_bins s)[i := alloc_result idx sz hr (g_bins s ! i)]\<rparr>"
    by (rule nos_buffer_alloc_Some)
  have ok: "bin_ok i (g_bins s ! i)" using assms(2) i(1) by (rule pool_bin_ok)
  have "idx \<in> set (bin_avail (g_bins s ! i))" using av by simp
  then have idx: "idx < unat (chunk_count (g_bins s ! i))" "idx < length (buffers (g_bins s ! i))"
    "ref_cnt (buffers (g_bins s ! i) ! idx) \<le> 0" "capacity (buffers (g_bins s ! i) ! idx) = chunk_size (g_bins s ! i)"
    using ok by (auto simp: bin_ok_def bin_free_ok_def)
  show "valid_buf s p" "ref_cnt (get_buf s p) \<le> 0" using i idx by (auto simp: p valid_buf_def get_buf_def)
  show "get_buf s' p = alloc_reset sz hr (get_buf s p)"
    using i idx by (simp add: p s' get_buf_def)
  show "get_buf s' q = get_buf s q" if "q \<noteq> p" for q
    using i that by (cases q) (auto simp: p s' get_buf_def nth_list_update)
  show "valid_buf s' q = valid_buf s q" for q
    using i by (auto simp: s' valid_buf_def nth_list_update)
  show "unat (sz + hr) \<le> unat (capacity (get_buf s p))"
    using i idx by (simp add: p get_buf_def word_le_nat_alt)
  show "bin_avail (g_bins s ! j) = []" if "j < fst p" "sz + hr \<le> chunk_size (g_bins s ! j)" for j
    using first that p by auto
qed

lemma buf_ok_alloc_reset:
  assumes "unat sz + unat hr < 2 ^ 32" "unat (sz + hr) \<le> unat (capacity b)" "length (chunk b) = unat (capacity b)"
  shows "buf_ok (alloc_reset sz hr b)"
proof -
  have "unat sz + unat hr \<le> unat (capacity b)"
    using assms unat_plus_no_wrap[of sz hr] by simp
  then have sum: "uint sz + uint hr \<le> uint (capacity b)"
    unfolding uint_nat by linarith
  then have "uint (capacity b - hr) = uint (capacity b) - uint hr"
    using uint_ge_0[of sz] by (intro uint_sub_lem[THEN iffD1]) linarith
  moreover from this have "uint (capacity b - hr - sz) = uint (capacity b - hr) - uint sz"
    using sum by (intro uint_sub_lem[THEN iffD1]) linarith
  ultimately have "uint (capacity b - hr - sz) = uint (capacity b) - uint hr - uint sz" by simp
  then show ?thesis using assms(3) sum by (simp add: buf_ok_def alloc_reset_def)
qed

text \<open>
  C30.  Allocation.  When the request does not overflow 32 bits, a buffer that is handed out
  was held by nobody, is held once afterwards, has the requested head room and length inside its
  chunk, keeps the bytes of its previous use, and no other buffer is touched; every earlier bin
  that is large enough is exhausted.
\<close>

theorem buffer_alloc_correct:
  assumes "pool_ok s" "bufs_ok s" "unat sz + unat hr < 2 ^ 32"
    and "nos_buffer_alloc sz hr s = (Some p, s')"
  shows "valid_buf s p \<and> ref_cnt (get_buf s p) \<le> 0 \<and> ref_cnt (get_buf s' p) = 1
    \<and> len (get_buf s' p) = sz \<and> headroom (get_buf s' p) = hr \<and> reply_ctx (get_buf s' p) = None
    \<and> chunk (get_buf s' p) = chunk (get_buf s p)
    \<and> bufs_ok s' \<and> (\<forall>q. q \<noteq> p \<longrightarrow> get_buf s' q = get_buf s q)
    \<and> (\<forall>j < fst p. sz + hr \<le> chunk_size (g_bins s ! j) \<longrightarrow> bin_avail (g_bins s ! j) = [])"
proof -
  note f = alloc_frame[OF assms(4,1)]
  have "length (chunk (get_buf s p)) = unat (capacity (get_buf s p))"
    using bufs_okD[OF assms(2) f(1)] by (simp add: buf_ok_def)
  then have "buf_ok (get_buf s' p)" using buf_ok_alloc_reset[OF assms(3) f(6)] f(3) by simp
  then have "bufs_ok s'" using assms(2) f(4,5) unfolding bufs_ok_def by metis
  then show ?thesis using f by (simp add: alloc_reset_def)
qed

text \<open>
  Allocation fails exactly when every bin whose chunks are large enough has no free buffer.
\<close>

theorem buffer_alloc_fails_iff:
  assumes "pool_ok s"
  shows "fst (nos_buffer_alloc sz hr s) = None \<longleftrightarrow>
    (\<forall>i < length (g_bins s). sz + hr \<le> chunk_size (g_bins s ! i) \<longrightarrow>
       (\<forall>j < length (buffers (g_bins s ! i)). 0 < ref_cnt (get_buf s (i, j))))"
proof -
  have "bin_avail (g_bins s ! i) = [] \<longleftrightarrow> (\<forall>j < length (buffers (g_bins s ! i)). 0 < ref_cnt (get_buf s (i, j)))"
    if "i < length (g_bins s)" for i
  proof -
    have ok: "bin_ok i (g_bins s ! i)" using assms that by (rule pool_bin_ok)
    then have "j \<in> set (bin_avail (g_bins s ! i)) \<longleftrightarrow> \<not> 0 < ref_cnt (get_buf s (i, j))"
      if "j < length (buffers (g_bins s ! i))" for j
      using that by (simp add: bin_ok_def get_buf_def not_less)
    moreover have "set (bin_avail (g_bins s ! i)) \<subseteq> {..<length (buffers (g_bins s ! i))}"
      using ok by (simp add: bin_ok_def bin_free_ok_def)
    ultimately show ?thesis by (metis lessThan_iff list.set_intros(1) neq_Nil_conv set_empty2 subset_iff empty_iff)
  qed
  then show ?thesis unfolding nos_buffer_alloc_None[OF assms] by (metis in_set_conv_nth)
qed

lemma release_frame:
  assumes "pool_ok s" "valid_buf s p"
  shows "\<And>q. valid_buf (nos_buffer_release (Some p) s) q = valid_buf s q"
    "ref_cnt (get_buf (nos_buffer_release (Some p) s) p) = ref_cnt (get_buf s p) - 1"
    "\<And>q. q \<noteq> p \<Longrightarrow> get_buf (nos_buffer_release (Some p) s) q = get_buf s q"
proof -
  have b: "buffers (release_result j b) = (buffers b)[j := buffers (release_result j b) ! j]"
    "ref_cnt (buffers (release_result j b) ! j) = ref_cnt (buffers b ! j) - 1" if "j < length (buffers b)" for j b
    using that by (auto simp: release_result_def Let_def release_reset_def bin_push_def)
  show "valid_buf (nos_buffer_release (Some p) s) q = valid_buf s q" for q
    using assms(2) b(1)[of "snd p" "g_bins s ! fst p"]
    by (cases "fst q = fst p") (auto simp: valid_buf_def release_bins[OF assms] dest: arg_cong[where f = length])
  show "ref_cnt (get_buf (nos_buffer_release (Some p) s) p) = ref_cnt (get_buf s p) - 1"
    using assms(2) b(2) by (auto simp: get_buf_def release_bins[OF assms] valid_buf_def)
  show "get_buf (nos_buffer_release (Some p) s) q = get_buf s q" if "q \<noteq> p" for q
  proof (cases "fst q = fst p")
    case True
    then have "snd q \<noteq> snd p" using that by (simp add: prod_eq_iff)
    then have "buffers (release_result (snd p) (g_bins s ! fst p)) ! snd q = buffers (g_bins s ! fst p) ! snd q"
      using b(1)[of "snd p" "g_bins s ! fst p"] assms(2) by (metis nth_list_update_neq valid_buf_def)
    then show ?thesis using True assms(2) by (simp add: get_buf_def release_bins[OF assms] valid_buf_def)
  qed (simp add: get_buf_def release_bins[OF assms])
qed

lemma release_iter:
  assumes "pool_ok s" "valid_buf s p"
  shows "pool_ok ((nos_buffer_release (Some p) ^^ k) s) \<and> valid_buf ((nos_buffer_release (Some p) ^^ k) s) p
    \<and> ref_cnt (get_buf ((nos_buffer_release (Some p) ^^ k) s) p) = ref_cnt (get_buf s p) - int k
    \<and> (\<forall>q. q \<noteq> p \<longrightarrow> get_buf ((nos_buffer_release (Some p) ^^ k) s) q = get_buf s q)"
  by (induction k) (simp_all add: assms release_frame pool_ok_release)

lemma avail_iff_ref:
  "pool_ok s \<Longrightarrow> valid_buf s p \<Longrightarrow> snd p \<in> set (bin_avail (g_bins s ! fst p)) \<longleftrightarrow> ref_cnt (get_buf s p) \<le> 0"
  by (auto simp: pool_ok_def valid_buf_def bin_ok_def get_buf_def)

text \<open>
  Reference counting.  A buffer held \<open>n\<close> times goes back to the free stack at the \<open>n\<close>-th
  release and not before; releases of one buffer never touch another one.
\<close>

theorem buffer_release_balanced:
  assumes "pool_ok s" "valid_buf s p" "ref_cnt (get_buf s p) = int n" "k \<le> n"
  shows "(snd p \<in> set (bin_avail (g_bins ((nos_buffer_release (Some p) ^^ k) s) ! fst p)) \<longleftrightarrow> k = n)
    \<and> ref_cnt (get_buf ((nos_buffer_release (Some p) ^^ k) s) p) = int (n - k)
    \<and> (\<forall>q. q \<noteq> p \<longrightarrow> get_buf ((nos_buffer_release (Some p) ^^ k) s) q = get_buf s q)"
  using release_iter[OF assms(1,2), of k] assms(3,4) avail_iff_ref[of "(nos_buffer_release (Some p) ^^ k) s" p]
  by (auto simp: of_nat_diff simp del: split_paired_All)

text \<open>
  Encapsulation.  Pulling \<open>sz\<close> bytes off the front and pushing them back restores the buffer
  exactly; the geometry is kept in between, and a push beyond the head room or a pull beyond the
  data is refused without any effect.
\<close>

theorem buffer_pull_push_roundtrip:
  assumes "valid_buf s p" "buf_ok (get_buf s p)"
  shows "if sz \<le> len (get_buf s p)
     then (\<exists>s1. nos_buffer_pull (Some p) sz s = (Some (data (get_buf s p) + uint sz), s1)
            \<and> buf_ok (get_buf s1 p) \<and> nos_buffer_push (Some p) sz s1 = (Some (data (get_buf s p)), s))
     else nos_buffer_pull (Some p) sz s = (None, s)"
proof (cases "sz \<le> len (get_buf s p)")
  case True
  let ?b = "get_buf s p"
  let ?g = "\<lambda>b. b\<lparr>headroom := headroom b + sz, data := data b + uint sz, len := len b - sz\<rparr>"
  have pull: "nos_buffer_pull (Some p) sz s = (Some (data ?b + uint sz), upd_buf p ?g s)"
    using True by (simp add: nos_buffer_pull_def Let_def not_less)
  have l: "uint sz \<le> uint (len ?b)" using True by (simp add: word_le_def)
  have sum: "uint (headroom ?b) + uint (len ?b) + uint (tailroom ?b) = uint (capacity ?b)"
    using assms(2) by (simp add: buf_ok_def)
  have "uint (capacity ?b) < 2 ^ 32" using uint_lt2p[of "capacity ?b"] by simp
  then have "uint (headroom ?b) + uint sz < 2 ^ 32"
    using l sum uint_ge_0[of "tailroom ?b"] by linarith
  then have h: "uint (headroom ?b + sz) = uint (headroom ?b) + uint sz" by (simp add: uint_plus_simple_iff[symmetric] uint_word_ariths)
  have l': "uint (len ?b - sz) = uint (len ?b) - uint sz" using l by (simp add: uint_sub_lem)
  have b1: "get_buf (upd_buf p ?g s) p = ?g ?b" using assms(1) by (simp add: get_buf_upd_buf)
  have "buf_ok (?g ?b)" using assms(2) h l' by (simp add: buf_ok_def)
  moreover have "\<not> headroom ?b + sz < sz" using h uint_ge_0[of "headroom ?b"] by (simp add: word_less_def)
  then have "nos_buffer_push (Some p) sz (upd_buf p ?g s) = (Some (data ?b), s)"
    using assms(1) b1 by (simp add: nos_buffer_push_def Let_def upd_buf_def upd_bin_def get_buf_def valid_buf_def)
  ultimately show ?thesis using True pull b1 by auto
qed (simp add: nos_buffer_pull_def Let_def not_le)

section \<open>Chunks in memory\<close>

lemma and_not_mask6: "x AND NOT (mask 6) = push_bit 6 (drop_bit 6 x)" for x :: u32
  by (rule bit_word_eqI) (auto simp: bit_simps)

lemma unat_align_chunk:
  assumes "unat sz + 63 < 2 ^ 32"
  shows "unat (align_chunk sz) = (unat sz + 63) div 64 * 64"
proof -
  have a: "align_chunk sz = (sz + 63) AND NOT (mask 6)"
    by (simp add: align_chunk_def CACHE_LINE_SIZE_def mask_eq_exp_minus_1 add.commute)
  have s: "unat (sz + 63) = unat sz + 63" using assms unat_plus_no_wrap[of sz 63] by simp
  have "(unat sz + 63) div 64 * 64 < 2 ^ 32"
    using assms by (simp add: order_le_less_trans[OF div_times_less_eq_dividend])
  then show ?thesis
    unfolding a and_not_mask6 by (simp add: push_bit_eq_mult drop_bit_eq_div unat_word_ariths unat_div s)
qed

lemma chunk_offset:
  fixes csize cnt :: u32
  assumes "unat csize * unat cnt < 2 ^ 32" "j < unat cnt"
  shows "unat (of_nat j * csize :: u32) = j * unat csize" "j * unat csize + unat csize \<le> unat csize * unat cnt"
proof -
  have "(j + 1) * unat csize \<le> unat cnt * unat csize" using assms(2) by (intro mult_right_mono) auto
  then show le: "j * unat csize + unat csize \<le> unat csize * unat cnt" by (simp add: mult.commute)
  then have "j * unat csize < 2 ^ 32" using assms(1) by linarith
  moreover have "j < 2 ^ 32" using assms(2) unat_lt_2_32[of cnt] by linarith
  ultimately show "unat (of_nat j * csize :: u32) = j * unat csize"
    by (simp add: unat_word_ariths unat_of_nat)
qed

text \<open>
  The chunks of a bin.  When the product of chunk size and chunk count fits 32 bits, the
  chunk size is the configured size rounded up to the cache line, every chunk starts on a
  multiple of the cache line and lies inside the allocated region, and the chunks of two
  buffers do not overlap.
\<close>

theorem buffer_chunk_regions:
  assumes "init_bin ma i c = Some b" "unat (def_chunk_size c) + 63 < 2 ^ 32"
    and "unat (chunk_size b) * unat (def_chunk_count c) < 2 ^ 32"
    and "j < k" "k < unat (def_chunk_count c)"
  shows "unat (def_chunk_size c) \<le> unat (chunk_size b) \<and> unat (chunk_size b) < unat (def_chunk_size c) + 64
    \<and> 64 dvd raw_data (buffers b ! k)
    \<and> raw_data (buffers b ! j) + uint (chunk_size b) \<le> raw_data (buffers b ! k)
    \<and> raw_data (buffers b ! k) + uint (chunk_size b) \<le> uint (raw_mem_size b)"
proof -
  let ?cs = "align_chunk (def_chunk_size c)" and ?n = "def_chunk_count c"
  have b: "chunk_size b = ?cs" "raw_mem_size b = ?cs * ?n"
    "\<And>j. j < unat ?n \<Longrightarrow> raw_data (buffers b ! j) = int (unat (of_nat j * ?cs :: u32))"
    using assms(1) by (auto simp: init_bin_def Let_def init_buffer_def split: option.splits)
  have fit: "unat ?cs * unat ?n < 2 ^ 32" using assms(3) b(1) by simp
  have raw: "raw_data (buffers b ! j) = int (j * unat ?cs)" if "j < unat ?n" for j
    using b(3)[OF that] chunk_offset(1)[OF fit that] by simp
  have cs: "unat ?cs = (unat (def_chunk_size c) + 63) div 64 * 64" using assms(2) by (rule unat_align_chunk)
  have reg: "uint (raw_mem_size b) = int (unat ?cs * unat ?n)"
    using unat_mult_no_wrap[of ?cs ?n] fit unfolding b(2) uint_nat by simp
  have kj: "(j + 1) * unat ?cs \<le> k * unat ?cs" using assms(4) by (intro mult_right_mono) auto
  have jn: "j < unat ?n" using assms(4,5) by simp
  have "j * unat ?cs + unat ?cs \<le> k * unat ?cs" using kj by simp
  then have "int (j * unat ?cs) + int (unat ?cs) \<le> int (k * unat ?cs)" by linarith
  moreover have "int (k * unat ?cs) + int (unat ?cs) \<le> int (unat ?cs * unat ?n)"
    using chunk_offset(2)[OF fit assms(5)] by linarith
  moreover have "64 dvd int (k * unat ?cs)" unfolding cs by simp
  moreover have "unat (def_chunk_size c) \<le> unat ?cs" "unat ?cs < unat (def_chunk_size c) + 64"
    unfolding cs by linarith+
  ultimately show ?thesis
    unfolding raw[OF jn] raw[OF assms(5)] b(1) by (simp add: reg)
qed

section \<open>Concrete pools\<close>

text \<open>A small pool used to evaluate the operations on concrete inputs.\<close>

definition demo_memalign :: "nat \<Rightarrow> u32 \<Rightarrow> u8 list option" where
  "demo_memalign i n = Some (replicate (unat n) 0)"

definition demo_config :: "nos_buffer_pool_def_t list" where
  "demo_config = [\<lparr>def_chunk_size = 60, def_chunk_count = 2\<rparr>, \<lparr>def_chunk_size = 128, def_chunk_count = 1\<rparr>]"

definition demo_pool :: buf_state where
  "demo_pool = (case nos_buffer_init_pool demo_memalign (Some demo_config) \<lparr>g_bins = [], g_reply_ctxs = (\<lambda>_. None)\<rparr> of
     Some (_, s) \<Rightarrow> s | None \<Rightarrow> \<lparr>g_bins = [], g_reply_ctxs = (\<lambda>_. None)\<rparr>)"

lemma demo_pool_init:
  "nos_buffer_init_pool demo_memalign (Some demo_config) \<lparr>g_bins = [], g_reply_ctxs = (\<lambda>_. None)\<rparr> = Some (NOS_OK, demo_pool)"
  by (simp add: demo_pool_def nos_buffer_init_pool_def demo_config_def init_bin_def demo_memalign_def MAX_BINS_def Let_def)

lemma demo_pool_reachable: "pool_reachable demo_memalign demo_config demo_pool"
  by (rule pool_start[OF _ demo_pool_init]) simp

lemma demo_pool_ok: "pool_ok demo_pool"
  using pool_ok_init[OF demo_pool_init] by (simp add: pool_ok_def)

lemma demo_bufs_ok: "bufs_ok demo_pool"
  unfolding bufs_ok_iff by code_simp

definition demo_held :: buf_state where
  "demo_held = nos_buffer_retain (Some (0, 1)) (snd (nos_buffer_alloc 40 8 demo_pool))"

lemma demo_alloc_fst: "fst (nos_buffer_alloc 40 8 demo_pool) = Some (0, 1)"
  by code_simp

lemma demo_alloc: "nos_buffer_alloc 40 8 demo_pool = (Some (0, 1), snd (nos_buffer_alloc 40 8 demo_pool))"
  by (metis prod.collapse demo_alloc_fst)

lemma demo_held_ok: "pool_ok demo_held" "valid_buf demo_held (0, 1)" "ref_cnt (get_buf demo_held (0, 1)) = int 2"
  "buf_ok (get_buf demo_held (0, 1))"
proof -
  have "pool_ok (snd (nos_buffer_alloc 40 8 demo_pool))"
    using pool_ok_alloc[OF demo_pool_ok demo_alloc] .
  moreover have "valid_buf (snd (nos_buffer_alloc 40 8 demo_pool)) (0, 1)"
    "1 \<le> ref_cnt (get_buf (snd (nos_buffer_alloc 40 8 demo_pool)) (0, 1))" by code_simp+
  ultimately show "pool_ok demo_held" unfolding demo_held_def by (rule pool_ok_retain)
  show "valid_buf demo_held (0, 1)" "ref_cnt (get_buf demo_held (0, 1)) = int 2" "buf_ok (get_buf demo_held (0, 1))"
    by code_simp+
qed


theorem buffer_alloc_correct_witness:
  "fst (nos_buffer_alloc 40 8 demo_pool) = Some (0, 1)
   \<and> ref_cnt (get_buf (snd (nos_buffer_alloc 40 8 demo_pool)) (0, 1)) = 1
   \<and> bufs_ok (snd (nos_buffer_alloc 40 8 demo_pool))"
  using buffer_alloc_correct[OF demo_pool_ok demo_bufs_ok _ demo_alloc] demo_alloc_fst by simp

theorem buffer_alloc_fails_iff_witness:
  "(fst (nos_buffer_alloc 1000 0 demo_pool) = None) =
    (\<forall>i < length (g_bins demo_pool). 1000 + 0 \<le> chunk_size (g_bins demo_pool ! i) \<longrightarrow>
       (\<forall>j < length (buffers (g_bins demo_pool ! i)). 0 < ref_cnt (get_buf demo_pool (i, j))))"
  using buffer_alloc_fails_iff[OF demo_pool_ok] by blast

theorem buffer_release_balanced_witness:
  "snd (0::nat, 1::nat) \<in> set (bin_avail (g_bins ((nos_buffer_release (Some (0, 1)) ^^ 2) demo_held) ! fst (0::nat, 1::nat)))"
  using buffer_release_balanced[OF demo_held_ok(1-3), of 2] by blast

theorem buffer_pull_push_roundtrip_witness:
  "\<exists>s1. nos_buffer_pull (Some (0, 1)) 16 demo_held = (Some (data (get_buf demo_held (0, 1)) + uint (16 :: u32)), s1)
     \<and> buf_ok (get_buf s1 (0, 1)) \<and> nos_buffer_push (Some (0, 1)) 16 s1 = (Some (data (get_buf demo_held (0, 1))), demo_held)"
proof -
  have "(16 :: u32) \<le> len (get_buf demo_held (0, 1))" by code_simp
  then show ?thesis using buffer_pull_push_roundtrip[OF demo_held_ok(2,4), of 16] by simp
qed

theorem buffer_chunk_regions_witness:
  "\<exists>b. init_bin demo_memalign 0 (demo_config ! 0) = Some b \<and>
     raw_data (buffers b ! 0) + uint (chunk_size b) \<le> raw_data (buffers b ! 1)"
proof -
  obtain b where b: "init_bin demo_memalign 0 (demo_config ! 0) = Some b"
    by (simp add: init_bin_def Let_def demo_memalign_def)
  have cs: "chunk_size b = align_chunk 60" "align_chunk 60 = 64"
    using b by (auto simp: init_bin_def Let_def demo_memalign_def demo_config_def align_chunk_def CACHE_LINE_SIZE_def)
  have c: "def_chunk_size (demo_config ! 0) = 60" "def_chunk_count (demo_config ! 0) = 2"
    by (simp_all add: demo_config_def)
  show ?thesis using b buffer_chunk_regions[OF b, of 0 1] cs c by simp
qed

text \<open>
  Overflow.  The size computation of the allocator wraps: a request whose size and head room
  add up to \<open>2 ^ 32\<close> is served from the smallest bin with a buffer whose length exceeds its
  capacity.
\<close>

theorem buffer_alloc_overflow:
  "\<exists>sz hr p s'. pool_reachable demo_memalign demo_config demo_pool
     \<and> nos_buffer_alloc sz hr demo_pool = (Some p, s')
     \<and> capacity (get_buf s' p) < len (get_buf s' p) \<and> \<not> buf_ok (get_buf s' p)"
proof -
  let ?s = "snd (nos_buffer_alloc 0xFFFFFFFF 1 demo_pool)"
  have "fst (nos_buffer_alloc 0xFFFFFFFF 1 demo_pool) = Some (0, 1)" by code_simp
  then have "nos_buffer_alloc 0xFFFFFFFF 1 demo_pool = (Some (0, 1), ?s)" by (metis prod.collapse)
  moreover have "capacity (get_buf ?s (0, 1)) < len (get_buf ?s (0, 1))" "\<not> buf_ok (get_buf ?s (0, 1))"
    by code_simp+
  ultimately show ?thesis using demo_pool_reachable by blast
qed

end
