(* ===== verification/Nos_Heap.thy ===== *)
theory Nos_Heap
  imports Nos_Types
begin

text \<open>
  The array min-heap of \<^verbatim>\<open>src/core/nos_scheduler.c\<close> that orders the timers of a thread by
  expiry time.  \<open>nodes\<close> is the fixed array, \<open>hsize\<close> the number of entries in use; the key of a
  node is read through the function \<open>k\<close> (the field \<^verbatim>\<open>expire_at_ms\<close> of the timer the node
  points to).  The indices stay below the capacity of 128, so they are natural numbers.
  The locale \<open>expiry_queue\<close> is the contract the scheduler relies on.
\<close>

record 'a nos_timer_heap_t =
  nodes :: "'a list"
  hsize :: nat
  hcapacity :: nat

abbreviation par :: "nat \<Rightarrow> nat" where
  "par i \<equiv> (i - 1) div 2"

definition swap_nodes :: "'a list \<Rightarrow> nat \<Rightarrow> nat \<Rightarrow> 'a list" where
  "swap_nodes xs i j = xs[i := xs ! j, j := xs ! i]"

function heapify_up :: "('a \<Rightarrow> 'k::linorder) \<Rightarrow> 'a list \<Rightarrow> nat \<Rightarrow> 'a list" where
  "heapify_up k xs idx =
    (if idx > 0 then
       (let parent = (idx - 1) div 2 in
        if k (xs ! idx) \<ge> k (xs ! parent) then xs
        else heapify_up k (swap_nodes xs idx parent) parent)
     else xs)"
  by pat_completeness auto
termination
  by (relation "measure (\<lambda>(k, xs, idx). idx)") auto

declare heapify_up.simps [simp del]

definition smallest_child :: "('a \<Rightarrow> 'k::linorder) \<Rightarrow> 'a list \<Rightarrow> nat \<Rightarrow> nat \<Rightarrow> nat" where
  "smallest_child k xs n idx =
    (let left = idx * 2 + 1; right = idx * 2 + 2 in
     if right < n \<and> k (xs ! right) < k (xs ! left) then right else left)"

lemma smallest_child_gt: "idx < smallest_child k xs n idx"
  by (simp add: smallest_child_def Let_def)

lemma smallest_child_cases: "smallest_child k xs n idx = idx * 2 + 1 \<or> smallest_child k xs n idx = idx * 2 + 2"
  by (simp add: smallest_child_def Let_def)

lemma smallest_child_less: "idx * 2 + 1 < n \<Longrightarrow> smallest_child k xs n idx < n"
  by (simp add: smallest_child_def Let_def)

lemma par_smallest_child: "par (smallest_child k xs n idx) = idx"
  using smallest_child_cases[of k xs n idx] by auto

lemma smallest_child_le: "0 < j \<Longrightarrow> j < n \<Longrightarrow> par j = idx \<Longrightarrow> k (xs ! smallest_child k xs n idx) \<le> k (xs ! j)"
proof -
  assume j: "0 < j" "j < n" "par j = idx"
  then have "j = idx * 2 + 1 \<or> j = idx * 2 + 2" by linarith
  then show ?thesis using j(2) by (auto simp: smallest_child_def Let_def)
qed

function heapify_down :: "('a \<Rightarrow> 'k::linorder) \<Rightarrow> 'a list \<Rightarrow> nat \<Rightarrow> nat \<Rightarrow> 'a list" where
  "heapify_down k xs n idx =
    (if idx * 2 + 1 < n then
       (let smallest = smallest_child k xs n idx in
        if k (xs ! idx) \<le> k (xs ! smallest) then xs
        else heapify_down k (swap_nodes xs idx smallest) n smallest)
     else xs)"
  by pat_completeness auto
termination
  by (relation "measure (\<lambda>(k, xs, n, idx). n - idx)") (auto simp: smallest_child_def Let_def)

declare heapify_down.simps [simp del]

lemma heapify_down_beyond: "n \<le> i \<Longrightarrow> heapify_down k xs n i = xs"
  by (simp add: heapify_down.simps[of k xs n i])

section \<open>Heap order\<close>

definition heap_from :: "('a \<Rightarrow> 'k::linorder) \<Rightarrow> 'a list \<Rightarrow> nat \<Rightarrow> nat \<Rightarrow> bool" where
  "heap_from k xs n l \<longleftrightarrow> (\<forall>j. 0 < j \<and> j < n \<and> l \<le> par j \<longrightarrow> k (xs ! par j) \<le> k (xs ! j))"

abbreviation is_heap :: "('a \<Rightarrow> 'k::linorder) \<Rightarrow> 'a list \<Rightarrow> nat \<Rightarrow> bool" where
  "is_heap k xs n \<equiv> heap_from k xs n 0"

text \<open>Heap order from \<open>l\<close> on, except that node \<open>i\<close> may be larger than its children.\<close>

definition down_ok :: "('a \<Rightarrow> 'k::linorder) \<Rightarrow> 'a list \<Rightarrow> nat \<Rightarrow> nat \<Rightarrow> nat \<Rightarrow> bool" where
  "down_ok k xs n l i \<longleftrightarrow> l \<le> i
     \<and> (\<forall>j. 0 < j \<and> j < n \<and> l \<le> par j \<and> par j \<noteq> i \<longrightarrow> k (xs ! par j) \<le> k (xs ! j))
     \<and> (\<forall>j. 0 < j \<and> j < n \<and> par j = i \<and> 0 < i \<and> l \<le> par i \<longrightarrow> k (xs ! par i) \<le> k (xs ! j))"

text \<open>Heap order, except that node \<open>i\<close> may be smaller than its parent.\<close>

definition up_ok :: "('a \<Rightarrow> 'k::linorder) \<Rightarrow> 'a list \<Rightarrow> nat \<Rightarrow> nat \<Rightarrow> bool" where
  "up_ok k xs n i \<longleftrightarrow>
     (\<forall>j. 0 < j \<and> j < n \<and> j \<noteq> i \<longrightarrow> k (xs ! par j) \<le> k (xs ! j))
     \<and> (\<forall>j. 0 < j \<and> j < n \<and> par j = i \<and> 0 < i \<longrightarrow> k (xs ! par i) \<le> k (xs ! j))"

lemma par_less: "0 < j \<Longrightarrow> par j < j"
  by linarith

lemma length_swap_nodes [simp]: "length (swap_nodes xs i j) = length xs"
  by (simp add: swap_nodes_def)

lemma swap_nodes_nth:
  "i < length xs \<Longrightarrow> j < length xs \<Longrightarrow> m < length xs \<Longrightarrow>
     swap_nodes xs i j ! m = (if m = i then xs ! j else if m = j then xs ! i else xs ! m)"
  by (auto simp: swap_nodes_def nth_list_update)

lemma take_swap_nodes:
  "i < n \<Longrightarrow> j < n \<Longrightarrow> n \<le> length xs \<Longrightarrow> take n (swap_nodes xs i j) = swap_nodes (take n xs) i j"
  by (simp add: swap_nodes_def take_update_swap)

lemma mset_swap_nodes:
  "i < n \<Longrightarrow> j < n \<Longrightarrow> n \<le> length xs \<Longrightarrow> mset (take n (swap_nodes xs i j)) = mset (take n xs)"
  using mset_swap[of j "take n xs" i] by (simp add: take_swap_nodes) (simp add: swap_nodes_def)

lemma heapify_up_props:
  assumes "up_ok k xs n i" "i < n" "n \<le> length xs"
  shows "is_heap k (heapify_up k xs i) n \<and> length (heapify_up k xs i) = length xs
    \<and> mset (take n (heapify_up k xs i)) = mset (take n xs)"
  using assms
proof (induction k xs i rule: heapify_up.induct)
  case (1 k xs i)
  show ?case
  proof (cases "i > 0 \<and> k (xs ! i) < k (xs ! par i)")
    case True
    let ?p = "par i" and ?ys = "swap_nodes xs i (par i)"
    have b: "?p < n" "i < n" "i < length xs" "?p < length xs" "?p \<noteq> i" using True "1.prems" by auto
    have nth: "?ys ! m = (if m = i then xs ! ?p else if m = ?p then xs ! i else xs ! m)" if "m < n" for m
      using that b "1.prems" by (intro swap_nodes_nth) auto
    have up: "up_ok k ?ys n ?p"
      unfolding up_ok_def
    proof (intro conjI allI impI)
      fix j assume j: "0 < j \<and> j < n \<and> j \<noteq> ?p"
      then have pn: "par j < n" by auto
      consider "j = i" | "j \<noteq> i" "par j = i" | "j \<noteq> i" "par j = ?p" | "j \<noteq> i" "par j \<noteq> i" "par j \<noteq> ?p" by blast
      then show "k (?ys ! par j) \<le> k (?ys ! j)"
      proof cases
        case 1
        then show ?thesis using True nth[of i] nth[of ?p] b by (simp add: less_imp_le)
      next
        case 2
        then have "k (xs ! ?p) \<le> k (xs ! j)" using "1.prems"(1) j True unfolding up_ok_def by blast
        then show ?thesis using 2 nth[of j] nth[of i] j b by simp
      next
        case 3
        then have "k (xs ! par j) \<le> k (xs ! j)" using "1.prems"(1) j unfolding up_ok_def by blast
        then have "k (xs ! i) \<le> k (xs ! j)" using True 3 by (auto intro: order_trans less_imp_le)
        then show ?thesis using 3 nth[of j] nth[of ?p] j b by simp
      next
        case 4
        then have "k (xs ! par j) \<le> k (xs ! j)" using "1.prems"(1) j unfolding up_ok_def by blast
        then show ?thesis using 4 nth[of j] nth[of "par j"] j pn by simp
      qed
    next
      fix j assume j: "0 < j \<and> j < n \<and> par j = ?p \<and> 0 < ?p"
      then have "par ?p < ?p" "?p < i" using True par_less by (blast, linarith)
      then have "par ?p < n" "par ?p \<noteq> i" "par ?p \<noteq> ?p" using b by linarith+
      then have "?ys ! par ?p = xs ! par ?p" using nth[of "par ?p"] by simp
      moreover have "k (xs ! par ?p) \<le> k (xs ! ?p)" using "1.prems"(1) j b by (auto simp: up_ok_def)
      moreover have "k (xs ! ?p) \<le> k (xs ! j)" if "j \<noteq> i" using "1.prems"(1) j that by (metis up_ok_def)
      ultimately show "k (?ys ! par ?p) \<le> k (?ys ! j)"
        using nth[of j] j b par_less[of j] by (auto split: if_splits)
    qed
    have "is_heap k (heapify_up k ?ys ?p) n \<and> length (heapify_up k ?ys ?p) = length ?ys
      \<and> mset (take n (heapify_up k ?ys ?p)) = mset (take n ?ys)"
      using True up b "1.prems" by (intro "1.IH") auto
    moreover have "heapify_up k xs i = heapify_up k ?ys ?p"
      using True by (auto simp: heapify_up.simps[of k xs i] Let_def not_le)
    ultimately show ?thesis
      using mset_swap_nodes[of i n ?p xs] b "1.prems" by simp
  next
    case False
    then have "heapify_up k xs i = xs" by (auto simp: heapify_up.simps[of k xs i] not_less)
    moreover have "is_heap k xs n"
      using False "1.prems"(1) by (fastforce simp: up_ok_def heap_from_def not_less)
    ultimately show ?thesis by simp
  qed
qed

lemma heapify_down_props:
  assumes "n \<le> length xs" "i < n \<or> n = 0"
  shows "length (heapify_down k xs n i) = length xs \<and> mset (take n (heapify_down k xs n i)) = mset (take n xs)
    \<and> (down_ok k xs n l i \<longrightarrow> heap_from k (heapify_down k xs n i) n l)"
  using assms
proof (induction k xs n i rule: heapify_down.induct)
  case (1 k xs n i)
  let ?c = "smallest_child k xs n i"
  show ?case
  proof (cases "i * 2 + 1 < n \<and> k (xs ! ?c) < k (xs ! i)")
    case True
    let ?ys = "swap_nodes xs i ?c"
    have b: "i < n" "?c < n" "i < length xs" "?c < length xs" "i < ?c"
      using True "1.prems" smallest_child_less[of i n k xs] smallest_child_gt[of i k xs n] by auto
    have nth: "?ys ! m = (if m = i then xs ! ?c else if m = ?c then xs ! i else xs ! m)" if "m < n" for m
      using that b "1.prems" by (intro swap_nodes_nth) auto
    have "down_ok k ?ys n l ?c" if d: "down_ok k xs n l i"
      unfolding down_ok_def
    proof (intro conjI allI impI)
      show "l \<le> ?c" using d b by (simp add: down_ok_def)
    next
      fix j assume j: "0 < j \<and> j < n \<and> l \<le> par j \<and> par j \<noteq> ?c"
      have pn: "par j < n" using j by auto
      show "k (?ys ! par j) \<le> k (?ys ! j)"
      proof (cases "par j = i")
        case True
        then have "k (xs ! ?c) \<le> k (xs ! j)" using j smallest_child_le by blast
        then show ?thesis using True j pn nth[of j] nth[of "par j"] \<open>i * 2 + 1 < n \<and> k (xs ! ?c) < k (xs ! i)\<close>
          by auto
      next
        case False
        have "k (xs ! par i) \<le> k (xs ! ?c)" if "j = i"
          using d j b that par_smallest_child[of k xs n i] by (auto simp: down_ok_def)
        moreover have "j \<noteq> ?c" using False par_smallest_child[of k xs n i] by auto
        moreover have "k (xs ! par j) \<le> k (xs ! j)" using d j False by (simp add: down_ok_def)
        ultimately show ?thesis using False j pn nth[of j] nth[of "par j"] by auto
      qed
    next
      fix j assume j: "0 < j \<and> j < n \<and> par j = ?c \<and> 0 < ?c \<and> l \<le> par ?c"
      have "j \<noteq> i" "j \<noteq> ?c" using j b par_less[of j] by auto
      moreover have "k (xs ! ?c) \<le> k (xs ! j)" using d j b by (auto simp: down_ok_def)
      ultimately show "k (?ys ! par ?c) \<le> k (?ys ! j)"
        using j b nth[of j] nth[of i] par_smallest_child[of k xs n i] by auto
    qed
    moreover have "length (heapify_down k ?ys n ?c) = length ?ys \<and> mset (take n (heapify_down k ?ys n ?c)) = mset (take n ?ys)
      \<and> (down_ok k ?ys n l ?c \<longrightarrow> heap_from k (heapify_down k ?ys n ?c) n l)"
      using True b "1.prems" by (intro "1.IH") auto
    moreover have "heapify_down k xs n i = heapify_down k ?ys n ?c"
      using True by (auto simp: heapify_down.simps[of k xs n i] Let_def not_le)
    ultimately show ?thesis
      using mset_swap_nodes[of i n ?c xs] b "1.prems" by simp
  next
    case False
    then have eq: "heapify_down k xs n i = xs" by (auto simp: heapify_down.simps[of k xs n i] Let_def not_less)
    have "heap_from k xs n l" if d: "down_ok k xs n l i"
      unfolding heap_from_def
    proof (intro allI impI)
      fix j assume j: "0 < j \<and> j < n \<and> l \<le> par j"
      show "k (xs ! par j) \<le> k (xs ! j)"
      proof (cases "par j = i")
        case True
        then have "i * 2 + 1 < n" using j by linarith
        then have "k (xs ! i) \<le> k (xs ! ?c)" using False by (simp add: not_less)
        also have "k (xs ! ?c) \<le> k (xs ! j)" using j True smallest_child_le by blast
        finally show ?thesis using True by simp
      qed (use d j in \<open>simp add: down_ok_def\<close>)
    qed
    then show ?thesis using eq by simp
  qed
qed

lemma heap_root_min:
  assumes "is_heap k xs n" "j < n"
  shows "k (xs ! 0) \<le> k (xs ! j)"
  using assms(2)
proof (induction j rule: less_induct)
  case (less j)
  show ?case
  proof (cases "j = 0")
    case False
    then have "k (xs ! 0) \<le> k (xs ! par j)" using less.IH[of "par j"] less.prems by auto
    also have "\<dots> \<le> k (xs ! j)" using assms(1) False less.prems by (simp add: heap_from_def)
    finally show ?thesis .
  qed simp
qed

lemma heap_cong:
  assumes "\<And>x. x \<in> set (take n xs) \<Longrightarrow> k x = k' x" "n \<le> length xs"
  shows "heap_from k xs n l = heap_from k' xs n l"
proof -
  have "k (xs ! j) = k' (xs ! j)" if "j < n" for j
    using assms that by (metis in_set_conv_nth length_take min.absorb2 nth_take)
  moreover have "par j < n" if "0 < j" "j < n" for j using that by auto
  ultimately show ?thesis unfolding heap_from_def by (metis (no_types, lifting))
qed


section \<open>Heap operations\<close>

text \<open>
  \<open>heap_push\<close> is the insertion of \<^verbatim>\<open>nos_timer_start\<close> and \<^verbatim>\<open>process_timers\<close>,
  \<open>heap_pop\<close> the extraction of \<^verbatim>\<open>process_timers\<close>, \<open>heap_remove_at\<close> the removal of
  \<^verbatim>\<open>nos_timer_stop\<close> and \<^verbatim>\<open>nos_timer_delete\<close>, \<open>heap_retain\<close> the compaction and
  rebuild of \<^verbatim>\<open>nos_scheduler_cancel_timers_by_owner\<close>.
\<close>

definition heap_insert :: "('a \<Rightarrow> 'k::linorder) \<Rightarrow> 'a \<Rightarrow> 'a nos_timer_heap_t \<Rightarrow> 'a nos_timer_heap_t" where
  "heap_insert k x h = h\<lparr>nodes := heapify_up k ((nodes h)[hsize h := x]) (hsize h), hsize := hsize h + 1\<rparr>"

definition heap_push :: "('a \<Rightarrow> 'k::linorder) \<Rightarrow> 'a \<Rightarrow> 'a nos_timer_heap_t \<Rightarrow> 'a nos_timer_heap_t option" where
  "heap_push k x h = (if hsize h \<ge> hcapacity h then None else Some (heap_insert k x h))"

definition heap_remove_at :: "('a \<Rightarrow> 'k::linorder) \<Rightarrow> nat \<Rightarrow> 'a nos_timer_heap_t \<Rightarrow> 'a nos_timer_heap_t" where
  "heap_remove_at k i h =
    h\<lparr>nodes := heapify_down k (swap_remove (nodes h) (hsize h) i) (hsize h - 1) i, hsize := hsize h - 1\<rparr>"

definition heap_pop :: "('a \<Rightarrow> 'k::linorder) \<Rightarrow> 'a nos_timer_heap_t \<Rightarrow> ('a \<times> 'a nos_timer_heap_t) option" where
  "heap_pop k h = (if hsize h = 0 then None else Some (nodes h ! 0, heap_remove_at k 0 h))"

text \<open>The rebuild loop, from \<^verbatim>\<open>size / 2 - 1\<close> down to 0.\<close>

fun heap_rebuild :: "('a \<Rightarrow> 'k::linorder) \<Rightarrow> 'a list \<Rightarrow> nat \<Rightarrow> nat \<Rightarrow> 'a list" where
  "heap_rebuild k xs n 0 = xs"
| "heap_rebuild k xs n (Suc i) = heap_rebuild k (heapify_down k xs n i) n i"

definition heap_reset :: "('a \<Rightarrow> 'k::linorder) \<Rightarrow> 'a list \<Rightarrow> 'a nos_timer_heap_t \<Rightarrow> 'a nos_timer_heap_t" where
  "heap_reset k kept h =
    (let n = length kept in
     h\<lparr>nodes := heap_rebuild k (kept @ drop n (nodes h)) n (n div 2), hsize := n\<rparr>)"

definition heap_retain :: "('a \<Rightarrow> 'k::linorder) \<Rightarrow> ('a \<Rightarrow> bool) \<Rightarrow> 'a nos_timer_heap_t \<Rightarrow> 'a nos_timer_heap_t" where
  "heap_retain k P h = heap_reset k (filter P (take (hsize h) (nodes h))) h"

definition heap_items :: "'a nos_timer_heap_t \<Rightarrow> 'a multiset" where
  "heap_items h = mset (take (hsize h) (nodes h))"

definition heap_shape :: "'a nos_timer_heap_t \<Rightarrow> bool" where
  "heap_shape h \<longleftrightarrow> hsize h \<le> hcapacity h \<and> length (nodes h) = hcapacity h"

definition heap_inv :: "('a \<Rightarrow> 'k::linorder) \<Rightarrow> nat \<Rightarrow> 'a nos_timer_heap_t \<Rightarrow> bool" where
  "heap_inv k c h \<longleftrightarrow> heap_shape h \<and> hcapacity h = c \<and> is_heap k (nodes h) (hsize h)"

lemma size_heap_items: "heap_shape h \<Longrightarrow> size (heap_items h) = hsize h"
  by (simp add: heap_items_def heap_shape_def)

lemma set_heap_items: "set_mset (heap_items h) = set (take (hsize h) (nodes h))"
  by (simp add: heap_items_def)

lemma heap_items_empty_iff: "heap_shape h \<Longrightarrow> heap_items h = {#} \<longleftrightarrow> hsize h = 0"
  using size_heap_items[of h] by (metis size_eq_0_iff_empty)

lemma up_ok_append: "is_heap k xs n \<Longrightarrow> n < length xs \<Longrightarrow> up_ok k (xs[n := x]) (n + 1) n"
proof -
  assume h: "is_heap k xs n" "n < length xs"
  have "k (xs[n := x] ! par j) \<le> k (xs[n := x] ! j)" if "0 < j" "j < n + 1" "j \<noteq> n" for j
    using that h par_less[of j] by (simp add: heap_from_def)
  moreover have "par j \<noteq> n" if "0 < j" "j < n + 1" for j using that by auto
  ultimately show ?thesis unfolding up_ok_def by blast
qed

text \<open>Sifting up permutes the array whatever its order is.\<close>

lemma heapify_up_perm:
  assumes "i < n" "n \<le> length xs"
  shows "length (heapify_up k xs i) = length xs \<and> mset (take n (heapify_up k xs i)) = mset (take n xs)"
  using assms
proof (induction k xs i rule: heapify_up.induct)
  case (1 k xs i)
  show ?case
  proof (cases "i > 0 \<and> k (xs ! i) < k (xs ! par i)")
    case True
    let ?ys = "swap_nodes xs i (par i)"
    have p: "par i < n" using True "1.prems" by auto
    have "length (heapify_up k ?ys (par i)) = length ?ys \<and> mset (take n (heapify_up k ?ys (par i))) = mset (take n ?ys)"
      using True p "1.prems" by (intro "1.IH") auto
    moreover have "heapify_up k xs i = heapify_up k ?ys (par i)"
      using True by (auto simp: heapify_up.simps[of k xs i] Let_def not_le)
    ultimately show ?thesis using mset_swap_nodes[of i n "par i" xs] p "1.prems" by simp
  next
    case False
    then have "heapify_up k xs i = xs" by (auto simp: heapify_up.simps[of k xs i] not_less)
    then show ?thesis by simp
  qed
qed

lemma heap_insert_items:
  assumes "heap_shape h" "hsize h < hcapacity h"
  shows "heap_shape (heap_insert k x h)" "heap_items (heap_insert k x h) = add_mset x (heap_items h)"
    "hcapacity (heap_insert k x h) = hcapacity h"
proof -
  let ?n = "hsize h" and ?xs = "(nodes h)[hsize h := x]"
  have l: "length (nodes h) = hcapacity h" using assms by (simp add: heap_shape_def)
  have "length (heapify_up k ?xs ?n) = length ?xs \<and> mset (take (?n + 1) (heapify_up k ?xs ?n)) = mset (take (?n + 1) ?xs)"
    using assms l by (intro heapify_up_perm) auto
  moreover have "take (?n + 1) ?xs = take ?n (nodes h) @ [x]" using assms l by (simp add: take_Suc_conv_app_nth)
  ultimately show "heap_shape (heap_insert k x h)" "heap_items (heap_insert k x h) = add_mset x (heap_items h)"
    "hcapacity (heap_insert k x h) = hcapacity h"
    using assms l by (auto simp: heap_insert_def heap_shape_def heap_items_def)
qed

lemma heap_push_spec:
  assumes "heap_inv k c h" "hsize h < c"
  shows "\<exists>h'. heap_push k x h = Some h' \<and> heap_inv k c h' \<and> heap_items h' = add_mset x (heap_items h)"
proof -
  let ?n = "hsize h" and ?xs = "(nodes h)[hsize h := x]"
  have sh: "length (nodes h) = c" "hcapacity h = c" "?n < length ?xs" "is_heap k (nodes h) ?n"
    using assms by (auto simp: heap_inv_def heap_shape_def)
  have "up_ok k ?xs (?n + 1) ?n" using sh by (intro up_ok_append) auto
  from heapify_up_props[OF this] sh have p:
    "is_heap k (heapify_up k ?xs ?n) (?n + 1)" "length (heapify_up k ?xs ?n) = c"
    "mset (take (?n + 1) (heapify_up k ?xs ?n)) = mset (take (?n + 1) ?xs)" by auto
  have "take (?n + 1) ?xs = take ?n (nodes h) @ [x]" using sh by (simp add: take_Suc_conv_app_nth)
  then show ?thesis using p sh assms(2)
    by (auto simp: heap_push_def heap_insert_def heap_inv_def heap_shape_def heap_items_def)
qed

lemma heap_remove_items:
  assumes "heap_shape h" "i < hsize h"
  shows "heap_shape (heap_remove_at k i h)" "heap_items (heap_remove_at k i h) = heap_items h - {#nodes h ! i#}"
    and "hcapacity (heap_remove_at k i h) = hcapacity h" "hsize (heap_remove_at k i h) = hsize h - 1"
proof -
  let ?n = "hsize h - 1" and ?xs = "swap_remove (nodes h) (hsize h) i"
  have l: "?n \<le> length ?xs" "length ?xs = hcapacity h" using assms by (auto simp: heap_shape_def)
  have p: "length (heapify_down k ?xs ?n i) = length ?xs \<and> mset (take ?n (heapify_down k ?xs ?n i)) = mset (take ?n ?xs)"
  proof (cases "i < ?n")
    case True
    then show ?thesis using heapify_down_props[OF l(1), of i k] by blast
  next
    case False
    then show ?thesis by (simp add: heapify_down_beyond)
  qed
  then show "heap_shape (heap_remove_at k i h)" "heap_items (heap_remove_at k i h) = heap_items h - {#nodes h ! i#}"
    using assms l mset_swap_remove[of i "hsize h" "nodes h"]
    by (auto simp: heap_shape_def heap_remove_at_def heap_items_def)
  show "hcapacity (heap_remove_at k i h) = hcapacity h" "hsize (heap_remove_at k i h) = hsize h - 1"
    by (simp_all add: heap_remove_at_def)
qed

text \<open>
  Removing the node at \<open>i\<close> only sifts down.  That restores heap order when the node moved in from
  the end is not smaller than the parent of \<open>i\<close>, in particular at the root.
\<close>

lemma heap_remove_at_heap:
  assumes "heap_inv k c h" "i < hsize h"
    and "0 < i \<Longrightarrow> k (nodes h ! par i) \<le> k (nodes h ! (hsize h - 1))"
  shows "heap_inv k c (heap_remove_at k i h)"
proof -
  let ?n = "hsize h - 1" and ?xs = "swap_remove (nodes h) (hsize h) i"
  have sh: "heap_shape h" "hcapacity h = c" "is_heap k (nodes h) (hsize h)" "?n < hsize h" "hsize h \<le> length (nodes h)"
    using assms by (auto simp: heap_inv_def heap_shape_def)
  have ord: "k (nodes h ! par j) \<le> k (nodes h ! j)" if "0 < j" "j < hsize h" for j
    using sh(3) that by (simp add: heap_from_def)
  have nth: "?xs ! m = (if m = i then nodes h ! ?n else nodes h ! m)" if "m < ?n" for m
    using that sh assms(2) by (auto simp: swap_remove_def nth_list_update)
  have "down_ok k ?xs ?n 0 i"
    unfolding down_ok_def
  proof (intro conjI allI impI)
    fix j assume j: "0 < j \<and> j < ?n \<and> 0 \<le> par j \<and> par j \<noteq> i"
    then have "par j < ?n" by auto
    then show "k (?xs ! par j) \<le> k (?xs ! j)" using j nth ord[of j] assms(3) by auto
  next
    fix j assume j: "0 < j \<and> j < ?n \<and> par j = i \<and> 0 < i \<and> 0 \<le> par i"
    then have "i < j" "par i < i" using par_less[of j] par_less[of i] by auto
    then have "i < hsize h" "j < hsize h" using j by linarith+
    then have "k (nodes h ! par i) \<le> k (nodes h ! i)" "k (nodes h ! i) \<le> k (nodes h ! j)"
      using j ord[of i] ord[of j] by auto
    then show "k (?xs ! par i) \<le> k (?xs ! j)" using j \<open>i < j\<close> \<open>par i < i\<close> nth by (auto intro: order_trans)
  qed simp
  then have "is_heap k (heapify_down k ?xs ?n i) ?n"
  proof (cases "i < ?n")
    case True
    then show ?thesis using heapify_down_props[of ?n ?xs i k 0] sh \<open>down_ok k ?xs ?n 0 i\<close> by simp
  next
    case False
    have "is_heap k ?xs ?n" unfolding heap_from_def
    proof (intro allI impI)
      fix j assume j: "0 < j \<and> j < ?n \<and> 0 \<le> par j"
      then have "par j < ?n" by auto
      then show "k (?xs ! par j) \<le> k (?xs ! j)" using j nth ord[of j] False by auto
    qed
    then show ?thesis using False by (simp add: heapify_down_beyond)
  qed
  then show ?thesis
    using heap_remove_items[OF sh(1) assms(2), of k] sh by (simp add: heap_inv_def) (simp add: heap_remove_at_def)
qed

lemma heap_pop_spec:
  assumes "heap_inv k c h" "0 < hsize h"
  shows "\<exists>x h'. heap_pop k h = Some (x, h') \<and> heap_inv k c h' \<and> x \<in># heap_items h
    \<and> heap_items h' = heap_items h - {#x#} \<and> (\<forall>y \<in># heap_items h. k x \<le> k y)"
proof -
  have sh: "heap_shape h" "is_heap k (nodes h) (hsize h)" "hsize h \<le> length (nodes h)"
    using assms by (auto simp: heap_inv_def heap_shape_def)
  have "k (nodes h ! 0) \<le> k y" if "y \<in># heap_items h" for y
    using that heap_root_min[OF sh(2)] sh(3) by (auto simp: set_heap_items in_set_conv_nth)
  moreover have "nodes h ! 0 \<in># heap_items h"
    using assms(2) sh(3) by (auto simp: set_heap_items in_set_conv_nth)
  ultimately show ?thesis
    using heap_remove_at_heap[OF assms] heap_remove_items(2)[OF sh(1) assms(2)] assms(2)
    by (simp add: heap_pop_def)
qed

lemma heap_rebuild_props:
  assumes "n \<le> length xs" "i \<le> n div 2" "heap_from k xs n i"
  shows "is_heap k (heap_rebuild k xs n i) n \<and> length (heap_rebuild k xs n i) = length xs
    \<and> mset (take n (heap_rebuild k xs n i)) = mset (take n xs)"
  using assms
proof (induction i arbitrary: xs)
  case 0
  then show ?case by simp
next
  case (Suc i)
  have d: "down_ok k xs n i i"
    using Suc.prems(3) par_less[of i] by (auto simp: down_ok_def heap_from_def)
  have "i < n" using Suc.prems(2) by linarith
  then have p: "length (heapify_down k xs n i) = length xs"
    "mset (take n (heapify_down k xs n i)) = mset (take n xs)" "heap_from k (heapify_down k xs n i) n i"
    using heapify_down_props[of n xs i k i] Suc.prems(1) d by blast+
  show ?case using Suc.IH[of "heapify_down k xs n i"] Suc.prems p by auto
qed

lemma heap_from_half: "heap_from k xs n (n div 2)"
proof -
  have "\<not> n div 2 \<le> par j" if "0 < j" "j < n" for j using that by linarith
  then show ?thesis by (auto simp: heap_from_def)
qed

lemma heap_reset_spec:
  assumes "heap_shape h" "length kept \<le> hcapacity h"
  shows "heap_inv k (hcapacity h) (heap_reset k kept h)" "heap_items (heap_reset k kept h) = mset kept"
proof -
  let ?n = "length kept" and ?xs = "kept @ drop (length kept) (nodes h)"
  have l: "length ?xs = hcapacity h" using assms by (auto simp: heap_shape_def)
  then have "is_heap k (heap_rebuild k ?xs ?n (?n div 2)) ?n \<and> length (heap_rebuild k ?xs ?n (?n div 2)) = length ?xs
    \<and> mset (take ?n (heap_rebuild k ?xs ?n (?n div 2))) = mset (take ?n ?xs)"
    by (intro heap_rebuild_props heap_from_half) auto
  then show "heap_inv k (hcapacity h) (heap_reset k kept h)" "heap_items (heap_reset k kept h) = mset kept"
    using l assms(2) by (auto simp: heap_reset_def Let_def heap_inv_def heap_shape_def heap_items_def)
qed

lemma heap_retain_spec:
  assumes "heap_shape h"
  shows "heap_inv k (hcapacity h) (heap_retain k P h)"
    and "heap_items (heap_retain k P h) = filter_mset P (heap_items h)"
proof -
  let ?kept = "filter P (take (hsize h) (nodes h))"
  have "length ?kept \<le> hcapacity h"
    using length_filter_le[of P "take (hsize h) (nodes h)"] assms by (simp add: heap_shape_def)
  from heap_reset_spec[OF assms this, of k]
  show "heap_inv k (hcapacity h) (heap_retain k P h)" "heap_items (heap_retain k P h) = filter_mset P (heap_items h)"
    by (simp_all add: heap_retain_def heap_items_def mset_filter)
qed

section \<open>The expiry queue interface\<close>

locale expiry_queue =
  fixes key :: "'a \<Rightarrow> 'k::linorder"
    and cap :: nat
    and inv :: "'s \<Rightarrow> bool"
    and items :: "'s \<Rightarrow> 'a multiset"
    and push :: "'a \<Rightarrow> 's \<Rightarrow> 's option"
    and pop :: "'s \<Rightarrow> ('a \<times> 's) option"
  assumes items_bound: "inv s \<Longrightarrow> size (items s) \<le> cap"
    and push_full: "inv s \<Longrightarrow> size (items s) = cap \<Longrightarrow> push x s = None"
    and push_room: "inv s \<Longrightarrow> size (items s) < cap \<Longrightarrow>
      \<exists>s'. push x s = Some s' \<and> inv s' \<and> items s' = add_mset x (items s)"
    and pop_none: "inv s \<Longrightarrow> items s = {#} \<Longrightarrow> pop s = None"
    and pop_least: "inv s \<Longrightarrow> items s \<noteq> {#} \<Longrightarrow>
      \<exists>x s'. pop s = Some (x, s') \<and> inv s' \<and> x \<in># items s \<and> items s' = items s - {#x#}
        \<and> (\<forall>y \<in># items s. key x \<le> key y)"
begin

fun push_all :: "'a list \<Rightarrow> 's \<Rightarrow> 's option" where
  "push_all [] s = Some s"
| "push_all (x # xs) s = (case push x s of None \<Rightarrow> None | Some s' \<Rightarrow> push_all xs s')"

fun pop_n :: "nat \<Rightarrow> 's \<Rightarrow> 'a list \<times> 's" where
  "pop_n 0 s = ([], s)"
| "pop_n (Suc n) s = (case pop s of None \<Rightarrow> ([], s) | Some (x, s') \<Rightarrow> (case pop_n n s' of (xs, t) \<Rightarrow> (x # xs, t)))"

lemma push_all_room:
  "inv s \<Longrightarrow> size (items s) + length xs \<le> cap \<Longrightarrow>
     \<exists>s'. push_all xs s = Some s' \<and> inv s' \<and> items s' = items s + mset xs"
proof (induction xs arbitrary: s)
  case (Cons x xs)
  then obtain s' where s': "push x s = Some s'" "inv s'" "items s' = add_mset x (items s)"
    using push_room[of s x] by auto
  then show ?case using Cons.IH[of s'] Cons.prems by auto
qed simp

lemma pop_n_sorted:
  "inv s \<Longrightarrow> size (items s) = n \<Longrightarrow>
     \<exists>xs t. pop_n n s = (xs, t) \<and> inv t \<and> items t = {#} \<and> mset xs = items s \<and> sorted (map key xs)"
proof (induction n arbitrary: s)
  case (Suc n)
  then have "items s \<noteq> {#}" by auto
  from pop_least[OF Suc.prems(1) this] obtain x s' where
    p: "pop s = Some (x, s')" "inv s'" "x \<in># items s" "items s' = items s - {#x#}" "\<forall>y \<in># items s. key x \<le> key y"
    by blast
  then have "size (items s') = n" using Suc.prems(2) by (simp add: size_Diff_singleton)
  from Suc.IH[OF p(2) this] obtain xs t where
    r: "pop_n n s' = (xs, t)" "inv t" "items t = {#}" "mset xs = items s'" "sorted (map key xs)" by blast
  have "\<forall>y \<in> set xs. key x \<le> key y" using p(4,5) r(4) by (metis in_diffD set_mset_mset)
  moreover have "mset (x # xs) = items s" using p(3,4) r(4) by simp
  ultimately show ?case using p(1) r by simp
qed simp

end

interpretation timer_heap: expiry_queue k c "heap_inv k c" heap_items "heap_push k" "heap_pop k"
  for k :: "'a \<Rightarrow> 'k::linorder" and c
proof unfold_locales
  fix h x assume h: "heap_inv k c h"
  then have sh: "heap_shape h" "hcapacity h = c" by (auto simp: heap_inv_def)
  show "size (heap_items h) \<le> c" using sh by (simp add: size_heap_items) (simp add: heap_shape_def)
  show "size (heap_items h) = c \<Longrightarrow> heap_push k x h = None" using sh by (simp add: size_heap_items heap_push_def)
  show "size (heap_items h) < c \<Longrightarrow> \<exists>h'. heap_push k x h = Some h' \<and> heap_inv k c h' \<and> heap_items h' = add_mset x (heap_items h)"
    using heap_push_spec[OF h] sh by (simp add: size_heap_items)
  show "heap_items h = {#} \<Longrightarrow> heap_pop k h = None" using sh by (simp add: heap_items_empty_iff heap_pop_def)
  show "heap_items h \<noteq> {#} \<Longrightarrow> \<exists>x h'. heap_pop k h = Some (x, h') \<and> heap_inv k c h' \<and> x \<in># heap_items h
      \<and> heap_items h' = heap_items h - {#x#} \<and> (\<forall>y \<in># heap_items h. k x \<le> k y)"
    using heap_pop_spec[OF h] sh by (simp add: heap_items_empty_iff)
qed

section \<open>Properties\<close>

definition empty_heap :: "nat \<Rightarrow> 'a \<Rightarrow> 'a nos_timer_heap_t" where
  "empty_heap c null = \<lparr>nodes = replicate c null, hsize = 0, hcapacity = c\<rparr>"

lemma empty_heap_inv: "heap_inv k c (empty_heap c null)" "heap_items (empty_heap c null) = {#}"
  by (simp_all add: empty_heap_def heap_inv_def heap_shape_def heap_from_def heap_items_def)

text \<open>C18.  Whatever timers are inserted into an empty heap with room for them, extracting them
  all delivers every one exactly once, in order of expiry.\<close>

theorem timer_heap_sorts:
  assumes "length xs \<le> c"
  shows "\<exists>h ys h'. expiry_queue.push_all (heap_push k) xs (empty_heap c null) = Some h
    \<and> expiry_queue.pop_n (heap_pop k) (length xs) h = (ys, h') \<and> heap_items h' = {#}
    \<and> mset ys = mset xs \<and> sorted (map k ys)"
proof -
  obtain h where h: "expiry_queue.push_all (heap_push k) xs (empty_heap c null) = Some h" "heap_inv k c h" "heap_items h = mset xs"
    using timer_heap.push_all_room[OF empty_heap_inv(1)[of k c null], of xs] assms by (auto simp: empty_heap_inv)
  then show ?thesis using timer_heap.pop_n_sorted[OF h(2), of "length xs"] by auto
qed

theorem timer_heap_sorts_witness:
  "\<exists>h ys h'. expiry_queue.push_all (heap_push id) [5, 3, 9, 3, 1 :: nat] (empty_heap 8 0) = Some h
    \<and> expiry_queue.pop_n (heap_pop id) (length [5, 3, 9, 3, 1 :: nat]) h = (ys, h') \<and> heap_items h' = {#}
    \<and> mset ys = mset [5, 3, 9, 3, 1] \<and> sorted (map id ys)"
  by (rule timer_heap_sorts[of "[5, 3, 9, 3, 1]" 8 id 0]) simp

text \<open>Compacting the array and rebuilding it bottom-up re-establishes heap order and keeps
  exactly the timers that are not cancelled, whatever the order of the array was.\<close>

theorem timer_heap_retain_correct:
  assumes "heap_shape h"
  shows "heap_inv k (hcapacity h) (heap_retain k P h)
    \<and> heap_items (heap_retain k P h) = filter_mset P (heap_items h)"
  using heap_retain_spec[OF assms] by blast

theorem timer_heap_retain_correct_witness:
  "heap_inv id 4 (heap_retain id odd \<lparr>nodes = [9, 4, 3, 1 :: nat], hsize = 4, hcapacity = 4\<rparr>)
    \<and> heap_items (heap_retain id odd \<lparr>nodes = [9, 4, 3, 1 :: nat], hsize = 4, hcapacity = 4\<rparr>) = {#9, 3, 1#}"
  using timer_heap_retain_correct[of "\<lparr>nodes = [9, 4, 3, 1 :: nat], hsize = 4, hcapacity = 4\<rparr>" id odd]
  by (simp add: heap_shape_def) (simp add: heap_items_def)

text \<open>Removing a timer that is not at the root can break heap order: the last node is moved
  into the hole and only sifted down, never up.\<close>

theorem timer_heap_remove_breaks_order:
  "\<exists>h :: nat nos_timer_heap_t. heap_inv id 7 h \<and> \<not> heap_inv id 7 (heap_remove_at id 3 h)"
proof -
  let ?h = "\<lparr>nodes = [1, 10, 2, 11, 12, 3, 4 :: nat], hsize = 7, hcapacity = 7\<rparr>"
  have le7: "j = 1 \<or> j = 2 \<or> j = 3 \<or> j = 4 \<or> j = 5 \<or> j = 6" if "0 < j" "j < 7" for j :: nat using that by linarith
  have "heap_inv id 7 ?h"
    by (auto simp: heap_inv_def heap_shape_def heap_from_def dest!: le7)
  moreover have "nodes (heap_remove_at id 3 ?h) = [1, 10, 2, 4, 12, 3, 4]"
    by (simp add: heap_remove_at_def swap_remove_def heapify_down.simps)
  then have "\<not> heap_inv id 7 (heap_remove_at id 3 ?h)"
    by (auto simp: heap_inv_def heap_from_def heap_remove_at_def intro!: exI[of _ 3])
  ultimately show ?thesis by blast
qed

end
