(* ===== verification/Nos_Ring.thy ===== *)
theory Nos_Ring
  imports Nos_Types
begin

text \<open>
  Circular arrays and the bounded FIFO interface.  Three parts of the program keep a queue in a
  fixed array with a read index \<open>head\<close> and a write index \<open>tail\<close>, sacrificing one slot
  to tell full from empty: the per-thread message queue (\<^verbatim>\<open>nos_scheduler.c\<close>), the
  transmit queue of a connection (\<^verbatim>\<open>nos_ipc_p2p.c\<close>) and the shared-memory ring
  (\<^verbatim>\<open>nos_shm_ipc.c\<close>).  This theory holds the list view of such an array and the locale
  \<open>bounded_fifo\<close> that states what a client of any of the three may rely on; each component
  interprets it on its own operations.
\<close>

section \<open>Circular arrays\<close>

definition ring_len :: "nat \<Rightarrow> nat \<Rightarrow> nat \<Rightarrow> nat" where
  "ring_len n h t = (if h \<le> t then t - h else n - h + t)"

definition ring_items :: "'a list \<Rightarrow> nat \<Rightarrow> nat \<Rightarrow> 'a list" where
  "ring_items arr h t = map (\<lambda>i. arr ! ((h + i) mod length arr)) [0..<ring_len (length arr) h t]"

definition ring_ok :: "nat \<Rightarrow> 'a list \<Rightarrow> nat \<Rightarrow> nat \<Rightarrow> bool" where
  "ring_ok n arr h t \<longleftrightarrow> length arr = n \<and> h < n \<and> t < n"

lemma length_ring_items [simp]: "length (ring_items arr h t) = ring_len (length arr) h t"
  by (simp add: ring_items_def)

lemma ring_len_same [simp]: "ring_len n h h = 0"
  by (simp add: ring_len_def)

lemma ring_items_same [simp]: "ring_items arr h h = []"
  by (simp add: ring_items_def)

lemma ring_len_less: "h < n \<Longrightarrow> t < n \<Longrightarrow> ring_len n h t < n"
  by (auto simp: ring_len_def)

lemma ring_len_0: "h < n \<Longrightarrow> t < n \<Longrightarrow> ring_len n h t = 0 \<longleftrightarrow> h = t"
  by (auto simp: ring_len_def)

lemma mod_Suc_cases: "t < n \<Longrightarrow> Suc t mod n = (if Suc t = n then 0 else Suc t)"
  by simp

lemma ring_len_full: "h < n \<Longrightarrow> t < n \<Longrightarrow> (t + 1) mod n = h \<longleftrightarrow> ring_len n h t = n - 1"
  by (auto simp: ring_len_def mod_Suc_cases split: if_splits)

lemma ring_len_push:
  "h < n \<Longrightarrow> t < n \<Longrightarrow> (t + 1) mod n \<noteq> h \<Longrightarrow> ring_len n h ((t + 1) mod n) = ring_len n h t + 1"
  by (auto simp: ring_len_def mod_Suc_cases split: if_splits)

lemma ring_len_pop:
  "h < n \<Longrightarrow> t < n \<Longrightarrow> h \<noteq> t \<Longrightarrow> ring_len n h t = ring_len n ((h + 1) mod n) t + 1"
  by (auto simp: ring_len_def mod_Suc_cases split: if_splits)

lemma ring_pos_tail:
  "h < n \<Longrightarrow> t < n \<Longrightarrow> (h + ring_len n h t) mod n = t"
  by (auto simp: ring_len_def)

lemma ring_pos_not_tail:
  assumes "h < n" "t < n" "i < ring_len n h t"
  shows "(h + i) mod n \<noteq> t"
proof (cases "h \<le> t")
  case True
  then have "h + i < t" using assms(3) by (simp add: ring_len_def)
  then show ?thesis using assms by simp
next
  case False
  show ?thesis
  proof (cases "h + i < n")
    case True
    then show ?thesis using False by simp
  next
    case wrap: False
    have "h + i - n < t" using False assms wrap by (simp add: ring_len_def)
    moreover have "(h + i) mod n = (h + i - n) mod n" using wrap by (simp add: le_mod_geq)
    moreover have "h + i - n < n" using calculation(1) assms(2) by simp
    ultimately show ?thesis by simp
  qed
qed

lemma ring_items_update_tail:
  assumes "ring_ok n arr h t"
  shows "ring_items (arr[t := x]) h t = ring_items arr h t"
proof -
  have n: "length arr = n" "h < n" "t < n" using assms by (auto simp: ring_ok_def)
  then show ?thesis
    using ring_pos_not_tail[OF n(2,3)] not_sym unfolding ring_items_def
    by (intro map_cong) (auto intro!: nth_list_update_neq)
qed

lemma ring_items_push [nos_abs]:
  assumes "ring_ok n arr h t" "(t + 1) mod n \<noteq> h"
  shows "ring_items (arr[t := x]) h ((t + 1) mod n) = ring_items arr h t @ [x]"
proof -
  have n: "length arr = n" "h < n" "t < n" using assms(1) by (auto simp: ring_ok_def)
  have "ring_items (arr[t := x]) h ((t + 1) mod n) =
      ring_items (arr[t := x]) h t @ [arr[t := x] ! ((h + ring_len n h t) mod n)]"
    using ring_len_push[OF n(2,3) assms(2)] n by (simp add: ring_items_def)
  also have "arr[t := x] ! ((h + ring_len n h t) mod n) = x"
    using ring_pos_tail[OF n(2,3)] n by simp
  finally show ?thesis using ring_items_update_tail[OF assms(1)] by simp
qed

lemma ring_items_pop [nos_abs]:
  assumes "ring_ok n arr h t" "h \<noteq> t"
  shows "ring_items arr h t = arr ! h # ring_items arr ((h + 1) mod n) t"
proof -
  have n: "length arr = n" "h < n" "t < n" using assms(1) by (auto simp: ring_ok_def)
  let ?k = "ring_len n ((h + 1) mod n) t"
  have "[0..<Suc ?k] = 0 # map Suc [0..<?k]" by (metis map_Suc_upt upt_conv_Cons zero_less_Suc)
  moreover have "(h + Suc i) mod n = ((h + 1) mod n + i) mod n" for i
    by (metis (no_types, lifting) One_nat_def add.assoc mod_add_left_eq plus_1_eq_Suc)
  ultimately show ?thesis
    using ring_len_pop[OF n(2,3) assms(2)] n by (simp add: ring_items_def)
qed

lemma ring_ok_push: "ring_ok n arr h t \<Longrightarrow> ring_ok n (arr[t := x]) h ((t + 1) mod n)"
  by (auto simp: ring_ok_def)

lemma ring_ok_pop: "ring_ok n arr h t \<Longrightarrow> ring_ok n arr ((h + 1) mod n) t"
  by (auto simp: ring_ok_def)

section \<open>The bounded FIFO interface\<close>

datatype 'a fifo_op = Enq 'a | Deq

locale bounded_fifo =
  fixes cap :: nat
    and inv :: "'s \<Rightarrow> bool"
    and items :: "'s \<Rightarrow> 'a list"
    and enq :: "'a \<Rightarrow> 's \<Rightarrow> 's option"
    and deq :: "'s \<Rightarrow> ('a \<times> 's) option"
  assumes bound: "inv s \<Longrightarrow> length (items s) \<le> cap"
    and enq_full: "inv s \<Longrightarrow> length (items s) = cap \<Longrightarrow> enq x s = None"
    and enq_room: "inv s \<Longrightarrow> length (items s) < cap \<Longrightarrow>
      \<exists>s'. enq x s = Some s' \<and> inv s' \<and> items s' = items s @ [x]"
    and deq_empty: "inv s \<Longrightarrow> items s = [] \<Longrightarrow> deq s = None"
    and deq_some: "inv s \<Longrightarrow> items s = x # xs \<Longrightarrow> \<exists>s'. deq s = Some (x, s') \<and> inv s' \<and> items s' = xs"
begin

text \<open>
  A run of operations records the values that were accepted and those that were delivered;
  an \<open>Enq\<close> on a full queue is refused and a \<open>Deq\<close> on an empty one delivers nothing.
\<close>

fun run :: "'a fifo_op list \<Rightarrow> 's \<Rightarrow> 'a list \<times> 'a list \<times> 's" where
  "run [] s = ([], [], s)"
| "run (Enq x # ops) s =
    (case enq x s of
       None \<Rightarrow> run ops s
     | Some s' \<Rightarrow> (case run ops s' of (acc, out, t) \<Rightarrow> (x # acc, out, t)))"
| "run (Deq # ops) s =
    (case deq s of
       None \<Rightarrow> run ops s
     | Some (x, s') \<Rightarrow> (case run ops s' of (acc, out, t) \<Rightarrow> (acc, x # out, t)))"

lemma enq_None_iff: "inv s \<Longrightarrow> enq x s = None \<longleftrightarrow> length (items s) = cap"
  using bound enq_full enq_room by (metis le_neq_implies_less option.distinct(1))

lemma enq_SomeD: "inv s \<Longrightarrow> enq x s = Some s' \<Longrightarrow> inv s' \<and> items s' = items s @ [x]"
  using bound enq_full enq_room by (metis le_neq_implies_less option.distinct(1) option.inject)

lemma deq_SomeD: "inv s \<Longrightarrow> deq s = Some (x, s') \<Longrightarrow> inv s' \<and> items s = x # items s'"
  using deq_empty deq_some by (cases "items s") (fastforce, fastforce)

lemma deq_None_iff: "inv s \<Longrightarrow> deq s = None \<longleftrightarrow> items s = []"
  using deq_empty deq_some by (cases "items s") fastforce+

text \<open>
  Nothing is lost, duplicated or reordered: what was in the queue followed by what was accepted
  is what was delivered followed by what is still queued.
\<close>

lemma run_history:
  "inv s \<Longrightarrow> run ops s = (acc, out, t) \<Longrightarrow> inv t \<and> items s @ acc = out @ items t"
proof (induction ops arbitrary: s acc out t)
  case Nil
  then show ?case by simp
next
  case (Cons op ops)
  show ?case
  proof (cases op)
    case (Enq x)
    show ?thesis
    proof (cases "enq x s")
      case None
      then show ?thesis using Cons Enq by simp
    next
      case (Some s')
      then obtain acc' where "acc = x # acc'" "run ops s' = (acc', out, t)"
        using Cons.prems Enq by (auto split: prod.splits)
      then show ?thesis using Cons.IH[of s'] enq_SomeD[OF Cons.prems(1) Some] by auto
    qed
  next
    case Deq
    show ?thesis
    proof (cases "deq s")
      case None
      then show ?thesis using Cons Deq by simp
    next
      case (Some p)
      obtain x s' where p: "p = (x, s')" by (cases p)
      then obtain out' where "out = x # out'" "run ops s' = (acc, out', t)"
        using Cons.prems Deq Some by (auto split: prod.splits)
      then show ?thesis using Cons.IH[of s'] deq_SomeD[of s x s'] Some p Cons.prems(1) by auto
    qed
  qed
qed

text \<open>Draining delivers the whole contents in order.\<close>

lemma run_drain:
  "inv s \<Longrightarrow> \<exists>t. run (replicate (length (items s)) Deq) s = ([], items s, t) \<and> inv t \<and> items t = []"
proof (induction "items s" arbitrary: s)
  case Nil
  then show ?case by simp
next
  case (Cons x xs)
  obtain s' where s': "deq s = Some (x, s')" "inv s'" "items s' = xs"
    using deq_some[OF Cons.prems Cons.hyps(2)[symmetric]] by blast
  with Cons.hyps(1)[of s'] obtain t where
    "run (replicate (length xs) Deq) s' = ([], xs, t)" "inv t" "items t = []" by auto
  then show ?case using s' Cons.hyps(2)[symmetric] by simp
qed

end

end
