(* ===== verification/Nos_Sched.thy ===== *)
theory Nos_Sched
  imports Nos_Buffer Nos_Heap Nos_Ring
begin

text \<open>
  The state of a node: components, timers, scheduler threads, the service registry of
  \<^verbatim>\<open>nos_scheduler.c\<close> and the node context \<^verbatim>\<open>g_node_ctx\<close>
  (\<^verbatim>\<open>include/nos_node_priv.h\<close>), as an extension of the buffer state; and the operations on
  the component list and the descriptor table of a thread.

  Pointers are natural numbers: components and timers live in maps because they are allocated
  and freed, threads in a list because they are only allocated.  Function pointers and
  \<^verbatim>\<open>void *\<close> arguments are numbers too; what a function pointer does is a parameter of the
  operations that call it.  A field read through a dangling pointer gives the zeroed object.
  The readings of \<^verbatim>\<open>clock_gettime\<close> are the sequence \<open>g_clock\<close>, consumed one per call.
  The kernel's epoll set of a thread is \<open>epoll_set\<close>, from descriptors to the entry that
  \<^verbatim>\<open>data.ptr\<close> points to; \<open>notify_val\<close> is the counter of the eventfd.
\<close>

definition MAX_QUEUE_SIZE :: nat where "MAX_QUEUE_SIZE = 1024"
definition MAX_COMP_PER_THREAD :: nat where "MAX_COMP_PER_THREAD = 32"
definition MAX_COMPONENTS_PER_NODE :: nat where "MAX_COMPONENTS_PER_NODE = 64"

datatype nos_comp_status_t = NOS_COMP_ST_LOADED | NOS_COMP_ST_INITED | NOS_COMP_ST_ACTIVE
  | NOS_COMP_ST_STOPPED | NOS_COMP_ST_ERROR

record nos_component_t =
  comp_id :: u32
  comp_name :: string
  comp_status :: nos_comp_status_t
  comp_init :: "nat option"
  comp_start :: "nat option"
  comp_stop :: "nat option"
  comp_on_msg :: "nat option"

record nos_timer_t =
  expire_at_ms :: u64
  interval_ms :: u32
  is_periodic :: bool
  callback :: "nat option"
  free_arg :: "nat option"
  timer_arg :: "nat option"
  is_running :: bool
  owner :: "nat option"
  owner_thread :: "nat option"

record nos_fd_entry_t =
  fd :: int
  fd_callback :: "nat option"
  fd_arg :: "nat option"

datatype epoll_ptr = Notify_Entry | Fd_Entry nat

record nos_thread_t =
  thread_id :: u32
  thread_name :: string
  epoll_fd :: int
  notify_fd :: int
  stop_requested :: bool
  is_sleeping :: bool
  notify_entry :: nos_fd_entry_t
  msg_queue :: "bufp option list"
  head :: nat
  tail :: nat
  components :: "nat option list"
  component_count :: nat
  fd_entries :: "nos_fd_entry_t list"
  fd_count :: nat
  timer_heap :: "nat option nos_timer_heap_t"
  epoll_set :: "int \<Rightarrow> epoll_ptr option"
  notify_val :: u64

record service_entry_t =
  service_id :: u32
  local_provider :: "nat option"
  local_thread :: "nat option"
  remote_node :: string
  remote_uds_path :: string
  is_remote :: bool

datatype nos_service_status_t = NOS_SVC_ST_UNKNOWN | NOS_SVC_ST_ACTIVE | NOS_SVC_ST_INACTIVE | NOS_SVC_ST_ERROR

record nos_service_def_t =
  svc_name :: string
  svc_service_id :: u32
  svc_node_name :: string
  svc_provider_comp_id :: u32
  svc_remote_uds_path :: "string option"
  svc_status :: nos_service_status_t

record nos_thread_def_t =
  tdef_name :: string
  tdef_comps :: "(u32 \<times> string \<times> string) list"

record nos_node_def_t =
  node_name :: string
  node_uds_path :: string
  node_buffer_pools :: "nos_buffer_pool_def_t list"
  node_threads :: "nos_thread_def_t list"
  node_services :: "nos_service_def_t list"
  node_busy_poll_cycles :: u32

record loaded_comp_info_t =
  li_comp :: "nat option"
  li_handle :: "nat option"
  li_lib_name :: string
  li_owner_thread :: "nat option"

record sched_state = buf_state +
  g_comps :: "nat \<Rightarrow> nos_component_t option"
  g_timers :: "nat \<Rightarrow> nos_timer_t option"
  g_threads :: "nos_thread_t list"
  g_service_registry :: "service_entry_t list"
  g_service_count :: nat
  g_clock :: "nat \<Rightarrow> u64"
  g_clock_pos :: nat
  node_def :: "nos_node_def_t option"
  loaded_info :: "loaded_comp_info_t list"
  loaded_count :: nat
  keep_running :: bool
  mgmt_thread :: "nat option"
  worker_threads :: "nat list"

definition null_component :: nos_component_t where
  "null_component = \<lparr>comp_id = 0, comp_name = [], comp_status = NOS_COMP_ST_LOADED, comp_init = None,
     comp_start = None, comp_stop = None, comp_on_msg = None\<rparr>"

definition null_timer :: nos_timer_t where
  "null_timer = \<lparr>expire_at_ms = 0, interval_ms = 0, is_periodic = False, callback = None, free_arg = None,
     timer_arg = None, is_running = False, owner = None, owner_thread = None\<rparr>"

definition null_fd_entry :: nos_fd_entry_t where
  "null_fd_entry = \<lparr>fd = 0, fd_callback = None, fd_arg = None\<rparr>"

definition null_entry :: service_entry_t where
  "null_entry = \<lparr>service_id = 0, local_provider = None, local_thread = None, remote_node = [],
     remote_uds_path = [], is_remote = False\<rparr>"

definition null_info :: loaded_comp_info_t where
  "null_info = \<lparr>li_comp = None, li_handle = None, li_lib_name = [], li_owner_thread = None\<rparr>"

definition null_thread :: nos_thread_t where
  "null_thread = \<lparr>thread_id = 0, thread_name = [], epoll_fd = 0, notify_fd = 0, stop_requested = False,
     is_sleeping = False, notify_entry = null_fd_entry, msg_queue = [], head = 0, tail = 0, components = [],
     component_count = 0, fd_entries = [], fd_count = 0,
     timer_heap = \<lparr>nodes = [], hsize = 0, hcapacity = 0\<rparr>, epoll_set = (\<lambda>_. None), notify_val = 0\<rparr>"

text \<open>The zero-initialised globals of a process.\<close>

definition boot_state :: sched_state where
  "boot_state = \<lparr>g_bins = [], g_reply_ctxs = (\<lambda>_. None), g_comps = (\<lambda>_. None), g_timers = (\<lambda>_. None),
     g_threads = [], g_service_registry = replicate 64 null_entry, g_service_count = 0,
     g_clock = (\<lambda>_. 0), g_clock_pos = 0, node_def = None, loaded_info = replicate MAX_COMPONENTS_PER_NODE null_info,
     loaded_count = 0, keep_running = True, mgmt_thread = None, worker_threads = []\<rparr>"

definition get_comp :: "'z sched_state_scheme \<Rightarrow> nat \<Rightarrow> nos_component_t" where
  "get_comp s c = (case g_comps s c of Some x \<Rightarrow> x | None \<Rightarrow> null_component)"

definition get_timer :: "'z sched_state_scheme \<Rightarrow> nat \<Rightarrow> nos_timer_t" where
  "get_timer s t = (case g_timers s t of Some x \<Rightarrow> x | None \<Rightarrow> null_timer)"

abbreviation get_thread :: "'z sched_state_scheme \<Rightarrow> nat \<Rightarrow> nos_thread_t" where
  "get_thread s t \<equiv> g_threads s ! t"

definition upd_thread :: "nat \<Rightarrow> (nos_thread_t \<Rightarrow> nos_thread_t) \<Rightarrow> 'z sched_state_scheme \<Rightarrow> 'z sched_state_scheme" where
  "upd_thread t f s = s\<lparr>g_threads := (g_threads s)[t := f (g_threads s ! t)]\<rparr>"

definition upd_timer :: "nat \<Rightarrow> (nos_timer_t \<Rightarrow> nos_timer_t) \<Rightarrow> 'z sched_state_scheme \<Rightarrow> 'z sched_state_scheme" where
  "upd_timer p f s = s\<lparr>g_timers := (g_timers s)(p := map_option f (g_timers s p))\<rparr>"

definition upd_comp :: "nat \<Rightarrow> (nos_component_t \<Rightarrow> nos_component_t) \<Rightarrow> 'z sched_state_scheme \<Rightarrow> 'z sched_state_scheme" where
  "upd_comp p f s = s\<lparr>g_comps := (g_comps s)(p := map_option f (g_comps s p))\<rparr>"

definition get_monotonic_ms :: "'z sched_state_scheme \<Rightarrow> u64 \<times> 'z sched_state_scheme" where
  "get_monotonic_ms s = (g_clock s (g_clock_pos s), s\<lparr>g_clock_pos := g_clock_pos s + 1\<rparr>)"

text \<open>\<^verbatim>\<open>write(notify_fd, &val, 8)\<close> with \<^verbatim>\<open>val = 1\<close>: the counter of an eventfd saturates at
  \<open>2 ^ 64 - 2\<close>, where the non-blocking write fails and the failure is ignored.\<close>

definition notify :: "nat \<Rightarrow> 'z sched_state_scheme \<Rightarrow> 'z sched_state_scheme" where
  "notify t = upd_thread t (\<lambda>th. if notify_val th = - 2 then th else th\<lparr>notify_val := notify_val th + 1\<rparr>)"

lemma upd_thread_simps [simp]:
  "g_bins (upd_thread t f s) = g_bins s" "g_reply_ctxs (upd_thread t f s) = g_reply_ctxs s"
  "g_comps (upd_thread t f s) = g_comps s" "g_timers (upd_thread t f s) = g_timers s"
  "g_service_registry (upd_thread t f s) = g_service_registry s" "g_service_count (upd_thread t f s) = g_service_count s"
  "node_def (upd_thread t f s) = node_def s" "loaded_info (upd_thread t f s) = loaded_info s"
  "loaded_count (upd_thread t f s) = loaded_count s" "mgmt_thread (upd_thread t f s) = mgmt_thread s"
  "worker_threads (upd_thread t f s) = worker_threads s"
  "g_clock (upd_thread t f s) = g_clock s" "g_clock_pos (upd_thread t f s) = g_clock_pos s"
  "length (g_threads (upd_thread t f s)) = length (g_threads s)"
  by (simp_all add: upd_thread_def)

lemma g_threads_upd_thread: "g_threads (upd_thread t f s) = (g_threads s)[t := f (g_threads s ! t)]"
  by (simp add: upd_thread_def)

lemma get_thread_upd [simp]:
  "t < length (g_threads s) \<Longrightarrow> get_thread (upd_thread t f s) u = (if u = t then f (get_thread s t) else get_thread s u)"
  by (simp add: upd_thread_def nth_list_update)

lemma upd_timer_simps [simp]:
  "g_bins (upd_timer p f s) = g_bins s" "g_comps (upd_timer p f s) = g_comps s"
  "g_threads (upd_timer p f s) = g_threads s" "g_clock (upd_timer p f s) = g_clock s"
  "g_clock_pos (upd_timer p f s) = g_clock_pos s" "mgmt_thread (upd_timer p f s) = mgmt_thread s"
  "worker_threads (upd_timer p f s) = worker_threads s"
  by (simp_all add: upd_timer_def)

lemma g_timers_upd_timer: "g_timers (upd_timer p f s) = (g_timers s)(p := map_option f (g_timers s p))"
  by (simp add: upd_timer_def)

lemma notify_thread [simp]:
  "t < length (g_threads s) \<Longrightarrow> timer_heap (get_thread (notify t s) u) = timer_heap (get_thread s u)"
  "t < length (g_threads s) \<Longrightarrow> msg_queue (get_thread (notify t s) u) = msg_queue (get_thread s u)"
  "t < length (g_threads s) \<Longrightarrow> head (get_thread (notify t s) u) = head (get_thread s u)"
  "t < length (g_threads s) \<Longrightarrow> tail (get_thread (notify t s) u) = tail (get_thread s u)"
  "t < length (g_threads s) \<Longrightarrow> components (get_thread (notify t s) u) = components (get_thread s u)"
  "t < length (g_threads s) \<Longrightarrow> component_count (get_thread (notify t s) u) = component_count (get_thread s u)"
  "g_timers (notify t s) = g_timers s" "g_bins (notify t s) = g_bins s" "g_comps (notify t s) = g_comps s"
  "length (g_threads (notify t s)) = length (g_threads s)"
  by (simp_all add: notify_def)

section \<open>Threads\<close>

text \<open>\<^verbatim>\<open>nos_scheduler_init_thread\<close>: the results of \<^verbatim>\<open>epoll_create1\<close> and
  \<^verbatim>\<open>eventfd\<close> are parameters.  When \<^verbatim>\<open>eventfd\<close> fails the timer heap is not set up.\<close>

definition init_thread_base :: "u32 \<Rightarrow> string \<Rightarrow> int \<Rightarrow> int \<Rightarrow> nos_thread_t \<Rightarrow> nos_thread_t" where
  "init_thread_base i nm ep ev th =
    th\<lparr>thread_id := i, thread_name := nm,
       components := replicate MAX_COMP_PER_THREAD None, component_count := 0,
       fd_entries := replicate 32 null_fd_entry, fd_count := 0,
       msg_queue := replicate MAX_QUEUE_SIZE None, head := 0, tail := 0,
       stop_requested := False, is_sleeping := False, epoll_fd := ep, notify_fd := ev,
       epoll_set := (\<lambda>_. None), notify_val := 0\<rparr>"

definition nos_scheduler_init_thread ::
  "nat option \<Rightarrow> u32 \<Rightarrow> string \<Rightarrow> int \<Rightarrow> int \<Rightarrow> 'z sched_state_scheme \<Rightarrow> nos_status_t \<times> 'z sched_state_scheme" where
  "nos_scheduler_init_thread thread i nm ep ev s =
    (case thread of
       None \<Rightarrow> (NOS_ERR, s)
     | Some t \<Rightarrow>
         (let s1 = upd_thread t (init_thread_base i nm ep ev) s in
          if ev < 0 then (NOS_ERR, s1)
          else (NOS_OK, upd_thread t (\<lambda>th.
            th\<lparr>notify_entry := \<lparr>fd = ev, fd_callback = None, fd_arg = Some t\<rparr>,
               epoll_set := (epoll_set th)(ev \<mapsto> Notify_Entry),
               timer_heap := empty_heap 128 None\<rparr>) s1)))"

text \<open>The drain loop of \<^verbatim>\<open>nos_scheduler_deinit_thread\<close>, over the queued buffers in order.\<close>

definition queue_items :: "nos_thread_t \<Rightarrow> bufp option list" where
  "queue_items th = ring_items (msg_queue th) (head th) (tail th)"

definition nos_scheduler_deinit_thread :: "nat option \<Rightarrow> 'z sched_state_scheme \<Rightarrow> 'z sched_state_scheme" where
  "nos_scheduler_deinit_thread thread s =
    (case thread of
       None \<Rightarrow> s
     | Some t \<Rightarrow>
         upd_thread t (\<lambda>th. th\<lparr>head := tail th, epoll_set := (\<lambda>_. None), components := [], fd_entries := [],
             msg_queue := [], timer_heap := (timer_heap th)\<lparr>nodes := []\<rparr>\<rparr>)
           (fold nos_buffer_release (queue_items (get_thread s t)) s))"

definition nos_scheduler_stop :: "nat option \<Rightarrow> 'z sched_state_scheme \<Rightarrow> 'z sched_state_scheme" where
  "nos_scheduler_stop thread s =
    (case thread of None \<Rightarrow> s | Some t \<Rightarrow> notify t (upd_thread t (\<lambda>th. th\<lparr>stop_requested := True\<rparr>) s))"

section \<open>The component list of a thread\<close>

definition thread_has :: "nos_thread_t \<Rightarrow> nat \<Rightarrow> bool" where
  "thread_has th c \<longleftrightarrow> find_idx (\<lambda>x. x = Some c) (components th) (component_count th) \<noteq> None"

fun find_worker :: "'z sched_state_scheme \<Rightarrow> nat list \<Rightarrow> nat \<Rightarrow> nat option" where
  "find_worker s [] c = None"
| "find_worker s (t # ts) c = (if thread_has (get_thread s t) c then Some t else find_worker s ts c)"

definition find_thread_of_component :: "'z sched_state_scheme \<Rightarrow> nat option \<Rightarrow> nat option" where
  "find_thread_of_component s cmp =
    (case cmp of
       None \<Rightarrow> None
     | Some c \<Rightarrow>
         (case mgmt_thread s of
            Some m \<Rightarrow> if thread_has (get_thread s m) c then Some m else find_worker s (worker_threads s) c
          | None \<Rightarrow> find_worker s (worker_threads s) c))"

definition nos_scheduler_register_component ::
  "nat option \<Rightarrow> nat option \<Rightarrow> 'z sched_state_scheme \<Rightarrow> nos_status_t \<times> 'z sched_state_scheme" where
  "nos_scheduler_register_component thread cmp s =
    (case (thread, cmp) of
       (Some t, Some c) \<Rightarrow>
         (let th = get_thread s t in
          if component_count th \<ge> MAX_COMP_PER_THREAD then (NOS_ERR, s)
          else (NOS_OK, notify t (upd_thread t (\<lambda>th. th\<lparr>components := (components th)[component_count th := Some c],
                 component_count := component_count th + 1\<rparr>) s)))
     | _ \<Rightarrow> (NOS_ERR, s))"

definition nos_scheduler_unregister_component ::
  "nat option \<Rightarrow> nat option \<Rightarrow> 'z sched_state_scheme \<Rightarrow> nos_status_t \<times> 'z sched_state_scheme" where
  "nos_scheduler_unregister_component thread cmp s =
    (case (thread, cmp) of
       (Some t, Some c) \<Rightarrow>
         (let th = get_thread s t in
          case find_idx (\<lambda>x. x = Some c) (components th) (component_count th) of
            None \<Rightarrow> (NOS_ERR, s)
          | Some i \<Rightarrow> (NOS_OK, upd_thread t (\<lambda>th. th\<lparr>components := swap_remove (components th) (component_count th) i,
              component_count := component_count th - 1\<rparr>) s))
     | _ \<Rightarrow> (NOS_ERR, s))"

definition start_one :: "(nat \<Rightarrow> nat \<Rightarrow> 'z sched_state_scheme \<Rightarrow> nos_status_t \<times> 'z sched_state_scheme) \<Rightarrow>
    nat option \<Rightarrow> 'z sched_state_scheme \<Rightarrow> 'z sched_state_scheme" where
  "start_one run_start cmp s =
    (case cmp of
       None \<Rightarrow> s
     | Some c \<Rightarrow>
         if comp_status (get_comp s c) \<noteq> NOS_COMP_ST_INITED then s
         else (case comp_start (get_comp s c) of
             None \<Rightarrow> upd_comp c (\<lambda>x. x\<lparr>comp_status := NOS_COMP_ST_ACTIVE\<rparr>) s
           | Some f \<Rightarrow>
               (case run_start f c s of (r, s') \<Rightarrow>
                  upd_comp c (\<lambda>x. x\<lparr>comp_status := (if r = NOS_OK then NOS_COMP_ST_ACTIVE else NOS_COMP_ST_ERROR)\<rparr>) s')))"

text \<open>\<^verbatim>\<open>start_pending_components\<close> holds \<^verbatim>\<open>component_lock\<close> over the loop; the list and its length
  are read again in every iteration because a start callback runs in between.\<close>

fun start_from :: "(nat \<Rightarrow> nat \<Rightarrow> 'z sched_state_scheme \<Rightarrow> nos_status_t \<times> 'z sched_state_scheme) \<Rightarrow>
    nat \<Rightarrow> nat \<Rightarrow> nat \<Rightarrow> 'z sched_state_scheme \<Rightarrow> 'z sched_state_scheme" where
  "start_from run_start t i 0 s = s"
| "start_from run_start t i (Suc n) s =
    (if i < component_count (get_thread s t)
     then start_from run_start t (i + 1) n (start_one run_start (components (get_thread s t) ! i) s)
     else s)"

definition start_pending_components ::
  "(nat \<Rightarrow> nat \<Rightarrow> 'z sched_state_scheme \<Rightarrow> nos_status_t \<times> 'z sched_state_scheme) \<Rightarrow>
     nat \<Rightarrow> 'z sched_state_scheme \<Rightarrow> 'z sched_state_scheme" where
  "start_pending_components run_start t s = start_from run_start t 0 MAX_COMP_PER_THREAD s"

section \<open>The descriptor table of a thread\<close>

text \<open>\<open>epoll_ok\<close> is the result of \<^verbatim>\<open>epoll_ctl(EPOLL_CTL_ADD)\<close>; the new entry is kept even when
  it fails.\<close>

definition nos_scheduler_add_fd_ex ::
  "bool \<Rightarrow> nat option \<Rightarrow> int \<Rightarrow> u32 \<Rightarrow> nat option \<Rightarrow> nat option \<Rightarrow> 'z sched_state_scheme \<Rightarrow> nos_status_t \<times> 'z sched_state_scheme" where
  "nos_scheduler_add_fd_ex epoll_ok thread d events cb arg s =
    (case thread of
       None \<Rightarrow> (NOS_ERR, s)
     | Some t \<Rightarrow>
         (let n = fd_count (get_thread s t) in
          if n \<ge> 32 then (NOS_ERR, s)
          else
            (let s1 = upd_thread t (\<lambda>th. th\<lparr>fd_entries := (fd_entries th)[n := \<lparr>fd = d, fd_callback = cb, fd_arg = arg\<rparr>],
                   fd_count := n + 1\<rparr>) s
             in if epoll_ok then (NOS_OK, upd_thread t (\<lambda>th. th\<lparr>epoll_set := (epoll_set th)(d \<mapsto> Fd_Entry n)\<rparr>) s1)
                else (NOS_ERR, s1))))"

definition EPOLLIN :: u32 where "EPOLLIN = 1"

definition nos_scheduler_add_fd ::
  "bool \<Rightarrow> nat option \<Rightarrow> int \<Rightarrow> nat option \<Rightarrow> nat option \<Rightarrow> 'z sched_state_scheme \<Rightarrow> nos_status_t \<times> 'z sched_state_scheme" where
  "nos_scheduler_add_fd epoll_ok thread d cb arg s = nos_scheduler_add_fd_ex epoll_ok thread d EPOLLIN cb arg s"

definition nos_scheduler_remove_fd ::
  "nat option \<Rightarrow> int \<Rightarrow> 'z sched_state_scheme \<Rightarrow> nos_status_t \<times> 'z sched_state_scheme" where
  "nos_scheduler_remove_fd thread d s =
    (case thread of
       None \<Rightarrow> (NOS_ERR, s)
     | Some t \<Rightarrow>
         (let s1 = upd_thread t (\<lambda>th. th\<lparr>epoll_set := (epoll_set th)(d := None)\<rparr>) s;
              th = get_thread s1 t
          in case find_idx (\<lambda>e. fd e = d) (fd_entries th) (fd_count th) of
               None \<Rightarrow> (NOS_ERR, s1)
             | Some i \<Rightarrow> (NOS_OK, upd_thread t (\<lambda>th. th\<lparr>fd_entries := swap_remove (fd_entries th) (fd_count th) i,
                 fd_count := fd_count th - 1\<rparr>) s1)))"

section \<open>Properties of the component list\<close>

definition comps_ok :: "nos_thread_t \<Rightarrow> bool" where
  "comps_ok th \<longleftrightarrow> length (components th) = MAX_COMP_PER_THREAD \<and> component_count th \<le> MAX_COMP_PER_THREAD"

definition comp_items :: "nos_thread_t \<Rightarrow> nat option multiset" where
  "comp_items th = mset (take (component_count th) (components th))"

lemma set_comp_items: "comps_ok th \<Longrightarrow> x \<in># comp_items th \<longleftrightarrow> (\<exists>i < component_count th. components th ! i = x)"
  by (auto simp: comp_items_def comps_ok_def in_set_conv_nth)

lemma thread_has_iff: "comps_ok th \<Longrightarrow> thread_has th c \<longleftrightarrow> Some c \<in># comp_items th"
  using find_idx_None[of "\<lambda>x. x = Some c" "components th" "component_count th"]
  by (auto simp: thread_has_def set_comp_items)

lemma size_comp_items: "comps_ok th \<Longrightarrow> size (comp_items th) = component_count th"
  by (simp add: comp_items_def comps_ok_def)

lemma register_component_spec:
  assumes "t < length (g_threads s)" "comps_ok (get_thread s t)" "component_count (get_thread s t) < MAX_COMP_PER_THREAD"
  shows "\<exists>s'. nos_scheduler_register_component (Some t) (Some c) s = (NOS_OK, s')
    \<and> comps_ok (get_thread s' t) \<and> comp_items (get_thread s' t) = add_mset (Some c) (comp_items (get_thread s t))
    \<and> (\<forall>u. u \<noteq> t \<longrightarrow> get_thread s' u = get_thread s u)"
  using assms by (auto simp: nos_scheduler_register_component_def comps_ok_def comp_items_def notify_def take_Suc_conv_app_nth)

lemma unregister_component_spec:
  assumes "t < length (g_threads s)" "comps_ok (get_thread s t)" "Some c \<in># comp_items (get_thread s t)"
  shows "\<exists>s'. nos_scheduler_unregister_component (Some t) (Some c) s = (NOS_OK, s')
    \<and> comps_ok (get_thread s' t) \<and> comp_items (get_thread s' t) = comp_items (get_thread s t) - {#Some c#}
    \<and> component_count (get_thread s' t) < MAX_COMP_PER_THREAD
    \<and> (\<forall>u. u \<noteq> t \<longrightarrow> get_thread s' u = get_thread s u)"
proof -
  let ?th = "get_thread s t"
  obtain j where j: "j < component_count ?th" "components ?th ! j = Some c"
    using assms(3) set_comp_items[OF assms(2)] by blast
  obtain i where f: "find_idx (\<lambda>x. x = Some c) (components ?th) (component_count ?th) = Some i"
    using find_idx_ex[of j "component_count ?th" "\<lambda>x. x = Some c" "components ?th"] j by auto
  then have i: "i < component_count ?th" "components ?th ! i = Some c" by (auto dest: find_idx_SomeD)
  then show ?thesis
    using f assms mset_swap_remove[of i "component_count ?th" "components ?th"]
    by (auto simp: nos_scheduler_unregister_component_def comps_ok_def comp_items_def)
qed

text \<open>The component list of a thread behaves like a bag of at most 32 components:
  registration adds one and fails exactly when the list is full, removal takes one away and
  fails exactly when the component is not there, and neither touches another thread.\<close>

theorem component_list_is_bag:
  assumes "t < length (g_threads s)" "comps_ok (get_thread s t)"
  shows "(case nos_scheduler_register_component (Some t) (Some c) s of (r, s') \<Rightarrow>
      (r = NOS_OK \<longleftrightarrow> size (comp_items (get_thread s t)) < MAX_COMP_PER_THREAD)
      \<and> comp_items (get_thread s' t) = (if r = NOS_OK then add_mset (Some c) else id) (comp_items (get_thread s t))
      \<and> comps_ok (get_thread s' t) \<and> (\<forall>u. u \<noteq> t \<longrightarrow> get_thread s' u = get_thread s u))
    \<and> (case nos_scheduler_unregister_component (Some t) (Some c) s of (r, s') \<Rightarrow>
      (r = NOS_OK \<longleftrightarrow> Some c \<in># comp_items (get_thread s t))
      \<and> comp_items (get_thread s' t) = comp_items (get_thread s t) - {#Some c#}
      \<and> comps_ok (get_thread s' t) \<and> (\<forall>u. u \<noteq> t \<longrightarrow> get_thread s' u = get_thread s u))"
    (is "?R \<and> ?U")
proof
  show ?R
  proof (cases "component_count (get_thread s t) < MAX_COMP_PER_THREAD")
    case True
    then show ?thesis
      using register_component_spec[OF assms True, of c] size_comp_items[OF assms(2)] by auto
  next
    case False
    then show ?thesis
      using assms size_comp_items[OF assms(2)] by (simp add: nos_scheduler_register_component_def)
  qed
  show ?U
  proof (cases "Some c \<in># comp_items (get_thread s t)")
    case True
    then show ?thesis using unregister_component_spec[OF assms True] by auto
  next
    case False
    then have "find_idx (\<lambda>x. x = Some c) (components (get_thread s t)) (component_count (get_thread s t)) = None"
      using set_comp_items[OF assms(2)] by (auto simp: find_idx_None)
    then show ?thesis using False assms by (simp add: nos_scheduler_unregister_component_def diff_single_trivial)
  qed
qed

text \<open>A process with one initialised thread, for concrete instances.\<close>

definition demo_sched :: sched_state where
  "demo_sched = snd (nos_scheduler_init_thread (Some 0) 0 ''w0'' 3 4
     (boot_state\<lparr>g_threads := [null_thread], worker_threads := [0]\<rparr>))"

lemma demo_sched_thread:
  "g_threads demo_sched = [null_thread\<lparr>thread_name := ''w0'', components := replicate MAX_COMP_PER_THREAD None,
     fd_entries := replicate 32 null_fd_entry, msg_queue := replicate MAX_QUEUE_SIZE None, epoll_fd := 3, notify_fd := 4,
     notify_entry := \<lparr>fd = 4, fd_callback = None, fd_arg = Some 0\<rparr>, epoll_set := [4 \<mapsto> Notify_Entry],
     timer_heap := empty_heap 128 None\<rparr>]"
  by (simp add: demo_sched_def nos_scheduler_init_thread_def init_thread_base_def upd_thread_def boot_state_def null_thread_def)

lemma demo_comps_ok: "comps_ok (get_thread demo_sched 0)" "0 < length (g_threads demo_sched)"
  by (simp_all add: demo_sched_thread comps_ok_def null_thread_def)

theorem component_list_is_bag_witness:
  "(case nos_scheduler_register_component (Some 0) (Some 5) demo_sched of (r, s') \<Rightarrow>
      r = NOS_OK \<and> comp_items (get_thread s' 0) = {#Some 5#})"
proof -
  have "component_count (get_thread demo_sched 0) = 0" by (simp add: demo_sched_thread null_thread_def)
  then have "comp_items (get_thread demo_sched 0) = {#}" by (simp add: comp_items_def)
  then show ?thesis using component_list_is_bag[OF demo_comps_ok(2,1), of 5]
    by (auto simp: MAX_COMP_PER_THREAD_def split: prod.splits)
qed

section \<open>Properties of the descriptor table\<close>

text \<open>Every registration in the kernel points to the entry of its own descriptor.\<close>

definition epoll_consistent :: "nos_thread_t \<Rightarrow> bool" where
  "epoll_consistent th \<longleftrightarrow> length (fd_entries th) = 32 \<and> fd_count th \<le> 32
     \<and> (\<forall>d n. epoll_set th d = Some (Fd_Entry n) \<longrightarrow> n < fd_count th \<and> fd (fd_entries th ! n) = d)"

text \<open>Adding a descriptor keeps every kernel registration pointing to the entry of its own
  descriptor, and refuses the 33rd descriptor without changing anything.\<close>

theorem add_fd_consistent:
  assumes "t < length (g_threads s)" "epoll_consistent (get_thread s t)"
  shows "case nos_scheduler_add_fd_ex ok (Some t) d ev cb arg s of (r, s') \<Rightarrow>
    epoll_consistent (get_thread s' t)
    \<and> (r = NOS_OK \<longrightarrow> epoll_set (get_thread s' t) d = Some (Fd_Entry (fd_count (get_thread s t)))
         \<and> fd_entries (get_thread s' t) ! fd_count (get_thread s t) = \<lparr>fd = d, fd_callback = cb, fd_arg = arg\<rparr>)
    \<and> (fd_count (get_thread s t) = 32 \<longrightarrow> r = NOS_ERR \<and> s' = s)"
  using assms
  by (auto simp: nos_scheduler_add_fd_ex_def Let_def epoll_consistent_def nth_list_update less_Suc_eq split: if_splits)

theorem add_fd_consistent_witness:
  "case nos_scheduler_add_fd_ex True (Some 0) 9 EPOLLIN (Some 1) None demo_sched of (r, s') \<Rightarrow>
    epoll_consistent (get_thread s' 0) \<and> (r = NOS_OK \<longrightarrow> epoll_set (get_thread s' 0) 9 = Some (Fd_Entry 0))"
proof -
  have "epoll_consistent (get_thread demo_sched 0)" "fd_count (get_thread demo_sched 0) = 0"
    by (auto simp: demo_sched_thread epoll_consistent_def null_thread_def)
  then show ?thesis
    using add_fd_consistent[OF demo_comps_ok(2), where ok = True and d = 9 and ev = EPOLLIN and cb = "Some 1" and arg = None] by (auto split: prod.splits)
qed

text \<open>Removing a descriptor moves the last entry into its slot while the kernel keeps pointing
  to the old slot: after adding descriptors 7 and 8 and removing 7, events of 8 are delivered
  through a slot outside the table.\<close>

theorem remove_fd_leaves_stale_pointer:
  "let s1 = snd (nos_scheduler_add_fd True (Some 0) 7 (Some 1) None demo_sched);
       s2 = snd (nos_scheduler_add_fd True (Some 0) 8 (Some 2) None s1);
       s3 = snd (nos_scheduler_remove_fd (Some 0) 7 s2)
   in epoll_consistent (get_thread s2 0) \<and> \<not> epoll_consistent (get_thread s3 0)
      \<and> epoll_set (get_thread s3 0) 8 = Some (Fd_Entry 1) \<and> fd_count (get_thread s3 0) = 1"
  by (simp add: nos_scheduler_add_fd_def nos_scheduler_add_fd_ex_def nos_scheduler_remove_fd_def demo_sched_thread
      upd_thread_def null_thread_def epoll_consistent_def find_idx_def null_fd_entry_def numeral_nat nth_list_update
      swap_remove_def) (auto intro: exI[of _ 8])

end
