(* ===== verification/Nos_Map.thy ===== *)
theory Nos_Map
  imports Nos_Types
begin

text \<open>
  The interface of a dictionary with a bounded number of keys.  The service registry of the
  scheduler and the tables of the key-value store are such dictionaries: one is a linear array
  with swap-removal, the other a chained hash table over a pool of entries.  The locale
  \<open>bounded_map\<close> states what both promise, and proves once that any sequence of operations
  behaves like the same sequence on a plain partial map.
\<close>

datatype ('k, 'v) map_op = Put 'k 'v | Del 'k

text \<open>The specification: a partial map that refuses a new key when it is full.\<close>

fun spec_op :: "nat \<Rightarrow> ('k, 'v) map_op \<Rightarrow> ('k \<Rightarrow> 'v option) \<Rightarrow> bool \<times> ('k \<Rightarrow> 'v option)" where
  "spec_op cap (Put k v) m =
    (if m k \<noteq> None \<or> card (dom m) < cap then (True, m(k \<mapsto> v)) else (False, m))"
| "spec_op cap (Del k) m = (m k \<noteq> None, m(k := None))"

fun spec_run :: "nat \<Rightarrow> ('k, 'v) map_op list \<Rightarrow> ('k \<Rightarrow> 'v option) \<Rightarrow> bool list \<times> ('k \<Rightarrow> 'v option)" where
  "spec_run cap [] m = ([], m)"
| "spec_run cap (op # ops) m =
    (case spec_op cap op m of (r, m') \<Rightarrow> (case spec_run cap ops m' of (rs, m'') \<Rightarrow> (r # rs, m'')))"

locale bounded_map =
  fixes cap :: nat
    and ok_key :: "'k \<Rightarrow> bool"
    and ok_val :: "'v \<Rightarrow> bool"
    and inv :: "'s \<Rightarrow> bool"
    and view :: "'s \<Rightarrow> 'k \<Rightarrow> 'v option"
    and put :: "'k \<Rightarrow> 'v \<Rightarrow> 's \<Rightarrow> bool \<times> 's"
    and del :: "'k \<Rightarrow> 's \<Rightarrow> bool \<times> 's"
  assumes dom_bound: "inv s \<Longrightarrow> finite (dom (view s)) \<and> card (dom (view s)) \<le> cap"
    and put_room: "inv s \<Longrightarrow> ok_key k \<Longrightarrow> ok_val v \<Longrightarrow> view s k \<noteq> None \<or> card (dom (view s)) < cap \<Longrightarrow>
      \<exists>s'. put k v s = (True, s') \<and> inv s' \<and> view s' = (view s)(k \<mapsto> v)"
    and put_full: "inv s \<Longrightarrow> ok_key k \<Longrightarrow> ok_val v \<Longrightarrow> view s k = None \<Longrightarrow> card (dom (view s)) = cap \<Longrightarrow>
      \<exists>s'. put k v s = (False, s') \<and> inv s' \<and> view s' = view s"
    and del_law: "inv s \<Longrightarrow> ok_key k \<Longrightarrow>
      \<exists>s'. del k s = (view s k \<noteq> None, s') \<and> inv s' \<and> view s' = (view s)(k := None)"
begin

fun do_op :: "('k, 'v) map_op \<Rightarrow> 's \<Rightarrow> bool \<times> 's" where
  "do_op (Put k v) s = put k v s"
| "do_op (Del k) s = del k s"

fun ok_op :: "('k, 'v) map_op \<Rightarrow> bool" where
  "ok_op (Put k v) \<longleftrightarrow> ok_key k \<and> ok_val v"
| "ok_op (Del k) \<longleftrightarrow> ok_key k"

fun run :: "('k, 'v) map_op list \<Rightarrow> 's \<Rightarrow> bool list \<times> 's" where
  "run [] s = ([], s)"
| "run (op # ops) s = (case do_op op s of (r, s') \<Rightarrow> (case run ops s' of (rs, s'') \<Rightarrow> (r # rs, s'')))"

lemma op_refines:
  assumes "inv s" "ok_op op"
  shows "\<exists>r s'. do_op op s = (r, s') \<and> inv s' \<and> spec_op cap op (view s) = (r, view s')"
proof (cases op)
  case (Put k v)
  show ?thesis
  proof (cases "view s k \<noteq> None \<or> card (dom (view s)) < cap")
    case True
    then obtain s' where "put k v s = (True, s')" "inv s'" "view s' = (view s)(k \<mapsto> v)"
      using put_room[OF assms(1), of k v] assms(2) Put by auto
    then show ?thesis using Put True by auto
  next
    case False
    then have "view s k = None" "card (dom (view s)) = cap" using dom_bound[OF assms(1)] by auto
    then obtain s' where "put k v s = (False, s')" "inv s'" "view s' = view s"
      using put_full[OF assms(1), of k v] assms(2) Put by auto
    then show ?thesis using Put False by auto
  qed
next
  case (Del k)
  then show ?thesis using del_law[OF assms(1), of k] assms(2) by auto
qed

text \<open>Every run gives the results of the specification and ends in the specified contents.\<close>

lemma run_refines:
  "inv s \<Longrightarrow> list_all ok_op ops \<Longrightarrow>
     \<exists>rs s'. run ops s = (rs, s') \<and> inv s' \<and> spec_run cap ops (view s) = (rs, view s')"
proof (induction ops arbitrary: s)
  case (Cons op ops)
  then obtain r s1 where o: "do_op op s = (r, s1)" "inv s1" "spec_op cap op (view s) = (r, view s1)"
    using op_refines[of s op] by auto
  then obtain rs s2 where "run ops s1 = (rs, s2)" "inv s2" "spec_run cap ops (view s1) = (rs, view s2)"
    using Cons.IH[of s1] Cons.prems by auto
  then show ?case using o by auto
qed simp

lemma put_then_get:
  "inv s \<Longrightarrow> ok_key k \<Longrightarrow> ok_val v \<Longrightarrow> put k v s = (True, s') \<Longrightarrow> view s' k' = (if k' = k then Some v else view s k')"
  using put_room[of s k v] put_full[of s k v] dom_bound[of s]
  by (cases "view s k \<noteq> None \<or> card (dom (view s)) < cap") (auto dest: le_neq_implies_less)

lemma put_fails_iff:
  "inv s \<Longrightarrow> ok_key k \<Longrightarrow> ok_val v \<Longrightarrow>
     fst (put k v s) = False \<longleftrightarrow> view s k = None \<and> card (dom (view s)) = cap"
  using put_room[of s k v] put_full[of s k v] dom_bound[of s]
  by (cases "view s k \<noteq> None \<or> card (dom (view s)) < cap") (auto dest: le_neq_implies_less)

end

end
