(* ===== verification/Nos_Registry.thy ===== *)
theory Nos_Registry
  imports Nos_Sched Nos_Map
begin

text \<open>
  The service registry of \<^verbatim>\<open>nos_scheduler.c\<close>: an array of 64 entries searched linearly,
  where an entry is replaced in place and removed by moving the last one into its slot.  A slot
  that is reused keeps the fields the new registration does not write.  The registry implements
  the \<open>bounded_map\<close> interface, from service identifiers to routes.
\<close>

definition MAX_SERVICES :: nat where "MAX_SERVICES = 64"

definition find_service_entry :: "'z sched_state_scheme \<Rightarrow> u32 \<Rightarrow> nat option" where
  "find_service_entry s sid = find_idx (\<lambda>e. service_id e = sid) (g_service_registry s) (g_service_count s)"

definition find_loaded_component_info :: "'z sched_state_scheme \<Rightarrow> u32 \<Rightarrow> nat option" where
  "find_loaded_component_info s cid =
    find_idx (\<lambda>info. case li_comp info of None \<Rightarrow> False | Some c \<Rightarrow> comp_id (get_comp s c) = cid)
      (loaded_info s) (loaded_count s)"

definition get_entry :: "'z sched_state_scheme \<Rightarrow> nat \<Rightarrow> service_entry_t" where
  "get_entry s i = g_service_registry s ! i"

definition upd_entry :: "nat \<Rightarrow> (service_entry_t \<Rightarrow> service_entry_t) \<Rightarrow> 'z sched_state_scheme \<Rightarrow> 'z sched_state_scheme" where
  "upd_entry i f s = s\<lparr>g_service_registry := (g_service_registry s)[i := f (g_service_registry s ! i)]\<rparr>"

definition claim_entry :: "u32 \<Rightarrow> 'z sched_state_scheme \<Rightarrow> (nat \<times> 'z sched_state_scheme) option" where
  "claim_entry sid s =
    (case find_service_entry s sid of
       Some i \<Rightarrow> Some (i, s)
     | None \<Rightarrow> if g_service_count s \<ge> MAX_SERVICES then None
               else Some (g_service_count s, s\<lparr>g_service_count := g_service_count s + 1\<rparr>))"

definition nos_service_register_provider_bind ::
  "u32 \<Rightarrow> nat option \<Rightarrow> nat option \<Rightarrow> 'z sched_state_scheme \<Rightarrow> nos_status_t \<times> 'z sched_state_scheme" where
  "nos_service_register_provider_bind sid provider thread s =
    (case claim_entry sid s of
       None \<Rightarrow> (NOS_ERR, s)
     | Some (i, s1) \<Rightarrow> (NOS_OK, upd_entry i (\<lambda>e. e\<lparr>service_id := sid, local_provider := provider,
         local_thread := thread, is_remote := False\<rparr>) s1))"

definition nos_service_register_remote ::
  "u32 \<Rightarrow> string option \<Rightarrow> string \<Rightarrow> 'z sched_state_scheme \<Rightarrow> nos_status_t \<times> 'z sched_state_scheme" where
  "nos_service_register_remote sid node uds_path s =
    (case claim_entry sid s of
       None \<Rightarrow> (NOS_ERR, s)
     | Some (i, s1) \<Rightarrow> (NOS_OK, upd_entry i (\<lambda>e. e\<lparr>service_id := sid, is_remote := True,
         remote_node := (case node of None \<Rightarrow> remote_node e | Some n \<Rightarrow> c_strncpy 31 n),
         remote_uds_path := c_strncpy 107 uds_path\<rparr>) s1))"

definition nos_service_unregister_provider :: "u32 \<Rightarrow> 'z sched_state_scheme \<Rightarrow> nos_status_t \<times> 'z sched_state_scheme" where
  "nos_service_unregister_provider sid s =
    (case find_idx (\<lambda>e. service_id e = sid) (g_service_registry s) (g_service_count s) of
       None \<Rightarrow> (NOS_ERR, s)
     | Some i \<Rightarrow> (NOS_OK, s\<lparr>g_service_registry := swap_remove (g_service_registry s) (g_service_count s) i,
         g_service_count := g_service_count s - 1\<rparr>))"

section \<open>The registry as a map to routes\<close>

datatype route = Route_Local "nat option" "nat option" | Route_Remote string string

definition entry_route :: "service_entry_t \<Rightarrow> route" where
  "entry_route e = (if is_remote e then Route_Remote (remote_node e) (remote_uds_path e)
     else Route_Local (local_provider e) (local_thread e))"

definition reg_view :: "'z sched_state_scheme \<Rightarrow> u32 \<Rightarrow> route option" where
  "reg_view s sid = map_option (\<lambda>i. entry_route (get_entry s i)) (find_service_entry s sid)"

definition reg_inv :: "'z sched_state_scheme \<Rightarrow> bool" where
  "reg_inv s \<longleftrightarrow> length (g_service_registry s) = MAX_SERVICES \<and> g_service_count s \<le> MAX_SERVICES
     \<and> distinct (map service_id (take (g_service_count s) (g_service_registry s)))"

definition ok_route :: "route \<Rightarrow> bool" where
  "ok_route r = (case r of Route_Local p t \<Rightarrow> True | Route_Remote n u \<Rightarrow> length n \<le> 31 \<and> length u \<le> 107)"

definition register_route :: "u32 \<Rightarrow> route \<Rightarrow> 'z sched_state_scheme \<Rightarrow> bool \<times> 'z sched_state_scheme" where
  "register_route sid r s =
    (case (case r of Route_Local p t \<Rightarrow> nos_service_register_provider_bind sid p t s
           | Route_Remote n u \<Rightarrow> nos_service_register_remote sid (Some n) u s)
     of (st, s') \<Rightarrow> (st = NOS_OK, s'))"

definition unregister_route :: "u32 \<Rightarrow> 'z sched_state_scheme \<Rightarrow> bool \<times> 'z sched_state_scheme" where
  "unregister_route sid s = (case nos_service_unregister_provider sid s of (st, s') \<Rightarrow> (st = NOS_OK, s'))"

lemma reg_inv_unique:
  "reg_inv s \<Longrightarrow> i < g_service_count s \<Longrightarrow> j < g_service_count s \<Longrightarrow>
     service_id (g_service_registry s ! i) = service_id (g_service_registry s ! j) \<Longrightarrow> i = j"
  using nth_eq_iff_index_eq[of "map service_id (take (g_service_count s) (g_service_registry s))" i j]
  by (simp add: reg_inv_def)

lemma reg_invI:
  assumes "length (g_service_registry s) = MAX_SERVICES" "g_service_count s \<le> MAX_SERVICES"
    and "\<And>i j. i < g_service_count s \<Longrightarrow> j < g_service_count s \<Longrightarrow>
      service_id (g_service_registry s ! i) = service_id (g_service_registry s ! j) \<Longrightarrow> i = j"
  shows "reg_inv s"
  using assms by (auto simp: reg_inv_def distinct_conv_nth)

lemma find_entry_unique:
  "reg_inv s \<Longrightarrow> i < g_service_count s \<Longrightarrow> service_id (g_service_registry s ! i) = sid \<Longrightarrow> find_service_entry s sid = Some i"
  unfolding find_service_entry_def by (rule find_idx_unique) (auto dest: reg_inv_unique)

lemma find_entry_SomeD:
  "find_service_entry s sid = Some i \<Longrightarrow> i < g_service_count s \<and> service_id (g_service_registry s ! i) = sid"
  by (auto simp: find_service_entry_def dest: find_idx_SomeD)

lemma reg_view_eqI:
  assumes "reg_inv s"
    and "\<And>i. i < g_service_count s \<Longrightarrow> m (service_id (g_service_registry s ! i)) = Some (entry_route (g_service_registry s ! i))"
    and "\<And>k. m k \<noteq> None \<Longrightarrow> \<exists>i < g_service_count s. service_id (g_service_registry s ! i) = k"
  shows "reg_view s = m"
proof
  fix k
  show "reg_view s k = m k"
  proof (cases "find_service_entry s k")
    case None
    then have "\<not> (\<exists>i < g_service_count s. service_id (g_service_registry s ! i) = k)"
      by (auto simp: find_service_entry_def find_idx_None)
    then have "m k = None" using assms(3)[of k] by blast
    then show ?thesis using None by (simp add: reg_view_def)
  next
    case (Some i)
    then show ?thesis using assms(2)[of i] find_entry_SomeD[OF Some] by (auto simp: reg_view_def get_entry_def)
  qed
qed

lemma reg_view_nth:
  "reg_inv s \<Longrightarrow> i < g_service_count s \<Longrightarrow>
     reg_view s (service_id (g_service_registry s ! i)) = Some (entry_route (g_service_registry s ! i))"
  using find_entry_unique[of s i] by (simp add: reg_view_def get_entry_def)

lemma reg_view_None: "reg_view s k = None \<longleftrightarrow> find_service_entry s k = None"
  by (simp add: reg_view_def)

lemma reg_view_SomeD: "reg_view s k \<noteq> None \<Longrightarrow> \<exists>i < g_service_count s. service_id (g_service_registry s ! i) = k"
  using find_entry_SomeD[of s k] by (auto simp: reg_view_def)

lemma reg_dom: "reg_inv s \<Longrightarrow> dom (reg_view s) = (\<lambda>i. service_id (g_service_registry s ! i)) ` {..<g_service_count s}"
  using reg_view_nth[of s] reg_view_SomeD[of s] by fastforce

lemma reg_card: "reg_inv s \<Longrightarrow> card (dom (reg_view s)) = g_service_count s"
  by (simp add: reg_dom) (subst card_image, auto intro!: inj_onI dest: reg_inv_unique)

subsection \<open>Registration and removal\<close>

lemma register_found:
  assumes "reg_inv s" "find_service_entry s sid = Some i"
    and "\<And>e. service_id (f e) = sid" "\<And>e. entry_route (f e) = r"
  shows "reg_inv (upd_entry i f s)" "reg_view (upd_entry i f s) = (reg_view s)(sid \<mapsto> r)"
proof -
  let ?s = "upd_entry i f s"
  have i: "i < g_service_count s" "service_id (g_service_registry s ! i) = sid" using find_entry_SomeD assms(2) by auto
  have l: "length (g_service_registry s) = MAX_SERVICES" "g_service_count s \<le> MAX_SERVICES" using assms(1) by (auto simp: reg_inv_def)
  have nth: "g_service_registry ?s ! j = (if j = i then f (g_service_registry s ! i) else g_service_registry s ! j)" for j
    using i l by (simp add: upd_entry_def nth_list_update)
  have cnt: "g_service_count ?s = g_service_count s" by (simp add: upd_entry_def)
  have ids: "service_id (g_service_registry ?s ! j) = service_id (g_service_registry s ! j)" for j
    using nth[of j] i assms(3) by simp
  show inv: "reg_inv ?s"
    using l cnt ids reg_inv_unique[OF assms(1)] by (intro reg_invI) (auto simp: upd_entry_def)
  show "reg_view ?s = (reg_view s)(sid \<mapsto> r)"
  proof (rule reg_view_eqI[OF inv])
    fix j assume "j < g_service_count ?s"
    then have j: "j < g_service_count s" using cnt by simp
    show "((reg_view s)(sid \<mapsto> r)) (service_id (g_service_registry ?s ! j)) = Some (entry_route (g_service_registry ?s ! j))"
    proof (cases "j = i")
      case True
      then show ?thesis using nth[of i] assms(3,4) by simp
    next
      case False
      then have "service_id (g_service_registry s ! j) \<noteq> sid" using reg_inv_unique[OF assms(1) j i(1)] i(2) by auto
      then show ?thesis using False nth[of j] reg_view_nth[OF assms(1) j] by simp
    qed
  next
    fix k assume "((reg_view s)(sid \<mapsto> r)) k \<noteq> None"
    then show "\<exists>j < g_service_count ?s. service_id (g_service_registry ?s ! j) = k"
      using cnt ids i reg_view_SomeD[of s k] by (cases "k = sid") auto
  qed
qed

lemma register_new:
  assumes "reg_inv s" "find_service_entry s sid = None" "g_service_count s < MAX_SERVICES"
    and "\<And>e. service_id (f e) = sid" "\<And>e. entry_route (f e) = r"
  shows "reg_inv (upd_entry (g_service_count s) f (s\<lparr>g_service_count := g_service_count s + 1\<rparr>))"
    "reg_view (upd_entry (g_service_count s) f (s\<lparr>g_service_count := g_service_count s + 1\<rparr>)) = (reg_view s)(sid \<mapsto> r)"
proof -
  let ?n = "g_service_count s"
  let ?s = "upd_entry ?n f (s\<lparr>g_service_count := ?n + 1\<rparr>)"
  have l: "length (g_service_registry s) = MAX_SERVICES" using assms(1) by (auto simp: reg_inv_def)
  have nth: "g_service_registry ?s ! j = (if j = ?n then f (g_service_registry s ! ?n) else g_service_registry s ! j)" for j
    using l assms(3) by (simp add: upd_entry_def nth_list_update)
  have cnt: "g_service_count ?s = ?n + 1" by (simp add: upd_entry_def)
  have fresh: "service_id (g_service_registry s ! j) \<noteq> sid" if "j < ?n" for j
    using assms(2) that by (auto simp: find_service_entry_def find_idx_None)
  show inv: "reg_inv ?s"
  proof (rule reg_invI)
    fix i j assume "i < g_service_count ?s" "j < g_service_count ?s"
      "service_id (g_service_registry ?s ! i) = service_id (g_service_registry ?s ! j)"
    then show "i = j" using cnt nth[of i] nth[of j] assms(4) fresh[of i] fresh[of j] reg_inv_unique[OF assms(1), of i j]
      by (auto split: if_splits simp: less_Suc_eq)
  qed (use l assms(3) cnt in \<open>auto simp: upd_entry_def\<close>)
  show "reg_view ?s = (reg_view s)(sid \<mapsto> r)"
  proof (rule reg_view_eqI[OF inv])
    fix j assume "j < g_service_count ?s"
    then have "j = ?n \<or> j < ?n" using cnt by auto
    then show "((reg_view s)(sid \<mapsto> r)) (service_id (g_service_registry ?s ! j)) = Some (entry_route (g_service_registry ?s ! j))"
      using nth[of j] assms(4,5) fresh[of j] reg_view_nth[OF assms(1), of j] by auto
  next
    fix k assume "((reg_view s)(sid \<mapsto> r)) k \<noteq> None"
    then have "k = sid \<or> (\<exists>j < ?n. service_id (g_service_registry s ! j) = k)"
      using reg_view_SomeD[of s k] by (auto split: if_splits)
    then show "\<exists>j < g_service_count ?s. service_id (g_service_registry ?s ! j) = k"
      using cnt nth assms(4) by (metis less_add_one less_irrefl order_less_trans)
  qed
qed

lemma unregister_found:
  assumes "reg_inv s" "find_service_entry s sid = Some i"
  defines "s' \<equiv> s\<lparr>g_service_registry := swap_remove (g_service_registry s) (g_service_count s) i,
         g_service_count := g_service_count s - 1\<rparr>"
  shows "reg_inv s'" "reg_view s' = (reg_view s)(sid := None)"
proof -
  let ?n = "g_service_count s"
  have i: "i < ?n" "service_id (g_service_registry s ! i) = sid" using find_entry_SomeD assms(2) by auto
  have l: "length (g_service_registry s) = MAX_SERVICES" "?n \<le> MAX_SERVICES" using assms(1) by (auto simp: reg_inv_def)
  have nth: "g_service_registry s' ! j = g_service_registry s ! (if j = i then ?n - 1 else j)" if "j < ?n - 1" for j
    using that i l by (simp add: s'_def swap_remove_def nth_list_update)
  have cnt: "g_service_count s' = ?n - 1" by (simp add: s'_def)
  note u = reg_inv_unique[OF assms(1)]
  show inv: "reg_inv s'"
  proof (rule reg_invI)
    fix a b assume ab: "a < g_service_count s'" "b < g_service_count s'"
      "service_id (g_service_registry s' ! a) = service_id (g_service_registry s' ! b)"
    let ?a = "if a = i then ?n - 1 else a" and ?b = "if b = i then ?n - 1 else b"
    have "?a = ?b" using ab cnt nth[of a] nth[of b] by (intro u) auto
    then show "a = b" using ab cnt by (auto split: if_splits)
  qed (use l cnt in \<open>auto simp: s'_def\<close>)
  show "reg_view s' = (reg_view s)(sid := None)"
  proof (rule reg_view_eqI[OF inv])
    fix j assume "j < g_service_count s'"
    then have j: "j < ?n - 1" using cnt by simp
    let ?j = "if j = i then ?n - 1 else j"
    have "?j < ?n" "?j \<noteq> i" using j by auto
    then have "service_id (g_service_registry s ! ?j) \<noteq> sid" using u[OF _ i(1), of ?j] i(2) by auto
    then show "((reg_view s)(sid := None)) (service_id (g_service_registry s' ! j)) = Some (entry_route (g_service_registry s' ! j))"
      using nth[OF j] reg_view_nth[OF assms(1) \<open>?j < ?n\<close>] by simp
  next
    fix k assume k: "((reg_view s)(sid := None)) k \<noteq> None"
    then obtain m where m: "m < ?n" "service_id (g_service_registry s ! m) = k" "k \<noteq> sid"
      using reg_view_SomeD[of s k] by (auto split: if_splits)
    then have "m \<noteq> i" using i by auto
    let ?m = "if m = ?n - 1 then i else m"
    have "?m < ?n - 1" using m(1) i(1) \<open>m \<noteq> i\<close> by auto
    moreover have "service_id (g_service_registry s' ! ?m) = k" using nth[OF calculation] m \<open>m \<noteq> i\<close> by auto
    ultimately show "\<exists>j < g_service_count s'. service_id (g_service_registry s' ! j) = k" using cnt by auto
  qed
qed

definition write_route :: "u32 \<Rightarrow> route \<Rightarrow> service_entry_t \<Rightarrow> service_entry_t" where
  "write_route sid r e = (case r of
      Route_Local p t \<Rightarrow> e\<lparr>service_id := sid, local_provider := p, local_thread := t, is_remote := False\<rparr>
    | Route_Remote n u \<Rightarrow> e\<lparr>service_id := sid, is_remote := True, remote_node := c_strncpy 31 n,
        remote_uds_path := c_strncpy 107 u\<rparr>)"

lemma write_route [simp]: "service_id (write_route sid r e) = sid"
  "ok_route r \<Longrightarrow> entry_route (write_route sid r e) = r"
  by (auto simp: write_route_def ok_route_def entry_route_def split: route.splits)

lemma register_route_alt:
  "register_route sid r s = (case claim_entry sid s of
     None \<Rightarrow> (False, s) | Some (i, s1) \<Rightarrow> (True, upd_entry i (write_route sid r) s1))"
  by (auto simp: register_route_def nos_service_register_provider_bind_def nos_service_register_remote_def
      write_route_def[abs_def] upd_entry_def split: route.splits option.splits)

interpretation registry: bounded_map MAX_SERVICES "\<lambda>_. True" ok_route reg_inv reg_view register_route unregister_route
proof unfold_locales
  fix s :: "'z sched_state_scheme" and k v
  assume inv: "reg_inv s"
  show "finite (dom (reg_view s)) \<and> card (dom (reg_view s)) \<le> MAX_SERVICES"
    using reg_card[OF inv] reg_dom[OF inv] inv by (auto simp: reg_inv_def)
  { assume v: "ok_route v" and room: "reg_view s k \<noteq> None \<or> card (dom (reg_view s)) < MAX_SERVICES"
    show "\<exists>s'. register_route k v s = (True, s') \<and> reg_inv s' \<and> reg_view s' = (reg_view s)(k \<mapsto> v)"
    proof (cases "find_service_entry s k")
      case None
      then have "g_service_count s < MAX_SERVICES" using room reg_card[OF inv] by (simp add: reg_view_None)
      then show ?thesis using None register_new[OF inv None, of "write_route k v" v] v
        by (simp add: register_route_alt claim_entry_def)
    next
      case (Some i)
      then show ?thesis using register_found[OF inv Some, of "write_route k v" v] v
        by (simp add: register_route_alt claim_entry_def)
    qed }
  { assume "reg_view s k = None" "card (dom (reg_view s)) = MAX_SERVICES"
    then show "\<exists>s'. register_route k v s = (False, s') \<and> reg_inv s' \<and> reg_view s' = reg_view s"
      using reg_card[OF inv] inv by (simp add: register_route_alt claim_entry_def reg_view_None) }
  show "\<exists>s'. unregister_route k s = (reg_view s k \<noteq> None, s') \<and> reg_inv s' \<and> reg_view s' = (reg_view s)(k := None)"
  proof (cases "find_service_entry s k")
    case None
    then have "reg_view s k = None" by (simp add: reg_view_None)
    then show ?thesis using None inv
      by (auto simp: unregister_route_def nos_service_unregister_provider_def find_service_entry_def fun_upd_idem)
  next
    case (Some i)
    then show ?thesis using unregister_found[OF inv Some]
      by (simp add: unregister_route_def nos_service_unregister_provider_def find_service_entry_def[symmetric] reg_view_None)
  qed
qed

section \<open>Properties\<close>

lemma boot_reg_inv: "reg_inv boot_state"
  by (simp add: reg_inv_def boot_state_def MAX_SERVICES_def)

text \<open>C12.  Every sequence of registrations and removals, local and remote, gives the results and
  ends with the routes of the same sequence on a plain map from service identifiers to routes
  that holds at most 64 services, provided the remote names fit their fields.\<close>

theorem registry_refines_map:
  assumes "reg_inv s" "list_all (bounded_map.ok_op (\<lambda>_. True) ok_route) ops"
  shows "\<exists>rs s'. bounded_map.run register_route unregister_route ops s = (rs, s') \<and> reg_inv s'
    \<and> spec_run MAX_SERVICES ops (reg_view s) = (rs, reg_view s')"
  using registry.run_refines[OF assms] .

theorem registry_refines_map_witness:
  "\<exists>rs s'. bounded_map.run register_route unregister_route
      [Put 7 (Route_Local (Some 1) (Some 0)), Put 9 (Route_Remote ''n2'' ''/tmp/n2''), Put 7 (Route_Remote ''n3'' ''/tmp/n3''), Del 9, Del 4]
      boot_state = (rs, s') \<and> reg_inv s' \<and>
    spec_run MAX_SERVICES
      [Put 7 (Route_Local (Some 1) (Some 0)), Put 9 (Route_Remote ''n2'' ''/tmp/n2''), Put 7 (Route_Remote ''n3'' ''/tmp/n3''), Del 9, Del 4]
      (reg_view boot_state) = (rs, reg_view s')"
  by (rule registry_refines_map[OF boot_reg_inv]) (simp add: registry.ok_op.simps ok_route_def)

end
