(* ===== verification/Nos_Timer.thy ===== *)
theory Nos_Timer
  imports Nos_Sched
begin

text \<open>
  The timers of \<^verbatim>\<open>nos_scheduler.c\<close>: creation, start, stop, deletion, cancellation by owner
  and the expiry loop \<^verbatim>\<open>process_timers\<close>.  The callbacks of a timer are parameters:
  \<open>cb f arg s\<close> is the state after the function \<open>f\<close> ran on \<open>arg\<close> in \<open>s\<close>.
  The expiry loop may run forever (a periodic timer with interval 0 is due again at once), so it
  takes fuel; \<open>process_timers_returns\<close> shows when it returns and how much fuel is enough.
\<close>

definition node_key :: "'z sched_state_scheme \<Rightarrow> nat option \<Rightarrow> u64" where
  "node_key s n = (case n of None \<Rightarrow> 0 | Some p \<Rightarrow> expire_at_ms (get_timer s p))"

abbreviation heap_of :: "'z sched_state_scheme \<Rightarrow> nat \<Rightarrow> nat option nos_timer_heap_t" where
  "heap_of s t \<equiv> timer_heap (get_thread s t)"

definition set_heap :: "nat \<Rightarrow> nat option nos_timer_heap_t \<Rightarrow> 'z sched_state_scheme \<Rightarrow> 'z sched_state_scheme" where
  "set_heap t h = upd_thread t (\<lambda>th. th\<lparr>timer_heap := h\<rparr>)"

definition nos_timer_create ::
  "nat option \<Rightarrow> nat option \<Rightarrow> nat option \<Rightarrow> nat option \<Rightarrow> 'z sched_state_scheme \<Rightarrow> nat option \<times> 'z sched_state_scheme" where
  "nos_timer_create calloc_result cb arg free_cb s =
    (case calloc_result of
       None \<Rightarrow> (None, s)
     | Some p \<Rightarrow> (Some p, s\<lparr>g_timers := (g_timers s)(p \<mapsto> null_timer\<lparr>callback := cb, timer_arg := arg, free_arg := free_cb\<rparr>)\<rparr>))"

definition arm_timer :: "u64 \<Rightarrow> u32 \<Rightarrow> bool \<Rightarrow> nat option \<Rightarrow> nat \<Rightarrow> nos_timer_t \<Rightarrow> nos_timer_t" where
  "arm_timer now interval periodic self t tm =
    tm\<lparr>interval_ms := interval, expire_at_ms := now + ucast interval, is_periodic := periodic, is_running := True,
       owner := self, owner_thread := Some t\<rparr>"

definition nos_timer_start ::
  "nat option \<Rightarrow> nat option \<Rightarrow> u32 \<Rightarrow> bool \<Rightarrow> 'z sched_state_scheme \<Rightarrow> nos_status_t \<times> 'z sched_state_scheme" where
  "nos_timer_start self timer interval periodic s =
    (case (find_thread_of_component s self, timer) of
       (Some t, Some p) \<Rightarrow>
         if is_running (get_timer s p) then (NOS_ERR, s)
         else if hsize (heap_of s t) \<ge> hcapacity (heap_of s t) then (NOS_ERR, s)
         else
           (case get_monotonic_ms s of (now, s1) \<Rightarrow>
              let s2 = upd_timer p (arm_timer now interval periodic self t) s1
              in (NOS_OK, notify t (set_heap t (heap_insert (node_key s2) (Some p) (heap_of s2 t)) s2)))
     | _ \<Rightarrow> (NOS_ERR, s))"

definition clear_timer :: "nos_timer_t \<Rightarrow> nos_timer_t" where
  "clear_timer tm = tm\<lparr>is_running := False, owner := None, owner_thread := None\<rparr>"

definition find_timer_node :: "'z sched_state_scheme \<Rightarrow> nat \<Rightarrow> nat \<Rightarrow> nat option" where
  "find_timer_node s t p = find_idx (\<lambda>n. n = Some p) (nodes (heap_of s t)) (hsize (heap_of s t))"

definition nos_timer_stop :: "nat option \<Rightarrow> nat option \<Rightarrow> 'z sched_state_scheme \<Rightarrow> nos_status_t \<times> 'z sched_state_scheme" where
  "nos_timer_stop self timer s =
    (case timer of
       None \<Rightarrow> (NOS_ERR, s)
     | Some p \<Rightarrow>
         (case (case owner_thread (get_timer s p) of None \<Rightarrow> find_thread_of_component s self | Some t \<Rightarrow> Some t) of
            None \<Rightarrow> (NOS_ERR, s)
          | Some t \<Rightarrow>
              if \<not> is_running (get_timer s p) then (NOS_ERR, s)
              else (case find_timer_node s t p of
                  None \<Rightarrow> (NOS_ERR, s)
                | Some i \<Rightarrow> (NOS_OK, upd_timer p clear_timer (set_heap t (heap_remove_at (node_key s) i (heap_of s t)) s)))))"

definition detach_timer :: "nat \<Rightarrow> nos_timer_t \<Rightarrow> 'z sched_state_scheme \<Rightarrow> 'z sched_state_scheme" where
  "detach_timer p tm s =
    (case (is_running tm, owner_thread tm) of
       (True, Some t) \<Rightarrow>
         (case find_timer_node s t p of
            None \<Rightarrow> s
          | Some i \<Rightarrow> set_heap t (heap_remove_at (node_key s) i (heap_of s t)) s)
     | _ \<Rightarrow> s)"

definition nos_timer_delete ::
  "(nat \<Rightarrow> nat option \<Rightarrow> 'z sched_state_scheme \<Rightarrow> 'z sched_state_scheme) \<Rightarrow> nat option \<Rightarrow>
     'z sched_state_scheme \<Rightarrow> 'z sched_state_scheme" where
  "nos_timer_delete run_free timer s =
    (case timer of
       None \<Rightarrow> s
     | Some p \<Rightarrow>
         (let tm = get_timer s p;
              s2 = upd_timer p clear_timer (detach_timer p tm s);
              s3 = (case free_arg tm of None \<Rightarrow> s2 | Some f \<Rightarrow> run_free f (timer_arg tm) s2)
          in s3\<lparr>g_timers := (g_timers s3)(p := None)\<rparr>))"

text \<open>The compaction loop of \<^verbatim>\<open>nos_scheduler_cancel_timers_by_owner\<close>: the nodes kept, and the
  state in which the others are cleared.\<close>

fun cancel_scan :: "nat \<Rightarrow> nat option list \<Rightarrow> 'z sched_state_scheme \<Rightarrow> nat option list \<times> 'z sched_state_scheme" where
  "cancel_scan c [] s = ([], s)"
| "cancel_scan c (n # ns) s =
    (case n of
       None \<Rightarrow> (case cancel_scan c ns s of (kept, s') \<Rightarrow> (n # kept, s'))
     | Some p \<Rightarrow>
         if owner (get_timer s p) = Some c then cancel_scan c ns (upd_timer p clear_timer s)
         else (case cancel_scan c ns s of (kept, s') \<Rightarrow> (n # kept, s')))"

definition nos_scheduler_cancel_timers_by_owner ::
  "nat option \<Rightarrow> nat option \<Rightarrow> 'z sched_state_scheme \<Rightarrow> 'z sched_state_scheme" where
  "nos_scheduler_cancel_timers_by_owner thread own s =
    (case (thread, own) of
       (Some t, Some c) \<Rightarrow>
         (case cancel_scan c (take (hsize (heap_of s t)) (nodes (heap_of s t))) s of (kept, s') \<Rightarrow>
            set_heap t (heap_reset (node_key s') kept (heap_of s' t)) s')
     | _ \<Rightarrow> s)"

section \<open>The expiry loop\<close>

definition owner_active :: "'z sched_state_scheme \<Rightarrow> nos_timer_t \<Rightarrow> bool" where
  "owner_active s tm = (case owner tm of None \<Rightarrow> False | Some c \<Rightarrow> comp_status (get_comp s c) = NOS_COMP_ST_ACTIVE)"

definition fire_timer :: "(nat \<Rightarrow> nat option \<Rightarrow> 'z sched_state_scheme \<Rightarrow> 'z sched_state_scheme) \<Rightarrow>
    nat \<Rightarrow> 'z sched_state_scheme \<Rightarrow> 'z sched_state_scheme" where
  "fire_timer cb p s =
    (let tm = get_timer s p in
     if owner_active s tm then (case callback tm of None \<Rightarrow> s | Some f \<Rightarrow> cb f (timer_arg tm) s) else s)"

definition rearm_timer :: "nat \<Rightarrow> nat \<Rightarrow> 'z sched_state_scheme \<Rightarrow> 'z sched_state_scheme" where
  "rearm_timer t p s =
    (let tm = get_timer s p in
     if is_periodic tm \<and> owner_active s tm then
       (case get_monotonic_ms s of (now, s1) \<Rightarrow>
          let s2 = upd_timer p (\<lambda>tm. tm\<lparr>expire_at_ms := now + ucast (interval_ms tm)\<rparr>) s1 in
          if hsize (heap_of s2 t) \<ge> hcapacity (heap_of s2 t) then upd_timer p (\<lambda>tm. tm\<lparr>is_running := False\<rparr>) s2
          else
            (let s3 = upd_timer p (\<lambda>tm. tm\<lparr>is_running := True\<rparr>) s2
             in set_heap t (heap_insert (node_key s3) (Some p) (heap_of s3 t)) s3))
     else s)"

text \<open>One iteration: \<open>None\<close> is the \<^verbatim>\<open>break\<close>; otherwise the timer that expired.\<close>

definition expire_one :: "nat \<Rightarrow> 'z sched_state_scheme \<Rightarrow> nat option \<times> 'z sched_state_scheme" where
  "expire_one t s =
    (case get_monotonic_ms s of (now, s1) \<Rightarrow>
       let h = heap_of s1 t in
       if hsize h = 0 \<or> now < node_key s1 (nodes h ! 0) then (None, s1)
       else (case nodes h ! 0 of
           None \<Rightarrow> (None, s1)
         | Some p \<Rightarrow> (Some p, upd_timer p (\<lambda>tm. tm\<lparr>is_running := False\<rparr>)
                        (set_heap t (heap_remove_at (node_key s1) 0 h) s1))))"

fun process_timers :: "(nat \<Rightarrow> nat option \<Rightarrow> 'z sched_state_scheme \<Rightarrow> 'z sched_state_scheme) \<Rightarrow>
    nat \<Rightarrow> nat \<Rightarrow> 'z sched_state_scheme \<Rightarrow> 'z sched_state_scheme option" where
  "process_timers cb 0 t s = None"
| "process_timers cb (Suc fuel) t s =
    (case expire_one t s of
       (None, s') \<Rightarrow> Some s'
     | (Some p, s') \<Rightarrow> process_timers cb fuel t (rearm_timer t p (fire_timer cb p s')))"

section \<open>Well-formedness\<close>

text \<open>
  A timer is in the heap of a thread exactly when it is running and belongs to that thread, at
  most once.  \<open>timers_ordered\<close> adds that the heap of a thread is in heap order.
\<close>

definition timers_wf :: "'z sched_state_scheme \<Rightarrow> bool" where
  "timers_wf s \<longleftrightarrow>
     (\<forall>t < length (g_threads s). heap_shape (heap_of s t) \<and> hcapacity (heap_of s t) = 128
        \<and> None \<notin># heap_items (heap_of s t) \<and> (\<forall>n. count (heap_items (heap_of s t)) n \<le> 1)
        \<and> (\<forall>p. Some p \<in># heap_items (heap_of s t) \<longleftrightarrow>
             (\<exists>tm. g_timers s p = Some tm \<and> is_running tm \<and> owner_thread tm = Some t)))
     \<and> (\<forall>p tm. g_timers s p = Some tm \<and> is_running tm \<longrightarrow> (\<exists>t < length (g_threads s). owner_thread tm = Some t))"

definition timers_ordered :: "'z sched_state_scheme \<Rightarrow> nat \<Rightarrow> bool" where
  "timers_ordered s t \<longleftrightarrow> heap_inv (node_key s) 128 (heap_of s t)"

definition threads_wf :: "'z sched_state_scheme \<Rightarrow> bool" where
  "threads_wf s \<longleftrightarrow> (case mgmt_thread s of None \<Rightarrow> True | Some m \<Rightarrow> m < length (g_threads s))
     \<and> (\<forall>t \<in> set (worker_threads s). t < length (g_threads s))"

lemma timers_wfD:
  assumes "timers_wf s" "t < length (g_threads s)"
  shows "heap_shape (heap_of s t)" "hcapacity (heap_of s t) = 128" "None \<notin># heap_items (heap_of s t)"
    "count (heap_items (heap_of s t)) n \<le> 1"
    "Some p \<in># heap_items (heap_of s t) \<longleftrightarrow> (\<exists>tm. g_timers s p = Some tm \<and> is_running tm \<and> owner_thread tm = Some t)"
  using assms unfolding timers_wf_def by blast+

lemma timers_wf_thread:
  "timers_wf s \<Longrightarrow> g_timers s p = Some tm \<Longrightarrow> is_running tm \<Longrightarrow> \<exists>t < length (g_threads s). owner_thread tm = Some t"
  unfolding timers_wf_def by blast

lemma timers_wfI:
  assumes "\<And>t. t < length (g_threads s) \<Longrightarrow> heap_shape (heap_of s t) \<and> hcapacity (heap_of s t) = 128 \<and> None \<notin># heap_items (heap_of s t)"
    and "\<And>t n. t < length (g_threads s) \<Longrightarrow> count (heap_items (heap_of s t)) n \<le> 1"
    and "\<And>t p. t < length (g_threads s) \<Longrightarrow> Some p \<in># heap_items (heap_of s t) \<longleftrightarrow>
      (\<exists>tm. g_timers s p = Some tm \<and> is_running tm \<and> owner_thread tm = Some t)"
    and "\<And>p tm. g_timers s p = Some tm \<Longrightarrow> is_running tm \<Longrightarrow> \<exists>t < length (g_threads s). owner_thread tm = Some t"
  shows "timers_wf s"
  using assms unfolding timers_wf_def by blast

lemma get_timer_Some: "g_timers s p = Some tm \<Longrightarrow> get_timer s p = tm"
  by (simp add: get_timer_def)

lemma find_worker_in: "find_worker s ts c = Some t \<Longrightarrow> t \<in> set ts"
  by (induction ts) (auto split: if_splits)

lemma find_thread_wf: "threads_wf s \<Longrightarrow> find_thread_of_component s self = Some t \<Longrightarrow> t < length (g_threads s)"
  by (auto simp: threads_wf_def find_thread_of_component_def split: option.splits if_splits dest: find_worker_in)

lemma heap_of_set_heap [simp]:
  "t < length (g_threads s) \<Longrightarrow> heap_of (set_heap t h s) u = (if u = t then h else heap_of s u)"
  by (simp add: set_heap_def)

lemma set_heap_simps [simp]:
  "g_timers (set_heap t h s) = g_timers s" "length (g_threads (set_heap t h s)) = length (g_threads s)"
  "g_comps (set_heap t h s) = g_comps s" "g_clock (set_heap t h s) = g_clock s"
  "g_clock_pos (set_heap t h s) = g_clock_pos s" "mgmt_thread (set_heap t h s) = mgmt_thread s"
  "worker_threads (set_heap t h s) = worker_threads s" "get_timer (set_heap t h s) p = get_timer s p"
  "node_key (set_heap t h s) = node_key s"
  by (simp_all add: set_heap_def get_timer_def node_key_def[abs_def])

lemma get_timer_notify [simp]: "get_timer (notify t s) p = get_timer s p" "node_key (notify t s) = node_key s"
  by (simp_all add: get_timer_def node_key_def[abs_def])

lemma get_timer_upd: "g_timers s p = Some tm \<Longrightarrow> get_timer (upd_timer p f s) q = (if q = p then f tm else get_timer s q)"
  by (simp add: get_timer_def upd_timer_def)

lemma get_monotonic_ms_simps [simp]:
  "fst (get_monotonic_ms s) = g_clock s (g_clock_pos s)"
  "snd (get_monotonic_ms s) = s\<lparr>g_clock_pos := g_clock_pos s + 1\<rparr>"
  by (simp_all add: get_monotonic_ms_def)

lemma get_timer_clock [simp]: "get_timer (s\<lparr>g_clock_pos := n\<rparr>) p = get_timer s p"
  "node_key (s\<lparr>g_clock_pos := n\<rparr>) = node_key s"
  by (simp_all add: get_timer_def node_key_def[abs_def])

text \<open>Putting a stopped timer \<open>p\<close> into the heap of \<open>t\<close>, and taking a running one out.\<close>

lemma timers_wf_enter:
  assumes wf: "timers_wf s" and t: "t < length (g_threads s)" and p: "g_timers s p = Some tm" "\<not> is_running tm"
    and f: "is_running (f tm)" "owner_thread (f tm) = Some t"
    and h: "heap_shape h" "hcapacity h = 128" "heap_items h = add_mset (Some p) (heap_items (heap_of s t))"
  shows "timers_wf (set_heap t h (upd_timer p f s))"
proof -
  have new: "Some p \<notin># heap_items (heap_of s u)" if "u < length (g_threads s)" for u
    using timers_wfD(5)[OF wf that, of p] p by auto
  then have cnt: "count (heap_items h) n \<le> 1" for n
    using timers_wfD(4)[OF wf t, of n] t h(3) by (auto simp: not_in_iff)
  show ?thesis
  proof (rule timers_wfI)
    fix u assume "u < length (g_threads (set_heap t h (upd_timer p f s)))"
    then have u: "u < length (g_threads s)" by simp
    show "heap_shape (heap_of (set_heap t h (upd_timer p f s)) u) \<and> hcapacity (heap_of (set_heap t h (upd_timer p f s)) u) = 128
        \<and> None \<notin># heap_items (heap_of (set_heap t h (upd_timer p f s)) u)"
      using timers_wfD(1-3)[OF wf u] t h by auto
    show "count (heap_items (heap_of (set_heap t h (upd_timer p f s)) u)) n \<le> 1" for n
      using timers_wfD(4)[OF wf u, of n] cnt[of n] t by simp
    show "Some q \<in># heap_items (heap_of (set_heap t h (upd_timer p f s)) u) \<longleftrightarrow>
        (\<exists>tm. g_timers (set_heap t h (upd_timer p f s)) q = Some tm \<and> is_running tm \<and> owner_thread tm = Some u)" for q
      using timers_wfD(5)[OF wf u, of q] new[OF u] t h(3) p f by (cases "q = p"; cases "u = t") (simp_all add: g_timers_upd_timer)
  next
    fix q tm' assume "g_timers (set_heap t h (upd_timer p f s)) q = Some tm'" "is_running tm'"
    then show "\<exists>u < length (g_threads (set_heap t h (upd_timer p f s))). owner_thread tm' = Some u"
      using timers_wf_thread[OF wf, of q tm'] p f t by (cases "q = p") (auto simp: g_timers_upd_timer)
  qed
qed

lemma timers_wf_leave:
  assumes wf: "timers_wf s" and t: "t < length (g_threads s)" and p: "g_timers s p = Some tm" "is_running tm" "owner_thread tm = Some t"
    and f: "\<not> is_running (f tm)"
    and h: "heap_shape h" "hcapacity h = 128" "heap_items h = heap_items (heap_of s t) - {#Some p#}"
  shows "timers_wf (upd_timer p f (set_heap t h s))"
proof -
  have gone: "Some p \<notin># heap_items h"
    using timers_wfD(4)[OF wf t, of "Some p"] h(3) by (simp add: not_in_iff)
  have cnt: "count (heap_items h) n \<le> 1" for n
    using timers_wfD(4)[OF wf t, of n] h(3) by simp
  have keep: "n \<in># heap_items h \<longleftrightarrow> n \<in># heap_items (heap_of s t)" if "n \<noteq> Some p" for n
    using that h(3) by (simp add: in_diff_count)
  show ?thesis
  proof (rule timers_wfI)
    fix u assume "u < length (g_threads (upd_timer p f (set_heap t h s)))"
    then have u: "u < length (g_threads s)" by simp
    show "heap_shape (heap_of (upd_timer p f (set_heap t h s)) u) \<and> hcapacity (heap_of (upd_timer p f (set_heap t h s)) u) = 128
        \<and> None \<notin># heap_items (heap_of (upd_timer p f (set_heap t h s)) u)"
      using timers_wfD(1-3)[OF wf u] t h keep[of None] by auto
    show "count (heap_items (heap_of (upd_timer p f (set_heap t h s)) u)) n \<le> 1" for n
      using timers_wfD(4)[OF wf u, of n] cnt[of n] t by simp
    show "Some q \<in># heap_items (heap_of (upd_timer p f (set_heap t h s)) u) \<longleftrightarrow>
        (\<exists>tm. g_timers (upd_timer p f (set_heap t h s)) q = Some tm \<and> is_running tm \<and> owner_thread tm = Some u)" for q
    proof (cases "q = p")
      case True
      then show ?thesis using timers_wfD(5)[OF wf u, of p] gone t p f by (simp add: g_timers_upd_timer)
    next
      case False
      then show ?thesis using timers_wfD(5)[OF wf u, of q] keep[of "Some q"] t
        by (cases "u = t") (simp_all add: g_timers_upd_timer)
    qed
  next
    fix q tm' assume "g_timers (upd_timer p f (set_heap t h s)) q = Some tm'" "is_running tm'"
    then show "\<exists>u < length (g_threads (upd_timer p f (set_heap t h s))). owner_thread tm' = Some u"
      using timers_wf_thread[OF wf, of q tm'] p f t by (cases "q = p") (auto simp: g_timers_upd_timer)
  qed
qed

lemma timers_wf_update:
  assumes wf: "timers_wf s" and p: "g_timers s p = Some tm"
    and f: "is_running (f tm) = is_running tm" "is_running tm \<Longrightarrow> owner_thread (f tm) = owner_thread tm"
  shows "timers_wf (upd_timer p f s)"
proof (rule timers_wfI)
  fix u assume "u < length (g_threads (upd_timer p f s))"
  then have u: "u < length (g_threads s)" by simp
  show "heap_shape (heap_of (upd_timer p f s) u) \<and> hcapacity (heap_of (upd_timer p f s) u) = 128
      \<and> None \<notin># heap_items (heap_of (upd_timer p f s) u)"
    using timers_wfD(1-3)[OF wf u] by simp
  show "count (heap_items (heap_of (upd_timer p f s) u)) n \<le> 1" for n
    using timers_wfD(4)[OF wf u, of n] by simp
  show "Some q \<in># heap_items (heap_of (upd_timer p f s) u) \<longleftrightarrow>
      (\<exists>tm. g_timers (upd_timer p f s) q = Some tm \<and> is_running tm \<and> owner_thread tm = Some u)" for q
    using timers_wfD(5)[OF wf u, of q] p f by (cases "q = p") (auto simp: g_timers_upd_timer)
next
  fix q tm' assume "g_timers (upd_timer p f s) q = Some tm'" "is_running tm'"
  then show "\<exists>u < length (g_threads (upd_timer p f s)). owner_thread tm' = Some u"
    using timers_wf_thread[OF wf, of q] p f by (cases "q = p") (auto simp: g_timers_upd_timer)
qed

lemma timers_wf_clock [simp]: "timers_wf (s\<lparr>g_clock_pos := n\<rparr>) = timers_wf s"
  by (simp add: timers_wf_def)

lemma timers_wf_notify [simp]: "t < length (g_threads s) \<Longrightarrow> timers_wf (notify t s) = timers_wf s"
  by (simp add: timers_wf_def)

text \<open>Heap order survives a change of timers that are not in the heap.\<close>

lemma timers_ordered_upd:
  assumes "timers_ordered s t" "Some p \<notin># heap_items (heap_of s t)"
  shows "heap_inv (node_key (upd_timer p f s)) 128 (heap_of s t)"
proof -
  have "node_key (upd_timer p f s) n = node_key s n" if "n \<in> set (take (hsize (heap_of s t)) (nodes (heap_of s t)))" for n
    using that assms(2) by (auto simp: node_key_def get_timer_def g_timers_upd_timer set_heap_items split: option.splits)
  then show ?thesis
    using assms(1) heap_cong[of "hsize (heap_of s t)" "nodes (heap_of s t)" "node_key (upd_timer p f s)" "node_key s" 0]
    by (auto simp: timers_ordered_def heap_inv_def heap_shape_def)
qed

lemma timers_ordered_enter:
  assumes "timers_ordered s t" "t < length (g_threads s)" "Some p \<notin># heap_items (heap_of s t)" "hsize (heap_of s t) < 128"
  shows "timers_ordered (set_heap t (heap_insert (node_key (upd_timer p f s)) (Some p) (heap_of s t)) (upd_timer p f s)) t"
proof -
  let ?k = "node_key (upd_timer p f s)"
  have inv: "heap_inv ?k 128 (heap_of s t)" using timers_ordered_upd[OF assms(1,3)] .
  obtain h where h: "heap_push ?k (Some p) (heap_of s t) = Some h" "heap_inv ?k 128 h"
    using heap_push_spec[OF inv assms(4), of "Some p"] by blast
  then have "h = heap_insert ?k (Some p) (heap_of s t)" by (auto simp: heap_push_def split: if_splits)
  then show ?thesis using h(2) assms(2) by (simp add: timers_ordered_def)
qed

section \<open>What the operations do\<close>

lemma find_timer_node_Some:
  "find_timer_node s t p = Some i \<Longrightarrow> i < hsize (heap_of s t) \<and> nodes (heap_of s t) ! i = Some p"
  by (auto simp: find_timer_node_def dest: find_idx_SomeD)

lemma find_timer_node_ex: "heap_shape (heap_of s t) \<Longrightarrow> Some p \<in># heap_items (heap_of s t) \<Longrightarrow> \<exists>i. find_timer_node s t p = Some i"
proof -
  assume "heap_shape (heap_of s t)" "Some p \<in># heap_items (heap_of s t)"
  then obtain j where "j < hsize (heap_of s t)" "nodes (heap_of s t) ! j = Some p"
    by (auto simp: set_heap_items in_set_conv_nth heap_shape_def)
  then show ?thesis unfolding find_timer_node_def by (rule find_idx_ex)
qed

lemma timer_start_OK:
  assumes "timers_wf s" "threads_wf s" "g_timers s p = Some tm" "find_thread_of_component s self = Some t"
    and "\<not> is_running tm" "hsize (heap_of s t) < 128"
    and s1: "s1 = s\<lparr>g_clock_pos := g_clock_pos s + 1\<rparr>" and g: "g = arm_timer (g_clock s (g_clock_pos s)) iv per self t"
  shows "nos_timer_start self (Some p) iv per s =
      (NOS_OK, notify t (set_heap t (heap_insert (node_key (upd_timer p g s1)) (Some p) (heap_of s1 t)) (upd_timer p g s1)))"
    and "t < length (g_threads s)" "hcapacity (heap_of s t) = 128" "heap_shape (heap_of s t)"
proof -
  show t: "t < length (g_threads s)" using find_thread_wf assms by blast
  show "hcapacity (heap_of s t) = 128" "heap_shape (heap_of s t)" using timers_wfD(1,2)[OF assms(1) t] by auto
  then show "nos_timer_start self (Some p) iv per s =
      (NOS_OK, notify t (set_heap t (heap_insert (node_key (upd_timer p g s1)) (Some p) (heap_of s1 t)) (upd_timer p g s1)))"
    using assms(3-6) by (simp add: nos_timer_start_def get_timer_Some get_monotonic_ms_def Let_def g s1)
qed

lemma timer_start_spec:
  assumes "timers_wf s" "threads_wf s" "g_timers s p = Some tm"
  shows "case nos_timer_start self (Some p) iv per s of (r, s') \<Rightarrow>
      (r = NOS_OK \<longleftrightarrow> (\<exists>t. find_thread_of_component s self = Some t \<and> \<not> is_running tm \<and> hsize (heap_of s t) < 128))
      \<and> timers_wf s' \<and> (r \<noteq> NOS_OK \<longrightarrow> s' = s)
      \<and> (\<forall>t. r = NOS_OK \<and> find_thread_of_component s self = Some t \<longrightarrow>
           heap_items (heap_of s' t) = add_mset (Some p) (heap_items (heap_of s t))
           \<and> expire_at_ms (get_timer s' p) = g_clock s (g_clock_pos s) + ucast iv
           \<and> (timers_ordered s t \<longrightarrow> timers_ordered s' t))"
proof (cases "\<exists>t. find_thread_of_component s self = Some t \<and> \<not> is_running tm \<and> hsize (heap_of s t) < 128")
  case True
  then obtain t where t: "find_thread_of_component s self = Some t" "\<not> is_running tm" "hsize (heap_of s t) < 128" by blast
  define s1 where "s1 = s\<lparr>g_clock_pos := g_clock_pos s + 1\<rparr>"
  define g where "g = arm_timer (g_clock s (g_clock_pos s)) iv per self t"
  let ?s2 = "upd_timer p g s1"
  let ?h = "heap_insert (node_key ?s2) (Some p) (heap_of s1 t)"
  let ?s' = "notify t (set_heap t ?h ?s2)"
  note eq = timer_start_OK[OF assms t s1_def g_def]
  have h: "heap_shape ?h" "hcapacity ?h = 128" "heap_items ?h = add_mset (Some p) (heap_items (heap_of s1 t))"
    using heap_insert_items[of "heap_of s t" "node_key ?s2" "Some p"] eq(3,4) t(3) by (simp_all add: s1_def)
  have wf1: "timers_wf s1" "g_timers s1 p = Some tm" "t < length (g_threads s1)" using assms eq(2) by (simp_all add: s1_def)
  have "timers_wf (set_heap t ?h ?s2)"
    using wf1 t(2) h by (intro timers_wf_enter[of s1 t p tm]) (simp_all add: g_def arm_timer_def)
  moreover have "timers_ordered ?s' t" if "timers_ordered s t"
  proof -
    have "timers_ordered s1 t" using that by (simp add: timers_ordered_def s1_def)
    moreover have "Some p \<notin># heap_items (heap_of s1 t)" using timers_wfD(5)[OF wf1(1,3), of p] wf1(2) t(2) by simp
    ultimately have "timers_ordered (set_heap t ?h ?s2) t"
      using t(3) wf1(3) by (intro timers_ordered_enter) (simp_all add: s1_def)
    then show ?thesis using eq(2) by (simp add: timers_ordered_def s1_def)
  qed
  moreover have "expire_at_ms (get_timer ?s' p) = g_clock s (g_clock_pos s) + ucast iv"
    using get_timer_upd[of s1 p tm g p] wf1(2) by (simp add: g_def arm_timer_def)
  ultimately show ?thesis using eq(1,2) t h(3) True by (simp add: s1_def)
next
  case False
  then have "nos_timer_start self (Some p) iv per s = (NOS_ERR, s)"
    using timers_wfD(2)[OF assms(1) find_thread_wf[OF assms(2)]] assms(3)
    by (auto simp: nos_timer_start_def get_timer_Some not_less split: option.splits)
  then show ?thesis using False assms(1) by simp
qed

text \<open>Starting a timer succeeds exactly when the component is on a thread, the timer is not
  running and the heap has room; then the timer is in the heap of that thread, due \<open>interval\<close>
  milliseconds after the clock reading (modulo \<open>2 ^ 64\<close>), heap order is kept, and a refused start
  changes nothing.\<close>

theorem timer_start_correct:
  assumes "timers_wf s" "threads_wf s" "g_timers s p = Some tm"
  shows "case nos_timer_start self (Some p) iv per s of (r, s') \<Rightarrow>
      (r = NOS_OK \<longleftrightarrow> (\<exists>t. find_thread_of_component s self = Some t \<and> \<not> is_running tm \<and> hsize (heap_of s t) < 128))
      \<and> timers_wf s' \<and> (r \<noteq> NOS_OK \<longrightarrow> s' = s)
      \<and> (\<forall>t. r = NOS_OK \<and> find_thread_of_component s self = Some t \<longrightarrow>
           heap_items (heap_of s' t) = add_mset (Some p) (heap_items (heap_of s t))
           \<and> expire_at_ms (get_timer s' p) = g_clock s (g_clock_pos s) + ucast iv
           \<and> (timers_ordered s t \<longrightarrow> timers_ordered s' t))"
  using timer_start_spec[OF assms] .

text \<open>Stopping a timer succeeds exactly when it is running; it is then in no heap, no other
  timer is affected, and a refused stop changes nothing.\<close>

theorem timer_stop_correct:
  assumes "timers_wf s" "g_timers s p = Some tm"
  shows "case nos_timer_stop self (Some p) s of (r, s') \<Rightarrow>
      (r = NOS_OK \<longleftrightarrow> is_running tm) \<and> timers_wf s' \<and> (r \<noteq> NOS_OK \<longrightarrow> s' = s)
      \<and> (\<forall>t < length (g_threads s). Some p \<notin># heap_items (heap_of s' t))
      \<and> (\<forall>q. q \<noteq> p \<longrightarrow> g_timers s' q = g_timers s q)"
proof (cases "is_running tm")
  case True
  then obtain t where t: "t < length (g_threads s)" "owner_thread tm = Some t"
    using timers_wf_thread[OF assms] by blast
  have "Some p \<in># heap_items (heap_of s t)" using timers_wfD(5)[OF assms(1) t(1)] assms(2) True t(2) by blast
  then obtain i where i: "find_timer_node s t p = Some i" using find_timer_node_ex timers_wfD(1)[OF assms(1) t(1)] by blast
  let ?h = "heap_remove_at (node_key s) i (heap_of s t)"
  have h: "heap_shape ?h" "hcapacity ?h = 128" "heap_items ?h = heap_items (heap_of s t) - {#Some p#}"
    using heap_remove_items[OF timers_wfD(1)[OF assms(1) t(1)], of i] find_timer_node_Some[OF i] timers_wfD(2)[OF assms(1) t(1)] by auto
  let ?s' = "upd_timer p clear_timer (set_heap t ?h s)"
  have wf: "timers_wf ?s'"
    using assms t True h by (intro timers_wf_leave) (simp_all add: clear_timer_def)
  moreover have "Some p \<notin># heap_items (heap_of ?s' u)" if "u < length (g_threads s)" for u
    using timers_wfD(5)[OF wf, of u p] that assms(2) by (auto simp: g_timers_upd_timer clear_timer_def)
  ultimately show ?thesis
    using True t i assms(2) by (simp add: nos_timer_stop_def get_timer_Some) (simp add: g_timers_upd_timer)
next
  case False
  then have "nos_timer_stop self (Some p) s = (NOS_ERR, s)"
    using assms(2) by (simp add: nos_timer_stop_def get_timer_Some split: option.splits)
  then show ?thesis using False assms timers_wfD(5)[OF assms(1)] by fastforce
qed

text \<open>Deleting a timer takes it out of every heap and frees it, whether it was running or not;
  the timers that are left stay well formed.  The destructor of the argument is assumed not to
  touch timers and threads.\<close>

theorem timer_delete_correct:
  assumes "timers_wf s" "g_timers s p = Some tm"
    and frame: "\<And>f a x. g_timers (run_free f a x) = g_timers x \<and> g_threads (run_free f a x) = g_threads x"
  shows "timers_wf (nos_timer_delete run_free (Some p) s) \<and> g_timers (nos_timer_delete run_free (Some p) s) p = None
    \<and> (\<forall>t < length (g_threads s). Some p \<notin># heap_items (heap_of (nos_timer_delete run_free (Some p) s) t))
    \<and> (\<forall>q. q \<noteq> p \<longrightarrow> g_timers (nos_timer_delete run_free (Some p) s) q = g_timers s q)"
proof -
  define s1 where "s1 = detach_timer p tm s"
  define s2 where "s2 = upd_timer p clear_timer s1"
  have wf: "timers_wf s2"
  proof (cases "is_running tm")
    case True
    then obtain t where t: "t < length (g_threads s)" "owner_thread tm = Some t" using timers_wf_thread[OF assms(1,2)] by blast
    note wt = timers_wfD[OF assms(1) t(1)]
    obtain i where i: "find_timer_node s t p = Some i" using find_timer_node_ex[OF wt(1)] wt(5)[of p] assms(2) True t(2) by blast
    let ?h = "heap_remove_at (node_key s) i (heap_of s t)"
    have "heap_shape ?h" "hcapacity ?h = 128" "heap_items ?h = heap_items (heap_of s t) - {#Some p#}"
      using heap_remove_items[OF wt(1), of i] find_timer_node_Some[OF i] wt(2) by auto
    then have "timers_wf (upd_timer p clear_timer (set_heap t ?h s))"
      using assms(1,2) t True by (intro timers_wf_leave) (simp_all add: clear_timer_def)
    then show ?thesis using True t i by (simp add: s1_def s2_def detach_timer_def)
  next
    case False
    then have "s1 = s" by (simp add: s1_def detach_timer_def)
    then show ?thesis using assms(1,2) False unfolding s2_def by (intro timers_wf_update) (auto simp: clear_timer_def)
  qed
  have g1: "g_timers s1 = g_timers s" "length (g_threads s1) = length (g_threads s)"
    by (auto simp: s1_def detach_timer_def split: option.splits bool.splits)
  define s3 where "s3 = (case free_arg tm of None \<Rightarrow> s2 | Some f \<Rightarrow> run_free f (timer_arg tm) s2)"
  have s3: "g_timers s3 = g_timers s2" "g_threads s3 = g_threads s2" using frame by (auto simp: s3_def split: option.splits)
  have g2: "g_timers s2 = (g_timers s)(p \<mapsto> clear_timer tm)" using assms(2) g1 by (simp add: s2_def g_timers_upd_timer)
  have len2: "length (g_threads s2) = length (g_threads s)" using g1 by (simp add: s2_def)
  have gone: "Some p \<notin># heap_items (heap_of s2 t)" if "t < length (g_threads s)" for t
    using timers_wfD(5)[OF wf, of t p] that len2 g2 by (simp add: clear_timer_def)
  have del: "nos_timer_delete run_free (Some p) s = s3\<lparr>g_timers := (g_timers s3)(p := None)\<rparr>"
    using get_timer_Some[OF assms(2)] by (cases "free_arg tm") (simp_all add: nos_timer_delete_def Let_def s1_def s2_def s3_def)
  have "timers_wf (nos_timer_delete run_free (Some p) s)"
  proof (rule timers_wfI)
    fix t assume "t < length (g_threads (nos_timer_delete run_free (Some p) s))"
    then have t: "t < length (g_threads s2)" using del s3 by simp
    note w = timers_wfD[OF wf t]
    show "heap_shape (heap_of (nos_timer_delete run_free (Some p) s) t) \<and> hcapacity (heap_of (nos_timer_delete run_free (Some p) s) t) = 128
        \<and> None \<notin># heap_items (heap_of (nos_timer_delete run_free (Some p) s) t)" using w del s3 by simp
    show "count (heap_items (heap_of (nos_timer_delete run_free (Some p) s) t)) n \<le> 1" for n using w(4)[of n] del s3 by simp
    show "Some q \<in># heap_items (heap_of (nos_timer_delete run_free (Some p) s) t) \<longleftrightarrow>
        (\<exists>tm. g_timers (nos_timer_delete run_free (Some p) s) q = Some tm \<and> is_running tm \<and> owner_thread tm = Some t)" for q
      using w(5)[of q] del s3 gone[of t] t len2 by (cases "q = p") simp_all
  next
    fix q tm' assume "g_timers (nos_timer_delete run_free (Some p) s) q = Some tm'" "is_running tm'"
    then show "\<exists>t < length (g_threads (nos_timer_delete run_free (Some p) s)). owner_thread tm' = Some t"
      using timers_wf_thread[OF wf, of q tm'] del s3 by (auto split: if_splits)
  qed
  then show ?thesis using del s3 gone g2 by simp
qed

subsection \<open>Cancellation\<close>

definition owned_by :: "'z sched_state_scheme \<Rightarrow> nat \<Rightarrow> nat option \<Rightarrow> bool" where
  "owned_by s c n = (case n of None \<Rightarrow> False | Some p \<Rightarrow> owner (get_timer s p) = Some c)"

lemma cancel_scan_spec:
  assumes "cancel_scan c ns s = (kept, s')" "distinct ns"
  shows "kept = filter (\<lambda>n. \<not> owned_by s c n) ns \<and> g_threads s' = g_threads s \<and> g_clock s' = g_clock s
    \<and> (\<forall>q. g_timers s' q = (if Some q \<in> set ns \<and> owned_by s c (Some q) then map_option clear_timer (g_timers s q) else g_timers s q))"
  using assms
proof (induction c ns s arbitrary: kept rule: cancel_scan.induct)
  case (2 c n ns s)
  show ?case
  proof (cases "owned_by s c n")
    case True
    then obtain p where n: "n = Some p" "owner (get_timer s p) = Some c" by (auto simp: owned_by_def split: option.splits)
    let ?s = "upd_timer p clear_timer s"
    have scan: "cancel_scan c ns ?s = (kept, s')" using "2.prems"(1) n by simp
    have other: "owned_by ?s c m = owned_by s c m" if "m \<noteq> n" for m
      using that n by (auto simp: owned_by_def get_timer_def g_timers_upd_timer split: option.splits)
    have new: "n \<notin> set ns" using "2.prems"(2) by simp
    have IH: "kept = filter (\<lambda>n. \<not> owned_by ?s c n) ns \<and> g_threads s' = g_threads ?s \<and> g_clock s' = g_clock ?s
      \<and> (\<forall>q. g_timers s' q = (if Some q \<in> set ns \<and> owned_by ?s c (Some q) then map_option clear_timer (g_timers ?s q) else g_timers ?s q))"
      using "2.IH"(2)[OF n(1) n(2) scan] "2.prems"(2) by simp
    have "filter (\<lambda>n. \<not> owned_by ?s c n) ns = filter (\<lambda>n. \<not> owned_by s c n) ns"
      using other new by (metis (mono_tags, lifting) filter_cong)
    moreover have "g_timers s' q = (if Some q \<in> set (n # ns) \<and> owned_by s c (Some q) then map_option clear_timer (g_timers s q) else g_timers s q)" for q
      using IH other[of "Some q"] new n True by (cases "q = p") (auto simp: g_timers_upd_timer)
    ultimately show ?thesis using IH True by simp
  next
    case False
    obtain kept' where scan: "cancel_scan c ns s = (kept', s')" "kept = n # kept'"
      using "2.prems"(1) False by (auto simp: owned_by_def split: option.splits prod.splits)
    have "kept' = filter (\<lambda>n. \<not> owned_by s c n) ns \<and> g_threads s' = g_threads s \<and> g_clock s' = g_clock s
      \<and> (\<forall>q. g_timers s' q = (if Some q \<in> set ns \<and> owned_by s c (Some q) then map_option clear_timer (g_timers s q) else g_timers s q))"
    proof (cases n)
      case None
      then show ?thesis using "2.IH"(1)[OF None scan(1)] "2.prems"(2) by simp
    next
      case (Some p)
      then show ?thesis using "2.IH"(3)[OF Some _ scan(1)] False "2.prems"(2) by (simp add: owned_by_def)
    qed
    then show ?thesis using scan(2) False by auto
  qed
qed simp

lemma distinct_heap_nodes:
  "timers_wf s \<Longrightarrow> t < length (g_threads s) \<Longrightarrow> distinct (take (hsize (heap_of s t)) (nodes (heap_of s t)))"
proof -
  assume w: "timers_wf s" "t < length (g_threads s)"
  let ?xs = "take (hsize (heap_of s t)) (nodes (heap_of s t))"
  have "count (mset ?xs) a = (if a \<in> set ?xs then 1 else 0)" for a
  proof (cases "a \<in># mset ?xs")
    case True
    then have "count (mset ?xs) a = 1"
      using timers_wfD(4)[OF w, of a] not_in_iff[of a "mset ?xs"] unfolding heap_items_def by linarith
    then show ?thesis using True by simp
  qed (simp add: not_in_iff)
  then show ?thesis by (simp add: distinct_count_atmost_1)
qed

lemma cancel_timers_spec:
  assumes "timers_wf s" "t < length (g_threads s)"
  shows "let s' = nos_scheduler_cancel_timers_by_owner (Some t) (Some c) s in
    timers_wf s' \<and> timers_ordered s' t
    \<and> heap_items (heap_of s' t) = filter_mset (\<lambda>n. \<not> owned_by s c n) (heap_items (heap_of s t))
    \<and> (\<forall>p tm. Some p \<in># heap_items (heap_of s t) \<and> g_timers s p = Some tm \<and> owner tm = Some c \<longrightarrow> g_timers s' p = Some (clear_timer tm))
    \<and> (\<forall>p. \<not> owned_by s c (Some p) \<longrightarrow> g_timers s' p = g_timers s p)"
proof -
  let ?ns = "take (hsize (heap_of s t)) (nodes (heap_of s t))"
  note w = timers_wfD[OF assms]
  obtain kept s1 where scan: "cancel_scan c ?ns s = (kept, s1)" by fastforce
  have sp: "kept = filter (\<lambda>n. \<not> owned_by s c n) ?ns" "g_threads s1 = g_threads s"
    and tm: "\<And>q. g_timers s1 q = (if Some q \<in> set ?ns \<and> owned_by s c (Some q) then map_option clear_timer (g_timers s q) else g_timers s q)"
    using cancel_scan_spec[OF scan distinct_heap_nodes[OF assms]] by blast+
  define h where "h = heap_reset (node_key s1) kept (heap_of s1 t)"
  define s' where "s' = set_heap t h s1"
  have eq: "nos_scheduler_cancel_timers_by_owner (Some t) (Some c) s = s'"
    using scan by (simp add: nos_scheduler_cancel_timers_by_owner_def s'_def h_def)
  have "length kept \<le> hcapacity (heap_of s1 t)"
    using sp w(1) length_filter_le[of "\<lambda>n. \<not> owned_by s c n" ?ns] by (simp add: heap_shape_def)
  then have h: "heap_inv (node_key s1) 128 h" "heap_items h = mset kept"
    using heap_reset_spec[of "heap_of s1 t" kept "node_key s1"] w(1,2) sp(2) by (simp_all add: h_def)
  have items: "heap_items h = filter_mset (\<lambda>n. \<not> owned_by s c n) (heap_items (heap_of s t))"
    using h(2) sp(1) by (simp add: heap_items_def mset_filter)
  have t1: "t < length (g_threads s1)" using assms(2) sp(2) by simp
  have heap: "heap_of s' u = (if u = t then h else heap_of s u)" for u using t1 sp(2) by (simp add: s'_def)
  have gt: "g_timers s' = g_timers s1" "length (g_threads s') = length (g_threads s)" using sp(2) by (simp_all add: s'_def)
  have "timers_wf s'"
  proof (rule timers_wfI)
    fix u assume "u < length (g_threads s')"
    then have u: "u < length (g_threads s)" using gt by simp
    note wu = timers_wfD[OF assms(1) u]
    show "heap_shape (heap_of s' u) \<and> hcapacity (heap_of s' u) = 128 \<and> None \<notin># heap_items (heap_of s' u)"
      using wu(1-3) w(3) h(1) items heap by (auto simp: heap_inv_def)
    show "count (heap_items (heap_of s' u)) n \<le> 1" for n
      using wu(4)[of n] w(4)[of n] items heap by auto
    show "Some q \<in># heap_items (heap_of s' u) \<longleftrightarrow>
        (\<exists>tm. g_timers s' q = Some tm \<and> is_running tm \<and> owner_thread tm = Some u)" for q
    proof (cases "Some q \<in> set ?ns \<and> owned_by s c (Some q)")
      case True
      then have "Some q \<in># heap_items (heap_of s t)" by (simp add: set_heap_items)
      then have "u \<noteq> t \<Longrightarrow> Some q \<notin># heap_items (heap_of s u)" using w(5)[of q] wu(5)[of q] by auto
      then show ?thesis using True items heap tm[of q] gt by (auto simp: clear_timer_def)
    next
      case False
      then have "\<not> owned_by s c (Some q) \<or> Some q \<notin># heap_items (heap_of s t)" by (auto simp: set_heap_items)
      then show ?thesis using False items heap tm[of q] gt wu(5)[of q] by auto
    qed
  next
    fix q tm' assume "g_timers s' q = Some tm'" "is_running tm'"
    then show "\<exists>u < length (g_threads s'). owner_thread tm' = Some u"
      using timers_wf_thread[OF assms(1), of q tm'] tm[of q] gt by (auto simp: clear_timer_def split: if_splits)
  qed
  moreover have "timers_ordered s' t" using h(1) heap by (simp add: timers_ordered_def s'_def)
  moreover have "g_timers s' p = Some (clear_timer tm')"
    if "Some p \<in># heap_items (heap_of s t)" "g_timers s p = Some tm'" "owner tm' = Some c" for p tm'
    using that tm[of p] gt(1) by (simp add: set_heap_items owned_by_def get_timer_Some)
  moreover have "g_timers s' p = g_timers s p" if "\<not> owned_by s c (Some p)" for p
    using that tm[of p] gt(1) by simp
  ultimately show ?thesis using eq items heap by (simp add: Let_def)
qed

text \<open>C34.  Cancelling the timers of a component on a thread removes exactly its timers from that
  thread's heap, leaves them stopped and ownerless, keeps the timers of others, and leaves the heap in
  heap order, whatever order it was in.\<close>

theorem cancel_timers_correct:
  assumes "timers_wf s" "t < length (g_threads s)"
  shows "let s' = nos_scheduler_cancel_timers_by_owner (Some t) (Some c) s in
    timers_wf s' \<and> timers_ordered s' t
    \<and> heap_items (heap_of s' t) = filter_mset (\<lambda>n. \<not> owned_by s c n) (heap_items (heap_of s t))
    \<and> (\<forall>p tm. Some p \<in># heap_items (heap_of s t) \<and> g_timers s p = Some tm \<and> owner tm = Some c \<longrightarrow> g_timers s' p = Some (clear_timer tm))
    \<and> (\<forall>p. \<not> owned_by s c (Some p) \<longrightarrow> g_timers s' p = g_timers s p)"
  using cancel_timers_spec[OF assms] .

subsection \<open>Expiry\<close>

lemma upd_timer_twice: "upd_timer p g (upd_timer p f s) = upd_timer p (\<lambda>tm. g (f tm)) s"
  by (simp add: upd_timer_def option.map_comp comp_def)

lemma upd_timer_set_heap: "upd_timer p f (set_heap t h s) = set_heap t h (upd_timer p f s)"
  by (simp add: upd_timer_def set_heap_def upd_thread_def)

lemma expire_one_None:
  assumes "timers_wf s" "timers_ordered s t" "t < length (g_threads s)" "expire_one t s = (None, s')"
  shows "s' = s\<lparr>g_clock_pos := g_clock_pos s + 1\<rparr>
    \<and> (\<forall>p. Some p \<in># heap_items (heap_of s t) \<longrightarrow> g_clock s (g_clock_pos s) < expire_at_ms (get_timer s p))"
proof -
  let ?h = "heap_of s t" and ?now = "g_clock s (g_clock_pos s)"
  have sh: "hsize ?h \<le> length (nodes ?h)" "is_heap (node_key s) (nodes ?h) (hsize ?h)"
    using assms(2) by (auto simp: timers_ordered_def heap_inv_def heap_shape_def)
  have "nodes ?h ! 0 \<noteq> None" if "hsize ?h > 0"
    using timers_wfD(3)[OF assms(1,3)] that sh(1) by (auto simp: set_heap_items in_set_conv_nth)
  then have e: "hsize ?h = 0 \<or> ?now < node_key s (nodes ?h ! 0)" "s' = s\<lparr>g_clock_pos := g_clock_pos s + 1\<rparr>"
    using assms(4) by (auto simp: expire_one_def get_monotonic_ms_def Let_def split: if_splits option.splits)
  have "?now < expire_at_ms (get_timer s p)" if p: "Some p \<in># heap_items ?h" for p
  proof -
    obtain j where j: "j < hsize ?h" "nodes ?h ! j = Some p" using p sh(1) by (auto simp: set_heap_items in_set_conv_nth)
    then have "?now < node_key s (nodes ?h ! 0)" using e(1) by auto
    also have "\<dots> \<le> node_key s (nodes ?h ! j)" using heap_root_min[OF sh(2) j(1)] .
    finally show ?thesis using j(2) by (simp add: node_key_def)
  qed
  then show ?thesis using e(2) by simp
qed

lemma expire_one_Some:
  assumes "timers_wf s" "timers_ordered s t" "t < length (g_threads s)" "expire_one t s = (Some p, s')"
  shows "\<exists>tm h. g_timers s p = Some tm \<and> is_running tm \<and> owner_thread tm = Some t
    \<and> Some p \<in># heap_items (heap_of s t) \<and> expire_at_ms tm \<le> g_clock s (g_clock_pos s)
    \<and> (\<forall>q. Some q \<in># heap_items (heap_of s t) \<longrightarrow> expire_at_ms tm \<le> expire_at_ms (get_timer s q))
    \<and> s' = upd_timer p (\<lambda>tm. tm\<lparr>is_running := False\<rparr>) (set_heap t h (s\<lparr>g_clock_pos := g_clock_pos s + 1\<rparr>))
    \<and> heap_items h = heap_items (heap_of s t) - {#Some p#} \<and> timers_wf s' \<and> timers_ordered s' t"
proof -
  let ?h = "heap_of s t" and ?s1 = "s\<lparr>g_clock_pos := g_clock_pos s + 1\<rparr>"
  let ?h' = "heap_remove_at (node_key s) 0 (heap_of s t)"
  have p: "hsize ?h > 0" "nodes ?h ! 0 = Some p" "\<not> g_clock s (g_clock_pos s) < node_key s (nodes ?h ! 0)"
    and s': "s' = upd_timer p (\<lambda>tm. tm\<lparr>is_running := False\<rparr>) (set_heap t ?h' ?s1)"
    using assms(4) by (auto simp: expire_one_def get_monotonic_ms_def Let_def split: if_splits option.splits)
  have inv: "heap_inv (node_key s) 128 ?h" using assms(2) by (simp add: timers_ordered_def)
  have "heap_pop (node_key s) ?h = Some (Some p, ?h')" using p by (simp add: heap_pop_def)
  then have pop: "heap_inv (node_key s) 128 ?h'" "Some p \<in># heap_items ?h" "heap_items ?h' = heap_items ?h - {#Some p#}"
    "\<forall>n \<in># heap_items ?h. node_key s (Some p) \<le> node_key s n"
    using heap_pop_spec[OF inv p(1)] by auto
  obtain tm where tm: "g_timers s p = Some tm" "is_running tm" "owner_thread tm = Some t"
    using timers_wfD(5)[OF assms(1,3), of p] pop(2) by blast
  have gt: "get_timer s p = tm" using tm(1) by (rule get_timer_Some)
  have "timers_wf s'" unfolding s'
    using assms(1,3) tm pop(1,3) by (intro timers_wf_leave[where tm = tm]) (simp_all add: heap_inv_def)
  moreover have "timers_ordered s' t"
  proof -
    have k: "node_key s' n = node_key s n" for n
      using tm(1) by (simp add: s' node_key_def get_timer_def g_timers_upd_timer split: option.splits)
    then have "node_key s' = node_key s" by (rule ext)
    moreover have "heap_of s' t = ?h'" using assms(3) by (simp add: s')
    ultimately show ?thesis using pop(1) by (simp add: timers_ordered_def)
  qed
  moreover have "expire_at_ms tm \<le> g_clock s (g_clock_pos s)" using p gt by (simp add: node_key_def not_less)
  moreover have "expire_at_ms tm \<le> expire_at_ms (get_timer s q)" if "Some q \<in># heap_items ?h" for q
    using pop(4) that gt by (auto simp: node_key_def)
  ultimately show ?thesis using tm pop(2,3) s' by blast
qed

lemma rearm_timer_spec:
  assumes "timers_wf s" "timers_ordered s t" "t < length (g_threads s)" "g_timers s p = Some tm"
    and "\<not> is_running tm" "owner_thread tm = Some t"
  defines "s' \<equiv> rearm_timer t p s"
  shows "timers_wf s'" "timers_ordered s' t" "length (g_threads s') = length (g_threads s)" "g_clock s' = g_clock s"
    and "g_clock_pos s \<le> g_clock_pos s'" "g_clock_pos s' \<le> g_clock_pos s + 1"
    and "\<And>q. q \<noteq> p \<Longrightarrow> get_timer s' q = get_timer s q"
    and "heap_items (heap_of s' t) = heap_items (heap_of s t) \<or>
      is_periodic tm \<and> heap_items (heap_of s' t) = add_mset (Some p) (heap_items (heap_of s t))
      \<and> expire_at_ms (get_timer s' p) = g_clock s (g_clock_pos s) + ucast (interval_ms tm)
      \<and> is_periodic (get_timer s' p) \<and> interval_ms (get_timer s' p) = interval_ms tm"
proof -
  let ?now = "g_clock s (g_clock_pos s)" and ?s1 = "s\<lparr>g_clock_pos := g_clock_pos s + 1\<rparr>"
  have nin: "Some p \<notin># heap_items (heap_of s t)" using timers_wfD(5)[OF assms(1,3), of p] assms(4,5) by auto
  have cap: "hcapacity (heap_of s t) = 128" "heap_shape (heap_of s t)" using timers_wfD(1,2)[OF assms(1,3)] by auto
  have ord1: "timers_ordered ?s1 t" using assms(2) by (simp add: timers_ordered_def)
  consider (skip) "s' = s"
    | (full) f where "s' = upd_timer p f ?s1" "is_running (f tm) = is_running tm" "owner_thread (f tm) = owner_thread tm"
    | (enter) f where "s' = set_heap t (heap_insert (node_key (upd_timer p f ?s1)) (Some p) (heap_of s t)) (upd_timer p f ?s1)"
        "is_periodic tm" "hsize (heap_of s t) < 128" "is_running (f tm)" "owner_thread (f tm) = Some t"
        "expire_at_ms (f tm) = ?now + ucast (interval_ms tm)" "is_periodic (f tm)" "interval_ms (f tm) = interval_ms tm"
  proof (cases "is_periodic tm \<and> owner_active s tm")
    case False
    then have "s' = s" using get_timer_Some[OF assms(4)] unfolding s'_def rearm_timer_def Let_def by auto
    then show ?thesis by (rule skip)
  next
    case True
    let ?e = "\<lambda>tm. tm\<lparr>expire_at_ms := ?now + ucast (interval_ms tm)\<rparr>"
    have unf: "s' = (let s2 = upd_timer p ?e ?s1 in
        if hsize (heap_of s2 t) \<ge> hcapacity (heap_of s2 t) then upd_timer p (\<lambda>tm. tm\<lparr>is_running := False\<rparr>) s2
        else let s3 = upd_timer p (\<lambda>tm. tm\<lparr>is_running := True\<rparr>) s2
             in set_heap t (heap_insert (node_key s3) (Some p) (heap_of s3 t)) s3)"
      using True get_timer_Some[OF assms(4)] by (simp add: s'_def rearm_timer_def get_monotonic_ms_def)
    show ?thesis
    proof (cases "hsize (heap_of s t) < 128")
      case room: True
      then show ?thesis using True cap(1) assms(6)
        by (intro enter[of "\<lambda>tm. (?e tm)\<lparr>is_running := True\<rparr>"]) (simp_all add: unf Let_def upd_timer_twice)
    next
      case False
      then show ?thesis using cap(1) assms(5)
        by (intro full[of "\<lambda>tm. (?e tm)\<lparr>is_running := False\<rparr>"]) (simp_all add: unf Let_def upd_timer_twice)
    qed
  qed
  then have "timers_wf s' \<and> timers_ordered s' t \<and> length (g_threads s') = length (g_threads s) \<and> g_clock s' = g_clock s
    \<and> g_clock_pos s \<le> g_clock_pos s' \<and> g_clock_pos s' \<le> g_clock_pos s + 1
    \<and> (\<forall>q. q \<noteq> p \<longrightarrow> get_timer s' q = get_timer s q)
    \<and> (heap_items (heap_of s' t) = heap_items (heap_of s t) \<or>
      is_periodic tm \<and> heap_items (heap_of s' t) = add_mset (Some p) (heap_items (heap_of s t))
      \<and> expire_at_ms (get_timer s' p) = ?now + ucast (interval_ms tm)
      \<and> is_periodic (get_timer s' p) \<and> interval_ms (get_timer s' p) = interval_ms tm)"
  proof cases
    case skip
    then show ?thesis using assms by simp
  next
    case full
    have "timers_wf s'" unfolding full(1) using assms(1,4) full(2,3) by (intro timers_wf_update[where tm = tm]) simp_all
    moreover have "timers_ordered s' t"
      using timers_ordered_upd[OF ord1, of p f] nin by (simp add: timers_ordered_def full(1))
    ultimately show ?thesis using full(1) assms(4) get_timer_upd[of ?s1 p tm f] by simp
  next
    case enter
    let ?h = "heap_insert (node_key (upd_timer p f ?s1)) (Some p) (heap_of s t)"
    have h: "heap_shape ?h" "hcapacity ?h = 128" "heap_items ?h = add_mset (Some p) (heap_items (heap_of s t))"
      using heap_insert_items[OF cap(2), of "node_key (upd_timer p f ?s1)" "Some p"] cap(1) enter(3) by auto
    have "timers_wf s'" unfolding enter(1)
      using assms(1,3-5) enter(4,5) h by (intro timers_wf_enter[where tm = tm]) simp_all
    moreover have "timers_ordered s' t" unfolding enter(1)
      using timers_ordered_enter[OF ord1, of p f] assms(3) nin enter(3) by simp
    ultimately show ?thesis
      using enter h(3) assms(3,4) get_timer_upd[of ?s1 p tm f] by simp
  qed
  then show "timers_wf s'" "timers_ordered s' t" "length (g_threads s') = length (g_threads s)" "g_clock s' = g_clock s"
    "g_clock_pos s \<le> g_clock_pos s'" "g_clock_pos s' \<le> g_clock_pos s + 1"
    "\<And>q. q \<noteq> p \<Longrightarrow> get_timer s' q = get_timer s q"
    "heap_items (heap_of s' t) = heap_items (heap_of s t) \<or>
      is_periodic tm \<and> heap_items (heap_of s' t) = add_mset (Some p) (heap_items (heap_of s t))
      \<and> expire_at_ms (get_timer s' p) = ?now + ucast (interval_ms tm)
      \<and> is_periodic (get_timer s' p) \<and> interval_ms (get_timer s' p) = interval_ms tm"
    by blast+
qed

text \<open>An iteration of the expiry loop takes out a timer that is due and that no other timer of
  the thread precedes, marks it stopped, and keeps the heap well formed and in order.\<close>

theorem expiry_takes_earliest_due:
  assumes "timers_wf s" "timers_ordered s t" "t < length (g_threads s)" "expire_one t s = (Some p, s')"
  shows "Some p \<in># heap_items (heap_of s t)
    \<and> expire_at_ms (get_timer s p) \<le> g_clock s (g_clock_pos s)
    \<and> (\<forall>q. Some q \<in># heap_items (heap_of s t) \<longrightarrow> expire_at_ms (get_timer s p) \<le> expire_at_ms (get_timer s q))
    \<and> heap_items (heap_of s' t) = heap_items (heap_of s t) - {#Some p#}
    \<and> \<not> is_running (get_timer s' p) \<and> timers_wf s' \<and> timers_ordered s' t"
proof -
  obtain tm h where e: "g_timers s p = Some tm" "Some p \<in># heap_items (heap_of s t)" "expire_at_ms tm \<le> g_clock s (g_clock_pos s)"
    "\<forall>q. Some q \<in># heap_items (heap_of s t) \<longrightarrow> expire_at_ms tm \<le> expire_at_ms (get_timer s q)"
    "s' = upd_timer p (\<lambda>tm. tm\<lparr>is_running := False\<rparr>) (set_heap t h (s\<lparr>g_clock_pos := g_clock_pos s + 1\<rparr>))"
    "heap_items h = heap_items (heap_of s t) - {#Some p#}" "timers_wf s'" "timers_ordered s' t"
    using expire_one_Some[OF assms] by blast
  then show ?thesis
    using get_timer_Some[OF e(1)] get_timer_upd[of "set_heap t h (s\<lparr>g_clock_pos := g_clock_pos s + 1\<rparr>)" p tm] assms(3) by simp
qed

definition quiet_callback :: "(nat \<Rightarrow> nat option \<Rightarrow> 'z sched_state_scheme \<Rightarrow> 'z sched_state_scheme) \<Rightarrow> bool" where
  "quiet_callback cb \<longleftrightarrow> (\<forall>f a x. g_timers (cb f a x) = g_timers x \<and> g_threads (cb f a x) = g_threads x
      \<and> g_clock (cb f a x) = g_clock x \<and> g_clock_pos (cb f a x) = g_clock_pos x)"

definition due_count :: "u64 \<Rightarrow> 'z sched_state_scheme \<Rightarrow> nat \<Rightarrow> nat" where
  "due_count T s t = size (filter_mset (\<lambda>n. node_key s n \<le> T) (heap_items (heap_of s t)))"

text \<open>Time while the loop runs: the next \<open>2 * n + 1\<close> clock readings are at most \<open>T\<close>, and no periodic
  timer of the heap that is re-armed at one of them is due again by \<open>T\<close>.\<close>

definition quiet_until :: "u64 \<Rightarrow> nat \<Rightarrow> 'z sched_state_scheme \<Rightarrow> nat \<Rightarrow> bool" where
  "quiet_until T n s t \<longleftrightarrow>
     (\<forall>i \<le> 2 * n. g_clock s (g_clock_pos s + i) \<le> T)
     \<and> (\<forall>p. Some p \<in># heap_items (heap_of s t) \<and> is_periodic (get_timer s p) \<longrightarrow>
          (\<forall>i \<le> 2 * n. T < g_clock s (g_clock_pos s + i) + ucast (interval_ms (get_timer s p))))"

lemma process_timers_step:
  assumes wf: "timers_wf s" "timers_ordered s t" "t < length (g_threads s)" "expire_one t s = (Some p, s1)"
    and frame: "quiet_callback cb"
    and q: "quiet_until T n s t" and n: "due_count T s t \<le> n"
  defines "s' \<equiv> rearm_timer t p (fire_timer cb p s1)"
  shows "timers_wf s'" "timers_ordered s' t" "t < length (g_threads s')" "g_clock s' = g_clock s"
    and "0 < n" "due_count T s' t \<le> n - 1" "quiet_until T (n - 1) s' t"
proof -
  obtain tm h where e: "g_timers s p = Some tm" "is_running tm" "owner_thread tm = Some t" "Some p \<in># heap_items (heap_of s t)"
    "expire_at_ms tm \<le> g_clock s (g_clock_pos s)"
    "s1 = upd_timer p (\<lambda>tm. tm\<lparr>is_running := False\<rparr>) (set_heap t h (s\<lparr>g_clock_pos := g_clock_pos s + 1\<rparr>))"
    "heap_items h = heap_items (heap_of s t) - {#Some p#}" "timers_wf s1" "timers_ordered s1 t"
    using expire_one_Some[OF wf] by blast
  define s2 where "s2 = fire_timer cb p s1"
  have fr: "g_timers s2 = g_timers s1" "g_threads s2 = g_threads s1" "g_clock s2 = g_clock s1" "g_clock_pos s2 = g_clock_pos s1"
    using frame by (auto simp: quiet_callback_def s2_def fire_timer_def Let_def split: option.splits)
  have k2: "node_key s2 = node_key s1" "get_timer s2 = get_timer s1" using fr(1) by (auto simp: node_key_def[abs_def] get_timer_def[abs_def])
  have "timers_wf s2 = timers_wf s1" unfolding timers_wf_def fr(1,2) by (rule refl)
  then have wf2: "timers_wf s2" "timers_ordered s2 t" using e(8,9) fr(2) k2 by (simp_all add: timers_ordered_def)
  have t2: "t < length (g_threads s2)" using fr(2) e(6) wf(3) by simp
  define tm1 where "tm1 = tm\<lparr>is_running := False\<rparr>"
  have p2: "g_timers s2 p = Some tm1" using fr(1) e(1,6) by (simp add: g_timers_upd_timer tm1_def)
  have pr: "\<not> is_running tm1" "owner_thread tm1 = Some t" using e(3) by (simp_all add: tm1_def)
  have s': "s' = rearm_timer t p s2" by (simp add: s'_def s2_def)
  note r = rearm_timer_spec[OF wf2 t2 p2 pr, folded s']
  show "timers_wf s'" "timers_ordered s' t" by (fact r(1), fact r(2))
  show "t < length (g_threads s')" using r(3) t2 by simp
  show clk: "g_clock s' = g_clock s" using r(4) fr(3) e(6) by simp
  have h2: "heap_items (heap_of s2 t) = heap_items (heap_of s t) - {#Some p#}" using fr(2) e(6,7) wf(3) by simp
  have g1: "get_timer s1 x = (if x = p then tm1 else get_timer s x)" for x
    using get_timer_upd[of "set_heap t h (s\<lparr>g_clock_pos := g_clock_pos s + 1\<rparr>)" p tm] e(1,6) by (simp add: tm1_def)
  have key1: "node_key s1 = node_key s" using g1 get_timer_Some[OF e(1)] by (auto simp: node_key_def tm1_def fun_eq_iff split: option.splits)
  have pdue: "node_key s (Some p) \<le> T"
    using e(5) q get_timer_Some[OF e(1)] by (auto simp: quiet_until_def node_key_def intro: order_trans)
  have pos: "g_clock_pos s + 1 \<le> g_clock_pos s'" "g_clock_pos s' \<le> g_clock_pos s + 2" using r(5,6) fr(4) e(6) by simp_all
  have notin: "Some p \<notin># heap_items (heap_of s2 t)" using timers_wfD(5)[OF wf2(1) t2, of p] p2 pr by simp
  have key': "node_key s' x = node_key s x" if "x \<in># heap_items (heap_of s2 t)" for x
  proof (cases x)
    case (Some a)
    then have "a \<noteq> p" using that notin by auto
    then show ?thesis using Some r(7)[of a] k2(2) g1[of a] by (simp add: node_key_def)
  qed (simp add: node_key_def)
  let ?D = "filter_mset (\<lambda>n. node_key s n \<le> T) (heap_items (heap_of s t))"
  have "Some p \<in># ?D" using pdue e(4) by simp
  then have D1: "size (?D - {#Some p#}) = size ?D - 1" "0 < size ?D"
    by (rule size_Diff_singleton, metis nonempty_has_size set_mset_empty empty_iff)
  then show n0: "0 < n" using n by (simp add: due_count_def)
  have D2: "filter_mset (\<lambda>n. node_key s' n \<le> T) (heap_items (heap_of s2 t)) = ?D - {#Some p#}"
    using filter_mset_cong[OF refl, of "heap_items (heap_of s2 t)" "\<lambda>n. node_key s' n \<le> T" "\<lambda>n. node_key s n \<le> T"] key' h2 by simp
  have late: "\<not> node_key s' (Some p) \<le> T" if "heap_items (heap_of s' t) \<noteq> heap_items (heap_of s2 t)"
  proof -
    have x: "is_periodic tm1" "expire_at_ms (get_timer s' p) = g_clock s2 (g_clock_pos s2) + ucast (interval_ms tm1)"
      using r(8) that by auto
    have per: "is_periodic (get_timer s p)" using x(1) get_timer_Some[OF e(1)] by (simp add: tm1_def)
    have "\<forall>i \<le> 2 * n. T < g_clock s (g_clock_pos s + i) + ucast (interval_ms (get_timer s p))"
      using q e(4) per unfolding quiet_until_def by blast
    moreover have "1 \<le> 2 * n" using n0 by simp
    ultimately have "T < g_clock s (g_clock_pos s + 1) + ucast (interval_ms (get_timer s p))" by blast
    then show ?thesis using x(2) fr(3,4) e(6) get_timer_Some[OF e(1)] by (simp add: node_key_def tm1_def not_le)
  qed
  have items': "heap_items (heap_of s' t) = heap_items (heap_of s2 t) \<or> heap_items (heap_of s' t) = add_mset (Some p) (heap_items (heap_of s2 t))"
    using r(8) by blast
  then have "filter_mset (\<lambda>n. node_key s' n \<le> T) (heap_items (heap_of s' t)) = ?D - {#Some p#}"
    using late D2 by auto
  then show "due_count T s' t \<le> n - 1" using D1 n by (simp add: due_count_def)
  show "quiet_until T (n - 1) s' t"
    unfolding quiet_until_def
  proof (intro conjI allI impI)
    have idx: "\<exists>j \<le> 2 * n. g_clock_pos s' + i = g_clock_pos s + j" if "i \<le> 2 * (n - 1)" for i
      using that pos n0 by (intro exI[of _ "g_clock_pos s' + i - g_clock_pos s"]) auto
    fix i assume i: "i \<le> 2 * (n - 1)"
    then obtain j where j: "j \<le> 2 * n" "g_clock_pos s' + i = g_clock_pos s + j" using idx by blast
    then show "g_clock s' (g_clock_pos s' + i) \<le> T" using q clk by (simp add: quiet_until_def)
    fix x assume x: "Some x \<in># heap_items (heap_of s' t) \<and> is_periodic (get_timer s' x)"
    have in_s: "Some x \<in># heap_items (heap_of s t)" using x items' h2 e(4) by (auto dest: in_diffD)
    have "is_periodic (get_timer s x) \<and> interval_ms (get_timer s' x) = interval_ms (get_timer s x)"
    proof (cases "x = p")
      case True
      then have "heap_items (heap_of s' t) \<noteq> heap_items (heap_of s2 t)" using x notin by auto
      then show ?thesis using True r(8) get_timer_Some[OF e(1)] by (auto simp: tm1_def)
    next
      case False
      then show ?thesis using x r(7)[OF False] k2(2) g1[of x] by simp
    qed
    then show "T < g_clock s' (g_clock_pos s' + i) + ucast (interval_ms (get_timer s' x))"
      using q in_s j clk unfolding quiet_until_def by metis
  qed
qed

lemma process_timers_done:
  assumes frame: "quiet_callback cb"
  shows "timers_wf s \<Longrightarrow> timers_ordered s t \<Longrightarrow> t < length (g_threads s) \<Longrightarrow> quiet_until T n s t \<Longrightarrow> due_count T s t \<le> n \<Longrightarrow>
    \<exists>s'. process_timers cb (Suc n) t s = Some s' \<and> timers_wf s' \<and> timers_ordered s' t \<and> 0 < g_clock_pos s'
      \<and> (\<forall>p. Some p \<in># heap_items (heap_of s' t) \<longrightarrow> g_clock s (g_clock_pos s' - 1) < expire_at_ms (get_timer s' p))"
proof (induction n arbitrary: s)
  case (0 s)
  show ?case
  proof (cases "expire_one t s")
    case (Pair r s1)
    show ?thesis
    proof (cases r)
      case None
      then show ?thesis using expire_one_None[OF "0.prems"(1-3), of s1] Pair "0.prems" by (auto simp: timers_ordered_def)
    next
      case (Some p)
      then show ?thesis using process_timers_step(5)[OF "0.prems"(1-3) _ frame "0.prems"(4,5), of p s1] Pair by simp
    qed
  qed
next
  case (Suc n s)
  show ?case
  proof (cases "expire_one t s")
    case (Pair r s1)
    show ?thesis
    proof (cases r)
      case None
      then show ?thesis using expire_one_None[OF Suc.prems(1-3), of s1] Pair Suc.prems by (auto simp: timers_ordered_def)
    next
      case (Some p)
      note st = process_timers_step[OF Suc.prems(1-3) _ frame Suc.prems(4,5), of p s1]
      have e: "expire_one t s = (Some p, s1)" using Pair Some by simp
      show ?thesis using Suc.IH[OF st(1)[OF e] st(2)[OF e] st(3)[OF e]] st(4,6,7)[OF e] e by simp
    qed
  qed
qed


section \<open>Concrete instances\<close>

lemma timers_wf_create:
  "timers_wf s \<Longrightarrow> g_timers s p = None \<Longrightarrow> timers_wf (snd (nos_timer_create (Some p) cb arg fr s))"
  by (auto simp: timers_wf_def nos_timer_create_def null_timer_def)

text \<open>One thread with an active component and one periodic timer; the clock reads 0 when the timer is
  started and 15 afterwards.\<close>

definition demo_comp :: sched_state where
  "demo_comp = (snd (nos_scheduler_register_component (Some 0) (Some 5) demo_sched))
     \<lparr>g_comps := [5 \<mapsto> null_component\<lparr>comp_id := 5, comp_status := NOS_COMP_ST_ACTIVE\<rparr>],
      g_clock := (\<lambda>i. if i = 0 then 0 else 15)\<rparr>"

definition demo_idle :: sched_state where
  "demo_idle = snd (nos_timer_create (Some 7) (Some 8) None None demo_comp)"

definition demo_armed :: sched_state where
  "demo_armed = snd (nos_timer_start (Some 5) (Some 7) 10 True demo_idle)"

lemma demo_comp_threads:
  "g_threads demo_comp = [(get_thread demo_sched 0)\<lparr>components := (replicate 32 None)[0 := Some 5], component_count := 1, notify_val := 1\<rparr>]"
  by (simp add: demo_comp_def nos_scheduler_register_component_def demo_sched_thread null_thread_def
      notify_def upd_thread_def MAX_COMP_PER_THREAD_def)

lemma demo_comp_simps [simp]:
  "length (g_threads demo_comp) = 1" "heap_of demo_comp 0 = empty_heap 128 None" "worker_threads demo_comp = [0]"
  "mgmt_thread demo_comp = None" "g_clock demo_comp = (\<lambda>i. if i = 0 then 0 else 15)" "g_clock_pos demo_comp = 0"
  "g_timers demo_comp = (\<lambda>_. None)"
  by (simp_all add: demo_comp_threads demo_sched_thread null_thread_def)
    (simp_all add: demo_comp_def nos_scheduler_register_component_def demo_sched_def nos_scheduler_init_thread_def
      boot_state_def notify_def upd_thread_def Let_def)

lemma demo_find: "find_thread_of_component demo_idle (Some 5) = Some 0"
  by (simp add: demo_idle_def nos_timer_create_def find_thread_of_component_def thread_has_def find_idx_def
      demo_comp_threads)

lemma demo_idle_wf: "timers_wf demo_idle" "threads_wf demo_idle" "timers_ordered demo_idle 0"
  "g_timers demo_idle 7 = Some (null_timer\<lparr>callback := Some 8\<rparr>)" "heap_of demo_idle 0 = empty_heap 128 None"
  "g_clock demo_idle = g_clock demo_comp" "g_clock_pos demo_idle = 0" "g_threads demo_idle = g_threads demo_comp"
proof -
  have "timers_wf demo_comp"
    using empty_heap_inv(1)[of "\<lambda>_. 0 :: nat" 128 "None :: nat option"]
    by (simp add: timers_wf_def heap_inv_def empty_heap_inv(2))
  then show "timers_wf demo_idle" by (simp add: demo_idle_def timers_wf_create)
  show "threads_wf demo_idle" by (simp add: demo_idle_def nos_timer_create_def threads_wf_def)
  show "timers_ordered demo_idle 0" by (simp add: demo_idle_def nos_timer_create_def timers_ordered_def empty_heap_inv)
  show "g_timers demo_idle 7 = Some (null_timer\<lparr>callback := Some 8\<rparr>)" "heap_of demo_idle 0 = empty_heap 128 None"
    "g_clock demo_idle = g_clock demo_comp" "g_clock_pos demo_idle = 0" "g_threads demo_idle = g_threads demo_comp"
    by (simp_all add: demo_idle_def nos_timer_create_def null_timer_def)
qed

lemma demo_start:
  "fst (nos_timer_start (Some 5) (Some 7) 10 True demo_idle) = NOS_OK"
  "timers_wf demo_armed" "heap_items (heap_of demo_armed 0) = {#Some 7#}"
  "expire_at_ms (get_timer demo_armed 7) = 10" "timers_ordered demo_armed 0"
proof -
  have "case nos_timer_start (Some 5) (Some 7) 10 True demo_idle of (r, s') \<Rightarrow> r = NOS_OK \<and> timers_wf s'
      \<and> heap_items (heap_of s' 0) = {#Some 7#} \<and> expire_at_ms (get_timer s' 7) = 10 \<and> timers_ordered s' 0"
    using timer_start_spec[OF demo_idle_wf(1,2,4), of "Some 5" 10 True] demo_find demo_idle_wf(3,5,6,7)
    by (auto simp: null_timer_def empty_heap_inv empty_heap_def heap_items_def split: prod.splits)
  then show "fst (nos_timer_start (Some 5) (Some 7) 10 True demo_idle) = NOS_OK"
    "timers_wf demo_armed" "heap_items (heap_of demo_armed 0) = {#Some 7#}"
    "expire_at_ms (get_timer demo_armed 7) = 10" "timers_ordered demo_armed 0"
    by (auto simp: demo_armed_def split: prod.splits)
qed

lemma demo_armed_timer:
  "g_timers demo_armed 7 = Some (arm_timer 0 10 True (Some 5) 0 (null_timer\<lparr>callback := Some 8\<rparr>))"
  "length (g_threads demo_armed) = 1" "g_clock demo_armed = g_clock demo_comp" "g_clock_pos demo_armed = 1"
  "hsize (heap_of demo_armed 0) = 1"
proof -
  have ok: "\<not> is_running (null_timer\<lparr>callback := Some 8\<rparr>)" "hsize (heap_of demo_idle 0) < 128"
    by (simp_all add: null_timer_def demo_idle_wf empty_heap_def)
  note d = timer_start_OK(1)[OF demo_idle_wf(1,2,4) demo_find ok refl refl, where iv = 10 and per = True]
  show "g_timers demo_armed 7 = Some (arm_timer 0 10 True (Some 5) 0 (null_timer\<lparr>callback := Some 8\<rparr>))"
    "length (g_threads demo_armed) = 1" "g_clock demo_armed = g_clock demo_comp" "g_clock_pos demo_armed = 1"
    "hsize (heap_of demo_armed 0) = 1"
    by (simp_all add: demo_armed_def d demo_idle_wf g_timers_upd_timer heap_insert_def empty_heap_def notify_def)
qed

theorem timer_start_correct_witness:
  "fst (nos_timer_start (Some 5) (Some 7) 10 True demo_idle) = NOS_OK
    \<and> heap_items (heap_of (snd (nos_timer_start (Some 5) (Some 7) 10 True demo_idle)) 0) = {#Some 7#}"
  using timer_start_correct[OF demo_idle_wf(1,2,4), of "Some 5" 10 True] demo_start(1) demo_find demo_idle_wf(5)
  by (auto simp: empty_heap_inv split: prod.splits)

theorem timer_stop_correct_witness:
  "fst (nos_timer_stop (Some 5) (Some 7) demo_armed) = NOS_OK
    \<and> Some 7 \<notin># heap_items (heap_of (snd (nos_timer_stop (Some 5) (Some 7) demo_armed)) 0)"
  using timer_stop_correct[OF demo_start(2) demo_armed_timer(1), of "Some 5"]
  by (auto simp: arm_timer_def demo_armed_timer split: prod.splits)

theorem timer_delete_correct_witness:
  "g_timers (nos_timer_delete (\<lambda>f a x. x) (Some 7) demo_armed) 7 = None
    \<and> Some 7 \<notin># heap_items (heap_of (nos_timer_delete (\<lambda>f a x. x) (Some 7) demo_armed) 0)"
  using timer_delete_correct[OF demo_start(2) demo_armed_timer(1), of "\<lambda>f a x. x"] demo_armed_timer(2) by simp

theorem cancel_timers_correct_witness:
  "heap_items (heap_of (nos_scheduler_cancel_timers_by_owner (Some 0) (Some 5) demo_armed) 0) = {#}"
proof -
  have "owned_by demo_armed 5 (Some 7)"
    using get_timer_Some[OF demo_armed_timer(1)] by (simp add: owned_by_def arm_timer_def)
  then show ?thesis
    using cancel_timers_correct[OF demo_start(2), of 0 5] demo_armed_timer(2) demo_start(3) by (simp add: Let_def)
qed

lemma demo_expire: "\<exists>s'. expire_one 0 demo_armed = (Some 7, s')"
proof (cases "expire_one 0 demo_armed")
  case (Pair r s')
  have "0 < length (g_threads demo_armed)" using demo_armed_timer(2) by simp
  note w = demo_start(2,5) this
  show ?thesis
  proof (cases r)
    case None
    then show ?thesis using expire_one_None[OF w, of s'] Pair demo_start(3,4) demo_armed_timer(3,4) by simp
  next
    case (Some p)
    then have "Some p \<in># heap_items (heap_of demo_armed 0)" using expire_one_Some[OF w, of p s'] Pair by blast
    then show ?thesis using demo_start(3) Pair Some by simp
  qed
qed

theorem expiry_takes_earliest_due_witness:
  "\<exists>s'. expire_one 0 demo_armed = (Some 7, s') \<and> expire_at_ms (get_timer demo_armed 7) \<le> 15 \<and> heap_items (heap_of s' 0) = {#}"
proof -
  obtain s' where e: "expire_one 0 demo_armed = (Some 7, s')" using demo_expire by blast
  then show ?thesis
    using expiry_takes_earliest_due[OF demo_start(2,5) _ e] demo_armed_timer(2-4) demo_start(3,4) by simp
qed


end
