(* ===== verification/Nos_Dispatch.thy ===== *)
theory Nos_Dispatch
  imports Nos_Registry Nos_Timer
begin

text \<open>
  Message passing inside a node (\<^verbatim>\<open>nos_scheduler.c\<close>): the message queue of a thread, local
  delivery, the routing of \<^verbatim>\<open>nos_service_msg_send\<close>, replies, the dispatch loop
  \<^verbatim>\<open>process_thread_messages\<close>, the purge of messages for a provider and one iteration of
  the scheduler loop.  Sending to another node and replying over a connection are parameters here
  (\<open>ipc_send\<close>, \<open>ipc_reply\<close>); the functions that component callbacks run are too.
\<close>

section \<open>The message queue of a thread\<close>

definition queue_put :: "bufp option \<Rightarrow> nos_thread_t \<Rightarrow> nos_thread_t option" where
  "queue_put b th =
    (let next_tail = (tail th + 1) mod MAX_QUEUE_SIZE in
     if next_tail = head th then None
     else Some (th\<lparr>msg_queue := (msg_queue th)[tail th := b], tail := next_tail\<rparr>))"

definition queue_take :: "nos_thread_t \<Rightarrow> (bufp option \<times> nos_thread_t) option" where
  "queue_take th =
    (if head th \<noteq> tail th
     then Some (msg_queue th ! head th, th\<lparr>head := (head th + 1) mod MAX_QUEUE_SIZE\<rparr>) else None)"

definition queue_ok :: "nos_thread_t \<Rightarrow> bool" where
  "queue_ok th \<longleftrightarrow> ring_ok MAX_QUEUE_SIZE (msg_queue th) (head th) (tail th)"

lemma queue_put_spec:
  assumes "queue_ok th"
  shows "queue_put b th = None \<longleftrightarrow> length (queue_items th) = MAX_QUEUE_SIZE - 1"
    and "queue_put b th = Some th' \<Longrightarrow> queue_ok th' \<and> queue_items th' = queue_items th @ [b]"
proof -
  have r: "length (msg_queue th) = MAX_QUEUE_SIZE" "head th < MAX_QUEUE_SIZE" "tail th < MAX_QUEUE_SIZE"
    using assms by (auto simp: queue_ok_def ring_ok_def)
  show "queue_put b th = None \<longleftrightarrow> length (queue_items th) = MAX_QUEUE_SIZE - 1"
    using ring_len_full[OF r(2,3)] r(1) by (simp add: queue_put_def Let_def queue_items_def)
  show "queue_put b th = Some th' \<Longrightarrow> queue_ok th' \<and> queue_items th' = queue_items th @ [b]"
    using assms ring_items_push[of MAX_QUEUE_SIZE "msg_queue th" "head th" "tail th" b] ring_ok_push[of MAX_QUEUE_SIZE "msg_queue th" "head th" "tail th" b]
    by (auto simp: queue_put_def Let_def queue_ok_def queue_items_def split: if_splits)
qed

lemma queue_take_spec:
  assumes "queue_ok th"
  shows "queue_take th = None \<longleftrightarrow> queue_items th = []"
    and "queue_take th = Some (b, th') \<Longrightarrow> queue_ok th' \<and> queue_items th = b # queue_items th'"
proof -
  have r: "length (msg_queue th) = MAX_QUEUE_SIZE" "head th < MAX_QUEUE_SIZE" "tail th < MAX_QUEUE_SIZE"
    using assms by (auto simp: queue_ok_def ring_ok_def)
  have "queue_items th = [] \<longleftrightarrow> head th = tail th"
    using ring_len_0[OF r(2,3)] r(1) length_ring_items[of "msg_queue th" "head th" "tail th"]
    by (metis length_0_conv queue_items_def)
  then show "queue_take th = None \<longleftrightarrow> queue_items th = []" by (simp add: queue_take_def)
  show "queue_take th = Some (b, th') \<Longrightarrow> queue_ok th' \<and> queue_items th = b # queue_items th'"
    using assms ring_items_pop[of MAX_QUEUE_SIZE "msg_queue th" "head th" "tail th"] ring_ok_pop[of MAX_QUEUE_SIZE "msg_queue th" "head th" "tail th"]
    by (auto simp: queue_take_def queue_ok_def queue_items_def split: if_splits)
qed

interpretation thread_queue: bounded_fifo "MAX_QUEUE_SIZE - 1" queue_ok queue_items queue_put queue_take
proof unfold_locales
  fix th :: nos_thread_t and b bs
  assume ok: "queue_ok th"
  then have r: "length (msg_queue th) = MAX_QUEUE_SIZE" "head th < MAX_QUEUE_SIZE" "tail th < MAX_QUEUE_SIZE"
    by (auto simp: queue_ok_def ring_ok_def)
  show "length (queue_items th) \<le> MAX_QUEUE_SIZE - 1"
    using ring_len_less[OF r(2,3)] r(1) by (simp add: queue_items_def)
  show "length (queue_items th) = MAX_QUEUE_SIZE - 1 \<Longrightarrow> queue_put b th = None"
    using queue_put_spec(1)[OF ok] by blast
  show "length (queue_items th) < MAX_QUEUE_SIZE - 1 \<Longrightarrow>
      \<exists>th'. queue_put b th = Some th' \<and> queue_ok th' \<and> queue_items th' = queue_items th @ [b]"
    using queue_put_spec[OF ok, of b] by (cases "queue_put b th") auto
  show "queue_items th = [] \<Longrightarrow> queue_take th = None" using queue_take_spec(1)[OF ok] by blast
  show "queue_items th = b # bs \<Longrightarrow> \<exists>th'. queue_take th = Some (b, th') \<and> queue_ok th' \<and> queue_items th' = bs"
    using queue_take_spec[OF ok] by (cases "queue_take th") auto
qed

section \<open>Sending\<close>

text \<open>The envelope at \<^verbatim>\<open>buf->data\<close>.\<close>

definition msg_header :: "'z buf_state_scheme \<Rightarrow> bufp \<Rightarrow> nos_service_msg_t" where
  "msg_header s p = (let b = get_buf s p in decode_msg (chunk b) (nat (data b - raw_data b)))"

definition set_header :: "bufp \<Rightarrow> (nos_service_msg_t \<Rightarrow> nos_service_msg_t) \<Rightarrow> 'z buf_state_scheme \<Rightarrow> 'z buf_state_scheme" where
  "set_header p f = upd_buf p (\<lambda>b. let off = nat (data b - raw_data b) in
     b\<lparr>chunk := write_bytes (chunk b) off (encode_msg (f (decode_msg (chunk b) off)))\<rparr>)"

definition is_reply_msg :: "nos_service_msg_t \<Rightarrow> bool" where
  "is_reply_msg h \<longleftrightarrow> flags h AND NOS_MSG_F_REPLY \<noteq> 0 \<and> dst_component h \<noteq> 0"

definition nos_transport_local_send ::
  "bufp \<Rightarrow> nat option \<Rightarrow> 'z sched_state_scheme \<Rightarrow> nos_status_t \<times> 'z sched_state_scheme" where
  "nos_transport_local_send p target s =
    (case target of
       None \<Rightarrow> (NOS_ERR, s)
     | Some t \<Rightarrow>
         (case queue_put (Some p) (get_thread s t) of
            None \<Rightarrow> (NOS_ERR_BUSY, s)
          | Some th \<Rightarrow>
              (let s1 = upd_thread t (\<lambda>_. th) (nos_buffer_retain (Some p) s)
               in (NOS_OK, if is_sleeping th then notify t s1 else s1))))"

definition nos_service_msg_send ::
  "(string \<Rightarrow> string \<Rightarrow> bufp \<Rightarrow> 'z sched_state_scheme \<Rightarrow> nos_status_t \<times> 'z sched_state_scheme) \<Rightarrow>
     bufp option \<Rightarrow> 'z sched_state_scheme \<Rightarrow> nos_status_t \<times> 'z sched_state_scheme" where
  "nos_service_msg_send ipc_send buf s =
    (case buf of
       None \<Rightarrow> (NOS_ERR, s)
     | Some p \<Rightarrow>
         (let h = msg_header s p in
          if is_reply_msg h then
            (case find_loaded_component_info s (dst_component h) of
               Some i \<Rightarrow> nos_transport_local_send p (li_owner_thread (loaded_info s ! i)) s
             | None \<Rightarrow> (NOS_ERR, s))
          else
            (case find_service_entry s (dst_service h) of
               Some i \<Rightarrow>
                 (let e = get_entry s i in
                  if is_remote e then ipc_send (remote_node e) (remote_uds_path e) p s
                  else nos_transport_local_send p (local_thread e) s)
             | None \<Rightarrow> (NOS_ERR, s))))"

definition nos_service_reply ::
  "(nat option \<Rightarrow> u32 \<Rightarrow> bufp \<Rightarrow> 'z sched_state_scheme \<Rightarrow> nos_status_t \<times> 'z sched_state_scheme) \<Rightarrow>
     nat option \<Rightarrow> bufp option \<Rightarrow> 'z sched_state_scheme \<Rightarrow> nos_status_t \<times> 'z sched_state_scheme" where
  "nos_service_reply ipc_reply ctx buf s =
    (case (ctx, buf) of
       (Some c, Some p) \<Rightarrow>
         (case g_reply_ctxs s c of
            None \<Rightarrow> (NOS_ERR, s)
          | Some rc \<Rightarrow>
              ipc_reply (ipc_conn rc) (ipc_generation rc) p
                (set_header p (\<lambda>h. h\<lparr>flags := flags h OR NOS_MSG_F_REPLY, seq := corr_id rc,
                   dst_component := requester_component rc\<rparr>) s))
     | _ \<Rightarrow> (NOS_ERR, s))"

section \<open>Dispatching\<close>

text \<open>The component that receives a message, and the function it runs.\<close>

definition active_handler :: "'z sched_state_scheme \<Rightarrow> nat option \<Rightarrow> (nat \<times> nat) option" where
  "active_handler s target =
    (case target of
       None \<Rightarrow> None
     | Some c \<Rightarrow>
         if comp_status (get_comp s c) = NOS_COMP_ST_ACTIVE
         then map_option (\<lambda>f. (f, c)) (comp_on_msg (get_comp s c)) else None)"

definition msg_target :: "'z sched_state_scheme \<Rightarrow> bufp \<Rightarrow> (nat \<times> nat) option" where
  "msg_target s p =
    (let h = msg_header s p in
     if is_reply_msg h then
       (case find_loaded_component_info s (dst_component h) of
          None \<Rightarrow> None
        | Some i \<Rightarrow> active_handler s (li_comp (loaded_info s ! i)))
     else
       (case find_service_entry s (dst_service h) of
          None \<Rightarrow> None
        | Some i \<Rightarrow> active_handler s (local_provider (get_entry s i))))"

definition dispatch_one :: "(nat \<Rightarrow> nat \<Rightarrow> bufp \<Rightarrow> 'z sched_state_scheme \<Rightarrow> 'z sched_state_scheme) \<Rightarrow>
    bufp \<Rightarrow> 'z sched_state_scheme \<Rightarrow> 'z sched_state_scheme" where
  "dispatch_one on_msg p s = (case msg_target s p of None \<Rightarrow> s | Some (f, c) \<Rightarrow> on_msg f c p s)"

fun process_thread_messages :: "(nat \<Rightarrow> nat \<Rightarrow> bufp \<Rightarrow> 'z sched_state_scheme \<Rightarrow> 'z sched_state_scheme) \<Rightarrow>
    nat \<Rightarrow> nat \<Rightarrow> 'z sched_state_scheme \<Rightarrow> 'z sched_state_scheme option" where
  "process_thread_messages on_msg 0 t s = None"
| "process_thread_messages on_msg (Suc fuel) t s =
    (case queue_take (get_thread s t) of
       None \<Rightarrow> Some s
     | Some (b, th) \<Rightarrow>
         (let s1 = upd_thread t (\<lambda>_. th) s in
          case b of
            None \<Rightarrow> Some s1
          | Some p \<Rightarrow> process_thread_messages on_msg fuel t (nos_buffer_release (Some p) (dispatch_one on_msg p s1))))"

section \<open>Purging the messages of a provider\<close>

definition targets_provider :: "'z sched_state_scheme \<Rightarrow> nat \<Rightarrow> bufp \<Rightarrow> bool" where
  "targets_provider s provider p =
    (let sid = dst_service (msg_header s p) in
     (case find_service_entry s sid of
        None \<Rightarrow> False
      | Some i \<Rightarrow> \<not> is_remote (get_entry s i) \<and> local_provider (get_entry s i) = Some provider)
     \<or> (case node_def s of
          None \<Rightarrow> False
        | Some nd \<Rightarrow> list_ex (\<lambda>svc. svc_service_id svc = sid \<and> svc_provider_comp_id svc = comp_id (get_comp s provider)
            \<and> svc_node_name svc = node_name nd) (node_services nd)))"

fun drop_scan :: "nat \<Rightarrow> bufp option list \<Rightarrow> 'z sched_state_scheme \<Rightarrow> bufp option list \<times> 'z sched_state_scheme" where
  "drop_scan provider [] s = ([], s)"
| "drop_scan provider (None # bs) s = (case drop_scan provider bs s of (kept, s') \<Rightarrow> (None # kept, s'))"
| "drop_scan provider (Some p # bs) s =
    (if targets_provider s provider p then drop_scan provider bs (nos_buffer_release (Some p) s)
     else (case drop_scan provider bs s of (kept, s') \<Rightarrow> (Some p # kept, s')))"

definition nos_scheduler_drop_messages_for_provider ::
  "bool \<Rightarrow> nat option \<Rightarrow> nat option \<Rightarrow> 'z sched_state_scheme \<Rightarrow> 'z sched_state_scheme" where
  "nos_scheduler_drop_messages_for_provider calloc_ok thread provider s =
    (case (thread, provider) of
       (Some t, Some c) \<Rightarrow>
         if \<not> calloc_ok then s
         else (case drop_scan c (queue_items (get_thread s t)) s of (kept, s') \<Rightarrow>
             upd_thread t (\<lambda>th. th\<lparr>msg_queue := kept @ replicate (MAX_QUEUE_SIZE - length kept) None,
               head := 0, tail := length kept mod MAX_QUEUE_SIZE\<rparr>) s')
     | _ \<Rightarrow> s)"

section \<open>What buffer operations leave alone\<close>

lemma sched_upd_bin [simp]:
  "g_threads (upd_bin i f s) = g_threads s" "g_comps (upd_bin i f s) = g_comps s" "g_timers (upd_bin i f s) = g_timers s"
  "g_service_registry (upd_bin i f s) = g_service_registry s" "g_service_count (upd_bin i f s) = g_service_count s"
  "loaded_info (upd_bin i f s) = loaded_info s" "loaded_count (upd_bin i f s) = loaded_count s" "node_def (upd_bin i f s) = node_def s"
  by (simp_all add: upd_bin_def)

lemma sched_upd_buf [simp]:
  "g_threads (upd_buf p g s) = g_threads s" "g_comps (upd_buf p g s) = g_comps s" "g_timers (upd_buf p g s) = g_timers s"
  "g_service_registry (upd_buf p g s) = g_service_registry s" "g_service_count (upd_buf p g s) = g_service_count s"
  "loaded_info (upd_buf p g s) = loaded_info s" "loaded_count (upd_buf p g s) = loaded_count s" "node_def (upd_buf p g s) = node_def s"
  by (simp_all add: upd_buf_def)

lemma sched_reply_release [simp]:
  "g_threads (nos_reply_ctx_release c s) = g_threads s" "g_comps (nos_reply_ctx_release c s) = g_comps s"
  "g_timers (nos_reply_ctx_release c s) = g_timers s"
  "g_service_registry (nos_reply_ctx_release c s) = g_service_registry s" "g_service_count (nos_reply_ctx_release c s) = g_service_count s"
  "loaded_info (nos_reply_ctx_release c s) = loaded_info s" "loaded_count (nos_reply_ctx_release c s) = loaded_count s"
  "node_def (nos_reply_ctx_release c s) = node_def s"
  by (simp_all add: nos_reply_ctx_release_def split: option.splits)

lemma sched_release [simp]:
  "g_threads (nos_buffer_release b s) = g_threads s" "g_comps (nos_buffer_release b s) = g_comps s"
  "g_timers (nos_buffer_release b s) = g_timers s"
  "g_service_registry (nos_buffer_release b s) = g_service_registry s" "g_service_count (nos_buffer_release b s) = g_service_count s"
  "loaded_info (nos_buffer_release b s) = loaded_info s" "loaded_count (nos_buffer_release b s) = loaded_count s"
  "node_def (nos_buffer_release b s) = node_def s"
  by (simp_all add: nos_buffer_release_def Let_def split: option.splits)

lemma sched_retain [simp]:
  "g_threads (nos_buffer_retain b s) = g_threads s" "g_comps (nos_buffer_retain b s) = g_comps s"
  "g_timers (nos_buffer_retain b s) = g_timers s"
  by (simp_all add: nos_buffer_retain_def split: option.splits)

lemma get_buf_upd_thread [simp]: "get_buf (upd_thread t f s) = get_buf s" "valid_buf (upd_thread t f s) = valid_buf s"
  "pool_ok (upd_thread t f s) = pool_ok s" "msg_header (upd_thread t f s) = msg_header s"
  by (auto simp: get_buf_def valid_buf_def pool_ok_def msg_header_def fun_eq_iff)

definition same_routes :: "'z sched_state_scheme \<Rightarrow> 'z sched_state_scheme \<Rightarrow> bool" where
  "same_routes s s' \<longleftrightarrow> g_comps s' = g_comps s \<and> g_service_registry s' = g_service_registry s
     \<and> g_service_count s' = g_service_count s \<and> loaded_info s' = loaded_info s \<and> loaded_count s' = loaded_count s"

lemma msg_target_cong:
  assumes "same_routes s s'" "msg_header s' p = msg_header s p"
  shows "msg_target s' p = msg_target s p"
proof -
  have c: "get_comp s' = get_comp s" using assms(1) by (auto simp: same_routes_def get_comp_def fun_eq_iff)
  have f: "loaded_info s' = loaded_info s" "loaded_count s' = loaded_count s" "g_service_registry s' = g_service_registry s"
    "g_service_count s' = g_service_count s" using assms(1) by (auto simp: same_routes_def)
  have "find_loaded_component_info s' = find_loaded_component_info s" "find_service_entry s' = find_service_entry s"
    "get_entry s' = get_entry s" "active_handler s' = active_handler s"
    unfolding find_loaded_component_info_def[abs_def] find_service_entry_def[abs_def] get_entry_def[abs_def]
      active_handler_def[abs_def] c f by (rule refl)+
  then show ?thesis unfolding msg_target_def assms(2) f by (simp only:)
qed

lemma release_keeps_header:
  assumes "pool_ok s" "valid_buf s p" "q \<noteq> p \<or> ref_cnt (get_buf s p) \<noteq> 1"
  shows "msg_header (nos_buffer_release (Some p) s) q = msg_header s q"
proof (cases "q = p")
  case False
  then show ?thesis using release_frame(3)[OF assms(1,2) False] by (simp add: msg_header_def)
next
  case True
  then have "nos_buffer_release (Some p) s = upd_buf p (\<lambda>b. b\<lparr>ref_cnt := ref_cnt b - 1\<rparr>) s"
    using assms(3) by (simp add: nos_buffer_release_def Let_def)
  then show ?thesis using True get_buf_upd_buf[OF assms(2)] by (simp add: msg_header_def Let_def)
qed

section \<open>Properties of sending\<close>

text \<open>C7.  Every interleaving of sends to a thread and removals by its dispatch loop preserves order
  and loses or repeats nothing: what was queued followed by what was accepted is what was taken out
  followed by what is left, and a send is refused exactly when 1023 messages are waiting.\<close>

theorem thread_queue_history:
  assumes "queue_ok th" "bounded_fifo.run queue_put queue_take ops th = (accepted, taken, th')"
  shows "queue_ok th' \<and> queue_items th @ accepted = taken @ queue_items th'
    \<and> (queue_put b th' = None \<longleftrightarrow> length (queue_items th') = 1023)"
  using thread_queue.run_history[OF assms] thread_queue.enq_None_iff[of th' b] by (simp add: MAX_QUEUE_SIZE_def)

lemma local_send_OK:
  assumes "t < length (g_threads s)" "queue_ok (get_thread s t)" "valid_buf s p" "length (queue_items (get_thread s t)) < 1023"
  shows "\<exists>s'. nos_transport_local_send p (Some t) s = (NOS_OK, s')
    \<and> queue_ok (get_thread s' t) \<and> queue_items (get_thread s' t) = queue_items (get_thread s t) @ [Some p]
    \<and> (\<forall>u. u \<noteq> t \<longrightarrow> get_thread s' u = get_thread s u)
    \<and> (\<forall>q. get_buf s' q = (if q = p then (get_buf s p)\<lparr>ref_cnt := ref_cnt (get_buf s p) + 1\<rparr> else get_buf s q))
    \<and> (is_sleeping (get_thread s t) \<and> notify_val (get_thread s t) \<noteq> -2 \<longrightarrow>
         notify_val (get_thread s' t) = notify_val (get_thread s t) + 1)"
proof -
  obtain th where th: "queue_put (Some p) (get_thread s t) = Some th"
    using queue_put_spec(1)[OF assms(2), of "Some p"] assms(4) by (auto simp: MAX_QUEUE_SIZE_def)
  have q: "queue_ok th" "queue_items th = queue_items (get_thread s t) @ [Some p]" using queue_put_spec(2)[OF assms(2) th] by auto
  have flags: "is_sleeping th = is_sleeping (get_thread s t)" "notify_val th = notify_val (get_thread s t)"
    using th by (auto simp: queue_put_def Let_def split: if_splits)
  let ?s1 = "upd_thread t (\<lambda>_. th) (nos_buffer_retain (Some p) s)"
  have bufs: "get_buf ?s1 r = (if r = p then (get_buf s p)\<lparr>ref_cnt := ref_cnt (get_buf s p) + 1\<rparr> else get_buf s r)" for r
    using get_buf_upd_buf[OF assms(3)] by (simp add: nos_buffer_retain_def)
  have n: "queue_ok (x\<lparr>notify_val := v\<rparr>) = queue_ok x" "queue_items (x\<lparr>notify_val := v\<rparr>) = queue_items x" for x v
    by (simp_all add: queue_ok_def queue_items_def)
  show ?thesis
  proof (cases "is_sleeping th")
    case True
    then show ?thesis using th q flags bufs n assms(1)
      by (auto simp: nos_transport_local_send_def Let_def notify_def)
  next
    case False
    then show ?thesis using th q flags bufs assms(1) by (auto simp: nos_transport_local_send_def Let_def)
  qed
qed

text \<open>Local delivery appends the buffer to the queue of the target thread, takes one reference and
  rings the thread's eventfd if it sleeps; a full queue gives \<^verbatim>\<open>NOS_ERR_BUSY\<close> and takes nothing.\<close>

theorem local_send_correct:
  assumes "t < length (g_threads s)" "queue_ok (get_thread s t)" "valid_buf s p"
  shows "case nos_transport_local_send p (Some t) s of (r, s') \<Rightarrow>
    (if length (queue_items (get_thread s t)) < 1023 then
       r = NOS_OK \<and> queue_items (get_thread s' t) = queue_items (get_thread s t) @ [Some p]
       \<and> ref_cnt (get_buf s' p) = ref_cnt (get_buf s p) + 1
       \<and> (is_sleeping (get_thread s t) \<and> notify_val (get_thread s t) \<noteq> -2 \<longrightarrow>
            notify_val (get_thread s' t) = notify_val (get_thread s t) + 1)
     else r = NOS_ERR_BUSY \<and> s' = s)
    \<and> queue_ok (get_thread s' t) \<and> (\<forall>u. u \<noteq> t \<longrightarrow> get_thread s' u = get_thread s u)
    \<and> (\<forall>q. q \<noteq> p \<longrightarrow> get_buf s' q = get_buf s q)"
proof (cases "length (queue_items (get_thread s t)) < 1023")
  case True
  then show ?thesis using local_send_OK[OF assms True] by (auto simp del: split_paired_All)
next
  case False
  have "length (queue_items (get_thread s t)) = 1023"
    using False thread_queue.bound[OF assms(2)] by (simp add: MAX_QUEUE_SIZE_def)
  then have "queue_put (Some p) (get_thread s t) = None"
    using queue_put_spec(1)[OF assms(2)] by (simp add: MAX_QUEUE_SIZE_def)
  then show ?thesis using False assms(2) by (simp add: nos_transport_local_send_def)
qed

text \<open>Routing.  A reply with a target component goes to the thread that owns that component and
  never through the service registry; any other message follows the registry's route for its
  service: to the provider's thread, to the remote node, or nowhere.\<close>

theorem msg_send_routing:
  "nos_service_msg_send ipc (Some p) s =
    (if flags (msg_header s p) AND NOS_MSG_F_REPLY \<noteq> 0 \<and> dst_component (msg_header s p) \<noteq> 0 then
       (case find_loaded_component_info s (dst_component (msg_header s p)) of
          None \<Rightarrow> (NOS_ERR, s)
        | Some i \<Rightarrow> nos_transport_local_send p (li_owner_thread (loaded_info s ! i)) s)
     else (case reg_view s (dst_service (msg_header s p)) of
          None \<Rightarrow> (NOS_ERR, s)
        | Some (Route_Local prov t) \<Rightarrow> nos_transport_local_send p t s
        | Some (Route_Remote node path) \<Rightarrow> ipc node path p s))"
  by (auto simp: nos_service_msg_send_def is_reply_msg_def reg_view_def entry_route_def Let_def split: option.splits)

section \<open>Properties of dispatching\<close>

text \<open>Every queued pointer is a buffer, and the queue holds as many references as it has entries.\<close>

definition queue_held :: "'z sched_state_scheme \<Rightarrow> bufp option list \<Rightarrow> bool" where
  "queue_held s items \<longleftrightarrow> None \<notin> set items
     \<and> (\<forall>p. Some p \<in> set items \<longrightarrow> valid_buf s p \<and> int (count_list items (Some p)) \<le> ref_cnt (get_buf s p))"

text \<open>A node whose components only record what they receive.\<close>

record trace_state = sched_state +
  delivered :: "(nat \<times> nat \<times> bufp) list"

definition log_msg :: "nat \<Rightarrow> nat \<Rightarrow> bufp \<Rightarrow> trace_state \<Rightarrow> trace_state" where
  "log_msg f c p s = s\<lparr>delivered := delivered s @ [(f, c, p)]\<rparr>"

fun deliveries :: "'z sched_state_scheme \<Rightarrow> bufp option list \<Rightarrow> (nat \<times> nat \<times> bufp) list" where
  "deliveries s [] = []"
| "deliveries s (None # bs) = deliveries s bs"
| "deliveries s (Some p # bs) = (case msg_target s p of None \<Rightarrow> deliveries s bs | Some (f, c) \<Rightarrow> (f, c, p) # deliveries s bs)"

lemma deliveries_cong:
  "(\<And>p. Some p \<in> set bs \<Longrightarrow> msg_target s' p = msg_target s p) \<Longrightarrow> deliveries s' bs = deliveries s bs"
  by (induction s bs rule: deliveries.induct) (auto split: option.splits simp del: split_paired_All)

lemma deliveries_append: "deliveries s (Some p # bs) = deliveries s [Some p] @ deliveries s bs"
  by (simp split: option.splits)

lemma dispatch_log:
  "g_threads (dispatch_one log_msg p s) = g_threads s" "g_bins (dispatch_one log_msg p s) = g_bins s"
  "same_routes s (dispatch_one log_msg p s)"
  "delivered (dispatch_one log_msg p s) = delivered s @ deliveries s [Some p]"
  by (auto simp: dispatch_one_def log_msg_def same_routes_def split: option.splits)

lemma bins_cong: "g_bins s' = g_bins s \<Longrightarrow> get_buf s' p = get_buf s p \<and> valid_buf s' p = valid_buf s p \<and> msg_header s' p = msg_header s p"
  by (simp add: get_buf_def valid_buf_def msg_header_def)

lemma pool_ok_cong: "g_bins s' = g_bins s \<Longrightarrow> pool_ok s' = pool_ok s"
  by (simp add: pool_ok_def)

lemma delivered_release: "delivered (nos_buffer_release b s) = delivered s"
  by (simp add: nos_buffer_release_def nos_reply_ctx_release_def upd_buf_def upd_bin_def Let_def split: option.splits)

lemma delivered_upd_thread [simp]: "delivered (upd_thread t f s) = delivered s"
  by (simp add: upd_thread_def)

lemma dispatch_step:
  assumes "pool_ok s" "t < length (g_threads s)" "queue_held s (Some p # bs)"
    and s3_def: "s3 = nos_buffer_release (Some p) (dispatch_one log_msg p (upd_thread t (\<lambda>_. th) s))"
  shows "pool_ok s3" "g_threads s3 = (g_threads s)[t := th]" "queue_held s3 bs"
    and "delivered s3 = delivered s @ deliveries s [Some p]" "deliveries s3 bs = deliveries s bs"
    and "\<And>q. valid_buf s3 q = valid_buf s q"
    and "\<And>q. valid_buf s q \<Longrightarrow> ref_cnt (get_buf s3 q) = ref_cnt (get_buf s q) - (if q = p then 1 else 0)"
proof -
  let ?s1 = "upd_thread t (\<lambda>_. th) s"
  define s2 where "s2 = dispatch_one log_msg p ?s1"
  have b2: "g_bins s2 = g_bins s" using dispatch_log(2)[of p ?s1] by (simp add: s2_def)
  have p: "valid_buf s p" "int (count_list bs (Some p)) + 1 \<le> ref_cnt (get_buf s p)"
    using assms(3) by (auto simp: queue_held_def simp del: split_paired_All)
  have c: "get_buf s2 = get_buf s" "valid_buf s2 = valid_buf s" "msg_header s2 = msg_header s"
    using bins_cong[OF b2] by (auto simp: fun_eq_iff simp del: split_paired_All)
  have ok2: "pool_ok s2" using pool_ok_cong[OF b2] assms(1) by simp
  have v2: "valid_buf s2 p" using p(1) c(2) by simp
  have s3: "s3 = nos_buffer_release (Some p) s2" by (simp add: s3_def s2_def)
  show "pool_ok s3" using pool_ok_release[OF ok2 v2] s3 by simp
  show "g_threads s3 = (g_threads s)[t := th]"
    using dispatch_log(1)[of p ?s1] by (simp add: s3 s2_def g_threads_upd_thread)
  show vb: "valid_buf s3 q = valid_buf s q" for q using release_frame(1)[OF ok2 v2] s3 c(2) by simp
  show rc: "ref_cnt (get_buf s3 q) = ref_cnt (get_buf s q) - (if q = p then 1 else 0)" if "valid_buf s q" for q
    using release_frame(2,3)[OF ok2 v2] s3 c(1) by simp
  show "queue_held s3 bs"
    using assms(3) vb rc p(2) unfolding queue_held_def by (auto split: if_splits simp del: split_paired_All)
  have routes: "same_routes s s3"
    using dispatch_log(3)[of ?s1 p] by (simp add: s3 s2_def same_routes_def)
  have t1: "msg_target ?s1 q = msg_target s q" for q by (rule msg_target_cong) (simp_all add: same_routes_def)
  show "delivered s3 = delivered s @ deliveries s [Some p]"
    using dispatch_log(4)[of p ?s1] deliveries_cong[of "[Some p]" ?s1 s] t1 by (simp add: s3 s2_def delivered_release del: deliveries.simps(3))
  have "msg_target s3 q = msg_target s q" if "Some q \<in> set bs" for q
  proof (rule msg_target_cong[OF routes])
    have "count_list bs (Some q) \<noteq> 0" using that by (simp add: count_list_0_iff)
    then have "q \<noteq> p \<or> ref_cnt (get_buf s2 p) \<noteq> 1" using p(2) c(1) by auto
    then show "msg_header s3 q = msg_header s q" using release_keeps_header[OF ok2 v2] s3 c(3) by simp
  qed
  then show "deliveries s3 bs = deliveries s bs" by (rule deliveries_cong)
qed

lemma process_messages_trace:
  assumes "pool_ok s" "t < length (g_threads s)" "queue_ok (get_thread s t)" "queue_items (get_thread s t) = bs" "queue_held s bs"
  shows "\<exists>s'. process_thread_messages log_msg (Suc (length bs)) t s = Some s'
    \<and> queue_ok (get_thread s' t) \<and> queue_items (get_thread s' t) = [] \<and> pool_ok s'
    \<and> delivered s' = delivered s @ deliveries s bs
    \<and> (\<forall>q. valid_buf s q \<longrightarrow> ref_cnt (get_buf s' q) = ref_cnt (get_buf s q) - int (count_list bs (Some q)))"
  using assms
proof (induction bs arbitrary: s)
  case Nil
  then have "queue_take (get_thread s t) = None" using queue_take_spec(1) by blast
  then show ?case using Nil by simp
next
  case (Cons b bs)
  obtain p where b: "b = Some p" using Cons.prems(5) by (cases b) (auto simp: queue_held_def)
  obtain th where th: "queue_take (get_thread s t) = Some (b, th)"
    using thread_queue.deq_some[OF Cons.prems(3,4)] by blast
  have q: "queue_ok th" "queue_items th = bs" using queue_take_spec(2)[OF Cons.prems(3) th] Cons.prems(4) by auto
  define s3 where "s3 = nos_buffer_release (Some p) (dispatch_one log_msg p (upd_thread t (\<lambda>_. th) s))"
  note st = dispatch_step[OF Cons.prems(1,2) Cons.prems(5)[unfolded b] s3_def]
  have th3: "get_thread s3 t = th" "t < length (g_threads s3)" using st(2) Cons.prems(2) by auto
  obtain s' where s': "process_thread_messages log_msg (Suc (length bs)) t s3 = Some s'"
    "queue_ok (get_thread s' t)" "queue_items (get_thread s' t) = []" "pool_ok s'"
    "delivered s' = delivered s3 @ deliveries s3 bs"
    "\<forall>q. valid_buf s3 q \<longrightarrow> ref_cnt (get_buf s' q) = ref_cnt (get_buf s3 q) - int (count_list bs (Some q))"
    using Cons.IH[OF st(1) th3(2)] th3(1) q st(3) by blast
  have "process_thread_messages log_msg (Suc (length (b # bs))) t s = Some s'"
    using s'(1) th b by (simp add: s3_def[symmetric] Let_def del: process_thread_messages.simps(2))
      (simp add: s3_def Let_def)
  moreover have "delivered s' = delivered s @ deliveries s (b # bs)"
    using s'(5) st(4,5) b deliveries_append[of s p bs] by simp
  moreover have "ref_cnt (get_buf s' q) = ref_cnt (get_buf s q) - int (count_list (b # bs) (Some q))" if "valid_buf s q" for q
    using s'(6) st(6)[of q] st(7)[of q] that b by (simp del: split_paired_All)
  ultimately show ?case using s'(2-4) by blast
qed


section \<open>Properties of the purge\<close>

definition keeps_msg :: "'z sched_state_scheme \<Rightarrow> nat \<Rightarrow> bufp option \<Rightarrow> bool" where
  "keeps_msg s c b = (case b of None \<Rightarrow> True | Some p \<Rightarrow> \<not> targets_provider s c p)"

lemma keeps_msg_simps [simp]: "keeps_msg s c None" "keeps_msg s c (Some p) = (\<not> targets_provider s c p)"
  by (simp_all add: keeps_msg_def)

lemma targets_provider_cong:
  assumes "same_routes s s'" "node_def s' = node_def s" "msg_header s' p = msg_header s p"
  shows "targets_provider s' c p = targets_provider s c p"
proof -
  have f: "g_service_registry s' = g_service_registry s" "g_service_count s' = g_service_count s" "g_comps s' = g_comps s"
    using assms(1) by (auto simp: same_routes_def)
  have "get_comp s' = get_comp s" "find_service_entry s' = find_service_entry s" "get_entry s' = get_entry s"
    unfolding get_comp_def[abs_def] find_service_entry_def[abs_def] get_entry_def[abs_def] f by (rule refl)+
  then show ?thesis unfolding targets_provider_def assms(2,3) by (simp only:)
qed

lemma queue_held_tl:
  assumes "queue_held s (b # bs)"
  shows "queue_held s bs"
  unfolding queue_held_def
proof (rule conjI; (intro allI impI)?)
  show "None \<notin> set bs" using assms by (simp add: queue_held_def)
  fix q assume "Some q \<in> set bs"
  then have "valid_buf s q \<and> int (count_list (b # bs) (Some q)) \<le> ref_cnt (get_buf s q)"
    using assms unfolding queue_held_def by (metis list.set_intros(2))
  moreover have "int (count_list bs (Some q)) \<le> int (count_list (b # bs) (Some q))" by simp
  ultimately show "valid_buf s q \<and> int (count_list bs (Some q)) \<le> ref_cnt (get_buf s q)" by linarith
qed

lemma drop_scan_spec:
  assumes "drop_scan c bs s = (kept, s')" "pool_ok s" "queue_held s bs"
  shows "kept = filter (keeps_msg s c) bs \<and> g_threads s' = g_threads s \<and> pool_ok s' \<and> same_routes s s' \<and> node_def s' = node_def s
    \<and> (\<forall>q. valid_buf s' q = valid_buf s q)
    \<and> (\<forall>q. valid_buf s q \<longrightarrow> ref_cnt (get_buf s' q) =
         ref_cnt (get_buf s q) - (if targets_provider s c q then int (count_list bs (Some q)) else 0))"
  using assms
proof (induction c bs s arbitrary: kept rule: drop_scan.induct)
  case (3 c p bs s)
  have p: "valid_buf s p" "int (count_list bs (Some p)) + 1 \<le> ref_cnt (get_buf s p)" and tl: "None \<notin> set bs"
    using "3.prems"(3) by (auto simp: queue_held_def simp del: split_paired_All)
  have tail_held: "queue_held s bs"
    using "3.prems"(3) by (rule queue_held_tl)
  show ?case
  proof (cases "targets_provider s c p")
    case True
    let ?s = "nos_buffer_release (Some p) s"
    note fr = release_frame[OF "3.prems"(2) p(1)]
    have r: "same_routes s ?s" "node_def ?s = node_def s" by (simp_all add: same_routes_def)
    have hdr: "msg_header ?s q = msg_header s q" if "Some q \<in> set bs" for q
    proof -
      have "count_list bs (Some q) \<noteq> 0" using that by (simp add: count_list_0_iff)
      then have "q \<noteq> p \<or> ref_cnt (get_buf s p) \<noteq> 1" using p(2) by auto
      then show ?thesis using release_keeps_header[OF "3.prems"(2) p(1)] by simp
    qed
    have tp: "targets_provider ?s c q = targets_provider s c q" if "Some q \<in> set bs" for q
      using targets_provider_cong[OF r hdr[OF that]] .
    have held: "queue_held ?s bs"
      unfolding queue_held_def
    proof (rule conjI; (intro allI impI)?)
      show "None \<notin> set bs" by (fact tl)
      fix q assume q: "Some q \<in> set bs"
      then have "valid_buf s q \<and> int (count_list bs (Some q)) \<le> ref_cnt (get_buf s q)" using tail_held by (simp add: queue_held_def del: split_paired_All)
      then show "valid_buf ?s q \<and> int (count_list bs (Some q)) \<le> ref_cnt (get_buf ?s q)"
        using fr p(2) by (cases "q = p") auto
    qed
    have IH: "kept = filter (keeps_msg ?s c) bs \<and> g_threads s' = g_threads ?s \<and> pool_ok s' \<and> same_routes ?s s' \<and> node_def s' = node_def ?s
      \<and> (\<forall>q. valid_buf s' q = valid_buf ?s q)
      \<and> (\<forall>q. valid_buf ?s q \<longrightarrow> ref_cnt (get_buf s' q) =
           ref_cnt (get_buf ?s q) - (if targets_provider ?s c q then int (count_list bs (Some q)) else 0))"
      using "3.IH"(1)[OF True _ pool_ok_release[OF "3.prems"(2) p(1)] held] "3.prems"(1) True by simp
    have "filter (keeps_msg ?s c) bs = filter (keeps_msg s c) bs"
      using tp by (intro filter_cong) (auto simp: keeps_msg_def split: option.splits)
    moreover have "ref_cnt (get_buf s' q) = ref_cnt (get_buf s q)
        - (if targets_provider s c q then int (count_list (Some p # bs) (Some q)) else 0)" if v: "valid_buf s q" for q
    proof -
      have e: "ref_cnt (get_buf s' q) = ref_cnt (get_buf ?s q) - (if targets_provider ?s c q then int (count_list bs (Some q)) else 0)"
        using IH fr(1)[of q] v by (simp del: split_paired_All)
      have z: "Some q \<notin> set bs \<Longrightarrow> count_list bs (Some q) = 0" by (simp add: count_list_0_iff)
      show ?thesis
      proof (cases "q = p")
        case qp: True
        show ?thesis using e fr(2) True tp[of p] z qp by (cases "Some p \<in> set bs") auto
      next
        case False
        then show ?thesis using e fr(3)[OF False] tp[of q] z by (cases "Some q \<in> set bs") auto
      qed
    qed
    ultimately show ?thesis using IH True fr(1) r by (auto simp: same_routes_def simp del: split_paired_All)
  next
    case False
    then obtain k where k: "drop_scan c bs s = (k, s')" "kept = Some p # k" using "3.prems"(1) by (auto split: prod.splits)
    have IH: "k = filter (keeps_msg s c) bs \<and> g_threads s' = g_threads s \<and> pool_ok s' \<and> same_routes s s' \<and> node_def s' = node_def s
      \<and> (\<forall>q. valid_buf s' q = valid_buf s q)
      \<and> (\<forall>q. valid_buf s q \<longrightarrow> ref_cnt (get_buf s' q) =
           ref_cnt (get_buf s q) - (if targets_provider s c q then int (count_list bs (Some q)) else 0))"
      using "3.IH"(2)[OF False k(1) "3.prems"(2) tail_held] .
    then show ?thesis using k(2) False by (auto simp del: split_paired_All)
  qed
qed (auto simp: queue_held_def same_routes_def)

lemma queue_items_packed:
  assumes "length kept < MAX_QUEUE_SIZE"
  shows "ring_items (kept @ replicate (MAX_QUEUE_SIZE - length kept) None) 0 (length kept mod MAX_QUEUE_SIZE) = kept"
  using assms by (intro nth_equalityI) (auto simp: ring_items_def ring_len_def nth_append)

text \<open>Purging the messages of a provider keeps, in order, exactly the queued messages whose
  service the provider does not offer, gives back one reference for each message it drops, and leaves
  the queue and the buffer pool sound.\<close>

theorem drop_messages_correct:
  assumes "pool_ok s" "t < length (g_threads s)" "queue_ok (get_thread s t)" "queue_held s (queue_items (get_thread s t))"
  shows "let s' = nos_scheduler_drop_messages_for_provider True (Some t) (Some c) s; bs = queue_items (get_thread s t) in
    queue_items (get_thread s' t) = filter (keeps_msg s c) bs \<and> queue_ok (get_thread s' t) \<and> pool_ok s'
    \<and> (\<forall>q. valid_buf s q \<longrightarrow> ref_cnt (get_buf s' q) =
         ref_cnt (get_buf s q) - (if targets_provider s c q then int (count_list bs (Some q)) else 0))"
proof -
  let ?bs = "queue_items (get_thread s t)"
  obtain kept s1 where d: "drop_scan c ?bs s = (kept, s1)" by fastforce
  note sp = drop_scan_spec[OF d assms(1,4)]
  have "length kept \<le> length ?bs" using sp length_filter_le[of "keeps_msg s c" ?bs] by (simp del: length_filter_le)
  then have l: "length kept < MAX_QUEUE_SIZE"
    using thread_queue.bound[OF assms(3)] by (simp add: MAX_QUEUE_SIZE_def)
  have t1: "t < length (g_threads s1)" using sp assms(2) by simp
  let ?s' = "nos_scheduler_drop_messages_for_provider True (Some t) (Some c) s"
  have "get_thread ?s' t = (get_thread s1 t)\<lparr>msg_queue := kept @ replicate (MAX_QUEUE_SIZE - length kept) None,
      head := 0, tail := length kept mod MAX_QUEUE_SIZE\<rparr>"
    using d t1 by (simp add: nos_scheduler_drop_messages_for_provider_def)
  then have "queue_items (get_thread ?s' t) = kept" "queue_ok (get_thread ?s' t)"
    using l queue_items_packed[OF l] by (simp_all add: queue_items_def queue_ok_def ring_ok_def)
  moreover have "pool_ok ?s'" "get_buf ?s' = get_buf s1"
    using d sp by (simp_all add: nos_scheduler_drop_messages_for_provider_def)
  ultimately show ?thesis using sp by (simp add: Let_def del: split_paired_All)
qed

section \<open>Concrete instances\<close>

text \<open>A node with one thread, one active component that provides service 0, and one queued buffer of
  the demonstration pool, which is held twice.\<close>

definition demo_thread :: nos_thread_t where
  "demo_thread = null_thread\<lparr>msg_queue := (replicate MAX_QUEUE_SIZE None)[0 := Some (0, 1)], tail := 1, is_sleeping := True\<rparr>"

definition demo_node :: trace_state where
  "demo_node = \<lparr>g_bins = g_bins demo_held, g_reply_ctxs = (\<lambda>_. None),
     g_comps = [5 \<mapsto> null_component\<lparr>comp_id := 5, comp_status := NOS_COMP_ST_ACTIVE, comp_on_msg := Some 9\<rparr>],
     g_timers = (\<lambda>_. None), g_threads = [demo_thread],
     g_service_registry = (replicate 64 null_entry)[0 := null_entry\<lparr>local_provider := Some 5, local_thread := Some 0\<rparr>],
     g_service_count = 1, g_clock = (\<lambda>_. 0), g_clock_pos = 0, node_def = None,
     loaded_info = replicate MAX_COMPONENTS_PER_NODE null_info, loaded_count = 0, keep_running = True,
     mgmt_thread = None, worker_threads = [0], delivered = []\<rparr>"

lemma demo_node_simps [simp]:
  "g_bins demo_node = g_bins demo_held" "g_threads demo_node = [demo_thread]" "delivered demo_node = []"
  by (simp_all add: demo_node_def)

lemma demo_thread_queue: "queue_ok demo_thread" "queue_items demo_thread = [Some (0, 1)]"
  by (simp_all add: demo_thread_def queue_ok_def ring_ok_def queue_items_def ring_items_def ring_len_def
      null_thread_def MAX_QUEUE_SIZE_def)

lemma demo_node_ok: "pool_ok demo_node" "valid_buf demo_node (0, 1)" "ref_cnt (get_buf demo_node (0, 1)) = 2"
  "queue_held demo_node [Some (0, 1)]"
proof -
  show "pool_ok demo_node" using demo_held_ok(1) by (simp add: pool_ok_def)
  have "valid_buf demo_node (0, 1) = valid_buf demo_held (0, 1)" "get_buf demo_node (0, 1) = get_buf demo_held (0, 1)"
    by (simp_all add: valid_buf_def get_buf_def)
  then show v: "valid_buf demo_node (0, 1)" "ref_cnt (get_buf demo_node (0, 1)) = 2" using demo_held_ok by simp_all
  then show "queue_held demo_node [Some (0, 1)]" by (auto simp: queue_held_def)
qed

lemma demo_deliveries: "deliveries demo_node [Some (0, 1)] = [(9, 5, (0, 1))]"
  by code_simp

theorem thread_queue_history_witness:
  "\<exists>acc out th. bounded_fifo.run queue_put queue_take [Enq (Some (1, 0)), Deq, Deq, Deq] demo_thread = (acc, out, th)
    \<and> [Some (0, 1)] @ acc = out @ queue_items th"
proof -
  obtain acc out th where r: "bounded_fifo.run queue_put queue_take [Enq (Some (1, 0)), Deq, Deq, Deq] demo_thread = (acc, out, th)"
    by (metis prod_cases3)
  then show ?thesis using thread_queue_history[OF demo_thread_queue(1) r] demo_thread_queue(2) by auto
qed

theorem local_send_correct_witness:
  "case nos_transport_local_send (0, 1) (Some 0) demo_node of (r, s') \<Rightarrow>
     r = NOS_OK \<and> queue_items (get_thread s' 0) = [Some (0, 1), Some (0, 1)] \<and> ref_cnt (get_buf s' (0, 1)) = 3
     \<and> notify_val (get_thread s' 0) = 1"
  using local_send_correct[of 0 demo_node "(0, 1)"] demo_thread_queue demo_node_ok
  by (auto simp: demo_thread_def null_thread_def split: prod.splits)


theorem drop_messages_correct_witness:
  "queue_items (get_thread (nos_scheduler_drop_messages_for_provider True (Some 0) (Some 5) demo_node) 0) = []"
proof -
  have "targets_provider demo_node 5 (0, 1)" by code_simp
  moreover have "0 < length (g_threads demo_node)" "queue_ok (get_thread demo_node 0)" "queue_held demo_node (queue_items (get_thread demo_node 0))"
    using demo_thread_queue demo_node_ok(4) by simp_all
  ultimately show ?thesis
    using drop_messages_correct[OF demo_node_ok(1), of 0 5] demo_thread_queue(2) by (simp add: Let_def)
qed

end
