(* ===== verification/Nos_Loop.thy ===== *)
theory Nos_Loop
  imports Nos_Dispatch
begin

text \<open>
  The scheduler loop \<^verbatim>\<open>nos_scheduler_run_loop\<close> of \<^verbatim>\<open>nos_scheduler.c\<close>: the spin count
  read from the environment, one iteration of the loop, and the protocol by which a thread goes
  to sleep while others send to it.  The last is a step relation that interleaves one sleeping
  thread with any number of senders at the granularity of the shared accesses, under sequential
  consistency (the loop has a \<^verbatim>\<open>seq_cst\<close> fence; the sender's mutex unlock is the other one).
\<close>

section \<open>Memory use\<close>

text \<open>\<^verbatim>\<open>sizeof\<close> on x86-64 with glibc: \<^verbatim>\<open>nos_thread_t\<close> 248, pointers 8,
  \<^verbatim>\<open>nos_fd_entry_t\<close> 24.\<close>

definition get_thread_mem_usage :: "nos_thread_t option \<Rightarrow> u64" where
  "get_thread_mem_usage t =
    (case t of
       None \<Rightarrow> 0
     | Some th \<Rightarrow> 248 + of_nat MAX_COMP_PER_THREAD * 8 + 32 * 24 + of_nat MAX_QUEUE_SIZE * 8
         + of_nat (hcapacity (timer_heap th)) * 8)"

definition nos_scheduler_get_total_mem_usage :: "'z sched_state_scheme \<Rightarrow> u64" where
  "nos_scheduler_get_total_mem_usage s =
    fold (\<lambda>t acc. acc + get_thread_mem_usage (Some (get_thread s t))) (worker_threads s)
      (get_thread_mem_usage (map_option (get_thread s) (mgmt_thread s)))"

section \<open>The spin count\<close>

definition is_space :: "char \<Rightarrow> bool" where
  "is_space c \<longleftrightarrow> c = CHR '' '' \<or> (9 \<le> (of_char c :: nat) \<and> (of_char c :: nat) \<le> 13)"

definition is_digit :: "char \<Rightarrow> bool" where
  "is_digit c \<longleftrightarrow> 48 \<le> (of_char c :: nat) \<and> (of_char c :: nat) \<le> 57"

fun digits_val :: "nat \<Rightarrow> string \<Rightarrow> nat" where
  "digits_val acc [] = acc"
| "digits_val acc (c # cs) = digits_val (acc * 10 + (of_char c - 48)) cs"

text \<open>\<^verbatim>\<open>strtoul(str, &end, 10)\<close>: the value and the rest of the string, or nothing when there is no
  digit (then \<^verbatim>\<open>end == str\<close>) or the value does not fit 64 bits (\<^verbatim>\<open>errno = ERANGE\<close>).  A minus sign
  negates modulo \<open>2 ^ 64\<close>.\<close>

definition strtoul10 :: "string \<Rightarrow> (u64 \<times> string) option" where
  "strtoul10 str =
    (let body = dropWhile is_space str;
         neg = (body \<noteq> [] \<and> hd body = CHR ''-'');
         rest = (if body \<noteq> [] \<and> (hd body = CHR ''-'' \<or> hd body = CHR ''+'') then tl body else body);
         ds = takeWhile is_digit rest;
         v = digits_val 0 ds
     in if ds = [] \<or> v \<ge> 2 ^ 64 then None
        else Some (if neg then - of_nat v else of_nat v, dropWhile is_digit rest))"

definition scheduler_get_busy_poll_cycles :: "string option \<Rightarrow> 'z sched_state_scheme \<Rightarrow> u32" where
  "scheduler_get_busy_poll_cycles env s =
    (let poll_cycles = (case node_def s of None \<Rightarrow> 500 | Some nd \<Rightarrow> node_busy_poll_cycles nd) in
     case env of
       None \<Rightarrow> poll_cycles
     | Some v \<Rightarrow>
         if v = [] then poll_cycles
         else (case strtoul10 v of
             None \<Rightarrow> poll_cycles
           | Some (value, rest) \<Rightarrow> if rest \<noteq> [] \<or> value > 0xFFFFFFFF then poll_cycles else ucast value))"

lemma digit_not_special: "is_digit c \<Longrightarrow> \<not> is_space c \<and> c \<noteq> CHR ''-'' \<and> c \<noteq> CHR ''+''"
  by (auto simp: is_digit_def is_space_def)

text \<open>A decimal number below \<open>2 ^ 32\<close> in \<^verbatim>\<open>NOS_BUSY_POLL_CYCLES\<close> replaces the spin count of the
  manifest by exactly that number; a string that is empty, is not a number or does not fit leaves
  the count of the manifest.\<close>

theorem busy_poll_override:
  assumes "ds \<noteq> []" "list_all is_digit ds"
  shows "scheduler_get_busy_poll_cycles (Some ds) s =
      (if digits_val 0 ds < 2 ^ 32 then of_nat (digits_val 0 ds) else scheduler_get_busy_poll_cycles None s)
    \<and> scheduler_get_busy_poll_cycles (Some (ds @ [CHR ''x''])) s = scheduler_get_busy_poll_cycles None s
    \<and> scheduler_get_busy_poll_cycles (Some []) s = scheduler_get_busy_poll_cycles None s"
proof -
  obtain c cs where ds: "ds = c # cs" using assms(1) by (cases ds) auto
  have c: "\<not> is_space c" "c \<noteq> CHR ''-''" "c \<noteq> CHR ''+''" using digit_not_special[of c] assms(2) ds by auto
  have all: "\<And>x. x \<in> set ds \<Longrightarrow> is_digit x" using assms(2) by (simp add: list_all_iff)
  have x: "\<not> is_digit (CHR ''x'')" by (simp add: is_digit_def)
  have tw: "takeWhile is_digit ds = ds" "dropWhile is_digit ds = []" "takeWhile is_digit (ds @ [CHR ''x'']) = ds"
    "dropWhile is_digit (ds @ [CHR ''x'']) = [CHR ''x'']"
    using all x by (auto simp: takeWhile_append dropWhile_append takeWhile_eq_all_conv dropWhile_eq_Nil_conv)
  have s1: "strtoul10 ds = (if digits_val 0 ds \<ge> 2 ^ 64 then None else Some (of_nat (digits_val 0 ds), []))"
    using tw c ds by (simp add: strtoul10_def Let_def)
  have s2: "strtoul10 (ds @ [CHR ''x'']) = (if digits_val 0 ds \<ge> 2 ^ 64 then None else Some (of_nat (digits_val 0 ds), [CHR ''x'']))"
    using tw c ds by (simp add: strtoul10_def Let_def)
  let ?v = "digits_val 0 ds"
  have big: "(of_nat ?v :: u64) > 0xFFFFFFFF \<longleftrightarrow> \<not> ?v < 2 ^ 32" if "?v < 2 ^ 64"
    using that by (simp add: word_less_nat_alt unat_of_nat take_bit_nat_eq_self) linarith
  have cast: "(ucast (of_nat ?v :: u64) :: u32) = of_nat ?v" if "?v < 2 ^ 64"
    using that by (simp add: unsigned_of_nat take_bit_nat_eq_self)
  show ?thesis using s1 s2 big cast assms(1) by (auto simp: scheduler_get_busy_poll_cycles_def Let_def)
qed

theorem busy_poll_override_witness:
  "scheduler_get_busy_poll_cycles (Some ''1200'') boot_state = 1200"
  using busy_poll_override[of "''1200''" boot_state] by (simp add: is_digit_def)

section \<open>One iteration of the loop\<close>

text \<open>The callbacks a thread runs, as functions on the state; \<open>fuel\<close> bounds the two inner loops.\<close>

record 's loop_env =
  run_start :: "nat \<Rightarrow> nat \<Rightarrow> 's \<Rightarrow> nos_status_t \<times> 's"
  run_timer :: "nat \<Rightarrow> nat option \<Rightarrow> 's \<Rightarrow> 's"
  run_msg :: "nat \<Rightarrow> nat \<Rightarrow> bufp \<Rightarrow> 's \<Rightarrow> 's"
  run_fd :: "nat \<Rightarrow> int \<Rightarrow> nat option \<Rightarrow> 's \<Rightarrow> 's"
  fuel :: nat

definition entry_of :: "nos_thread_t \<Rightarrow> epoll_ptr \<Rightarrow> nos_fd_entry_t" where
  "entry_of th e = (case e of Notify_Entry \<Rightarrow> notify_entry th | Fd_Entry i \<Rightarrow> fd_entries th ! i)"

text \<open>The event of one entry.  On the fast path the eventfd is only drained; after a sleep a
  successful read also processes the messages.\<close>

definition handle_event :: "'z sched_state_scheme loop_env \<Rightarrow> bool \<Rightarrow> nat \<Rightarrow> epoll_ptr \<Rightarrow>
    'z sched_state_scheme \<Rightarrow> 'z sched_state_scheme option" where
  "handle_event env slept t e s =
    (let th = get_thread s t; entry = entry_of th e in
     if fd entry = notify_fd th then
       (let s1 = upd_thread t (\<lambda>th. th\<lparr>notify_val := 0\<rparr>) s in
        if slept \<and> notify_val th > 0 then process_thread_messages (run_msg env) (fuel env) t s1 else Some s1)
     else (case fd_callback entry of
         None \<Rightarrow> Some s
       | Some f \<Rightarrow> Some (run_fd env f (fd entry) (fd_arg entry) s)))"

fun handle_events :: "'z sched_state_scheme loop_env \<Rightarrow> bool \<Rightarrow> nat \<Rightarrow> epoll_ptr list \<Rightarrow>
    'z sched_state_scheme \<Rightarrow> 'z sched_state_scheme option" where
  "handle_events env slept t [] s = Some s"
| "handle_events env slept t (e # es) s =
    (case handle_event env slept t e s of None \<Rightarrow> None | Some s' \<Rightarrow> handle_events env slept t es s')"

text \<open>\<open>loop_iter\<close> is the body of the \<^verbatim>\<open>while\<close> loop when nothing else runs in between: \<open>events\<close> is
  what \<^verbatim>\<open>epoll_wait\<close> returns.  The spin loop finds a message exactly when the queue is not
  empty.\<close>

definition poll_timeout :: "nat \<Rightarrow> 'z sched_state_scheme \<Rightarrow> int \<times> 'z sched_state_scheme" where
  "poll_timeout t s =
    (let h = heap_of s t in
     if hsize h > 0 then
       (case get_monotonic_ms s of (now, s1) \<Rightarrow>
          let e = node_key s (nodes h ! 0) in
          (if e \<le> now then 0 else sint (ucast (e - now) :: u32), s1))
     else (-1, s))"

definition loop_iter :: "'z sched_state_scheme loop_env \<Rightarrow> nat \<Rightarrow> epoll_ptr list \<Rightarrow>
    'z sched_state_scheme \<Rightarrow> 'z sched_state_scheme option" where
  "loop_iter env t events s =
    (let th = get_thread s t in
     if head th \<noteq> tail th then
       (case process_thread_messages (run_msg env) (fuel env) t (start_pending_components (run_start env) t s) of
          None \<Rightarrow> None
        | Some s1 \<Rightarrow>
            (case process_timers (run_timer env) (fuel env) t s1 of
               None \<Rightarrow> None
             | Some s2 \<Rightarrow> handle_events env False t events s2))
     else if stop_requested th then Some s
     else
       (let s1 = upd_thread t (\<lambda>th. th\<lparr>is_sleeping := True\<rparr>) s;
            s2 = snd (poll_timeout t s1);
            s3 = upd_thread t (\<lambda>th. th\<lparr>is_sleeping := False\<rparr>) s2
        in case process_timers (run_timer env) (fuel env) t s3 of
             None \<Rightarrow> None
           | Some s4 \<Rightarrow> handle_events env True t events (start_pending_components (run_start env) t s4)))"

fun nos_scheduler_run_loop :: "'z sched_state_scheme loop_env \<Rightarrow> nat \<Rightarrow> epoll_ptr list list \<Rightarrow>
    'z sched_state_scheme \<Rightarrow> 'z sched_state_scheme option" where
  "nos_scheduler_run_loop env t [] s = (if stop_requested (get_thread s t) then Some s else None)"
| "nos_scheduler_run_loop env t (evs # evss) s =
    (if stop_requested (get_thread s t) then Some s
     else (case loop_iter env t evs s of None \<Rightarrow> None | Some s' \<Rightarrow> nos_scheduler_run_loop env t evss s'))"

section \<open>Going to sleep without losing a wake-up\<close>

datatype sleeper_pc = Awake | Announced | Waiting

text \<open>\<open>testing\<close> senders have queued a message and not yet read \<^verbatim>\<open>is_sleeping\<close>, \<open>ringing\<close> ones have
  read it as set and not yet written the eventfd, \<open>stopping\<close> callers have set
  \<^verbatim>\<open>stop_requested\<close> and not yet written it.\<close>

record wake_state =
  w_queue :: nat
  w_sleeping :: bool
  w_evt :: nat
  w_stop :: bool
  w_pc :: sleeper_pc
  testing :: nat
  ringing :: nat
  stopping :: nat

definition wake_init :: wake_state where
  "wake_init = \<lparr>w_queue = 0, w_sleeping = False, w_evt = 0, w_stop = False, w_pc = Awake, testing = 0, ringing = 0, stopping = 0\<rparr>"

inductive wake_step :: "wake_state \<Rightarrow> wake_state \<Rightarrow> bool" where
  send_enqueue: "wake_step w (w\<lparr>w_queue := w_queue w + 1, testing := testing w + 1\<rparr>)"
| send_test_set: "testing w > 0 \<Longrightarrow> w_sleeping w \<Longrightarrow>
    wake_step w (w\<lparr>testing := testing w - 1, ringing := ringing w + 1\<rparr>)"
| send_test_clear: "testing w > 0 \<Longrightarrow> \<not> w_sleeping w \<Longrightarrow> wake_step w (w\<lparr>testing := testing w - 1\<rparr>)"
| send_ring: "ringing w > 0 \<Longrightarrow> wake_step w (w\<lparr>ringing := ringing w - 1, w_evt := w_evt w + 1\<rparr>)"
| stop_set: "wake_step w (w\<lparr>w_stop := True, stopping := stopping w + 1\<rparr>)"
| stop_ring: "stopping w > 0 \<Longrightarrow> wake_step w (w\<lparr>stopping := stopping w - 1, w_evt := w_evt w + 1\<rparr>)"
| loop_take: "w_pc w = Awake \<Longrightarrow> w_queue w > 0 \<Longrightarrow> wake_step w (w\<lparr>w_queue := w_queue w - 1\<rparr>)"
| loop_drain_evt: "w_pc w = Awake \<Longrightarrow> wake_step w (w\<lparr>w_evt := 0\<rparr>)"
| loop_announce: "w_pc w = Awake \<Longrightarrow> wake_step w (w\<lparr>w_sleeping := True, w_pc := Announced\<rparr>)"
| loop_recheck: "w_pc w = Announced \<Longrightarrow> w_queue w > 0 \<or> w_stop w \<Longrightarrow>
    wake_step w (w\<lparr>w_sleeping := False, w_pc := Awake\<rparr>)"
| loop_wait: "w_pc w = Announced \<Longrightarrow> w_queue w = 0 \<Longrightarrow> \<not> w_stop w \<Longrightarrow> wake_step w (w\<lparr>w_pc := Waiting\<rparr>)"
| loop_wake: "w_pc w = Waiting \<Longrightarrow> wake_step w (w\<lparr>w_sleeping := False, w_pc := Awake\<rparr>)"

inductive wake_reachable :: "wake_state \<Rightarrow> bool" where
  start: "wake_reachable wake_init"
| step: "wake_reachable w \<Longrightarrow> wake_step w w' \<Longrightarrow> wake_reachable w'"

definition wake_inv :: "wake_state \<Rightarrow> bool" where
  "wake_inv w \<longleftrightarrow> (w_pc w \<noteq> Awake \<longrightarrow> w_sleeping w)
     \<and> (w_pc w = Waiting \<and> w_queue w > 0 \<longrightarrow> w_evt w > 0 \<or> testing w > 0 \<or> ringing w > 0)
     \<and> (w_pc w = Waiting \<and> w_stop w \<longrightarrow> w_evt w > 0 \<or> stopping w > 0)"

lemma wake_step_inv [nos_inv]: "wake_step w w' \<Longrightarrow> wake_inv w \<Longrightarrow> wake_inv w'"
  by (induction rule: wake_step.induct) (auto simp: wake_inv_def)

lemma wake_reachable_inv: "wake_reachable w \<Longrightarrow> wake_inv w"
proof (induction rule: wake_reachable.induct)
  case start
  show ?case by (simp add: wake_inv_def wake_init_def)
next
  case (step w w')
  then show ?case by (blast intro: wake_step_inv)
qed

text \<open>C20.  No lost wake-up.  In every interleaving of a thread that goes to sleep with senders and
  stop requests, a thread that waits in \<^verbatim>\<open>epoll_wait\<close> while a message or a stop request is
  pending has been notified, or one of the callers is still about to notify it.\<close>

theorem no_lost_wakeup:
  assumes "wake_reachable w" "w_pc w = Waiting" "w_queue w > 0 \<or> w_stop w"
  shows "w_evt w > 0 \<or> testing w > 0 \<and> w_sleeping w \<or> ringing w > 0 \<or> stopping w > 0"
  using wake_reachable_inv[OF assms(1)] assms(2,3) by (auto simp: wake_inv_def)

definition demo_wake :: wake_state where
  "demo_wake = wake_init\<lparr>w_sleeping := True, w_pc := Waiting, w_queue := 1, ringing := 1\<rparr>"

lemma demo_wake_reachable: "wake_reachable demo_wake"
proof -
  let ?a = "wake_init\<lparr>w_sleeping := True, w_pc := Announced\<rparr>"
  let ?b = "?a\<lparr>w_pc := Waiting\<rparr>"
  let ?c = "?b\<lparr>w_queue := w_queue ?b + 1, testing := testing ?b + 1\<rparr>"
  let ?d = "?c\<lparr>testing := testing ?c - 1, ringing := ringing ?c + 1\<rparr>"
  have "wake_step wake_init ?a" by (rule loop_announce) (simp add: wake_init_def)
  moreover have "wake_step ?a ?b" by (rule loop_wait) (simp_all add: wake_init_def)
  moreover have "wake_step ?b ?c" by (rule send_enqueue)
  moreover have "wake_step ?c ?d" by (rule send_test_set) simp_all
  ultimately have "wake_reachable ?d" by (meson wake_reachable.intros)
  then show ?thesis by (simp add: demo_wake_def wake_init_def)
qed

theorem no_lost_wakeup_witness:
  "w_pc demo_wake = Waiting \<and> w_queue demo_wake > 0 \<and> (w_evt demo_wake > 0 \<or> testing demo_wake > 0 \<and> w_sleeping demo_wake
     \<or> ringing demo_wake > 0 \<or> stopping demo_wake > 0)"
  using no_lost_wakeup[OF demo_wake_reachable] by (simp add: demo_wake_def)

end
