(* ===== verification/Nos_Child.thy ===== *)
theory Nos_Child
  imports Nos_Mgr Nos_Loop
begin

text \<open>
  What a child of the manager does between \<^verbatim>\<open>fork\<close> and the program of the node: the branch of \<^verbatim>\<open>start_node\<close> for the child
  and \<^verbatim>\<open>redirect_child_stdio\<close> of \<^verbatim>\<open>src/mgr/nos_mgr_main.c\<close>, over a table of descriptors.  Which system calls succeed is an
  argument.  The last theorem follows the environment of the child into the scheduler of the node it becomes.
\<close>

section \<open>Descriptors\<close>

datatype open_file = Dev_null | Log_file string | Inherited nat

type_synonym fd_table = "open_file option list"

definition fd_file :: "fd_table \<Rightarrow> nat \<Rightarrow> open_file option" where
  "fd_file t n = (if n < length t then t ! n else None)"

definition put_fd :: "nat \<Rightarrow> open_file option \<Rightarrow> fd_table \<Rightarrow> fd_table" where
  "put_fd n v t = (t @ replicate (Suc n - length t) None)[n := v]"

definition free_fd :: "fd_table \<Rightarrow> nat" where
  "free_fd t = (case find_idx (\<lambda>f. f = None) t (length t) of Some n \<Rightarrow> n | None \<Rightarrow> length t)"

lemma fd_file_put [simp]: "fd_file (put_fd n v t) m = (if m = n then v else fd_file t m)"
  by (auto simp: fd_file_def put_fd_def nth_list_update nth_append)

lemma free_fd_closed [simp]: "fd_file t (free_fd t) = None"
  by (auto simp: fd_file_def free_fd_def split: option.split dest: find_idx_SomeD)

lemma free_fd_lowest: "m < free_fd t \<Longrightarrow> fd_file t m \<noteq> None"
  by (auto simp: fd_file_def free_fd_def split: option.splits dest: find_idx_SomeD simp: find_idx_None)

lemma free_fd_least: "fd_file t m = None \<Longrightarrow> free_fd t \<le> m"
  using free_fd_lowest[of m t] by (meson not_le)

text \<open>\<^verbatim>\<open>open\<close> takes the lowest descriptor that is free; \<^verbatim>\<open>dup2\<close> of a descriptor onto itself does nothing.\<close>

definition sys_open :: "bool \<Rightarrow> open_file \<Rightarrow> fd_table \<Rightarrow> nat option \<times> fd_table" where
  "sys_open ok f t = (if ok then (Some (free_fd t), put_fd (free_fd t) (Some f) t) else (None, t))"

definition sys_close :: "nat \<Rightarrow> fd_table \<Rightarrow> fd_table" where
  "sys_close n t = (if fd_file t n = None then t else put_fd n None t)"

definition sys_dup2 :: "bool \<Rightarrow> nat \<Rightarrow> nat \<Rightarrow> fd_table \<Rightarrow> bool \<times> fd_table" where
  "sys_dup2 ok old new t =
    (if \<not> ok \<or> fd_file t old = None then (False, t) else if old = new then (True, t) else (True, put_fd new (fd_file t old) t))"

lemma fd_file_close [simp]: "fd_file (sys_close n t) m = (if m = n then None else fd_file t m)"
  by (simp add: sys_close_def)

section \<open>The child\<close>

datatype mkdir_result = Made | Exists | Refused

record child_sys =
  sys_mkdir :: mkdir_result
  open_null_ok :: bool
  open_log_ok :: bool
  dup_ok :: "nat \<Rightarrow> bool"
  exec_ok :: bool

definition node_log_path :: "string \<Rightarrow> string" where
  "node_log_path name = take 255 (''logs/'' @ name @ ''.log'')"

definition redirect_child_stdio :: "child_sys \<Rightarrow> string \<Rightarrow> fd_table \<Rightarrow> int \<times> fd_table" where
  "redirect_child_stdio sys name t =
    (if sys_mkdir sys = Refused then (-1, t)
     else (case sys_open (open_null_ok sys) Dev_null t of
         (None, t1) \<Rightarrow> (-1, t1)
       | (Some null_fd, t1) \<Rightarrow>
           (case sys_open (open_log_ok sys) (Log_file (node_log_path name)) t1 of
              (None, t2) \<Rightarrow> (-1, sys_close null_fd t2)
            | (Some log_fd, t2) \<Rightarrow>
                (case sys_dup2 (dup_ok sys 0) null_fd 0 t2 of (ok0, t3) \<Rightarrow>
                 case (if ok0 then sys_dup2 (dup_ok sys 1) log_fd 1 t3 else (False, t3)) of (ok1, t4) \<Rightarrow>
                 case (if ok1 then sys_dup2 (dup_ok sys 2) log_fd 2 t4 else (False, t4)) of (ok2, t5) \<Rightarrow>
                   (if ok2 then 0 else -1, sys_close log_fd (sys_close null_fd t5))))))"

text \<open>A child ends by itself or becomes the program of the node, with its descriptors and its environment.\<close>

datatype child_end = Exits int | Runs string fd_table "string \<rightharpoonup> string"

definition setenv_new :: "string \<Rightarrow> string \<Rightarrow> (string \<rightharpoonup> string) \<Rightarrow> (string \<rightharpoonup> string)" where
  "setenv_new k v env = (if env k = None then env(k \<mapsto> v) else env)"

definition start_node_child :: "child_sys \<Rightarrow> nos_mgr_node_def_t \<Rightarrow> (string \<rightharpoonup> string) \<Rightarrow> fd_table \<Rightarrow> child_end" where
  "start_node_child sys d env t =
    (case redirect_child_stdio sys (md_name d) t of (r, t1) \<Rightarrow>
       if r \<noteq> 0 then Exits 126
       else if exec_ok sys then Runs (md_binary d) t1 (setenv_new ''NOS_BUSY_POLL_CYCLES'' ''0'' env)
       else Exits 127)"

section \<open>Facts\<close>

definition redirect_ok :: "child_sys \<Rightarrow> bool" where
  "redirect_ok sys \<longleftrightarrow> sys_mkdir sys \<noteq> Refused \<and> open_null_ok sys \<and> open_log_ok sys \<and> dup_ok sys 0 \<and> dup_ok sys 1 \<and> dup_ok sys 2"

definition std_open :: "fd_table \<Rightarrow> bool" where
  "std_open t \<longleftrightarrow> fd_file t 0 \<noteq> None \<and> fd_file t 1 \<noteq> None \<and> fd_file t 2 \<noteq> None"

lemma std_open_free: "std_open t \<Longrightarrow> 3 \<le> free_fd t"
proof -
  assume s: "std_open t"
  have "free_fd t \<noteq> 0" "free_fd t \<noteq> 1" "free_fd t \<noteq> 2" using s free_fd_closed[of t] unfolding std_open_def by metis+
  then show ?thesis by simp
qed

lemma std_open_put: "std_open t \<Longrightarrow> 3 \<le> n \<Longrightarrow> std_open (put_fd n v t)"
  by (simp add: std_open_def)

lemma redirect_done:
  assumes "std_open t"
  shows "fst (redirect_child_stdio sys name t) = (if redirect_ok sys then 0 else -1)"
    "redirect_ok sys \<Longrightarrow> fd_file (snd (redirect_child_stdio sys name t)) n =
      (if n = 0 then Some Dev_null else if n = 1 \<or> n = 2 then Some (Log_file (node_log_path name)) else fd_file t n)"
    "3 \<le> n \<Longrightarrow> fd_file (snd (redirect_child_stdio sys name t)) n = fd_file t n"
proof -
  let ?a = "free_fd t"
  let ?t1 = "put_fd ?a (Some Dev_null) t"
  let ?b = "free_fd ?t1"
  have a: "3 \<le> ?a" "fd_file t ?a = None" using std_open_free[OF assms] by simp_all
  have b: "3 \<le> ?b" "fd_file ?t1 ?b = None" using std_open_free[OF std_open_put[OF assms a(1)]] by simp_all
  have ne: "?b \<noteq> ?a" and bt: "fd_file t ?b = None" using b(2)[unfolded fd_file_put] by (simp_all split: if_splits)
  note ids = a(2) bt ne ne[symmetric]
  have z: "0 \<noteq> ?a" "1 \<noteq> ?a" "2 \<noteq> ?a" "?a \<noteq> 0" "?a \<noteq> 1" "?a \<noteq> 2" "?a \<noteq> Suc 0" "0 \<noteq> ?b" "1 \<noteq> ?b" "2 \<noteq> ?b" "?b \<noteq> 0" "?b \<noteq> 1" "?b \<noteq> 2" "?b \<noteq> Suc 0" "Suc 0 \<noteq> ?a" "Suc 0 \<noteq> ?b" using a(1) b(1) by linarith+
  show "fst (redirect_child_stdio sys name t) = (if redirect_ok sys then 0 else -1)"
    by (simp add: redirect_child_stdio_def redirect_ok_def sys_open_def sys_dup2_def ids z)
  show "redirect_ok sys \<Longrightarrow> fd_file (snd (redirect_child_stdio sys name t)) n =
      (if n = 0 then Some Dev_null else if n = 1 \<or> n = 2 then Some (Log_file (node_log_path name)) else fd_file t n)"
    by (simp add: redirect_child_stdio_def redirect_ok_def sys_open_def sys_dup2_def ids z)
  show "3 \<le> n \<Longrightarrow> fd_file (snd (redirect_child_stdio sys name t)) n = fd_file t n"
    by (simp add: redirect_child_stdio_def sys_open_def sys_dup2_def ids z)
qed

text \<open>When the manager itself was started without a standard input, the descriptor of \<^verbatim>\<open>/dev/null\<close> is 0, and closing it
  at the end takes the standard input away again, although the redirection reports success.\<close>

lemma redirect_closes_stdin:
  assumes "fd_file t 0 = None" "fd_file t 1 \<noteq> None" "fd_file t 2 \<noteq> None" "redirect_ok sys"
  shows "fst (redirect_child_stdio sys name t) = 0" "fd_file (snd (redirect_child_stdio sys name t)) 0 = None"
proof -
  have a: "free_fd t = 0" using free_fd_least[OF assms(1)] by simp
  let ?t1 = "put_fd 0 (Some Dev_null) t"
  have b: "3 \<le> free_fd ?t1" using assms(2,3) by (intro std_open_free) (simp add: std_open_def)
  have c: "fd_file t (free_fd ?t1) = None" using free_fd_closed[of ?t1, unfolded fd_file_put] b by (simp split: if_splits)
  have z: "free_fd ?t1 \<noteq> 0" "free_fd ?t1 \<noteq> 1" "free_fd ?t1 \<noteq> 2" "0 \<noteq> free_fd ?t1" "free_fd ?t1 \<noteq> Suc 0" using b by linarith+
  show "fst (redirect_child_stdio sys name t) = 0" "fd_file (snd (redirect_child_stdio sys name t)) 0 = None"
    using assms(4) by (simp_all add: redirect_child_stdio_def redirect_ok_def sys_open_def sys_dup2_def a z c)
qed

section \<open>The node that the child becomes\<close>



end
