(* ===== verification/Nos_Line.thy ===== *)
theory Nos_Line
  imports Nos_Types
begin

text \<open>
  The line editor of the command line, the first and the last part of \<^verbatim>\<open>src/core/nos_cli.c\<close>: the history,
  completion with the tabulator and \<^verbatim>\<open>advanced_get_line\<close>.  The line buffer is a list of characters with the NUL
  bytes the code writes; reading a string without a terminating NUL, or writing behind the end of the buffer, is
  \<open>None\<close>.  The keyboard is the list of characters still to be read; when it is empty, \<^verbatim>\<open>read\<close> fails.
\<close>

section \<open>Character arrays\<close>

abbreviation NUL :: char where "NUL \<equiv> CHR 0x00"

definition c_string :: "string \<Rightarrow> nat \<Rightarrow> string option" where
  "c_string mem off = (if NUL \<in> set (drop off mem) then Some (takeWhile (\<lambda>c. c \<noteq> NUL) (drop off mem)) else None)"

definition write_mem :: "nat \<Rightarrow> string \<Rightarrow> string \<Rightarrow> string option" where
  "write_mem off bs mem = (if off + length bs \<le> length mem then Some (take off mem @ bs @ drop (off + length bs) mem) else None)"

text \<open>\<^verbatim>\<open>strncmp(lit, w, strlen(lit)) == 0\<close>, and \<^verbatim>\<open>strncmp(a, b, n) == 0\<close>, on strings without NUL.\<close>

definition c_starts :: "string \<Rightarrow> string \<Rightarrow> bool" where
  "c_starts lit w \<longleftrightarrow> take (length lit) w = lit"

definition c_strneq :: "nat \<Rightarrow> string \<Rightarrow> string \<Rightarrow> bool" where
  "c_strneq n a b \<longleftrightarrow> take n a = take n b"

section \<open>History\<close>

definition MAX_HISTORY :: nat where "MAX_HISTORY = 3"

record hist_t =
  g_history :: "string list"
  g_history_count :: nat

definition history_add :: "string option \<Rightarrow> 'z hist_t_scheme \<Rightarrow> 'z hist_t_scheme" where
  "history_add cmd s =
    (case cmd of
       None \<Rightarrow> s
     | Some c \<Rightarrow>
         if c = [] then s
         else if g_history_count s > 0 \<and> g_history s ! 0 = c then s
         else let h = fold (\<lambda>i h. h[i := h ! (i - 1)]) (rev [1..<MAX_HISTORY]) (g_history s)
              in s\<lparr>g_history := h[0 := c_strncpy 255 c], g_history_count := (if g_history_count s < MAX_HISTORY then g_history_count s + 1 else g_history_count s)\<rparr>)"

section \<open>The commands\<close>

text \<open>A constructor for the address of each handler.\<close>

datatype cli_handler = H_help | H_show_components | H_show_services | H_show_db | H_show_memory | H_show_ipc | H_show_stats
  | H_log | H_perf_start | H_perf_remote_start | H_load | H_unload | H_reload | H_quit

record nos_cli_cmd_t =
  cmd_name :: string
  cmd_help :: string
  cmd_handler :: cli_handler

definition g_cli_cmds :: "nos_cli_cmd_t list" where
  "g_cli_cmds =
    [\<lparr>cmd_name = ''help'', cmd_help = ''Show this help message'', cmd_handler = H_help\<rparr>,
     \<lparr>cmd_name = ''show components'', cmd_help = ''List all loaded components'', cmd_handler = H_show_components\<rparr>,
     \<lparr>cmd_name = ''show services'', cmd_help = ''List all service routes'', cmd_handler = H_show_services\<rparr>,
     \<lparr>cmd_name = ''show db'', cmd_help = ''List all KV tables status'', cmd_handler = H_show_db\<rparr>,
     \<lparr>cmd_name = ''show memory'', cmd_help = ''Show process memory consumption'', cmd_handler = H_show_memory\<rparr>,
     \<lparr>cmd_name = ''show ipc'', cmd_help = ''Show IPC connection status'', cmd_handler = H_show_ipc\<rparr>,
     \<lparr>cmd_name = ''show stats'', cmd_help = ''Show registered statistics'', cmd_handler = H_show_stats\<rparr>,
     \<lparr>cmd_name = ''log'', cmd_help = ''Manage logging (stats, level)'', cmd_handler = H_log\<rparr>,
     \<lparr>cmd_name = ''perf start'', cmd_help = ''Start IPC performance test'', cmd_handler = H_perf_start\<rparr>,
     \<lparr>cmd_name = ''perf remote'', cmd_help = ''Start Cross-Process IPC test'', cmd_handler = H_perf_remote_start\<rparr>,
     \<lparr>cmd_name = ''load'', cmd_help = ''Load a component by name'', cmd_handler = H_load\<rparr>,
     \<lparr>cmd_name = ''unload'', cmd_help = ''Unload a component by name'', cmd_handler = H_unload\<rparr>,
     \<lparr>cmd_name = ''reload'', cmd_help = ''Reload a component (Stateless check)'', cmd_handler = H_reload\<rparr>,
     \<lparr>cmd_name = ''quit'', cmd_help = ''Shutdown the node'', cmd_handler = H_quit\<rparr>]"

section \<open>Completion\<close>

definition last_space :: "string \<Rightarrow> nat option" where
  "last_space w = (if CHR '' '' \<in> set w then Some (length w - 1 - length (takeWhile (\<lambda>c. c \<noteq> CHR '' '') (rev w))) else None)"

definition cands :: "nat \<Rightarrow> string \<Rightarrow> string list \<Rightarrow> string list" where
  "cands n w = filter (\<lambda>s. c_strneq n s w)"

text \<open>\<open>w\<close> is the line, \<open>i\<close> the place of its last blank; \<open>loaded\<close> are the names of the loaded components.\<close>

definition arg_candidates :: "string list \<Rightarrow> string \<Rightarrow> nat \<Rightarrow> string list" where
  "arg_candidates loaded w i =
    (if c_starts ''log '' w then
       if c_starts ''log level '' w then [''DEBUG'', ''INFO'', ''WARN'', ''ERROR'']
       else if i = 3 then [''stats'', ''level'', ''spam'']
       else []
     else if c_starts ''perf '' w then [''start'', ''remote'']
     else if c_starts ''show stats '' w then [''ipc'', ''log'', ''buffer'', ''scheduler'']
     else if c_starts ''show '' w then [''components'', ''services'', ''db'', ''memory'', ''ipc'', ''stats'']
     else if c_starts ''load '' w \<or> c_starts ''unload '' w \<or> c_starts ''reload '' w then loaded
     else [])"

definition tab_suggestions :: "string list \<Rightarrow> string \<Rightarrow> nat \<Rightarrow> string list \<times> nat" where
  "tab_suggestions loaded w pos =
    (let top = cands pos w (map cmd_name g_cli_cmds) in
     case last_space w of
       None \<Rightarrow> (top, pos)
     | Some i \<Rightarrow> if top \<noteq> [] then (top, pos) else (let n = pos - (i + 1) in (cands n (drop (i + 1) w) (arg_candidates loaded w i), n)))"

record line_t =
  lbuf :: string
  lpos :: nat
  h_idx :: int
  shown :: "string list list"

text \<open>\<open>shown\<close> are the lists of suggestions that were printed.  The array of suggestions has 64 elements, and
  \<^verbatim>\<open>suggestions[0] + match_len\<close> has to lie in the string.\<close>

definition handle_tab_completion :: "string list \<Rightarrow> line_t \<Rightarrow> line_t option" where
  "handle_tab_completion loaded l =
    (let mem = (lbuf l)[lpos l := NUL] in
     case c_string mem 0 of
       None \<Rightarrow> None
     | Some w \<Rightarrow>
         (case tab_suggestions loaded w (lpos l) of (sugs, n) \<Rightarrow>
            if length sugs > 64 then None
            else if length sugs = 1 then
              if n > length (hd sugs) then None
              else (case write_mem (lpos l) (drop n (hd sugs) @ [NUL]) mem of
                  None \<Rightarrow> None
                | Some m \<Rightarrow> map_option (\<lambda>w'. l\<lparr>lbuf := m, lpos := length w'\<rparr>) (c_string m 0))
            else Some (l\<lparr>lbuf := mem, shown := (if sugs = [] then shown l else shown l @ [sugs])\<rparr>)))"

section \<open>Reading a line\<close>

definition key_up :: "'z hist_t_scheme \<Rightarrow> line_t \<Rightarrow> line_t option" where
  "key_up hs l =
    (if g_history_count hs > 0 \<and> h_idx l < int (g_history_count hs) - 1 then
       let h = h_idx l + 1; e = g_history hs ! nat h in
       map_option (\<lambda>m. l\<lparr>lbuf := m, lpos := length e, h_idx := h\<rparr>) (write_mem 0 (e @ [NUL]) (lbuf l))
     else Some l)"

text \<open>The result is what \<^verbatim>\<open>advanced_get_line\<close> returns (\<open>-1\<close> when nothing can be read), the buffer and the rest of the
  input.  10 and 13 end the line, 27 starts a sequence of three characters, 127 and 8 rub out, 9 is the tabulator.\<close>

fun get_line_loop :: "nat \<Rightarrow> string list \<Rightarrow> 'z hist_t_scheme \<Rightarrow> string \<Rightarrow> line_t \<Rightarrow> (int \<times> line_t \<times> string) option" where
  "get_line_loop sz loaded hs input l =
    (if lpos l \<ge> sz - 1 then Some (int (lpos l), l, input)
     else (case input of
         [] \<Rightarrow> Some (-1, l, [])
       | c # rest \<Rightarrow>
           if c = CHR 0x0A \<or> c = CHR 0x0D then Some (int (lpos l), l\<lparr>lbuf := (lbuf l)[lpos l := NUL]\<rparr>, rest)
           else if c = CHR 0x1B then
             (case rest of
                a # b # rest' \<Rightarrow>
                  if a = CHR ''['' \<and> b = CHR ''A'' then
                    (case key_up hs l of None \<Rightarrow> None | Some l' \<Rightarrow> get_line_loop sz loaded hs rest' l')
                  else get_line_loop sz loaded hs rest' l
              | _ \<Rightarrow> Some (int (lpos l), l, []))
           else if c = CHR 0x7F \<or> c = CHR 0x08 then get_line_loop sz loaded hs rest (l\<lparr>lpos := lpos l - 1\<rparr>)
           else if c = CHR 0x09 then
             (case handle_tab_completion loaded l of None \<Rightarrow> None | Some l' \<Rightarrow> get_line_loop sz loaded hs rest l')
           else get_line_loop sz loaded hs rest (l\<lparr>lbuf := (lbuf l)[lpos l := c], lpos := lpos l + 1\<rparr>)))"

declare get_line_loop.simps [simp del]

text \<open>The buffer of the caller has 256 bytes.\<close>

definition advanced_get_line :: "string list \<Rightarrow> 'z hist_t_scheme \<Rightarrow> string \<Rightarrow> string \<Rightarrow> (int \<times> line_t \<times> string) option" where
  "advanced_get_line loaded hs input buf = get_line_loop 256 loaded hs input \<lparr>lbuf = buf, lpos = 0, h_idx = -1, shown = []\<rparr>"

lemma get_line_consumes:
  assumes "get_line_loop sz loaded hs input l = Some (n, l', rest)" "0 \<le> n"
  shows "length rest \<le> length input \<and> (lpos l < sz - 1 \<longrightarrow> length rest < length input)"
  using assms
proof (induction "length input" arbitrary: input l rule: less_induct)
  case less
  have ih: "length rest \<le> length x" if "get_line_loop sz loaded hs x k = Some (n, l', rest)" "length x < length input" for x k
    using less.hyps[OF that(2,1) less.prems(2)] by simp
  have sh: "length rest < length input" if "get_line_loop sz loaded hs x k = Some (n, l', rest)" "length x < length input" for x k
    using ih[OF that] that(2) by simp
  show ?case using less.prems
    by (subst (asm) get_line_loop.simps) (auto split: if_splits list.splits option.splits dest: sh intro: less_imp_le)
qed

section \<open>What the history holds\<close>

definition hist_ok :: "'z hist_t_scheme \<Rightarrow> bool" where
  "hist_ok s \<longleftrightarrow> length (g_history s) = MAX_HISTORY \<and> g_history_count s \<le> MAX_HISTORY"

definition hist_view :: "'z hist_t_scheme \<Rightarrow> string list" where
  "hist_view s = take (g_history_count s) (g_history s)"

definition hist_boot :: hist_t where
  "hist_boot = \<lparr>g_history = replicate MAX_HISTORY [], g_history_count = 0\<rparr>"

lemma hist_shift: "length h = 3 \<Longrightarrow> (fold (\<lambda>i h. h[i := h ! (i - 1)]) (rev [1..<MAX_HISTORY]) h)[0 := c] = c # take 2 h"
  by (cases h rule: list.exhaust; cases "tl h"; cases "tl (tl h)") (auto simp: MAX_HISTORY_def numeral_3_eq_3 numeral_2_eq_2)

lemma history_add_view:
  assumes "hist_ok s" "length c \<le> 255"
  shows "hist_ok (history_add (Some c) s) \<and> hist_view (history_add (Some c) s) = (if c = [] \<or> take 1 (hist_view s) = [c] then hist_view s else take MAX_HISTORY (c # hist_view s))"
proof -
  have l: "length (g_history s) = 3" "g_history_count s \<le> 3" using assms(1) by (auto simp: hist_ok_def MAX_HISTORY_def)
  have h: "take 1 (hist_view s) = [c] \<longleftrightarrow> g_history_count s > 0 \<and> g_history s ! 0 = c"
    using l by (cases "g_history s"; cases "g_history_count s") (auto simp: hist_view_def)
  have t: "take (if g_history_count s < 3 then g_history_count s + 1 else g_history_count s) (c # take 2 (g_history s)) = take 3 (c # take (g_history_count s) (g_history s))"
    using l by (auto simp: min_def numeral_3_eq_3 numeral_2_eq_2 take_Cons' le_Suc_eq)
  show ?thesis
  proof (cases "c = [] \<or> (g_history_count s > 0 \<and> g_history s ! 0 = c)")
    case True
    then have "history_add (Some c) s = s" by (auto simp: history_add_def)
    then show ?thesis using True assms(1) unfolding h by auto
  next
    case False
    then have "history_add (Some c) s = s\<lparr>g_history := c # take 2 (g_history s), g_history_count := (if g_history_count s < 3 then g_history_count s + 1 else g_history_count s)\<rparr>"
      using hist_shift[OF l(1)] assms(2) by (auto simp: history_add_def Let_def MAX_HISTORY_def)
    then show ?thesis using False l t unfolding h by (auto simp: hist_ok_def hist_view_def MAX_HISTORY_def)
  qed
qed

lemma take_remdups_adj_Cons:
  "0 < n \<Longrightarrow> take n (remdups_adj (c # ys)) = (if take 1 (take n (remdups_adj ys)) = [c] then take n (remdups_adj ys) else take n (c # take n (remdups_adj ys)))"
  by (cases "remdups_adj ys") (auto simp: remdups_adj_Cons take_Cons' min_def)

text \<open>The history after any sequence of commands holds the last three of them, the latest first, where empty
  commands do not count and a command that is repeated at once counts once.\<close>

theorem cli_history_refines:
  assumes "\<forall>c \<in> set cmds. length c \<le> 255"
  shows "hist_view (fold (\<lambda>c. history_add (Some c)) cmds hist_boot) = take MAX_HISTORY (remdups_adj (rev (filter (\<lambda>c. c \<noteq> []) cmds)))"
proof -
  have "hist_ok (fold (\<lambda>c. history_add (Some c)) cmds hist_boot) \<and>
      hist_view (fold (\<lambda>c. history_add (Some c)) cmds hist_boot) = take MAX_HISTORY (remdups_adj (rev (filter (\<lambda>c. c \<noteq> []) cmds)))"
    using assms
  proof (induction cmds rule: rev_induct)
    case Nil
    then show ?case by (simp add: hist_boot_def hist_ok_def hist_view_def)
  next
    case (snoc c cmds)
    have p: "0 < MAX_HISTORY" by (simp add: MAX_HISTORY_def)
    show ?case using snoc history_add_view[of "fold (\<lambda>c. history_add (Some c)) cmds hist_boot" c] take_remdups_adj_Cons[OF p, of c] by auto
  qed
  then show ?thesis by simp
qed

theorem cli_history_refines_witness:
  "hist_view (fold (\<lambda>c. history_add (Some c)) [''help'', ''show ipc'', ''show ipc'', [], ''quit'', ''log''] hist_boot) = [''log'', ''quit'', ''show ipc'']"
  using cli_history_refines[of "[''help'', ''show ipc'', ''show ipc'', [], ''quit'', ''log'']"] by (simp add: MAX_HISTORY_def)

section \<open>The editor on strings\<close>

text \<open>The keys, and what they mean for a line that is a string: the specification of the editor.\<close>

datatype key = Key char | Rub | Tab | Up | Seq char char

primrec key_chars :: "key \<Rightarrow> string" where
  "key_chars (Key c) = [c]"
| "key_chars Rub = [CHR 0x7F]"
| "key_chars Tab = [CHR 0x09]"
| "key_chars Up = [CHR 0x1B, CHR ''['', CHR ''A'']"
| "key_chars (Seq a b) = [CHR 0x1B, a, b]"

definition plain_char :: "char \<Rightarrow> bool" where
  "plain_char c \<longleftrightarrow> c \<notin> {NUL, CHR 0x08, CHR 0x09, CHR 0x0A, CHR 0x0D, CHR 0x1B, CHR 0x7F}"

primrec key_ok :: "key \<Rightarrow> bool" where
  "key_ok (Key c) = plain_char c"
| "key_ok Rub = True"
| "key_ok Tab = True"
| "key_ok Up = True"
| "key_ok (Seq a b) = (\<not> (a = CHR ''['' \<and> b = CHR ''A''))"

definition complete :: "string list \<Rightarrow> string \<Rightarrow> string" where
  "complete loaded w = (case tab_suggestions loaded w (length w) of (sugs, n) \<Rightarrow> if length sugs = 1 then w @ drop n (hd sugs) else w)"

primrec edit_key :: "string list \<Rightarrow> string list \<Rightarrow> key \<Rightarrow> string \<times> int \<Rightarrow> string \<times> int" where
  "edit_key loaded hist (Key c) st = (fst st @ [c], snd st)"
| "edit_key loaded hist Rub st = (butlast (fst st), snd st)"
| "edit_key loaded hist Tab st = (complete loaded (fst st), snd st)"
| "edit_key loaded hist Up st = (if snd st + 1 < int (length hist) then (hist ! nat (snd st + 1), snd st + 1) else st)"
| "edit_key loaded hist (Seq a b) st = st"

definition edits :: "string list \<Rightarrow> string list \<Rightarrow> key list \<Rightarrow> string \<times> int \<Rightarrow> string \<times> int" where
  "edits loaded hist = fold (edit_key loaded hist)"

text \<open>The line never gets longer than the buffer.\<close>

definition edits_fit :: "string list \<Rightarrow> string list \<Rightarrow> key list \<Rightarrow> string \<times> int \<Rightarrow> bool" where
  "edits_fit loaded hist ks st \<longleftrightarrow> list_all (\<lambda>i. length (fst (edits loaded hist (take i ks) st)) \<le> 254) [0..<Suc (length ks)]"

definition line_rel :: "line_t \<Rightarrow> string \<times> int \<Rightarrow> bool" where
  "line_rel l st \<longleftrightarrow> length (lbuf l) = 256 \<and> lpos l = length (fst st) \<and> take (length (fst st)) (lbuf l) = fst st \<and> NUL \<notin> set (fst st) \<and> h_idx l = snd st \<and> -1 \<le> snd st"

lemma edits_fit_Cons: "edits_fit loaded hist (k # ks) st \<longleftrightarrow> length (fst st) \<le> 254 \<and> edits_fit loaded hist ks (edit_key loaded hist k st)"
proof -
  have "[0..<Suc (length (k # ks))] = 0 # map Suc [0..<Suc (length ks)]" by (simp add: map_Suc_upt upt_conv_Cons del: upt_Suc)
  then show ?thesis unfolding edits_fit_def by (simp only: list.pred_inject list.pred_map comp_def take_Suc_Cons take_0 edits_def fold_simps id_apply)
qed

lemma edits_fit_Nil: "edits_fit loaded hist [] st \<longleftrightarrow> length (fst st) \<le> 254"
  by (simp add: edits_fit_def edits_def)

lemma takeWhile_nul: "NUL \<notin> set w \<Longrightarrow> takeWhile (\<lambda>c. c \<noteq> NUL) (w @ NUL # x) = w"
  by (subst takeWhile_append2) auto

lemma c_string_term:
  assumes "NUL \<notin> set w" "take (length w) m = w" "length w < length m" "m ! length w = NUL"
  shows "c_string m 0 = Some w"
proof -
  have "m = w @ NUL # drop (Suc (length w)) m" using assms(2,3,4) by (metis append_take_drop_id Cons_nth_drop_Suc)
  then show ?thesis unfolding c_string_def drop_0 by (metis in_set_conv_decomp takeWhile_nul[OF assms(1)])
qed

lemma c_string_tail: "c_string m 0 = Some w \<Longrightarrow> k \<le> length w \<Longrightarrow> c_string m k = Some (drop k w)"
proof -
  assume a: "c_string m 0 = Some w" "k \<le> length w"
  have n: "NUL \<in> set m" and w: "w = takeWhile (\<lambda>c. c \<noteq> NUL) m" using a(1) by (auto simp: c_string_def split: if_splits)
  obtain v r where v: "m = v @ NUL # r" "NUL \<notin> set v" using split_list_first[OF n] by blast
  then have m: "m = w @ NUL # r" and nw: "NUL \<notin> set (drop k w)" using w takeWhile_nul[OF v(2)] by (auto dest: in_set_dropD)
  have "drop k m = drop k w @ NUL # r" using a(2) unfolding m by simp
  then show ?thesis using takeWhile_nul[OF nw, of r] by (simp add: c_string_def)
qed

lemma c_string_update: "NUL \<notin> set w \<Longrightarrow> take (length w) m = w \<Longrightarrow> length w < length m \<Longrightarrow> c_string (m[length w := NUL]) 0 = Some w"
  by (rule c_string_term) auto

lemma c_string_write:
  assumes "write_mem (length w) (r @ [NUL]) m = Some m'" "take (length w) m = w" "NUL \<notin> set w" "NUL \<notin> set r"
  shows "c_string m' 0 = Some (w @ r) \<and> length m' = length m \<and> take (length (w @ r)) m' = w @ r"
proof -
  have m: "m' = (w @ r) @ NUL # drop (length w + length r + 1) m" and l: "length w + length r < length m"
    using assms(1,2) by (auto simp: write_mem_def split: if_splits)
  have n: "length m' = length m" using m l by simp
  have t: "take (length (w @ r)) m' = w @ r" unfolding m by simp
  have u: "m' ! length (w @ r) = NUL" unfolding m by (simp add: nth_append)
  show ?thesis using c_string_term[of "w @ r" m'] t u n l assms(3,4) by simp
qed

text \<open>The suggestions continue what was typed.\<close>

lemma cands_prefix: "s \<in> set (cands (length w) w ns) \<Longrightarrow> s \<in> set ns \<and> length w \<le> length s \<and> s = w @ drop (length w) s"
  by (auto simp: cands_def c_strneq_def) (metis append_take_drop_id length_take min.cobounded1, metis append_take_drop_id)

lemma last_space_lt: "last_space w = Some i \<Longrightarrow> i < length w"
  by (cases w rule: rev_cases) (auto simp: last_space_def split: if_splits)

lemma cmds_nul_free: "\<forall>x \<in> set (map cmd_name g_cli_cmds). NUL \<notin> set x"
  by (simp add: g_cli_cmds_def)

lemma tab_suggestions_ok:
  assumes "tab_suggestions loaded w (length w) = (sugs, n)" "length loaded \<le> 64" "\<forall>x \<in> set loaded. NUL \<notin> set x"
  shows "length sugs \<le> 64 \<and> (\<forall>s \<in> set sugs. n \<le> length s \<and> NUL \<notin> set s)"
proof -
  have top: "s \<in> set (cands (length w) w (map cmd_name g_cli_cmds)) \<Longrightarrow> length w \<le> length s \<and> NUL \<notin> set s" for s
    using cands_prefix[of s w "map cmd_name g_cli_cmds"] cmds_nul_free by blast
  have tl: "length (cands k v (map cmd_name g_cli_cmds)) \<le> 64" for k v
    unfolding cands_def by (rule le_trans[OF length_filter_le]) (simp add: g_cli_cmds_def)
  have al: "length (arg_candidates loaded w i) \<le> 64" for i using assms(2) by (simp add: arg_candidates_def)
  have an: "x \<in> set (arg_candidates loaded w i) \<Longrightarrow> NUL \<notin> set x" for x i using assms(3) by (auto simp: arg_candidates_def split: if_splits)
  show ?thesis
  proof (cases "last_space w = None \<or> cands (length w) w (map cmd_name g_cli_cmds) \<noteq> []")
    case True
    then have "sugs = cands (length w) w (map cmd_name g_cli_cmds)" "n = length w" using assms(1) by (auto simp: tab_suggestions_def Let_def split: option.splits)
    then show ?thesis using top tl by auto
  next
    case False
    then obtain i where i: "last_space w = Some i" by auto
    have n: "n = length (drop (i + 1) w)" and s: "sugs = cands n (drop (i + 1) w) (arg_candidates loaded w i)"
      using assms(1) False i by (auto simp: tab_suggestions_def Let_def)
    have "length sugs \<le> 64" using al[of i] length_filter_le[of _ "arg_candidates loaded w i"] unfolding s cands_def by (meson le_trans)
    then show ?thesis using cands_prefix[of _ "drop (i + 1) w" "arg_candidates loaded w i"] an s n by auto
  qed
qed

lemma complete_nul_free:
  assumes "NUL \<notin> set w" "length loaded \<le> 64" "\<forall>x \<in> set loaded. NUL \<notin> set x"
  shows "NUL \<notin> set (complete loaded w)"
proof -
  obtain sugs n where t: "tab_suggestions loaded w (length w) = (sugs, n)" by fastforce
  have "length sugs = 1 \<Longrightarrow> NUL \<notin> set (hd sugs)" using tab_suggestions_ok[OF t assms(2,3)] by (cases sugs) auto
  then show ?thesis using assms(1) t by (auto simp: complete_def dest: in_set_dropD)
qed

lemma tab_correct:
  assumes "line_rel l (w, h)" "length w \<le> 254" "length (complete loaded w) \<le> 255" "length loaded \<le> 64" "\<forall>x \<in> set loaded. NUL \<notin> set x"
  shows "\<exists>l'. handle_tab_completion loaded l = Some l' \<and> line_rel l' (complete loaded w, h)"
proof -
  have l: "length (lbuf l) = 256" "lpos l = length w" "take (length w) (lbuf l) = w" "NUL \<notin> set w" "h_idx l = h" "-1 \<le> h" using assms(1) by (auto simp: line_rel_def)
  let ?m = "(lbuf l)[length w := NUL]"
  have c: "c_string ?m 0 = Some w" "take (length w) ?m = w" using c_string_update[OF l(4,3)] l(1,3) assms(2) by auto
  obtain sugs n where t: "tab_suggestions loaded w (length w) = (sugs, n)" by fastforce
  note ok = tab_suggestions_ok[OF t assms(4,5)]
  show ?thesis
  proof (cases "length sugs = 1")
    case True
    then obtain s where s: "sugs = [s]" by (auto simp: length_Suc_conv)
    have cm: "complete loaded w = w @ drop n s" using t s by (simp add: complete_def)
    have nn: "NUL \<notin> set (drop n s)" "n \<le> length s" using ok s by (auto dest: in_set_dropD)
    obtain m' where m': "write_mem (length w) (drop n s @ [NUL]) ?m = Some m'" using assms(3) l(1) unfolding cm write_mem_def by auto
    note r = c_string_write[OF m' c(2) l(4) nn(1)]
    have "handle_tab_completion loaded l = Some (l\<lparr>lbuf := m', lpos := length (w @ drop n s)\<rparr>)"
      using c(1) t s nn(2) m' r l(2) by (simp add: handle_tab_completion_def Let_def)
    then show ?thesis using r l cm nn by (auto simp: line_rel_def)
  next
    case False
    then have "handle_tab_completion loaded l = Some (l\<lparr>lbuf := ?m, shown := (if sugs = [] then shown l else shown l @ [sugs])\<rparr>)"
      using c(1) t ok l(2) by (simp add: handle_tab_completion_def Let_def)
    moreover have "complete loaded w = w" using False t by (simp add: complete_def)
    ultimately show ?thesis using l c(2) by (auto simp: line_rel_def)
  qed
qed

lemma up_correct:
  assumes "line_rel l (w, h)" "hist_ok hs" "\<forall>e \<in> set (g_history hs). NUL \<notin> set e \<and> length e \<le> 255"
  shows "\<exists>l'. key_up hs l = Some l' \<and> line_rel l' (edit_key loaded (hist_view hs) Up (w, h))"
proof (cases "h + 1 < int (length (hist_view hs))")
  case False
  have "length (hist_view hs) = g_history_count hs" using assms(2) by (auto simp: hist_ok_def hist_view_def)
  then have "key_up hs l = Some l" using False assms(1) by (auto simp: key_up_def line_rel_def)
  then show ?thesis using False assms(1) by auto
next
  case True
  have n: "length (hist_view hs) = g_history_count hs" using assms(2) by (auto simp: hist_ok_def hist_view_def)
  have l: "length (lbuf l) = 256" "h_idx l = h" "-1 \<le> h" using assms(1) by (auto simp: line_rel_def)
  let ?e = "g_history hs ! nat (h + 1)"
  have i: "nat (h + 1) < g_history_count hs" "nat (h + 1) < length (g_history hs)" using True n l(3) assms(2) by (auto simp: hist_ok_def)
  then have e: "hist_view hs ! nat (h + 1) = ?e" "NUL \<notin> set ?e" "length ?e \<le> 255" using assms(3) by (auto simp: hist_view_def)
  obtain m where m: "write_mem 0 (?e @ [NUL]) (lbuf l) = Some m" using e(3) l(1) by (auto simp: write_mem_def)
  have "c_string m 0 = Some ([] @ ?e) \<and> length m = length (lbuf l) \<and> take (length ([] @ ?e)) m = [] @ ?e"
    by (rule c_string_write) (use m e(2) in auto)
  then show ?thesis using True n i e l m by (auto simp: key_up_def line_rel_def Let_def)
qed

lemma get_line_key:
  assumes "line_rel l (w, h)" "key_ok k" "length w \<le> 254" "length (fst (edit_key loaded (hist_view hs) k (w, h))) \<le> 255" "hist_ok hs"
    and "\<forall>e \<in> set (g_history hs). NUL \<notin> set e \<and> length e \<le> 255" "length loaded \<le> 64" "\<forall>x \<in> set loaded. NUL \<notin> set x"
  shows "\<exists>l'. get_line_loop 256 loaded hs (key_chars k @ rest) l = get_line_loop 256 loaded hs rest l' \<and> line_rel l' (edit_key loaded (hist_view hs) k (w, h))"
proof (cases k)
  case (Key c)
  then show ?thesis using assms(1,2,3) by (subst get_line_loop.simps) (auto simp: line_rel_def plain_char_def take_Suc_conv_app_nth)
next
  case Rub
  have "take (length w - 1) (lbuf l) = butlast w" using assms(1) by (auto simp: line_rel_def butlast_conv_take) (metis diff_le_self min.absorb2 min.commute take_take)
  then show ?thesis using Rub assms(1,3) by (subst get_line_loop.simps) (auto simp: line_rel_def dest: in_set_butlastD)
next
  case Tab
  then show ?thesis using tab_correct[OF assms(1,3) _ assms(7,8)] assms(1,3,4) by (subst get_line_loop.simps) (auto simp: line_rel_def)
next
  case Up
  then show ?thesis using up_correct[OF assms(1,5,6), of loaded] assms(1,3) by (subst get_line_loop.simps) (auto simp: line_rel_def)
next
  case (Seq a b)
  then show ?thesis using assms(1,2,3) by (subst get_line_loop.simps) (auto simp: line_rel_def)
qed

text \<open>C27.  As long as the line fits its buffer, the editor on the character array does what the keys mean on strings:
  when the line is ended the buffer holds the edited line as a C string, and its length is the result.\<close>

theorem line_editor_refines:
  assumes "list_all key_ok ks" "edits_fit loaded (hist_view hs) ks ([], -1)" "length buf = 256" "hist_ok hs"
    and "\<forall>e \<in> set (g_history hs). NUL \<notin> set e \<and> length e \<le> 255" "length loaded \<le> 64" "\<forall>x \<in> set loaded. NUL \<notin> set x"
  shows "\<exists>l. advanced_get_line loaded hs (concat (map key_chars ks) @ CHR 0x0A # rest) buf = Some (int (length (fst (edits loaded (hist_view hs) ks ([], -1)))), l, rest)
    \<and> c_string (lbuf l) 0 = Some (fst (edits loaded (hist_view hs) ks ([], -1)))"
proof -
  have "list_all key_ok ks \<Longrightarrow> edits_fit loaded (hist_view hs) ks (w, h) \<Longrightarrow> line_rel l (w, h) \<Longrightarrow>
      \<exists>l'. get_line_loop 256 loaded hs (concat (map key_chars ks) @ CHR 0x0A # rest) l = Some (int (length (fst (edits loaded (hist_view hs) ks (w, h)))), l', rest)
        \<and> c_string (lbuf l') 0 = Some (fst (edits loaded (hist_view hs) ks (w, h)))" for w h l
  proof (induction ks arbitrary: w h l)
    case Nil
    have p: "take (length w) (lbuf l) = w" "NUL \<notin> set w" "length w \<le> 254" "length (lbuf l) = 256" "lpos l = length w" using Nil by (auto simp: line_rel_def edits_fit_Nil)
    then show ?case using c_string_update[of w "lbuf l"] by (subst get_line_loop.simps) (simp add: edits_def)
  next
    case (Cons k ks)
    let ?st = "edit_key loaded (hist_view hs) k (w, h)"
    have f: "length w \<le> 254" "edits_fit loaded (hist_view hs) ks ?st" "key_ok k" "list_all key_ok ks" using Cons.prems by (auto simp: edits_fit_Cons)
    have "length (fst ?st) \<le> 254" using f(2) by (cases ks) (auto simp: edits_fit_Nil edits_fit_Cons)
    then have g: "length (fst ?st) \<le> 255" by simp
    obtain l' where l': "get_line_loop 256 loaded hs (key_chars k @ (concat (map key_chars ks) @ CHR 0x0A # rest)) l = get_line_loop 256 loaded hs (concat (map key_chars ks) @ CHR 0x0A # rest) l'"
      "line_rel l' ?st" using get_line_key[OF Cons.prems(3) f(3,1) g assms(4,5,6,7)] by blast
    show ?case using Cons.IH[OF f(4), of "fst ?st" "snd ?st" l'] f(2) l' by (simp add: edits_def)
  qed
  from this[OF assms(1,2), of "\<lparr>lbuf = buf, lpos = 0, h_idx = -1, shown = []\<rparr>"]
  show ?thesis using assms(3) by (simp add: advanced_get_line_def line_rel_def)
qed

theorem line_editor_refines_witness:
  "\<exists>l. advanced_get_line [] hist_boot (''shoo'' @ [CHR 0x7F] @ ''w s'' @ [CHR 0x1B, CHR ''['', CHR ''A''] @ ''t'' @ [CHR 0x09, CHR 0x0A]) (replicate 256 CHR ''?'') = Some (10, l, [])
    \<and> c_string (lbuf l) 0 = Some ''show stats''"
proof -
  let ?ks = "map Key ''shoo'' @ [Rub] @ map Key ''w s'' @ [Up] @ map Key ''t'' @ [Tab]"
  have v: "hist_view hist_boot = []" "hist_ok hist_boot" "\<forall>e \<in> set (g_history hist_boot). NUL \<notin> set e \<and> length e \<le> 255"
    by (auto simp: hist_boot_def hist_view_def hist_ok_def)
  have k: "list_all key_ok ?ks" by (simp add: plain_char_def)
  have e: "edits [] [] ?ks ([], -1) = (''show stats'', -1)" by code_simp
  have f: "edits_fit [] [] ?ks ([], -1)" by code_simp
  show ?thesis using line_editor_refines[OF k _ _ v(2,3), of "[]" "replicate 256 CHR ''?''" "[]"] f unfolding v(1) e by simp
qed

section \<open>Lines that do not fit\<close>

text \<open>A line of 255 characters ends the loop without a terminator: the last byte of the buffer keeps what it held,
  and if that is not NUL the buffer is not a string.\<close>

theorem long_line_unterminated:
  assumes "length w = 255" "list_all plain_char w" "length buf = 256"
  shows "\<exists>l. advanced_get_line loaded hs (w @ rest) buf = Some (255, l, rest) \<and> lbuf l = w @ [buf ! 255]
    \<and> c_string (lbuf l) 0 = (if buf ! 255 = NUL then Some w else None)"
proof -
  have run: "list_all plain_char v \<Longrightarrow> lpos l + length v \<le> 255 \<Longrightarrow> length (lbuf l) = 256 \<Longrightarrow>
      \<exists>l'. get_line_loop 256 loaded hs (v @ rest) l = get_line_loop 256 loaded hs rest l' \<and> lpos l' = lpos l + length v
        \<and> lbuf l' = take (lpos l) (lbuf l) @ v @ drop (lpos l + length v) (lbuf l)" for v l
  proof (induction v arbitrary: l)
    case (Cons c v)
    let ?l = "l\<lparr>lbuf := (lbuf l)[lpos l := c], lpos := lpos l + 1\<rparr>"
    have s: "get_line_loop 256 loaded hs ((c # v) @ rest) l = get_line_loop 256 loaded hs (v @ rest) ?l"
      using Cons.prems by (subst get_line_loop.simps) (simp add: plain_char_def)
    have t: "take (Suc (lpos l)) ((lbuf l)[lpos l := c]) = take (lpos l) (lbuf l) @ [c]" using Cons.prems by (simp add: take_Suc_conv_app_nth)
    show ?case using Cons.IH[of ?l] Cons.prems s t by auto
  qed auto
  from run[OF assms(2), of "\<lparr>lbuf = buf, lpos = 0, h_idx = -1, shown = []\<rparr>"] assms(1,3)
  obtain l where l: "get_line_loop 256 loaded hs (w @ rest) \<lparr>lbuf = buf, lpos = 0, h_idx = -1, shown = []\<rparr> = get_line_loop 256 loaded hs rest l"
    "lpos l = 255" "lbuf l = w @ drop 255 buf" by auto
  have d: "drop 255 buf = [buf ! 255]" using assms(3) Cons_nth_drop_Suc[of 255 buf] by simp
  have n: "NUL \<notin> set w" using assms(2) by (auto simp: list_all_iff plain_char_def)
  have "advanced_get_line loaded hs (w @ rest) buf = Some (255, l, rest)"
    using l assms(3) by (simp add: advanced_get_line_def) (subst get_line_loop.simps, simp)
  moreover have "c_string (w @ [buf ! 255]) 0 = (if buf ! 255 = NUL then Some w else None)"
    using n takeWhile_nul[OF n, of "[]"] by (auto simp: c_string_def)
  ultimately show ?thesis using l(3) d by auto
qed

text \<open>Completion does not look at the size of the buffer: when the completed line and its terminator need more than
  the 256 bytes, it writes behind the end.\<close>

theorem tab_overflows:
  assumes "line_rel l (w, h)" "length w \<le> 254" "length (complete loaded w) > 255"
  shows "handle_tab_completion loaded l = None"
proof -
  have l: "length (lbuf l) = 256" "lpos l = length w" "take (length w) (lbuf l) = w" "NUL \<notin> set w" using assms(1) by (auto simp: line_rel_def)
  let ?m = "(lbuf l)[length w := NUL]"
  have c: "c_string ?m 0 = Some w" using c_string_update[OF l(4,3)] l(1) assms(2) by simp
  obtain sugs n where t: "tab_suggestions loaded w (length w) = (sugs, n)" by fastforce
  have s: "length sugs = 1" "length (w @ drop n (hd sugs)) > 255" using assms(2,3) t by (auto simp: complete_def split: if_splits)
  have "write_mem (length w) (drop n (hd sugs) @ [NUL]) ?m = None" using s(2) l(1) by (simp add: write_mem_def)
  then show ?thesis using c t s(1) l(2) by (simp add: handle_tab_completion_def Let_def)
qed

theorem long_line_unterminated_witness:
  "\<exists>l. advanced_get_line [] hist_boot (replicate 255 CHR ''a'' @ []) (replicate 256 CHR ''?'') = Some (255, l, []) \<and> c_string (lbuf l) 0 = None"
proof -
  have "list_all plain_char (replicate 255 CHR ''a'')" by (simp add: list_all_iff plain_char_def)
  then show ?thesis using long_line_unterminated[of "replicate 255 CHR ''a''" "replicate 256 CHR ''?''" "[]" hist_boot "[]"] by auto
qed

theorem tab_overflows_witness:
  "handle_tab_completion [] \<lparr>lbuf = ''perf '' @ replicate 247 CHR ''x'' @ '' s'' @ replicate 2 NUL, lpos = 254, h_idx = -1, shown = []\<rparr> = None"
proof -
  let ?w = "''perf '' @ replicate 247 CHR ''x'' @ '' s''"
  have c: "complete [] ?w = ?w @ ''tart''" by code_simp
  show ?thesis using tab_overflows[of "\<lparr>lbuf = ?w @ replicate 2 NUL, lpos = 254, h_idx = -1, shown = []\<rparr>" ?w "-1" "[]"] unfolding c
    by (simp add: line_rel_def)
qed

end
