(* ===== verification/Nos_Node.thy ===== *)
theory Nos_Node
  imports Nos_Dispatch
begin

text \<open>
  The node manager \<^verbatim>\<open>src/core/nos_node_mgr.c\<close>: loading components from shared libraries, wiring them
  to worker threads and services, unloading and reloading them while the node runs.

  The dynamic loader, the heap allocator and the entry points of a component are the fields of a
  record \<open>'s loader\<close>: \<^verbatim>\<open>access\<close>, \<^verbatim>\<open>dlopen\<close> and \<^verbatim>\<open>dlsym\<close> on the library path, \<^verbatim>\<open>calloc\<close> for a component, and
  what the function pointers \<^verbatim>\<open>export\<close>, \<^verbatim>\<open>init\<close> and \<^verbatim>\<open>stop\<close> do to the state.  \<open>dl_refs\<close> counts the open references
  to each handle.  The log messages and the table of component names in the logger are left out.
\<close>

definition MAX_WORKERS :: nat where "MAX_WORKERS = 8"

record node_state = sched_state +
  dl_refs :: "nat \<Rightarrow> nat"

record 's loader =
  ld_readable :: "string \<Rightarrow> bool"
  ld_dlopen :: "string \<Rightarrow> nat option"
  ld_dlsym :: "nat \<Rightarrow> nat option"
  ld_alloc :: "'s \<Rightarrow> nat option"
  ld_calloc_queue :: bool
  ld_export :: "nat \<Rightarrow> nat \<Rightarrow> 's \<Rightarrow> nos_status_t \<times> 's"
  ld_init :: "nat \<Rightarrow> nat \<Rightarrow> 's \<Rightarrow> nos_status_t \<times> 's"
  ld_stop :: "nat \<Rightarrow> nat \<Rightarrow> 's \<Rightarrow> 's"

definition do_dlopen :: "'z node_state_scheme loader \<Rightarrow> string \<Rightarrow> 'z node_state_scheme \<Rightarrow> nat option \<times> 'z node_state_scheme" where
  "do_dlopen ld path s =
    (case ld_dlopen ld path of None \<Rightarrow> (None, s) | Some h \<Rightarrow> (Some h, s\<lparr>dl_refs := (dl_refs s)(h := dl_refs s h + 1)\<rparr>))"

definition dlclose :: "nat option \<Rightarrow> 'z node_state_scheme \<Rightarrow> 'z node_state_scheme" where
  "dlclose handle s = (case handle of None \<Rightarrow> s | Some h \<Rightarrow> s\<lparr>dl_refs := (dl_refs s)(h := dl_refs s h - 1)\<rparr>)"

definition free_comp :: "nat \<Rightarrow> 'z sched_state_scheme \<Rightarrow> 'z sched_state_scheme" where
  "free_comp c s = s\<lparr>g_comps := (g_comps s)(c := None)\<rparr>"

definition set_status :: "nat \<Rightarrow> nos_comp_status_t \<Rightarrow> 'z sched_state_scheme \<Rightarrow> 'z sched_state_scheme" where
  "set_status c st = upd_comp c (\<lambda>x. x\<lparr>comp_status := st\<rparr>)"

definition call_stop :: "'z node_state_scheme loader \<Rightarrow> nat \<Rightarrow> 'z node_state_scheme \<Rightarrow> 'z node_state_scheme" where
  "call_stop ld c s = (case comp_stop (get_comp s c) of None \<Rightarrow> s | Some f \<Rightarrow> ld_stop ld f c s)"

section \<open>Component instances\<close>

definition node_destroy_loaded_component ::
  "'z node_state_scheme loader \<Rightarrow> nat option \<Rightarrow> nat option \<Rightarrow> 'z node_state_scheme \<Rightarrow> 'z node_state_scheme" where
  "node_destroy_loaded_component ld cmp handle s =
    (case cmp of
       None \<Rightarrow> dlclose handle s
     | Some c \<Rightarrow>
         (let s1 = (if comp_status (get_comp s c) \<noteq> NOS_COMP_ST_STOPPED then call_stop ld c (set_status c NOS_COMP_ST_STOPPED s) else s)
          in dlclose handle (free_comp c s1)))"

definition node_stop_component_instance ::
  "'z node_state_scheme loader \<Rightarrow> loaded_comp_info_t option \<Rightarrow> 'z node_state_scheme \<Rightarrow> 'z node_state_scheme" where
  "node_stop_component_instance ld info s =
    (case info of
       None \<Rightarrow> s
     | Some i \<Rightarrow>
         (case li_comp i of
            None \<Rightarrow> s
          | Some c \<Rightarrow>
              (let should_call_stop = (comp_status (get_comp s c) \<noteq> NOS_COMP_ST_STOPPED);
                   s1 = set_status c NOS_COMP_ST_STOPPED s;
                   s2 = (case li_owner_thread i of
                           None \<Rightarrow> s1
                         | Some t \<Rightarrow> nos_scheduler_cancel_timers_by_owner (Some t) (Some c)
                             (nos_scheduler_drop_messages_for_provider (ld_calloc_queue ld) (Some t) (Some c) s1))
               in if should_call_stop then call_stop ld c s2 else s2)))"

text \<open>\<^verbatim>\<open>node_load_component_staged\<close>: the component and its library handle.\<close>

definition node_load_component_staged ::
  "'z node_state_scheme loader \<Rightarrow> u32 \<Rightarrow> string \<Rightarrow> string \<Rightarrow> 'z node_state_scheme \<Rightarrow> (nat \<times> nat) option \<times> 'z node_state_scheme" where
  "node_load_component_staged ld i name lib_name s =
    (let path = ''./'' @ lib_name in
     if \<not> ld_readable ld path then (None, s)
     else (case do_dlopen ld path s of
         (None, s1) \<Rightarrow> (None, s1)
       | (Some h, s1) \<Rightarrow>
           (case ld_dlsym ld h of
              None \<Rightarrow> (None, dlclose (Some h) s1)
            | Some ex \<Rightarrow>
                (case ld_alloc ld s1 of
                   None \<Rightarrow> (None, dlclose (Some h) s1)
                 | Some c \<Rightarrow>
                     (let s2 = s1\<lparr>g_comps := (g_comps s1)(c \<mapsto> null_component\<lparr>comp_id := i, comp_name := name\<rparr>)\<rparr> in
                      case ld_export ld ex c s2 of (r, s3) \<Rightarrow>
                        if r \<noteq> NOS_OK
                        then (None, node_destroy_loaded_component ld (Some c) (Some h) (set_status c NOS_COMP_ST_ERROR s3))
                        else (case (case comp_init (get_comp s3 c) of None \<Rightarrow> (NOS_OK, s3) | Some f \<Rightarrow> ld_init ld f c s3) of (r, s4) \<Rightarrow>
                          if r \<noteq> NOS_OK
                          then (None, node_destroy_loaded_component ld (Some c) (Some h) (set_status c NOS_COMP_ST_ERROR s4))
                          else (Some (c, h), set_status c NOS_COMP_ST_INITED s4)))))))"

text \<open>The entries of \<^verbatim>\<open>loaded_info\<close> have a component (\<open>comp\<close> is dereferenced without a test).\<close>

definition info_comp :: "'z sched_state_scheme \<Rightarrow> loaded_comp_info_t \<Rightarrow> nos_component_t" where
  "info_comp s info = get_comp s (the (li_comp info))"

definition node_get_loaded_comp_by_id :: "'z sched_state_scheme \<Rightarrow> u32 \<Rightarrow> nat option" where
  "node_get_loaded_comp_by_id s i =
    (case find_idx (\<lambda>info. comp_id (info_comp s info) = i) (loaded_info s) (loaded_count s) of
       None \<Rightarrow> None
     | Some k \<Rightarrow> li_comp (loaded_info s ! k))"

section \<open>Start-up\<close>

text \<open>\<open>ipc_init\<close> is \<^verbatim>\<open>nos_ipc_init\<close>; the descriptors of the new thread are arguments.\<close>

definition node_init_mgmt ::
  "(nat option \<Rightarrow> string \<Rightarrow> 'z sched_state_scheme \<Rightarrow> nos_status_t \<times> 'z sched_state_scheme) \<Rightarrow> int \<Rightarrow> int \<Rightarrow> string \<Rightarrow> 'z sched_state_scheme \<Rightarrow> 'z sched_state_scheme" where
  "node_init_mgmt ipc_init ep ev uds_path s =
    (let t = length (g_threads s);
         s1 = s\<lparr>mgmt_thread := Some t, g_threads := g_threads s @ [null_thread]\<rparr>;
         s2 = snd (nos_scheduler_init_thread (Some t) 999 ''Mgmt-Master'' ep ev s1)
     in snd (ipc_init (Some t) uds_path s2))"

definition worker_load ::
  "'z node_state_scheme loader \<Rightarrow> nat \<Rightarrow> u32 \<times> string \<times> string \<Rightarrow> 'z node_state_scheme \<Rightarrow> 'z node_state_scheme" where
  "worker_load ld t = (\<lambda>(i, name, model) s.
    (case node_load_component_staged ld i name model s of
       (None, s1) \<Rightarrow> s1
     | (Some (c, h), s1) \<Rightarrow>
         if loaded_count s1 \<ge> MAX_COMPONENTS_PER_NODE then node_destroy_loaded_component ld (Some c) (Some h) s1
         else (case nos_scheduler_register_component (Some t) (Some c) s1 of (r, s2) \<Rightarrow>
           if r \<noteq> NOS_OK then node_destroy_loaded_component ld (Some c) (Some h) s2
           else s2\<lparr>loaded_info := (loaded_info s2)[loaded_count s2 :=
                     \<lparr>li_comp = Some c, li_handle = Some h, li_lib_name = model, li_owner_thread = Some t\<rparr>],
                   loaded_count := loaded_count s2 + 1\<rparr>)))"

text \<open>The component table of a thread ends at the first identifier 0.  The C loop tests the identifier
  before the bound, so that a full table of 16 identifiers makes it read past the array.\<close>

definition worker_comps :: "nos_thread_def_t \<Rightarrow> (u32 \<times> string \<times> string) list" where
  "worker_comps td = takeWhile (\<lambda>(i, n, m). i \<noteq> 0) (take MAX_COMPONENTS_PER_NODE (tdef_comps td))"

definition init_worker ::
  "'z node_state_scheme loader \<Rightarrow> (nat \<Rightarrow> int \<times> int) \<Rightarrow> nat \<Rightarrow> nat \<times> nos_thread_def_t \<Rightarrow> 'z node_state_scheme \<Rightarrow> 'z node_state_scheme" where
  "init_worker ld fds base = (\<lambda>(i, td) s.
    (let s1 = snd (nos_scheduler_init_thread (Some (base + i)) (of_nat i) (tdef_name td) (fst (fds i)) (snd (fds i)) s);
         s2 = fold (worker_load ld (base + i)) (worker_comps td) s1
     in s2\<lparr>worker_threads := worker_threads s2 @ [base + i]\<rparr>))"

definition node_init_workers ::
  "'z node_state_scheme loader \<Rightarrow> (nat \<Rightarrow> int \<times> int) \<Rightarrow> nos_node_def_t \<Rightarrow> 'z node_state_scheme \<Rightarrow> 'z node_state_scheme" where
  "node_init_workers ld fds nd s =
    (let base = length (g_threads s);
         s1 = s\<lparr>g_threads := g_threads s @ replicate MAX_WORKERS null_thread, worker_threads := []\<rparr>
     in fold (init_worker ld fds base) (enumerate 0 (take MAX_WORKERS (node_threads nd))) s1)"

section \<open>Services\<close>

text \<open>The services of the node definition that the component provides on this node.\<close>

definition provides :: "nos_node_def_t \<Rightarrow> u32 \<Rightarrow> nos_service_def_t \<Rightarrow> bool" where
  "provides nd provider_id svc \<longleftrightarrow> svc_provider_comp_id svc = provider_id \<and> svc_node_name svc = node_name nd"

definition node_register_local_providers :: "u32 \<Rightarrow> nat option \<Rightarrow> nat option \<Rightarrow> 'z sched_state_scheme \<Rightarrow> 'z sched_state_scheme" where
  "node_register_local_providers provider_id provider thread s =
    (let nd = the (node_def s) in
     fold (\<lambda>svc s. if provides nd provider_id svc then snd (nos_service_register_provider_bind (svc_service_id svc) provider thread s) else s)
       (node_services nd) s)"

definition node_unregister_local_providers :: "u32 \<Rightarrow> 'z sched_state_scheme \<Rightarrow> 'z sched_state_scheme" where
  "node_unregister_local_providers provider_id s =
    (let nd = the (node_def s) in
     fold (\<lambda>svc s. if provides nd provider_id svc then snd (nos_service_unregister_provider (svc_service_id svc) s) else s)
       (node_services nd) s)"

definition thread_has_id :: "'z sched_state_scheme \<Rightarrow> u32 \<Rightarrow> nos_thread_t \<Rightarrow> bool" where
  "thread_has_id s i th \<longleftrightarrow> find_idx (\<lambda>x. case x of None \<Rightarrow> False | Some c \<Rightarrow> comp_id (get_comp s c) = i) (components th) (component_count th) \<noteq> None"

definition find_owner_worker :: "'z sched_state_scheme \<Rightarrow> u32 \<Rightarrow> nat option" where
  "find_owner_worker s i = List.find (\<lambda>t. thread_has_id s i (get_thread s t)) (worker_threads s)"

definition route_service :: "string \<Rightarrow> nos_service_def_t \<Rightarrow> 'z sched_state_scheme \<Rightarrow> 'z sched_state_scheme" where
  "route_service current svc s =
    (if svc_node_name svc = current then
       (case (node_get_loaded_comp_by_id s (svc_provider_comp_id svc), find_owner_worker s (svc_provider_comp_id svc)) of
          (Some p, Some t) \<Rightarrow> snd (nos_service_register_provider_bind (svc_service_id svc) (Some p) (Some t) s)
        | _ \<Rightarrow> s)
     else (case svc_remote_uds_path svc of
         None \<Rightarrow> s
       | Some u \<Rightarrow> if u = [] then s else snd (nos_service_register_remote (svc_service_id svc) (Some (svc_node_name svc)) u s)))"

definition node_setup_routing :: "string \<Rightarrow> 'z sched_state_scheme \<Rightarrow> 'z sched_state_scheme" where
  "node_setup_routing current s = fold (route_service current) (node_services (the (node_def s))) s"

section \<open>Unloading and reloading\<close>

definition find_loaded_by_name :: "string \<Rightarrow> 'z sched_state_scheme \<Rightarrow> nat option" where
  "find_loaded_by_name name s =
    find_idx (\<lambda>info. li_comp info \<noteq> None \<and> comp_name (info_comp s info) = name) (loaded_info s) (loaded_count s)"

text \<open>The loop that closes the gap in the table; the slot after the last entry keeps its contents.\<close>

definition shift_left :: "nat \<Rightarrow> nat \<Rightarrow> 'a list \<Rightarrow> 'a list" where
  "shift_left n i xs = take i xs @ drop (i + 1) (take n xs) @ drop (n - 1) xs"

definition node_unload_component :: "'z node_state_scheme loader \<Rightarrow> string \<Rightarrow> 'z node_state_scheme \<Rightarrow> nos_status_t \<times> 'z node_state_scheme" where
  "node_unload_component ld name s =
    (case find_loaded_by_name name s of
       None \<Rightarrow> (NOS_ERR, s)
     | Some k \<Rightarrow>
         (let info = loaded_info s ! k;
              s1 = snd (nos_scheduler_unregister_component (li_owner_thread info) (li_comp info) s);
              s2 = node_unregister_local_providers (comp_id (info_comp s1 info)) s1;
              s3 = node_stop_component_instance ld (Some info) s2;
              s4 = node_destroy_loaded_component ld (li_comp info) (li_handle info) s3
          in (NOS_OK, s4\<lparr>loaded_info := shift_left (loaded_count s4) k (loaded_info s4), loaded_count := loaded_count s4 - 1\<rparr>)))"

definition swap_component ::
  "'z node_state_scheme loader \<Rightarrow> nat \<Rightarrow> u32 \<Rightarrow> string \<Rightarrow> nat option \<Rightarrow> nat \<Rightarrow> nat \<Rightarrow> 'z node_state_scheme \<Rightarrow> nos_status_t \<times> 'z node_state_scheme" where
  "swap_component ld k i lib_name thread new_comp new_handle s =
    (let old_comp = li_comp (loaded_info s ! k); old_handle = li_handle (loaded_info s ! k) in
     case nos_scheduler_unregister_component thread old_comp s of (r, s1) \<Rightarrow>
       if r \<noteq> NOS_OK then (NOS_ERR, node_destroy_loaded_component ld (Some new_comp) (Some new_handle) s1)
       else (case nos_scheduler_register_component thread (Some new_comp) s1 of (r, s2) \<Rightarrow>
         if r \<noteq> NOS_OK
         then (NOS_ERR, node_destroy_loaded_component ld (Some new_comp) (Some new_handle)
                 (snd (nos_scheduler_register_component thread old_comp s2)))
         else (let s3 = s2\<lparr>loaded_info := (loaded_info s2)[k :=
                      \<lparr>li_comp = Some new_comp, li_handle = Some new_handle, li_lib_name = lib_name, li_owner_thread = thread\<rparr>]\<rparr>;
                   s4 = node_register_local_providers i (Some new_comp) thread s3;
                   s5 = node_stop_component_instance ld
                      (Some \<lparr>li_comp = old_comp, li_handle = old_handle, li_lib_name = lib_name, li_owner_thread = thread\<rparr>) s4
               in (NOS_OK, dlclose old_handle (case old_comp of None \<Rightarrow> s5 | Some c \<Rightarrow> free_comp c s5)))))"

definition node_reload_component :: "'z node_state_scheme loader \<Rightarrow> string \<Rightarrow> 'z node_state_scheme \<Rightarrow> nos_status_t \<times> 'z node_state_scheme" where
  "node_reload_component ld name s =
    (case find_loaded_by_name name s of
       None \<Rightarrow> (NOS_ERR, s)
     | Some k \<Rightarrow>
         (let old = loaded_info s ! k; i = comp_id (info_comp s old) in
          case node_load_component_staged ld i name (li_lib_name old) s of
            (None, s1) \<Rightarrow> (NOS_ERR, s1)
          | (Some (c, h), s1) \<Rightarrow> swap_component ld k i (li_lib_name old) (li_owner_thread old) c h s1))"

section \<open>What the operations leave alone\<close>

text \<open>The wiring of the node: services, loaded components, and the component lists of the threads.\<close>

definition core_same :: "'z sched_state_scheme \<Rightarrow> 'z sched_state_scheme \<Rightarrow> bool" where
  "core_same s s' \<longleftrightarrow> g_service_registry s' = g_service_registry s \<and> g_service_count s' = g_service_count s \<and> node_def s' = node_def s
     \<and> loaded_info s' = loaded_info s \<and> loaded_count s' = loaded_count s \<and> length (g_threads s') = length (g_threads s)
     \<and> (\<forall>t < length (g_threads s). components (get_thread s' t) = components (get_thread s t)
          \<and> component_count (get_thread s' t) = component_count (get_thread s t))"

lemma core_same_refl [simp]: "core_same s s"
  by (simp add: core_same_def)

lemma core_same_trans: "core_same a b \<Longrightarrow> core_same b c \<Longrightarrow> core_same a c"
  by (simp add: core_same_def)

text \<open>What the node manager relies on: \<^verbatim>\<open>calloc\<close> gives unused memory, and the entry points of a component
  do not rewire the node, do not touch other components and do not load or close libraries.\<close>

definition entry_tame :: "nat \<Rightarrow> 'z node_state_scheme \<Rightarrow> 'z node_state_scheme \<Rightarrow> bool" where
  "entry_tame c s s' \<longleftrightarrow> core_same s s' \<and> dl_refs s' = dl_refs s \<and> (\<forall>d. d \<noteq> c \<longrightarrow> g_comps s' d = g_comps s d) \<and> (g_comps s c \<noteq> None \<longrightarrow> g_comps s' c \<noteq> None)"

definition tame :: "'z node_state_scheme loader \<Rightarrow> bool" where
  "tame ld \<longleftrightarrow> (\<forall>s c. ld_alloc ld s = Some c \<longrightarrow> g_comps s c = None)
     \<and> (\<forall>f c s. entry_tame c s (snd (ld_export ld f c s)) \<and> entry_tame c s (snd (ld_init ld f c s)) \<and> entry_tame c s (ld_stop ld f c s))"

lemma entry_tame_refl [simp]: "entry_tame c s s"
  by (simp add: entry_tame_def)

lemma entry_tame_trans: "entry_tame c s s' \<Longrightarrow> entry_tame c s' s'' \<Longrightarrow> entry_tame c s s''"
  by (auto simp: entry_tame_def intro: core_same_trans)

lemma entry_tame_status [simp]: "entry_tame c s (set_status c st s)"
  by (simp add: entry_tame_def set_status_def upd_comp_def core_same_def)

lemma tame_stop: "tame ld \<Longrightarrow> entry_tame c s (call_stop ld c s)"
  by (simp add: tame_def call_stop_def split: option.splits)

lemma dlclose_simps [simp]:
  "core_same s (dlclose h s')  = core_same s s'" "g_comps (dlclose h s') = g_comps s'"
  "dl_refs (dlclose (Some k) s') = (dl_refs s')(k := dl_refs s' k - 1)" "dl_refs (dlclose None s') = dl_refs s'"
  by (simp_all add: dlclose_def core_same_def split: option.splits)

lemma free_comp_simps [simp]:
  "core_same s (free_comp c s') = core_same s s'" "dl_refs (free_comp c s') = dl_refs s'" "g_comps (free_comp c s') = (g_comps s')(c := None)"
  by (simp_all add: free_comp_def core_same_def)

lemma destroy_spec:
  assumes "tame ld"
  shows "core_same s (node_destroy_loaded_component ld (Some c) (Some h) s)"
    "g_comps (node_destroy_loaded_component ld (Some c) (Some h) s) = (g_comps s)(c := None)"
    "dl_refs (node_destroy_loaded_component ld (Some c) (Some h) s) = (dl_refs s)(h := dl_refs s h - 1)"
proof -
  let ?s1 = "if comp_status (get_comp s c) \<noteq> NOS_COMP_ST_STOPPED then call_stop ld c (set_status c NOS_COMP_ST_STOPPED s) else s"
  have "entry_tame c s ?s1"
    using entry_tame_trans[OF entry_tame_status tame_stop[OF assms]] by simp
  then show "core_same s (node_destroy_loaded_component ld (Some c) (Some h) s)"
    "g_comps (node_destroy_loaded_component ld (Some c) (Some h) s) = (g_comps s)(c := None)"
    "dl_refs (node_destroy_loaded_component ld (Some c) (Some h) s) = (dl_refs s)(h := dl_refs s h - 1)"
    by (auto simp: node_destroy_loaded_component_def Let_def entry_tame_def fun_eq_iff)
qed

lemma staged_fail_tail:
  assumes "tame ld" "g_comps s c = None" "entry_tame c (s\<lparr>dl_refs := (dl_refs s)(h := dl_refs s h + 1), g_comps := (g_comps s)(c \<mapsto> x)\<rparr>) s3"
  shows "let s' = node_destroy_loaded_component ld (Some c) (Some h) (set_status c NOS_COMP_ST_ERROR s3) in
    core_same s s' \<and> g_comps s' = g_comps s \<and> dl_refs s' = dl_refs s"
proof -
  let ?s0 = "s\<lparr>dl_refs := (dl_refs s)(h := dl_refs s h + 1), g_comps := (g_comps s)(c \<mapsto> x)\<rparr>"
  have e: "entry_tame c ?s0 (set_status c NOS_COMP_ST_ERROR s3)" using assms(3) by (rule entry_tame_trans) simp
  note d = destroy_spec[OF assms(1), where s = "set_status c NOS_COMP_ST_ERROR s3" and c = c and h = h]
  have "core_same s ?s0" by (simp add: core_same_def)
  then have "core_same s (set_status c NOS_COMP_ST_ERROR s3)" using e by (auto simp: entry_tame_def intro: core_same_trans)
  then have "core_same s (node_destroy_loaded_component ld (Some c) (Some h) (set_status c NOS_COMP_ST_ERROR s3))"
    using d(1) by (rule core_same_trans)
  moreover have "(g_comps (set_status c NOS_COMP_ST_ERROR s3))(c := None) = g_comps s"
    using e assms(2) by (auto simp: entry_tame_def fun_eq_iff)
  moreover have "dl_refs (set_status c NOS_COMP_ST_ERROR s3) = (dl_refs s)(h := dl_refs s h + 1)" using e by (simp add: entry_tame_def)
  ultimately show ?thesis using d(2,3) by (simp add: Let_def)
qed

lemma set_status_comp: "g_comps s c = Some x \<Longrightarrow> g_comps (set_status c st s) c = Some (x\<lparr>comp_status := st\<rparr>)"
  by (simp add: set_status_def upd_comp_def)

lemma staged_load_spec:
  assumes "tame ld" "node_load_component_staged ld i name lib s = (r, s')"
  shows "core_same s s' \<and> (case r of
      None \<Rightarrow> g_comps s' = g_comps s \<and> dl_refs s' = dl_refs s
    | Some (c, h) \<Rightarrow> g_comps s c = None \<and> (\<forall>d. d \<noteq> c \<longrightarrow> g_comps s' d = g_comps s d) \<and> dl_refs s' = (dl_refs s)(h := dl_refs s h + 1)
        \<and> (\<exists>x. g_comps s' c = Some x \<and> comp_status x = NOS_COMP_ST_INITED))"
proof -
  let ?path = "''./'' @ lib"
  consider "\<not> ld_readable ld ?path \<or> ld_dlopen ld ?path = None"
    | h where "ld_readable ld ?path" "ld_dlopen ld ?path = Some h"
    by (cases "ld_dlopen ld ?path") auto
  then show ?thesis
  proof cases
    case 1
    then have "node_load_component_staged ld i name lib s = (None, s)"
      by (cases "ld_readable ld ?path") (simp_all add: node_load_component_staged_def do_dlopen_def Let_def)
    then show ?thesis using assms(2) by auto
  next
    case (2 h)
    let ?s1 = "s\<lparr>dl_refs := (dl_refs s)(h := dl_refs s h + 1)\<rparr>"
    show ?thesis
    proof (cases "ld_dlsym ld h = None \<or> ld_alloc ld ?s1 = None")
      case True
      then have "node_load_component_staged ld i name lib s = (None, dlclose (Some h) ?s1)"
        using 2 by (cases "ld_dlsym ld h") (simp_all add: node_load_component_staged_def do_dlopen_def Let_def)
      then show ?thesis using assms(2) by (auto simp: core_same_def dlclose_def)
    next
      case False
      then obtain ex c where c: "ld_dlsym ld h = Some ex" "ld_alloc ld ?s1 = Some c" by auto
      have fresh: "g_comps s c = None" using assms(1) c(2) unfolding tame_def by force
      define x where "x = null_component\<lparr>comp_id := i, comp_name := name\<rparr>"
      define s2 where "s2 = ?s1\<lparr>g_comps := (g_comps s)(c \<mapsto> x)\<rparr>"
      obtain r3 s3 where e: "ld_export ld ex c s2 = (r3, s3)" by fastforce
      obtain r4 s4 where n: "(case comp_init (get_comp s3 c) of None \<Rightarrow> (NOS_OK, s3) | Some f \<Rightarrow> ld_init ld f c s3) = (r4, s4)" by fastforce
      have t3: "entry_tame c s2 s3" using assms(1) e unfolding tame_def by (metis snd_conv)
      have "entry_tame c s3 s4"
      proof (cases "comp_init (get_comp s3 c)")
        case None
        then show ?thesis using n by simp
      next
        case (Some f)
        then have "s4 = snd (ld_init ld f c s3)" using n by simp
        then show ?thesis using assms(1) by (simp add: tame_def)
      qed
      then have t4: "entry_tame c s2 s4" using t3 entry_tame_trans by blast
      have run: "node_load_component_staged ld i name lib s =
          (if r3 \<noteq> NOS_OK then (None, node_destroy_loaded_component ld (Some c) (Some h) (set_status c NOS_COMP_ST_ERROR s3))
           else if r4 \<noteq> NOS_OK then (None, node_destroy_loaded_component ld (Some c) (Some h) (set_status c NOS_COMP_ST_ERROR s4))
           else (Some (c, h), set_status c NOS_COMP_ST_INITED s4))"
        using 2 c e n by (simp add: node_load_component_staged_def do_dlopen_def Let_def x_def s2_def)
      show ?thesis
      proof (cases "r3 = NOS_OK \<and> r4 = NOS_OK")
        case True
        then have r: "r = Some (c, h)" "s' = set_status c NOS_COMP_ST_INITED s4" using run assms(2) by simp_all
        have "entry_tame c s2 s'" unfolding r(2) using t4 by (rule entry_tame_trans) simp
        then have k: "core_same s2 s'" "dl_refs s' = dl_refs s2" "\<And>d. d \<noteq> c \<Longrightarrow> g_comps s' d = g_comps s2 d" by (auto simp: entry_tame_def)
        have "core_same s s2" by (simp add: s2_def core_same_def)
        then have cs: "core_same s s'" using k(1) by (rule core_same_trans)
        have "g_comps s4 c \<noteq> None" using t4 by (simp add: entry_tame_def s2_def)
        then have "\<exists>y. g_comps s' c = Some y \<and> comp_status y = NOS_COMP_ST_INITED" unfolding r(2) using set_status_comp by fastforce
        then show ?thesis using cs k(2,3) fresh r(1) by (simp add: s2_def)
      next
        case False
        have f: "core_same s s' \<and> g_comps s' = g_comps s \<and> dl_refs s' = dl_refs s"
          if "entry_tame c s2 s9" "s' = node_destroy_loaded_component ld (Some c) (Some h) (set_status c NOS_COMP_ST_ERROR s9)" for s9
          using staged_fail_tail[OF assms(1) fresh that(1)[unfolded s2_def]] that(2) by (simp add: Let_def)
        have "r = None" using run assms(2) False by (auto split: if_splits)
        then show ?thesis using f[OF t3] f[OF t4] run assms(2) by (auto split: if_splits)
      qed
    qed
  qed
qed

section \<open>Services\<close>

definition reg_only :: "'z sched_state_scheme \<Rightarrow> 'z sched_state_scheme \<Rightarrow> bool" where
  "reg_only s s' \<longleftrightarrow> (\<exists>r n. s' = s\<lparr>g_service_registry := r, g_service_count := n\<rparr>)"

lemma reg_only_upd:
  "reg_only s (s\<lparr>g_service_registry := r, g_service_count := n\<rparr>)" "reg_only s (s\<lparr>g_service_count := n, g_service_registry := r\<rparr>)"
  "reg_only s (s\<lparr>g_service_registry := r\<rparr>)"
proof -
  show "reg_only s (s\<lparr>g_service_registry := r, g_service_count := n\<rparr>)" unfolding reg_only_def by blast
  moreover have "s\<lparr>g_service_count := n, g_service_registry := r\<rparr> = s\<lparr>g_service_registry := r, g_service_count := n\<rparr>" by simp
  ultimately show "reg_only s (s\<lparr>g_service_count := n, g_service_registry := r\<rparr>)" by (simp only:)
  have "s\<lparr>g_service_registry := r\<rparr> = s\<lparr>g_service_registry := r, g_service_count := g_service_count s\<rparr>" by simp
  then show "reg_only s (s\<lparr>g_service_registry := r\<rparr>)" unfolding reg_only_def by blast
qed

lemma reg_only_refl [simp]: "reg_only s s"
  using reg_only_upd(3)[of s "g_service_registry s"] by simp

lemma reg_only_trans: "reg_only a b \<Longrightarrow> reg_only b c \<Longrightarrow> reg_only a c"
proof -
  assume "reg_only a b" "reg_only b c"
  then obtain r n r' n' where "b = a\<lparr>g_service_registry := r, g_service_count := n\<rparr>" "c = b\<lparr>g_service_registry := r', g_service_count := n'\<rparr>"
    by (auto simp: reg_only_def)
  then have "c = a\<lparr>g_service_registry := r', g_service_count := n'\<rparr>" by simp
  then show "reg_only a c" using reg_only_upd(1) by simp
qed

lemma reg_only_bind: "reg_only s (snd (nos_service_register_provider_bind sid p t s))"
  and reg_only_remote: "reg_only s (snd (nos_service_register_remote sid n u s))"
  and reg_only_unregister: "reg_only s (snd (nos_service_unregister_provider sid s))"
  unfolding nos_service_register_provider_bind_def nos_service_register_remote_def nos_service_unregister_provider_def claim_entry_def upd_entry_def
  by (auto intro: reg_only_upd split: option.splits)

lemma reg_onlyD:
  assumes "reg_only s s'"
  shows "g_comps s' = g_comps s" "g_threads s' = g_threads s" "node_def s' = node_def s" "loaded_info s' = loaded_info s"
    "loaded_count s' = loaded_count s" "worker_threads s' = worker_threads s" "g_timers s' = g_timers s"
  using assms by (auto simp: reg_only_def)

lemma reg_only_dl: "reg_only s s' \<Longrightarrow> dl_refs s' = dl_refs s"
  by (auto simp: reg_only_def)

lemma bind_view:
  assumes "reg_inv s" "reg_view s sid \<noteq> None \<or> card (dom (reg_view s)) < MAX_SERVICES"
  shows "reg_inv (snd (nos_service_register_provider_bind sid p t s))
    \<and> reg_view (snd (nos_service_register_provider_bind sid p t s)) = (reg_view s)(sid \<mapsto> Route_Local p t)"
  using registry.put_room[OF assms(1) _ _ assms(2), of "Route_Local p t"] by (auto simp: register_route_def ok_route_def split: prod.splits)

lemma unregister_view:
  assumes "reg_inv s"
  shows "reg_inv (snd (nos_service_unregister_provider sid s)) \<and> reg_view (snd (nos_service_unregister_provider sid s)) = (reg_view s)(sid := None)"
  using registry.del_law[OF assms, of sid] by (auto simp: unregister_route_def split: prod.splits)

lemma unregister_fold:
  assumes "reg_inv s"
  shows "let s' = fold (\<lambda>svc s. if P svc then snd (nos_service_unregister_provider (svc_service_id svc) s) else s) svcs s in
    reg_inv s' \<and> reg_only s s' \<and> reg_view s' = (\<lambda>sid. if \<exists>svc \<in> set svcs. P svc \<and> svc_service_id svc = sid then None else reg_view s sid)"
  using assms
proof (induction svcs arbitrary: s)
  case (Cons svc svcs)
  let ?s1 = "if P svc then snd (nos_service_unregister_provider (svc_service_id svc) s) else s"
  have "reg_inv ?s1" "reg_only s ?s1" using unregister_view[OF Cons.prems] Cons.prems reg_only_unregister by auto
  moreover have "reg_view ?s1 = (if P svc then (reg_view s)(svc_service_id svc := None) else reg_view s)" using unregister_view[OF Cons.prems] by auto
  ultimately show ?case using Cons.IH[of ?s1] reg_only_trans by (auto simp: Let_def fun_eq_iff)
qed simp

lemma register_fold:
  assumes "reg_inv s" "\<forall>svc \<in> set svcs. P svc \<longrightarrow> reg_view s (svc_service_id svc) \<noteq> None"
  shows "let s' = fold (\<lambda>svc s. if P svc then snd (nos_service_register_provider_bind (svc_service_id svc) p t s) else s) svcs s in
    reg_inv s' \<and> reg_only s s' \<and> reg_view s' = (\<lambda>sid. if \<exists>svc \<in> set svcs. P svc \<and> svc_service_id svc = sid then Some (Route_Local p t) else reg_view s sid)"
  using assms
proof (induction svcs arbitrary: s)
  case (Cons svc svcs)
  let ?s1 = "if P svc then snd (nos_service_register_provider_bind (svc_service_id svc) p t s) else s"
  have b: "P svc \<Longrightarrow> reg_inv ?s1 \<and> reg_view ?s1 = (reg_view s)(svc_service_id svc \<mapsto> Route_Local p t)"
    using bind_view[OF Cons.prems(1), of "svc_service_id svc" p t] Cons.prems(2) by simp
  have i: "reg_inv ?s1" "reg_only s ?s1" using b Cons.prems(1) reg_only_bind by auto
  have v: "reg_view ?s1 = (if P svc then (reg_view s)(svc_service_id svc \<mapsto> Route_Local p t) else reg_view s)" using b by auto
  have "\<forall>x \<in> set svcs. P x \<longrightarrow> reg_view ?s1 (svc_service_id x) \<noteq> None" unfolding v using Cons.prems(2) by auto
  from Cons.IH[OF i(1) this] show ?case using i(2) v reg_only_trans by (auto simp: Let_def fun_eq_iff)
qed simp

section \<open>Stopping\<close>

lemma drop_scan_frame:
  "drop_scan c bs s = (kept, s') \<Longrightarrow> g_threads s' = g_threads s \<and> g_comps s' = g_comps s \<and> g_timers s' = g_timers s \<and> core_same s s'"
proof (induction c bs s arbitrary: kept s' rule: drop_scan.induct)
  case (3 c p bs s)
  show ?case
  proof (cases "targets_provider s c p")
    case True
    then have "drop_scan c bs (nos_buffer_release (Some p) s) = (kept, s')" using "3.prems" by simp
    from "3.IH"(1)[OF True this] show ?thesis by (simp add: core_same_def)
  next
    case False
    then show ?thesis using "3.prems" "3.IH"(2)[OF False] by (auto split: prod.splits)
  qed
qed (auto split: prod.splits)

lemma cancel_scan_frame: "cancel_scan c ns s = (kept, s') \<Longrightarrow> g_threads s' = g_threads s \<and> g_comps s' = g_comps s \<and> core_same s s'"
proof (induction c ns s arbitrary: kept s' rule: cancel_scan.induct)
  case (2 c n ns s)
  show ?case
  proof (cases "\<exists>p. n = Some p \<and> owner (get_timer s p) = Some c")
    case True
    then obtain p where p: "n = Some p" "owner (get_timer s p) = Some c" by blast
    then have "cancel_scan c ns (upd_timer p clear_timer s) = (kept, s')" using "2.prems" by simp
    from "2.IH"(2)[OF p this] show ?thesis by (simp add: core_same_def upd_timer_def)
  next
    case False
    then obtain k where "cancel_scan c ns s = (k, s')" using "2.prems" by (auto split: option.splits prod.splits if_splits)
    then show ?thesis using False "2.IH" by (cases n) auto
  qed
qed simp

lemma core_same_thread:
  assumes "\<And>th. components (f th) = components th \<and> component_count (f th) = component_count th"
  shows "core_same s (upd_thread t f s)"
proof -
  have "components (get_thread (upd_thread t f s) u) = components (get_thread s u) \<and> component_count (get_thread (upd_thread t f s) u) = component_count (get_thread s u)"
    if "u < length (g_threads s)" for u
    using that assms by (cases "t = u") (simp_all add: upd_thread_def)
  then show ?thesis by (simp add: core_same_def)
qed

lemma drop_messages_frame:
  "core_same s (nos_scheduler_drop_messages_for_provider ok (Some t) (Some c) s) \<and> g_comps (nos_scheduler_drop_messages_for_provider ok (Some t) (Some c) s) = g_comps s"
proof (cases ok)
  case True
  obtain kept s1 where d: "drop_scan c (queue_items (get_thread s t)) s = (kept, s1)" by fastforce
  note f = drop_scan_frame[OF d]
  let ?u = "\<lambda>th. th\<lparr>msg_queue := kept @ replicate (MAX_QUEUE_SIZE - length kept) None, head := 0, tail := length kept mod MAX_QUEUE_SIZE\<rparr>"
  have "core_same s1 (upd_thread t ?u s1)" by (rule core_same_thread) simp
  then have "core_same s (upd_thread t ?u s1)" using f core_same_trans by blast
  then show ?thesis using f d True by (simp add: nos_scheduler_drop_messages_for_provider_def)
qed (simp add: nos_scheduler_drop_messages_for_provider_def)

lemma cancel_timers_frame:
  "core_same s (nos_scheduler_cancel_timers_by_owner (Some t) (Some c) s) \<and> g_comps (nos_scheduler_cancel_timers_by_owner (Some t) (Some c) s) = g_comps s"
proof -
  obtain kept s1 where d: "cancel_scan c (take (hsize (heap_of s t)) (nodes (heap_of s t))) s = (kept, s1)" by fastforce
  note f = cancel_scan_frame[OF d]
  let ?h = "heap_reset (node_key s1) kept (heap_of s1 t)"
  have "core_same s1 (set_heap t ?h s1)" unfolding set_heap_def by (rule core_same_thread) simp
  then have "core_same s (set_heap t ?h s1)" using f core_same_trans by blast
  then show ?thesis using f d by (simp add: nos_scheduler_cancel_timers_by_owner_def set_heap_def)
qed

text \<open>The operations of the scheduler act on every extension of its state.\<close>

lemma sched_ops_dl [simp]:
  "dl_refs (upd_thread t f s) = dl_refs s" "dl_refs (upd_timer p g s) = dl_refs s" "dl_refs (nos_buffer_release b s) = dl_refs s"
  "dl_refs (notify t s) = dl_refs s" "dl_refs (set_status c st s) = dl_refs s"
proof -
  have b: "dl_refs (upd_bin i f s) = dl_refs s" "dl_refs (upd_buf p g s) = dl_refs s" for i p f g and s :: "'z node_state_scheme"
    by (simp_all add: upd_bin_def upd_buf_def)
  have r: "dl_refs (nos_reply_ctx_release x s) = dl_refs s" for x and s :: "'z node_state_scheme"
    by (simp add: nos_reply_ctx_release_def split: option.splits)
  show "dl_refs (nos_buffer_release b s) = dl_refs s" by (simp add: nos_buffer_release_def Let_def b r split: option.splits)
qed (simp_all add: upd_thread_def upd_timer_def notify_def set_status_def upd_comp_def)

lemma drop_scan_dl: "drop_scan c bs s = (kept, s') \<Longrightarrow> dl_refs s' = dl_refs s"
proof (induction c bs s arbitrary: kept s' rule: drop_scan.induct)
  case (3 c p bs s)
  then show ?case by (cases "targets_provider s c p") (auto split: prod.splits)
qed (auto split: prod.splits)

lemma cancel_scan_dl: "cancel_scan c ns s = (kept, s') \<Longrightarrow> dl_refs s' = dl_refs s"
proof (induction c ns s arbitrary: kept s' rule: cancel_scan.induct)
  case (2 c n ns s)
  then show ?case by (cases "\<exists>p. n = Some p \<and> owner (get_timer s p) = Some c") (auto split: option.splits prod.splits if_splits)
qed simp

lemma stop_instance_tame:
  assumes "tame ld" "li_comp info = Some c"
  shows "entry_tame c s (node_stop_component_instance ld (Some info) s)"
proof -
  let ?s1 = "set_status c NOS_COMP_ST_STOPPED s"
  let ?s2 = "case li_owner_thread info of None \<Rightarrow> ?s1
     | Some t \<Rightarrow> nos_scheduler_cancel_timers_by_owner (Some t) (Some c)
         (nos_scheduler_drop_messages_for_provider (ld_calloc_queue ld) (Some t) (Some c) ?s1)"
  have d: "dl_refs (nos_scheduler_drop_messages_for_provider ok (Some t) (Some c) x) = dl_refs x" for ok t and x :: "'a node_state_scheme"
    by (cases "drop_scan c (queue_items (get_thread x t)) x") (simp add: nos_scheduler_drop_messages_for_provider_def drop_scan_dl)
  have k: "dl_refs (nos_scheduler_cancel_timers_by_owner (Some t) (Some c) x) = dl_refs x" for t and x :: "'a node_state_scheme"
    by (cases "cancel_scan c (take (hsize (heap_of x t)) (nodes (heap_of x t))) x")
      (simp add: nos_scheduler_cancel_timers_by_owner_def cancel_scan_dl set_heap_def)
  have "entry_tame c ?s1 ?s2"
  proof (cases "li_owner_thread info")
    case (Some t)
    let ?d = "nos_scheduler_drop_messages_for_provider (ld_calloc_queue ld) (Some t) (Some c) ?s1"
    have "core_same ?s1 ?d" "g_comps ?d = g_comps ?s1" using drop_messages_frame by blast+
    moreover have "core_same ?d (nos_scheduler_cancel_timers_by_owner (Some t) (Some c) ?d)"
      "g_comps (nos_scheduler_cancel_timers_by_owner (Some t) (Some c) ?d) = g_comps ?d" using cancel_timers_frame by blast+
    ultimately show ?thesis using Some core_same_trans by (simp add: entry_tame_def d k) blast
  qed simp
  then have s2: "entry_tame c s ?s2" by (rule entry_tame_trans[OF entry_tame_status])
  show ?thesis using s2 entry_tame_trans[OF s2 tame_stop[OF assms(1)]] assms(2)
    by (simp add: node_stop_component_instance_def Let_def)
qed

section \<open>The invariant of the node\<close>

definition loaded :: "'z sched_state_scheme \<Rightarrow> loaded_comp_info_t list" where
  "loaded s = take (loaded_count s) (loaded_info s)"

text \<open>A loaded component is allocated and registered on the thread its entry names.\<close>

definition info_ok :: "'z sched_state_scheme \<Rightarrow> loaded_comp_info_t \<Rightarrow> bool" where
  "info_ok s info \<longleftrightarrow> (\<exists>c h t. li_comp info = Some c \<and> li_handle info = Some h \<and> li_owner_thread info = Some t
     \<and> g_comps s c \<noteq> None \<and> t < length (g_threads s) \<and> comps_ok (get_thread s t) \<and> Some c \<in># comp_items (get_thread s t))"

definition node_ok :: "'z sched_state_scheme \<Rightarrow> bool" where
  "node_ok s \<longleftrightarrow> length (loaded_info s) = MAX_COMPONENTS_PER_NODE \<and> loaded_count s \<le> MAX_COMPONENTS_PER_NODE
     \<and> distinct (map li_comp (loaded s)) \<and> (\<forall>info \<in> set (loaded s). info_ok s info)"

lemma comp_items_cong: "components a = components b \<Longrightarrow> component_count a = component_count b \<Longrightarrow> comp_items a = comp_items b \<and> comps_ok a = comps_ok b"
  by (simp add: comp_items_def comps_ok_def)

lemma core_same_comp_items:
  "core_same s s' \<Longrightarrow> t < length (g_threads s) \<Longrightarrow> comp_items (get_thread s' t) = comp_items (get_thread s t) \<and> comps_ok (get_thread s' t) = comps_ok (get_thread s t)"
  by (intro comp_items_cong) (simp_all add: core_same_def)

lemma reg_view_cong:
  assumes "g_service_registry s' = g_service_registry s" "g_service_count s' = g_service_count s"
  shows "reg_view s' = reg_view s" "reg_inv s' = reg_inv s"
  using assms by (simp_all add: reg_view_def find_service_entry_def get_entry_def reg_inv_def fun_eq_iff)

lemma core_same_reg: "core_same s s' \<Longrightarrow> reg_view s' = reg_view s \<and> reg_inv s' = reg_inv s"
  using reg_view_cong[of s' s] by (simp add: core_same_def)

lemma component_ops_frame:
  assumes "nos_scheduler_unregister_component a b s = (r, s') \<or> nos_scheduler_register_component a b s = (r, s')"
  shows "g_comps s' = g_comps s" "g_service_registry s' = g_service_registry s" "g_service_count s' = g_service_count s" "node_def s' = node_def s"
    "loaded_info s' = loaded_info s" "loaded_count s' = loaded_count s" "length (g_threads s') = length (g_threads s)"
  using assms
  by (auto simp: nos_scheduler_unregister_component_def nos_scheduler_register_component_def notify_def Let_def split: option.splits if_splits)

lemma component_ops_dl:
  assumes "nos_scheduler_unregister_component a b s = (r, s') \<or> nos_scheduler_register_component a b s = (r, s')"
  shows "dl_refs s' = dl_refs s"
  using assms
  by (auto simp: nos_scheduler_unregister_component_def nos_scheduler_register_component_def Let_def split: option.splits if_splits)

lemma shift_left_props:
  assumes "k < n" "n \<le> length xs"
  shows "length (shift_left n k xs) = length xs" "take (n - 1) (shift_left n k xs) = take k (take n xs) @ drop (k + 1) (take n xs)"
proof -
  have l: "length (take k xs @ drop (k + 1) (take n xs)) = n - 1" using assms by (simp add: min_absorb2)
  have e: "shift_left n k xs = (take k xs @ drop (k + 1) (take n xs)) @ drop (n - 1) xs" by (simp add: shift_left_def)
  show "length (shift_left n k xs) = length xs" using assms unfolding e length_append[of "take k xs @ _"] l by simp
  have "take (n - 1) (shift_left n k xs) = take k xs @ drop (k + 1) (take n xs)" unfolding e using l by (metis append_eq_conv_conj)
  then show "take (n - 1) (shift_left n k xs) = take k (take n xs) @ drop (k + 1) (take n xs)" using assms by (simp add: min_absorb1)
qed

lemma find_loaded_SomeD:
  "find_loaded_by_name name s = Some k \<Longrightarrow> k < loaded_count s \<and> comp_name (info_comp s (loaded_info s ! k)) = name"
  by (auto simp: find_loaded_by_name_def dest: find_idx_SomeD)

lemma loaded_nth: "node_ok s \<Longrightarrow> k < loaded_count s \<Longrightarrow> k < length (loaded s) \<and> loaded s ! k = loaded_info s ! k \<and> length (loaded s) = loaded_count s"
  by (simp add: node_ok_def loaded_def)

lemma node_ok_remove:
  assumes "node_ok s" "k < loaded_count s" "li_comp (loaded_info s ! k) = Some c"
    and "length (loaded_info s') = MAX_COMPONENTS_PER_NODE" "loaded_count s' \<le> MAX_COMPONENTS_PER_NODE" "loaded s' = take k (loaded s) @ drop (k + 1) (loaded s)"
    and "\<And>d. d \<noteq> c \<Longrightarrow> g_comps s' d = g_comps s d" "length (g_threads s') = length (g_threads s)"
    and thr: "\<And>u. u < length (g_threads s) \<Longrightarrow> comps_ok (get_thread s u) \<Longrightarrow> comps_ok (get_thread s' u) \<and> (\<forall>d. d \<noteq> c \<longrightarrow> Some d \<in># comp_items (get_thread s u) \<longrightarrow> Some d \<in># comp_items (get_thread s' u))"
  shows "node_ok s'"
proof -
  have k: "k < length (loaded s)" "loaded s ! k = loaded_info s ! k" using loaded_nth[OF assms(1,2)] by auto
  have split: "loaded s = take k (loaded s) @ loaded s ! k # drop (k + 1) (loaded s)" using k(1) by (simp add: id_take_nth_drop)
  have d: "distinct (map li_comp (take k (loaded s) @ loaded s ! k # drop (k + 1) (loaded s)))" using assms(1) split by (metis node_ok_def)
  have "info_ok s' info" if i: "info \<in> set (loaded s')" for info
  proof -
    have m: "info \<in> set (loaded s)" using i assms(6) by (auto dest: in_set_takeD in_set_dropD)
    then have "info_ok s info" using assms(1) by (simp add: node_ok_def)
    moreover have "Some c \<notin> li_comp ` set (loaded s')" using d assms(3,6) k(2) by auto
    then have "li_comp info \<noteq> Some c" using imageI[OF i, of li_comp] by metis
    ultimately show ?thesis using assms(7,8) thr unfolding info_ok_def by fastforce
  qed
  then show ?thesis using assms(4-6) d by (simp add: node_ok_def)
qed

section \<open>Unloading\<close>

text \<open>The services that the node definition gives to a component on this node.\<close>

definition provided :: "nos_node_def_t \<Rightarrow> u32 \<Rightarrow> u32 \<Rightarrow> bool" where
  "provided nd i sid \<longleftrightarrow> (\<exists>svc \<in> set (node_services nd). provides nd i svc \<and> svc_service_id svc = sid)"

lemma unregister_providers_spec:
  assumes "reg_inv s" "node_def s = Some nd"
  shows "reg_inv (node_unregister_local_providers i s)" "reg_only s (node_unregister_local_providers i s)"
    "reg_view (node_unregister_local_providers i s) = (\<lambda>sid. if provided nd i sid then None else reg_view s sid)"
  using unregister_fold[OF assms(1), of "provides nd i" "node_services nd"] assms(2)
  by (auto simp: node_unregister_local_providers_def provided_def Let_def)

lemma unload_spec:
  assumes "tame ld" "reg_inv s" "node_ok s" "node_def s = Some nd" "find_loaded_by_name name s = Some k"
    and c: "li_comp (loaded_info s ! k) = Some c" "li_handle (loaded_info s ! k) = Some h" "li_owner_thread (loaded_info s ! k) = Some t"
  shows "\<exists>s'. node_unload_component ld name s = (NOS_OK, s') \<and> node_ok s' \<and> reg_inv s' \<and> g_comps s' = (g_comps s)(c := None)
    \<and> dl_refs s' = (dl_refs s)(h := dl_refs s h - 1) \<and> loaded s' = take k (loaded s) @ drop (k + 1) (loaded s)
    \<and> comp_items (get_thread s' t) = comp_items (get_thread s t) - {#Some c#}
    \<and> (\<forall>u < length (g_threads s). u \<noteq> t \<longrightarrow> comp_items (get_thread s' u) = comp_items (get_thread s u))
    \<and> reg_view s' = (\<lambda>sid. if provided nd (comp_id (get_comp s c)) sid then None else reg_view s sid)"
proof -
  let ?info = "loaded_info s ! k"
  have k: "k < loaded_count s" using find_loaded_SomeD[OF assms(5)] by simp
  then have "?info \<in> set (loaded s)" using loaded_nth[OF assms(3)] by (metis nth_mem)
  then have io: "t < length (g_threads s)" "comps_ok (get_thread s t)" "Some c \<in># comp_items (get_thread s t)"
    using assms(3) c by (auto simp: node_ok_def info_ok_def)
  obtain s1 where s1: "nos_scheduler_unregister_component (Some t) (Some c) s = (NOS_OK, s1)" "comps_ok (get_thread s1 t)"
      "comp_items (get_thread s1 t) = comp_items (get_thread s t) - {#Some c#}" "\<And>u. u \<noteq> t \<Longrightarrow> get_thread s1 u = get_thread s u"
    using unregister_component_spec[OF io] by blast
  note f1 = component_ops_frame[OF disjI1[OF s1(1)]] and d1 = component_ops_dl[OF disjI1[OF s1(1)]]
  define i where "i = comp_id (get_comp s c)"
  have i: "comp_id (info_comp s1 ?info) = i" using c(1) f1(1) by (simp add: info_comp_def get_comp_def i_def)
  define s2 where "s2 = node_unregister_local_providers i s1"
  have r1: "reg_inv s1" "reg_view s1 = reg_view s" using reg_view_cong[OF f1(2,3)] assms(2) by simp_all
  have nd1: "node_def s1 = Some nd" using f1(4) assms(4) by simp
  note r2 = unregister_providers_spec[OF r1(1) nd1, of i, folded s2_def] and g2 = reg_onlyD[OF r2(2)] and d2 = reg_only_dl[OF r2(2)]
  define s3 where "s3 = node_stop_component_instance ld (Some ?info) s2"
  have t3: "entry_tame c s2 s3" unfolding s3_def by (rule stop_instance_tame[OF assms(1) c(1)])
  define s4 where "s4 = node_destroy_loaded_component ld (Some c) (Some h) s3"
  note t4 = destroy_spec[OF assms(1), where s = s3 and c = c and h = h, folded s4_def]
  have cs: "core_same s2 s4" using t3 t4(1) core_same_trans by (auto simp: entry_tame_def)
  define s5 where "s5 = s4\<lparr>loaded_info := shift_left (loaded_count s4) k (loaded_info s4), loaded_count := loaded_count s4 - 1\<rparr>"
  have run: "node_unload_component ld name s = (NOS_OK, s5)"
    using assms(5) c s1(1) i by (simp add: node_unload_component_def Let_def s2_def s3_def s4_def s5_def)
  have li: "loaded_info s4 = loaded_info s" "loaded_count s4 = loaded_count s" "length (g_threads s4) = length (g_threads s)"
    using cs g2 f1 by (simp_all add: core_same_def)
  have len: "loaded_count s \<le> length (loaded_info s)" "length (loaded_info s) = MAX_COMPONENTS_PER_NODE" "loaded_count s \<le> MAX_COMPONENTS_PER_NODE"
    using assms(3) by (simp_all add: node_ok_def)
  note sh = shift_left_props[OF k len(1)]
  have ld5: "loaded s5 = take k (loaded s) @ drop (k + 1) (loaded s)" using sh(2) by (simp add: loaded_def s5_def li)
  have comps: "g_comps s5 = (g_comps s)(c := None)" using t3 t4(2) g2(1) f1(1) by (auto simp: s5_def entry_tame_def fun_eq_iff)
  have th: "comp_items (get_thread s5 u) = comp_items (get_thread s1 u) \<and> comps_ok (get_thread s5 u) = comps_ok (get_thread s1 u)"
    if "u < length (g_threads s)" for u
    using core_same_comp_items[OF cs, of u] that g2(2) f1(7) by (simp add: s5_def)
  have rv: "reg_view s5 = reg_view s2" "reg_inv s5"
    using core_same_reg[OF cs] r2(1) reg_view_cong[of s5 s4] by (simp_all add: s5_def)
  have dl: "dl_refs s5 = (dl_refs s)(h := dl_refs s h - 1)" using t3 t4(3) d1 d2 by (simp add: s5_def entry_tame_def)
  have "node_ok s5"
  proof (rule node_ok_remove[OF assms(3) k c(1) _ _ ld5])
    show "length (loaded_info s5) = MAX_COMPONENTS_PER_NODE" "loaded_count s5 \<le> MAX_COMPONENTS_PER_NODE" "length (g_threads s5) = length (g_threads s)"
      using sh(1) len li by (simp_all add: s5_def)
    fix u assume u: "u < length (g_threads s)" "comps_ok (get_thread s u)"
    then have "comps_ok (get_thread s5 u)" using th[OF u(1)] s1(2) s1(4)[of u] by (cases "u = t") auto
    moreover have "Some d \<in># comp_items (get_thread s5 u)" if "d \<noteq> c" "Some d \<in># comp_items (get_thread s u)" for d
      using th[OF u(1)] s1(3) s1(4)[of u] that by (cases "u = t") (auto simp: in_diff_count)
    ultimately show "comps_ok (get_thread s5 u) \<and> (\<forall>d. d \<noteq> c \<longrightarrow> Some d \<in># comp_items (get_thread s u) \<longrightarrow> Some d \<in># comp_items (get_thread s5 u))" by blast
  qed (simp add: comps)
  then show ?thesis
    using run rv r2(3) r1(2) comps dl ld5 th[OF io(1)] s1(3) th s1(4) unfolding i_def by auto
qed

section \<open>Reloading\<close>

lemma register_providers_spec:
  assumes "reg_inv s" "node_def s = Some nd" "\<forall>sid. provided nd i sid \<longrightarrow> reg_view s sid \<noteq> None"
  shows "reg_inv (node_register_local_providers i p t s)" "reg_only s (node_register_local_providers i p t s)"
    "reg_view (node_register_local_providers i p t s) = (\<lambda>sid. if provided nd i sid then Some (Route_Local p t) else reg_view s sid)"
proof -
  have "\<forall>svc \<in> set (node_services nd). provides nd i svc \<longrightarrow> reg_view s (svc_service_id svc) \<noteq> None" using assms(3) by (auto simp: provided_def)
  from register_fold[OF assms(1) this, of p t] assms(2)
  show "reg_inv (node_register_local_providers i p t s)" "reg_only s (node_register_local_providers i p t s)"
    "reg_view (node_register_local_providers i p t s) = (\<lambda>sid. if provided nd i sid then Some (Route_Local p t) else reg_view s sid)"
    by (auto simp: node_register_local_providers_def provided_def Let_def)
qed

lemma node_ok_replace:
  assumes "node_ok s" "k < loaded_count s" "li_comp (loaded_info s ! k) = Some c" "g_comps s c' = None"
    and "loaded_info s' = (loaded_info s)[k := info']" "loaded_count s' = loaded_count s" "li_comp info' = Some c'" "info_ok s' info'"
    and "\<And>d. d \<noteq> c \<Longrightarrow> d \<noteq> c' \<Longrightarrow> g_comps s' d = g_comps s d" "length (g_threads s') = length (g_threads s)"
    and thr: "\<And>u. u < length (g_threads s) \<Longrightarrow> comps_ok (get_thread s u) \<Longrightarrow> comps_ok (get_thread s' u) \<and> (\<forall>d. d \<noteq> c \<longrightarrow> Some d \<in># comp_items (get_thread s u) \<longrightarrow> Some d \<in># comp_items (get_thread s' u))"
  shows "node_ok s'"
proof -
  have ld: "loaded s' = (loaded s)[k := info']" using assms(5,6) by (simp add: loaded_def take_update_swap)
  note k = loaded_nth[OF assms(1,2)]
  have d: "distinct (map li_comp (loaded s))" and ok: "\<And>info. info \<in> set (loaded s) \<Longrightarrow> info_ok s info" using assms(1) by (auto simp: node_ok_def)
  have new: "li_comp info \<noteq> Some c'" if "info \<in> set (loaded s)" for info using ok[OF that] assms(4) by (auto simp: info_ok_def)
  have other: "info_ok s' (loaded s ! j)" if j: "j < loaded_count s" "j \<noteq> k" for j
  proof -
    have m: "loaded s ! j \<in> set (loaded s)" using j k by simp
    have "li_comp (loaded s ! j) \<noteq> Some c"
      using nth_eq_iff_index_eq[OF d, of j k] j k assms(3) by simp
    then show ?thesis using ok[OF m] new[OF m] assms(9,10) thr unfolding info_ok_def by fastforce
  qed
  have "info_ok s' info" if "info \<in> set (loaded s')" for info
    using that other assms(8) k unfolding ld by (auto simp: in_set_conv_nth nth_list_update split: if_splits)
  moreover have "Some c' \<notin> set (map li_comp (loaded s))" using new by fastforce
  then have "distinct (map li_comp (loaded s'))"
    unfolding ld map_update assms(7) using d by (intro distinct_list_update) auto
  ultimately show ?thesis using assms(1,5,6) by (simp add: node_ok_def)
qed

lemma reload_spec:
  assumes "tame ld" "reg_inv s" "node_ok s" "node_def s = Some nd" "find_loaded_by_name name s = Some k"
    and c: "li_comp (loaded_info s ! k) = Some c" "li_handle (loaded_info s ! k) = Some h" "li_owner_thread (loaded_info s ! k) = Some t"
    and i: "i = comp_id (get_comp s c)"
    and st: "node_load_component_staged ld i name (li_lib_name (loaded_info s ! k)) s = (Some (c', h'), s1)"
    and bound: "\<forall>sid. provided nd i sid \<longrightarrow> reg_view s sid \<noteq> None"
  shows "\<exists>s'. node_reload_component ld name s = (NOS_OK, s') \<and> node_ok s' \<and> reg_inv s'
    \<and> g_comps s' = (g_comps s)(c := None, c' := g_comps s1 c') \<and> comp_status (get_comp s' c') = NOS_COMP_ST_INITED
    \<and> dl_refs s' = (dl_refs s1)(h := dl_refs s1 h - 1)
    \<and> loaded s' = (loaded s)[k := (loaded_info s ! k)\<lparr>li_comp := Some c', li_handle := Some h'\<rparr>]
    \<and> comp_items (get_thread s' t) = add_mset (Some c') (comp_items (get_thread s t) - {#Some c#})
    \<and> reg_view s' = (\<lambda>sid. if provided nd i sid then Some (Route_Local (Some c') (Some t)) else reg_view s sid)"
proof -
  let ?info = "loaded_info s ! k" and ?n = "(loaded_info s ! k)\<lparr>li_comp := Some c', li_handle := Some h'\<rparr>"
  have k: "k < loaded_count s" using find_loaded_SomeD[OF assms(5)] by simp
  then have "?info \<in> set (loaded s)" using loaded_nth[OF assms(3)] by (metis nth_mem)
  then have io: "t < length (g_threads s)" "comps_ok (get_thread s t)" "Some c \<in># comp_items (get_thread s t)" "g_comps s c \<noteq> None"
    using assms(3) c by (auto simp: node_ok_def info_ok_def)
  from staged_load_spec[OF assms(1) st] have s1: "core_same s s1" "g_comps s c' = None" "\<And>d. d \<noteq> c' \<Longrightarrow> g_comps s1 d = g_comps s d"
    "\<exists>x. g_comps s1 c' = Some x \<and> comp_status x = NOS_COMP_ST_INITED" by auto
  have ne: "c' \<noteq> c" using s1(2) io(4) by auto
  have th1: "t < length (g_threads s1)" "comps_ok (get_thread s1 t)" "Some c \<in># comp_items (get_thread s1 t)"
    using core_same_comp_items[OF s1(1) io(1)] io s1(1) by (auto simp: core_same_def)
  have li1: "loaded_info s1 = loaded_info s" "loaded_count s1 = loaded_count s" "node_def s1 = Some nd" using s1(1) assms(4) by (auto simp: core_same_def)
  obtain s2 where s2: "nos_scheduler_unregister_component (Some t) (Some c) s1 = (NOS_OK, s2)" "comps_ok (get_thread s2 t)"
      "comp_items (get_thread s2 t) = comp_items (get_thread s1 t) - {#Some c#}" "component_count (get_thread s2 t) < MAX_COMP_PER_THREAD"
      "\<And>u. u \<noteq> t \<Longrightarrow> get_thread s2 u = get_thread s1 u"
    using unregister_component_spec[OF th1] by blast
  note f2 = component_ops_frame[OF disjI1[OF s2(1)]] and d2 = component_ops_dl[OF disjI1[OF s2(1)]]
  obtain s3 where s3: "nos_scheduler_register_component (Some t) (Some c') s2 = (NOS_OK, s3)" "comps_ok (get_thread s3 t)"
      "comp_items (get_thread s3 t) = add_mset (Some c') (comp_items (get_thread s2 t))" "\<And>u. u \<noteq> t \<Longrightarrow> get_thread s3 u = get_thread s2 u"
    using register_component_spec[OF _ s2(2,4), of c'] th1(1) f2(7) by auto
  note f3 = component_ops_frame[OF disjI2[OF s3(1)]] and d3 = component_ops_dl[OF disjI2[OF s3(1)]]
  define s4 where "s4 = s3\<lparr>loaded_info := (loaded_info s3)[k := ?n]\<rparr>"
  have r4: "reg_inv s4" "reg_view s4 = reg_view s" "node_def s4 = Some nd"
    using reg_view_cong[of s4 s] s1(1) f2 f3 assms(2,4) by (auto simp: s4_def core_same_def)
  have b4: "\<forall>sid. provided nd i sid \<longrightarrow> reg_view s4 sid \<noteq> None" using bound r4(2) by simp
  define s5 where "s5 = node_register_local_providers i (Some c') (Some t) s4"
  note r5 = register_providers_spec[OF r4(1,3) b4, of "Some c'" "Some t", folded s5_def] and g5 = reg_onlyD[OF r5(2)] and d5 = reg_only_dl[OF r5(2)]
  define s6 where "s6 = node_stop_component_instance ld (Some ?info) s5"
  have t6: "entry_tame c s5 s6" unfolding s6_def by (rule stop_instance_tame[OF assms(1) c(1)])
  define s7 where "s7 = dlclose (Some h) (free_comp c s6)"
  have new: "\<lparr>li_comp = Some c', li_handle = Some h', li_lib_name = li_lib_name ?info, li_owner_thread = Some t\<rparr> = ?n"
    "\<lparr>li_comp = Some c, li_handle = Some h, li_lib_name = li_lib_name ?info, li_owner_thread = Some t\<rparr> = ?info"
    using c by (cases ?info; simp)+
  have i': "comp_id (info_comp s ?info) = i" using c(1) by (simp add: info_comp_def i)
  have run: "node_reload_component ld name s = (NOS_OK, s7)"
    using assms(5) st i' s2(1) s3(1) c
    by (simp add: node_reload_component_def swap_component_def Let_def li1 new s4_def[symmetric] s5_def[symmetric] s6_def[symmetric] s7_def[symmetric])
  have cs: "core_same s5 s7" using t6 by (simp add: s7_def entry_tame_def)
  have th: "comp_items (get_thread s7 u) = comp_items (get_thread s3 u) \<and> comps_ok (get_thread s7 u) = comps_ok (get_thread s3 u)"
    if "u < length (g_threads s)" for u
    using core_same_comp_items[OF cs, of u] that g5(2) f2(7) f3(7) s1(1) by (simp add: s4_def core_same_def)
  have li7: "loaded_info s7 = (loaded_info s)[k := ?n]" "loaded_count s7 = loaded_count s" "length (g_threads s7) = length (g_threads s)"
    using cs g5 f2 f3 li1 s1(1) by (simp_all add: core_same_def s4_def)
  have gc: "g_comps s7 = (g_comps s)(c := None, c' := g_comps s1 c')"
    using t6 g5(1) f2(1) f3(1) s1(3) ne by (auto simp: s7_def s4_def entry_tame_def fun_eq_iff)
  have it: "comp_items (get_thread s7 t) = add_mset (Some c') (comp_items (get_thread s t) - {#Some c#})"
    using th[OF io(1)] s3(3) s2(3) core_same_comp_items[OF s1(1) io(1)] by simp
  have nok: "node_ok s7"
  proof (rule node_ok_replace[OF assms(3) k c(1) s1(2) li7(1,2)])
    show "li_comp ?n = Some c'" by simp
    have "Some c' \<in># comp_items (get_thread s7 t)" unfolding it by simp
    then show "info_ok s7 ?n" using c io(1) li7(3) gc s1(4) th[OF io(1)] s3(2) by (auto simp: info_ok_def)
    show "length (g_threads s7) = length (g_threads s)" by (fact li7(3))
    show "g_comps s7 d = g_comps s d" if "d \<noteq> c" "d \<noteq> c'" for d using gc that by simp
    fix u assume u: "u < length (g_threads s)" "comps_ok (get_thread s u)"
    note cu = core_same_comp_items[OF s1(1) u(1)]
    have "comps_ok (get_thread s7 u)" using th[OF u(1)] s3(2) s3(4)[of u] s2(5)[of u] cu u(2) by (cases "u = t") auto
    moreover have "Some d \<in># comp_items (get_thread s7 u)" if "d \<noteq> c" "Some d \<in># comp_items (get_thread s u)" for d
    proof (cases "u = t")
      case True
      show ?thesis unfolding True it using that True by (auto simp: in_diff_count)
    next
      case False
      then show ?thesis using th[OF u(1)] s3(4)[of u] s2(5)[of u] cu that by auto
    qed
    ultimately show "comps_ok (get_thread s7 u) \<and> (\<forall>d. d \<noteq> c \<longrightarrow> Some d \<in># comp_items (get_thread s u) \<longrightarrow> Some d \<in># comp_items (get_thread s7 u))" by blast
  qed
  have ld: "loaded s7 = (loaded s)[k := ?n]" using li7 by (simp add: loaded_def take_update_swap)
  have stt: "comp_status (get_comp s7 c') = NOS_COMP_ST_INITED" using gc s1(4) by (auto simp: get_comp_def)
  have dl: "dl_refs s7 = (dl_refs s1)(h := dl_refs s1 h - 1)" using t6 d2 d3 d5 by (simp add: s7_def s4_def entry_tame_def)
  have rv: "reg_view s7 = reg_view s5" "reg_inv s7" using core_same_reg[OF cs] r5(1) by simp_all
  show ?thesis using run nok rv r5(3) r4(2) gc stt dl ld it by auto
qed

section \<open>Routing\<close>

text \<open>The route that the start-up gives to a service, if any.\<close>

definition planned_route :: "string \<Rightarrow> 'z sched_state_scheme \<Rightarrow> nos_service_def_t \<Rightarrow> route option" where
  "planned_route current s svc =
    (if svc_node_name svc = current then
       (case (node_get_loaded_comp_by_id s (svc_provider_comp_id svc), find_owner_worker s (svc_provider_comp_id svc)) of
          (Some p, Some t) \<Rightarrow> Some (Route_Local (Some p) (Some t))
        | _ \<Rightarrow> None)
     else (case svc_remote_uds_path svc of
         None \<Rightarrow> None
       | Some u \<Rightarrow> if u = [] then None else Some (Route_Remote (svc_node_name svc) u)))"

definition svc_names_fit :: "nos_service_def_t \<Rightarrow> bool" where
  "svc_names_fit svc \<longleftrightarrow> length (svc_node_name svc) \<le> 31 \<and> (case svc_remote_uds_path svc of None \<Rightarrow> True | Some u \<Rightarrow> length u \<le> 107)"

lemma remote_view:
  assumes "reg_inv s" "reg_view s sid \<noteq> None \<or> card (dom (reg_view s)) < MAX_SERVICES" "length n \<le> 31" "length u \<le> 107"
  shows "reg_inv (snd (nos_service_register_remote sid (Some n) u s))
    \<and> reg_view (snd (nos_service_register_remote sid (Some n) u s)) = (reg_view s)(sid \<mapsto> Route_Remote n u)"
  using registry.put_room[OF assms(1) _ _ assms(2), of "Route_Remote n u"] assms(3,4) by (auto simp: register_route_def ok_route_def split: prod.splits)

lemma planned_cong: "reg_only s s' \<Longrightarrow> planned_route current s' svc = planned_route current s svc"
proof -
  assume r: "reg_only s s'"
  have g: "get_comp s' = get_comp s" using reg_onlyD(1)[OF r] by (auto simp: get_comp_def fun_eq_iff)
  show ?thesis unfolding planned_route_def node_get_loaded_comp_by_id_def find_owner_worker_def thread_has_id_def info_comp_def g reg_onlyD[OF r] by (rule refl)
qed

lemma route_service_spec:
  assumes "reg_inv s" "reg_view s (svc_service_id svc) \<noteq> None \<or> card (dom (reg_view s)) < MAX_SERVICES" "svc_names_fit svc"
  shows "reg_inv (route_service current svc s) \<and> reg_only s (route_service current svc s)
    \<and> reg_view (route_service current svc s) = (case planned_route current s svc of None \<Rightarrow> reg_view s | Some r \<Rightarrow> (reg_view s)(svc_service_id svc \<mapsto> r))"
proof (cases "svc_node_name svc = current")
  case True
  then show ?thesis using assms(1) bind_view[OF assms(1,2)] reg_only_bind
    by (auto simp: route_service_def planned_route_def split: option.splits)
next
  case False
  show ?thesis
  proof (cases "svc_remote_uds_path svc")
    case None
    then show ?thesis using False assms(1) by (simp add: route_service_def planned_route_def)
  next
    case (Some u)
    then show ?thesis using False assms(1,3) remote_view[OF assms(1,2), of "svc_node_name svc" u] reg_only_remote
      by (auto simp: route_service_def planned_route_def svc_names_fit_def)
  qed
qed

lemma route_fold:
  assumes "reg_inv s" "card (dom (reg_view s)) + length svcs \<le> MAX_SERVICES" "\<forall>svc \<in> set svcs. svc_names_fit svc"
    and "distinct (map svc_service_id svcs)"
  shows "let s' = fold (route_service current) svcs s in reg_inv s' \<and> reg_only s s'
    \<and> (\<forall>svc \<in> set svcs. planned_route current s svc \<noteq> None \<longrightarrow> reg_view s' (svc_service_id svc) = planned_route current s svc)
    \<and> (\<forall>svc \<in> set svcs. planned_route current s svc = None \<longrightarrow> reg_view s' (svc_service_id svc) = reg_view s (svc_service_id svc))
    \<and> (\<forall>sid. sid \<notin> svc_service_id ` set svcs \<longrightarrow> reg_view s' sid = reg_view s sid)"
  using assms
proof (induction svcs arbitrary: s)
  case (Cons svc svcs)
  let ?s1 = "route_service current svc s"
  have r: "reg_inv ?s1" "reg_only s ?s1"
    and v: "reg_view ?s1 = (case planned_route current s svc of None \<Rightarrow> reg_view s | Some r \<Rightarrow> (reg_view s)(svc_service_id svc \<mapsto> r))"
    using route_service_spec[OF Cons.prems(1), of svc current] Cons.prems(2,3) by auto
  have fin: "finite (dom (reg_view s))" using registry.dom_bound[OF Cons.prems(1)] by simp
  have "card (dom (reg_view ?s1)) \<le> card (dom (reg_view s)) + 1"
    unfolding v using card_insert_le_m1 fin by (auto split: option.splits simp: card_insert_if)
  then have c: "card (dom (reg_view ?s1)) + length svcs \<le> MAX_SERVICES" using Cons.prems(2) by simp
  have fits: "\<forall>svc \<in> set svcs. svc_names_fit svc" and dis: "distinct (map svc_service_id svcs)" and nin: "svc_service_id svc \<notin> svc_service_id ` set svcs"
    using Cons.prems(3,4) by auto
  note IH = Cons.IH[OF r(1) c fits dis, unfolded Let_def]
  have p: "planned_route current ?s1 x = planned_route current s x" for x by (rule planned_cong[OF r(2)])
  have same: "reg_view ?s1 sid = reg_view s sid" if "sid \<noteq> svc_service_id svc" for sid using v that by (auto split: option.splits)
  have hd: "reg_view (fold (route_service current) svcs ?s1) (svc_service_id svc) =
      (if planned_route current s svc = None then reg_view s (svc_service_id svc) else planned_route current s svc)"
    using IH nin v by (auto split: option.splits)
  have tl: "reg_view ?s1 (svc_service_id x) = reg_view s (svc_service_id x)" if "x \<in> set svcs" for x using same nin that by (metis imageI)
  show ?case using IH p hd tl same reg_only_trans[OF r(2)] by (auto simp: Let_def)
qed simp


section \<open>Properties\<close>

lemma node_ok_infoE:
  assumes "node_ok s" "find_loaded_by_name name s = Some k"
  obtains c h t where "li_comp (loaded_info s ! k) = Some c" "li_handle (loaded_info s ! k) = Some h" "li_owner_thread (loaded_info s ! k) = Some t"
proof -
  have "k < loaded_count s" using find_loaded_SomeD[OF assms(2)] by simp
  then have "loaded_info s ! k \<in> set (loaded s)" using loaded_nth[OF assms(1)] by (metis nth_mem)
  then show ?thesis using assms(1) that by (auto simp: node_ok_def info_ok_def)
qed


text \<open>C10.  Reloading is all or nothing.  When the new library cannot be loaded, exported or initialised, the
  call fails and the services, the table, the component lists, the components and the library references
  are what they were.  Otherwise the new instance takes the place of the old one everywhere: in the table,
  on the thread and in the routes of its services; the old one is freed and its library reference given
  back.\<close>

theorem node_reload_atomic:
  assumes "tame ld" "reg_inv s" "node_ok s" "node_def s = Some nd" "find_loaded_by_name name s = Some k"
    and "c = the (li_comp (loaded_info s ! k))" "i = comp_id (get_comp s c)"
    and "\<forall>sid. provided nd i sid \<longrightarrow> reg_view s sid \<noteq> None"
    and "node_load_component_staged ld i name (li_lib_name (loaded_info s ! k)) s = (r, s1)"
  shows "case r of
      None \<Rightarrow> node_reload_component ld name s = (NOS_ERR, s1) \<and> core_same s s1 \<and> g_comps s1 = g_comps s \<and> dl_refs s1 = dl_refs s
    | Some (c', h') \<Rightarrow> (\<exists>s' h t. node_reload_component ld name s = (NOS_OK, s') \<and> node_ok s' \<and> reg_inv s'
         \<and> li_handle (loaded_info s ! k) = Some h \<and> li_owner_thread (loaded_info s ! k) = Some t
         \<and> g_comps s' = (g_comps s)(c := None, c' := g_comps s1 c') \<and> comp_status (get_comp s' c') = NOS_COMP_ST_INITED
         \<and> dl_refs s' = (dl_refs s1)(h := dl_refs s1 h - 1)
         \<and> loaded s' = (loaded s)[k := (loaded_info s ! k)\<lparr>li_comp := Some c', li_handle := Some h'\<rparr>]
         \<and> comp_items (get_thread s' t) = add_mset (Some c') (comp_items (get_thread s t) - {#Some c#})
         \<and> reg_view s' = (\<lambda>sid. if provided nd i sid then Some (Route_Local (Some c') (Some t)) else reg_view s sid))"
proof -
  obtain h t where c: "li_comp (loaded_info s ! k) = Some c" "li_handle (loaded_info s ! k) = Some h" "li_owner_thread (loaded_info s ! k) = Some t"
    using node_ok_infoE[OF assms(3,5)] assms(6) by (metis option.sel)
  show ?thesis
  proof (cases r)
    case None
    have "comp_id (info_comp s (loaded_info s ! k)) = i" using c(1) assms(7) by (simp add: info_comp_def)
    then have "node_reload_component ld name s = (NOS_ERR, s1)" using assms(5,9) None by (simp add: node_reload_component_def Let_def)
    then show ?thesis using staged_load_spec[OF assms(1,9)] None by simp
  next
    case (Some x)
    obtain c' h' where x: "x = (c', h')" by (cases x)
    have st: "node_load_component_staged ld i name (li_lib_name (loaded_info s ! k)) s = (Some (c', h'), s1)" using assms(9) Some x by simp
    show ?thesis using reload_spec[OF assms(1-5) c assms(7) st assms(8)] Some x c(2,3) by auto
  qed
qed

subsection \<open>A concrete node\<close>

definition demo_nd :: nos_node_def_t where
  "demo_nd = \<lparr>node_name = ''n1'', node_uds_path = ''/tmp/n1'', node_buffer_pools = [], node_threads = [],
     node_services = [\<lparr>svc_name = ''a'', svc_service_id = 7, svc_node_name = ''n1'', svc_provider_comp_id = 9, svc_remote_uds_path = None, svc_status = NOS_SVC_ST_ACTIVE\<rparr>,
       \<lparr>svc_name = ''b'', svc_service_id = 8, svc_node_name = ''n2'', svc_provider_comp_id = 3, svc_remote_uds_path = Some ''/tmp/n2'', svc_status = NOS_SVC_ST_ACTIVE\<rparr>],
     node_busy_poll_cycles = 0\<rparr>"

definition demo_info :: loaded_comp_info_t where
  "demo_info = \<lparr>li_comp = Some 5, li_handle = Some 2, li_lib_name = ''c1.so'', li_owner_thread = Some 0\<rparr>"

definition demo_base :: sched_state where
  "demo_base = demo_sched\<lparr>g_comps := [5 \<mapsto> null_component\<lparr>comp_id := 9, comp_name := ''c1'', comp_status := NOS_COMP_ST_ACTIVE, comp_stop := Some 4\<rparr>],
     g_threads := [(get_thread demo_sched 0)\<lparr>components := (replicate MAX_COMP_PER_THREAD None)[0 := Some 5], component_count := 1\<rparr>],
     g_service_registry := (replicate 64 null_entry)[0 := null_entry\<lparr>service_id := 7, local_provider := Some 5, local_thread := Some 0\<rparr>],
     g_service_count := 1, node_def := Some demo_nd,
     loaded_info := (replicate MAX_COMPONENTS_PER_NODE null_info)[0 := demo_info], loaded_count := 1\<rparr>"

definition demo_ns :: node_state where
  "demo_ns = sched_state.extend demo_base \<lparr>dl_refs = (\<lambda>_. 0)(2 := 1)\<rparr>"

definition demo_loader :: "'z node_state_scheme loader" where
  "demo_loader = \<lparr>ld_readable = (\<lambda>_. True), ld_dlopen = (\<lambda>_. Some 3), ld_dlsym = (\<lambda>_. Some 1),
     ld_alloc = (\<lambda>s. if g_comps s 6 = None then Some 6 else None), ld_calloc_queue = True,
     ld_export = (\<lambda>f c s. (NOS_OK, s)), ld_init = (\<lambda>f c s. (NOS_OK, s)), ld_stop = (\<lambda>f c s. s)\<rparr>"

lemma demo_loader_tame: "tame demo_loader"
  by (simp add: tame_def demo_loader_def split: if_splits)

lemma demo_ns_fields:
  "loaded_info demo_ns = (replicate MAX_COMPONENTS_PER_NODE null_info)[0 := demo_info]" "loaded_count demo_ns = 1" "node_def demo_ns = Some demo_nd"
  "g_comps demo_ns = [5 \<mapsto> null_component\<lparr>comp_id := 9, comp_name := ''c1'', comp_status := NOS_COMP_ST_ACTIVE, comp_stop := Some 4\<rparr>]"
  "g_service_registry demo_ns = (replicate 64 null_entry)[0 := null_entry\<lparr>service_id := 7, local_provider := Some 5, local_thread := Some 0\<rparr>]"
  "g_service_count demo_ns = 1" "length (g_threads demo_ns) = 1" "dl_refs demo_ns = (\<lambda>_. 0)(2 := 1)"
  "components (get_thread demo_ns 0) = (replicate MAX_COMP_PER_THREAD None)[0 := Some 5]" "component_count (get_thread demo_ns 0) = 1"
  "worker_threads demo_ns = [0]"
  by (simp_all add: demo_ns_def demo_base_def sched_state.defs demo_sched_def nos_scheduler_init_thread_def boot_state_def)

lemma demo_loaded: "loaded demo_ns = [demo_info]"
  unfolding loaded_def demo_ns_fields(1,2) MAX_COMPONENTS_PER_NODE_def
  by (simp add: take_Suc_conv_app_nth)

lemma demo_ns_ok: "node_ok demo_ns" "reg_inv demo_ns"
proof -
  note l = demo_loaded
  have "info_ok demo_ns demo_info"
    by (simp add: info_ok_def demo_info_def demo_ns_fields comps_ok_def comp_items_def MAX_COMP_PER_THREAD_def take_Suc_conv_app_nth)
  then show "node_ok demo_ns" unfolding node_ok_def l by (simp add: demo_ns_fields MAX_COMPONENTS_PER_NODE_def)
  show "reg_inv demo_ns" by (simp add: reg_inv_def demo_ns_fields MAX_SERVICES_def take_Suc_conv_app_nth)
qed

lemma demo_ns_find: "find_loaded_by_name ''c1'' demo_ns = Some 0"
  by (simp add: find_loaded_by_name_def find_idx_def demo_ns_fields info_comp_def get_comp_def demo_info_def MAX_COMPONENTS_PER_NODE_def)


lemma demo_view: "reg_view demo_ns = [7 \<mapsto> Route_Local (Some 5) (Some 0)]"
  by (simp add: reg_view_def find_service_entry_def find_idx_def demo_ns_fields get_entry_def fun_eq_iff entry_route_def null_entry_def)

theorem node_reload_atomic_witness:
  "\<exists>s'. node_reload_component demo_loader ''c1'' demo_ns = (NOS_OK, s') \<and> g_comps s' 5 = None
    \<and> comp_status (get_comp s' 6) = NOS_COMP_ST_INITED \<and> reg_view s' 7 = Some (Route_Local (Some 6) (Some 0))"
proof -
  have i: "loaded_info demo_ns ! 0 = demo_info" by (simp add: demo_ns_fields MAX_COMPONENTS_PER_NODE_def)
  have c: "comp_id (get_comp demo_ns 5) = 9" by (simp add: get_comp_def demo_ns_fields(4))
  obtain s1 where l: "node_load_component_staged demo_loader 9 ''c1'' ''c1.so'' demo_ns = (Some (6, 3), s1)"
    by (simp add: node_load_component_staged_def demo_loader_def do_dlopen_def Let_def demo_ns_fields(4) get_comp_def null_component_def)
  have v: "\<forall>sid. provided demo_nd 9 sid \<longrightarrow> reg_view demo_ns sid \<noteq> None"
    by (simp add: provided_def provides_def demo_nd_def demo_view)
  have p: "provided demo_nd 9 7" by (simp add: provided_def provides_def demo_nd_def)
  show ?thesis using node_reload_atomic[OF demo_loader_tame demo_ns_ok(2,1) demo_ns_fields(3) demo_ns_find, of 5 9 "Some (6, 3)" s1] v l p
    by (auto simp: i demo_info_def c)
qed


end
