(* ===== verification/Nos_Shm.thy ===== *)
theory Nos_Shm
  imports Nos_Sched
begin

text \<open>
  The shared-memory transport of \<^verbatim>\<open>src/infra/shm/nos_shm_ipc.c\<close>: a named region with one ring of
  256 slots per direction, each with one writer and one reader in different processes.  The named
  objects of the operating system are part of the state: \<open>shm_names\<close> gives the object of a name
  and \<open>shm_objs\<close> the contents of an object, \<^verbatim>\<open>None\<close> for an object of size 0; touching such an object
  through a mapping kills the process (\<^verbatim>\<open>SIGBUS\<close>), which is the value \<^verbatim>\<open>None\<close> of \<open>channel_map\<close>.  The results of
  the system calls that may fail are the arguments of type \<open>shm_env\<close>.

  The operations are the sequential ones.  The last section takes the writer and the reader apart
  into their accesses to the shared ring and interleaves them.
\<close>

definition NOS_SHM_NAME_MAX :: nat where "NOS_SHM_NAME_MAX = 64"
definition NOS_SHM_SLOT_SIZE :: nat where "NOS_SHM_SLOT_SIZE = 8192"
definition NOS_SHM_SLOT_COUNT :: nat where "NOS_SHM_SLOT_COUNT = 256"
definition NOS_SHM_MAGIC :: u32 where "NOS_SHM_MAGIC = 0x4E53484D"
definition NOS_SHM_VERSION :: u32 where "NOS_SHM_VERSION = 1"

record nos_shm_slot_t =
  ready :: u32
  slot_len :: u32
  slot_data :: "u8 list"

record nos_shm_ring_t =
  ring_head :: u32
  ring_tail :: u32
  slot_count :: u32
  slot_size :: u32
  slots :: "nos_shm_slot_t list"

record nos_shm_region_t =
  shm_magic :: u32
  shm_version :: u32
  ab :: nos_shm_ring_t
  ba :: nos_shm_ring_t

text \<open>The pointers \<^verbatim>\<open>tx\<close> and \<^verbatim>\<open>rx\<close> of a channel are the two rings of its region.\<close>

datatype ring_sel = AB | BA

record nos_shm_channel_t =
  shm_name :: string
  shm_fd :: int
  owner_flag :: bool
  tx_ab :: bool
  shm_region :: nat
  tx :: ring_sel
  rx :: ring_sel

record shm_state = sched_state +
  shm_names :: "string \<Rightarrow> nat option"
  shm_objs :: "nos_shm_region_t option list"
  shm_tx_packets :: u64
  shm_rx_packets :: u64
  shm_tx_bytes :: u64
  shm_rx_bytes :: u64
  shm_ring_full :: u64
  shm_fallback_uds :: u64
  shm_open_errors :: u64

section \<open>Regions and channels\<close>

definition zero_slot :: nos_shm_slot_t where
  "zero_slot = \<lparr>ready = 0, slot_len = 0, slot_data = replicate NOS_SHM_SLOT_SIZE 0\<rparr>"

definition zero_ring :: nos_shm_ring_t where
  "zero_ring = \<lparr>ring_head = 0, ring_tail = 0, slot_count = 0, slot_size = 0, slots = replicate NOS_SHM_SLOT_COUNT zero_slot\<rparr>"

text \<open>What \<^verbatim>\<open>ftruncate\<close> makes of a new object: zero bytes.\<close>

definition zero_region :: nos_shm_region_t where
  "zero_region = \<lparr>shm_magic = 0, shm_version = 0, ab = zero_ring, ba = zero_ring\<rparr>"

definition ring_init :: "nos_shm_ring_t \<Rightarrow> nos_shm_ring_t" where
  "ring_init r = r\<lparr>ring_head := 0, ring_tail := 0, slot_count := of_nat NOS_SHM_SLOT_COUNT, slot_size := of_nat NOS_SHM_SLOT_SIZE,
     slots := map (\<lambda>sl. sl\<lparr>ready := 0, slot_len := 0\<rparr>) (slots r)\<rparr>"

definition region_init :: "nos_shm_region_t \<Rightarrow> nos_shm_region_t" where
  "region_init g = g\<lparr>shm_magic := NOS_SHM_MAGIC, shm_version := NOS_SHM_VERSION, ab := ring_init (ab g), ba := ring_init (ba g)\<rparr>"

record shm_env =
  open_fd :: int
  truncate_ok :: bool
  mmap_ok :: bool
  calloc_ok :: bool

text \<open>\<^verbatim>\<open>shm_open\<close>: the object of the name, created empty when it is missing and \<open>create\<close> is set.\<close>

definition shm_open :: "shm_env \<Rightarrow> string \<Rightarrow> bool \<Rightarrow> 'z shm_state_scheme \<Rightarrow> (nat \<times> 'z shm_state_scheme) option" where
  "shm_open e name create s =
    (if open_fd e < 0 then None
     else (case shm_names s name of
         Some r \<Rightarrow> Some (r, s)
       | None \<Rightarrow> if create then Some (length (shm_objs s), s\<lparr>shm_names := (shm_names s)(name \<mapsto> length (shm_objs s)), shm_objs := shm_objs s @ [None]\<rparr>)
           else None))"

definition shm_unlink :: "string \<Rightarrow> 'z shm_state_scheme \<Rightarrow> 'z shm_state_scheme" where
  "shm_unlink name s = s\<lparr>shm_names := (shm_names s)(name := None)\<rparr>"

definition count_open_error :: "'z shm_state_scheme \<Rightarrow> 'z shm_state_scheme" where
  "count_open_error s = s\<lparr>shm_open_errors := shm_open_errors s + 1\<rparr>"

definition set_obj :: "nat \<Rightarrow> nos_shm_region_t \<Rightarrow> 'z shm_state_scheme \<Rightarrow> 'z shm_state_scheme" where
  "set_obj r g s = s\<lparr>shm_objs := (shm_objs s)[r := Some g]\<rparr>"

definition new_channel :: "shm_env \<Rightarrow> string \<Rightarrow> bool \<Rightarrow> bool \<Rightarrow> nat \<Rightarrow> nos_shm_channel_t" where
  "new_channel e name txab create r =
    \<lparr>shm_name = c_strncpy (NOS_SHM_NAME_MAX - 1) name, shm_fd = open_fd e, owner_flag = create, tx_ab = txab, shm_region = r,
     tx = (if txab then AB else BA), rx = (if txab then BA else AB)\<rparr>"

definition channel_map ::
  "shm_env \<Rightarrow> string \<Rightarrow> bool \<Rightarrow> bool \<Rightarrow> 'z shm_state_scheme \<Rightarrow> (nos_shm_channel_t option \<times> 'z shm_state_scheme) option" where
  "channel_map e name txab create s =
    (case shm_open e name create s of
       None \<Rightarrow> Some (None, count_open_error s)
     | Some (r, s1) \<Rightarrow>
         if create \<and> \<not> truncate_ok e then Some (None, count_open_error s1)
         else (let s2 = (if create then (case shm_objs s1 ! r of None \<Rightarrow> set_obj r zero_region s1 | Some _ \<Rightarrow> s1) else s1) in
           if \<not> mmap_ok e then Some (None, count_open_error s2)
           else if \<not> calloc_ok e then Some (None, s2)
           else (case shm_objs s2 ! r of
               None \<Rightarrow> None
             | Some g \<Rightarrow>
                 Some (Some (new_channel e name txab create r),
                   if create \<or> shm_magic g \<noteq> NOS_SHM_MAGIC then set_obj r (region_init g) s2 else s2))))"

definition valid_name :: "string option \<Rightarrow> bool" where
  "valid_name name \<longleftrightarrow> (case name of None \<Rightarrow> False | Some n \<Rightarrow> n \<noteq> [] \<and> hd n = CHR ''/'')"

definition nos_shm_channel_create ::
  "shm_env \<Rightarrow> string option \<Rightarrow> bool \<Rightarrow> 'z shm_state_scheme \<Rightarrow> (nos_shm_channel_t option \<times> 'z shm_state_scheme) option" where
  "nos_shm_channel_create e name txab s =
    (if \<not> valid_name name then Some (None, s) else channel_map e (the name) txab True (shm_unlink (the name) s))"

definition nos_shm_channel_open ::
  "shm_env \<Rightarrow> string option \<Rightarrow> bool \<Rightarrow> 'z shm_state_scheme \<Rightarrow> (nos_shm_channel_t option \<times> 'z shm_state_scheme) option" where
  "nos_shm_channel_open e name txab s =
    (if \<not> valid_name name then Some (None, s) else channel_map e (the name) txab False s)"

text \<open>Closing unmaps the region, closes the descriptor and removes the name if this side created it.\<close>

definition nos_shm_channel_close :: "nos_shm_channel_t option \<Rightarrow> 'z shm_state_scheme \<Rightarrow> 'z shm_state_scheme" where
  "nos_shm_channel_close ch s =
    (case ch of
       None \<Rightarrow> s
     | Some c \<Rightarrow> if owner_flag c \<and> shm_name c \<noteq> [] then shm_unlink (shm_name c) s else s)"

section \<open>Writing and draining\<close>

definition region_ring :: "ring_sel \<Rightarrow> nos_shm_region_t \<Rightarrow> nos_shm_ring_t" where
  "region_ring d g = (case d of AB \<Rightarrow> ab g | BA \<Rightarrow> ba g)"

definition region_set_ring :: "ring_sel \<Rightarrow> nos_shm_ring_t \<Rightarrow> nos_shm_region_t \<Rightarrow> nos_shm_region_t" where
  "region_set_ring d r g = (case d of AB \<Rightarrow> g\<lparr>ab := r\<rparr> | BA \<Rightarrow> g\<lparr>ba := r\<rparr>)"

text \<open>The mapped region is there as long as the channel is open.\<close>

definition get_ring :: "nat \<Rightarrow> ring_sel \<Rightarrow> 'z shm_state_scheme \<Rightarrow> nos_shm_ring_t" where
  "get_ring r d s = region_ring d (the (shm_objs s ! r))"

definition set_ring :: "nat \<Rightarrow> ring_sel \<Rightarrow> nos_shm_ring_t \<Rightarrow> 'z shm_state_scheme \<Rightarrow> 'z shm_state_scheme" where
  "set_ring r d g s = set_obj r (region_set_ring d g (the (shm_objs s ! r))) s"

definition ring_next :: "u32 \<Rightarrow> u32" where
  "ring_next i = (i + 1) mod of_nat NOS_SHM_SLOT_COUNT"

text \<open>Publishing a filled slot (data and length) at the tail.\<close>

definition ring_put :: "u8 list \<times> u32 \<Rightarrow> nos_shm_ring_t \<Rightarrow> nos_shm_ring_t option" where
  "ring_put x r =
    (if ring_next (ring_tail r) = ring_head r then None
     else Some (r\<lparr>slots := (slots r)[unat (ring_tail r) := \<lparr>ready = 1, slot_len = snd x, slot_data = fst x\<rparr>],
                  ring_tail := ring_next (ring_tail r)\<rparr>))"

definition nos_shm_channel_write ::
  "nos_shm_channel_t option \<Rightarrow> u8 list option \<Rightarrow> u32 \<Rightarrow> 'z shm_state_scheme \<Rightarrow> nos_status_t \<times> 'z shm_state_scheme" where
  "nos_shm_channel_write ch d n s =
    (case (ch, d) of
       (Some c, Some bs) \<Rightarrow>
         if n = 0 \<or> unat n > NOS_SHM_SLOT_SIZE then (NOS_ERR, s)
         else (let r = get_ring (shm_region c) (tx c) s;
                   bytes = write_bytes (slot_data (slots r ! unat (ring_tail r))) 0 (take (unat n) bs)
               in case ring_put (bytes, n) r of
                   None \<Rightarrow> (NOS_ERR_BUSY, s\<lparr>shm_ring_full := shm_ring_full s + 1, shm_fallback_uds := shm_fallback_uds s + 1\<rparr>)
                 | Some r' \<Rightarrow>
                     (NOS_OK, (set_ring (shm_region c) (tx c) r' s)
                        \<lparr>shm_tx_packets := shm_tx_packets s + 1, shm_tx_bytes := shm_tx_bytes s + ucast n\<rparr>))
     | _ \<Rightarrow> (NOS_ERR, s))"

text \<open>What the reader sees at the head: the slot, if it is published and marked ready.\<close>

definition ring_peek :: "nos_shm_ring_t \<Rightarrow> nos_shm_slot_t option" where
  "ring_peek r =
    (if ring_head r = ring_tail r then None
     else (let sl = slots r ! unat (ring_head r) in if ready sl = 0 then None else Some sl))"

definition ring_advance :: "u32 \<Rightarrow> nos_shm_ring_t \<Rightarrow> nos_shm_ring_t" where
  "ring_advance h r = r\<lparr>slots := (slots r)[unat h := (slots r ! unat h)\<lparr>ready := 0\<rparr>], ring_head := ring_next h\<rparr>"

text \<open>One round of the drain loop.  \<open>on_msg\<close> gets the data pointer's bytes and the length.\<close>

definition drain_one ::
  "(u8 list \<Rightarrow> u32 \<Rightarrow> 'z shm_state_scheme \<Rightarrow> 'z shm_state_scheme) \<Rightarrow> nos_shm_channel_t \<Rightarrow> 'z shm_state_scheme \<Rightarrow> 'z shm_state_scheme option" where
  "drain_one on_msg c s =
    (let r = get_ring (shm_region c) (rx c) s in
     case ring_peek r of
       None \<Rightarrow> None
     | Some sl \<Rightarrow>
         (let s1 = on_msg (slot_data sl) (slot_len sl) s;
              r1 = ring_advance (ring_head r) (get_ring (shm_region c) (rx c) s1);
              s2 = set_ring (shm_region c) (rx c) r1 s1
          in Some (s2\<lparr>shm_rx_packets := shm_rx_packets s2 + 1,
               shm_rx_bytes := shm_rx_bytes s2 + ucast (slot_len (slots r1 ! unat (ring_head r)))\<rparr>)))"

fun drain_loop ::
  "nat \<Rightarrow> (u8 list \<Rightarrow> u32 \<Rightarrow> 'z shm_state_scheme \<Rightarrow> 'z shm_state_scheme) \<Rightarrow> nos_shm_channel_t \<Rightarrow> u32 \<Rightarrow> 'z shm_state_scheme \<Rightarrow> (u32 \<times> 'z shm_state_scheme) option" where
  "drain_loop fuel on_msg c n s =
    (case drain_one on_msg c s of
       None \<Rightarrow> Some (n, s)
     | Some s' \<Rightarrow> (case fuel of 0 \<Rightarrow> None | Suc k \<Rightarrow> drain_loop k on_msg c (n + 1) s'))"

declare drain_loop.simps [simp del]

definition nos_shm_channel_drain ::
  "nat \<Rightarrow> nos_shm_channel_t option \<Rightarrow> (u8 list \<Rightarrow> u32 \<Rightarrow> 'z shm_state_scheme \<Rightarrow> 'z shm_state_scheme) option \<Rightarrow> 'z shm_state_scheme \<Rightarrow> (u32 \<times> 'z shm_state_scheme) option" where
  "nos_shm_channel_drain fuel ch on_msg s =
    (case (ch, on_msg) of (Some c, Some f) \<Rightarrow> drain_loop fuel f c 0 s | _ \<Rightarrow> Some (0, s))"

section \<open>A ring is a bounded FIFO\<close>

definition slot_msg :: "nos_shm_slot_t \<Rightarrow> u8 list \<times> u32" where
  "slot_msg sl = (slot_data sl, slot_len sl)"

definition ring_slots :: "nos_shm_ring_t \<Rightarrow> nos_shm_slot_t list" where
  "ring_slots r = ring_items (slots r) (unat (ring_head r)) (unat (ring_tail r))"

definition ring_msgs :: "nos_shm_ring_t \<Rightarrow> (u8 list \<times> u32) list" where
  "ring_msgs r = map slot_msg (ring_slots r)"

definition shm_ring_ok :: "nos_shm_ring_t \<Rightarrow> bool" where
  "shm_ring_ok r \<longleftrightarrow> ring_ok NOS_SHM_SLOT_COUNT (slots r) (unat (ring_head r)) (unat (ring_tail r))
     \<and> (\<forall>sl \<in> set (ring_slots r). ready sl \<noteq> 0)"

definition ring_take :: "nos_shm_ring_t \<Rightarrow> ((u8 list \<times> u32) \<times> nos_shm_ring_t) option" where
  "ring_take r = (case ring_peek r of None \<Rightarrow> None | Some sl \<Rightarrow> Some (slot_msg sl, ring_advance (ring_head r) r))"

lemma unat_ring_next: "unat i < NOS_SHM_SLOT_COUNT \<Longrightarrow> unat (ring_next i) = (unat i + 1) mod NOS_SHM_SLOT_COUNT"
proof -
  assume i: "unat i < NOS_SHM_SLOT_COUNT"
  then have "unat (i + 1) = unat i + 1" using unat_inc[of i "256 :: u32"] by (simp add: NOS_SHM_SLOT_COUNT_def)
  then show ?thesis by (simp add: ring_next_def unat_mod_distrib NOS_SHM_SLOT_COUNT_def)
qed

lemma ring_next_eq:
  "unat i < NOS_SHM_SLOT_COUNT \<Longrightarrow> ring_next i = j \<longleftrightarrow> (unat i + 1) mod NOS_SHM_SLOT_COUNT = unat j"
  using unat_ring_next[of i] by (metis unsigned_word_eqI)

lemma ring_put_spec:
  assumes "shm_ring_ok r"
  shows "ring_put x r = None \<longleftrightarrow> length (ring_msgs r) = NOS_SHM_SLOT_COUNT - 1"
    "ring_put x r = Some r' \<Longrightarrow> shm_ring_ok r' \<and> ring_msgs r' = ring_msgs r @ [x]"
proof -
  have k: "ring_ok NOS_SHM_SLOT_COUNT (slots r) (unat (ring_head r)) (unat (ring_tail r))" using assms by (simp add: shm_ring_ok_def)
  then have b: "length (slots r) = NOS_SHM_SLOT_COUNT" "unat (ring_head r) < NOS_SHM_SLOT_COUNT" "unat (ring_tail r) < NOS_SHM_SLOT_COUNT"
    by (auto simp: ring_ok_def)
  note full = ring_next_eq[OF b(3), of "ring_head r"]
  show "ring_put x r = None \<longleftrightarrow> length (ring_msgs r) = NOS_SHM_SLOT_COUNT - 1"
    using full ring_len_full[OF b(2,3)] b(1) by (simp add: ring_put_def ring_msgs_def ring_slots_def)
  assume "ring_put x r = Some r'"
  then have ne: "(unat (ring_tail r) + 1) mod NOS_SHM_SLOT_COUNT \<noteq> unat (ring_head r)"
    and r': "r' = r\<lparr>slots := (slots r)[unat (ring_tail r) := \<lparr>ready = 1, slot_len = snd x, slot_data = fst x\<rparr>], ring_tail := ring_next (ring_tail r)\<rparr>"
    using full by (auto simp: ring_put_def split: if_splits)
  have "ring_slots r' = ring_slots r @ [\<lparr>ready = 1, slot_len = snd x, slot_data = fst x\<rparr>]"
    using ring_items_push[OF k ne] unat_ring_next[OF b(3)] by (simp add: r' ring_slots_def)
  then show "shm_ring_ok r' \<and> ring_msgs r' = ring_msgs r @ [x]"
    using assms ring_ok_push[OF k] unat_ring_next[OF b(3)] by (auto simp: shm_ring_ok_def ring_msgs_def r' slot_msg_def)
qed

lemma ring_items_update_head:
  assumes "ring_ok n arr h t" "h \<noteq> t"
  shows "ring_items (arr[h := x]) ((h + 1) mod n) t = ring_items arr ((h + 1) mod n) t"
proof -
  have n: "length arr = n" "h < n" "t < n" using assms(1) by (auto simp: ring_ok_def)
  have pos: "((h + 1) mod n + i) mod n \<noteq> h" if i: "i < ring_len n ((h + 1) mod n) t" for i
  proof -
    have e: "((h + 1) mod n + i) mod n = (h + (i + 1)) mod n" by (metis add.assoc add.commute mod_add_left_eq)
    have "i + 1 < n" using i ring_len_less[of "(h + 1) mod n" n t] n by simp
    then show ?thesis unfolding e using n(2) by (cases "h + (i + 1) < n") (simp_all add: le_mod_geq)
  qed
  then show ?thesis unfolding ring_items_def using n(1) not_sym[OF pos] by (intro map_cong) (auto intro!: nth_list_update_neq)
qed

lemma ring_advance_spec:
  assumes "shm_ring_ok r" "ring_head r \<noteq> ring_tail r"
  shows "ring_peek r = Some (slots r ! unat (ring_head r))" "shm_ring_ok (ring_advance (ring_head r) r)"
    "ring_slots r = slots r ! unat (ring_head r) # ring_slots (ring_advance (ring_head r) r)"
proof -
  let ?h = "unat (ring_head r)" and ?t = "unat (ring_tail r)" and ?a = "ring_advance (ring_head r) r"
  have k: "ring_ok NOS_SHM_SLOT_COUNT (slots r) ?h ?t" and rd: "\<forall>sl \<in> set (ring_slots r). ready sl \<noteq> 0"
    using assms(1) by (auto simp: shm_ring_ok_def)
  have ne: "?h \<noteq> ?t" using assms(2) by (simp add: unsigned_word_eqI word_unat_eq_iff)
  have h: "?h < NOS_SHM_SLOT_COUNT" using k by (simp add: ring_ok_def)
  have pop: "ring_slots r = slots r ! ?h # ring_items (slots r) ((?h + 1) mod NOS_SHM_SLOT_COUNT) ?t"
    using ring_items_pop[OF k ne] by (simp add: ring_slots_def)
  have adv: "ring_slots ?a = ring_items (slots r) ((?h + 1) mod NOS_SHM_SLOT_COUNT) ?t"
    using ring_items_update_head[OF k ne] unat_ring_next[OF h] by (simp add: ring_slots_def ring_advance_def)
  show "ring_peek r = Some (slots r ! ?h)" using assms(2) rd pop by (simp add: ring_peek_def)
  show "ring_slots r = slots r ! ?h # ring_slots ?a" using pop adv by simp
  have "ring_ok NOS_SHM_SLOT_COUNT (slots ?a) (unat (ring_head ?a)) (unat (ring_tail ?a))"
    using ring_ok_pop[OF k] unat_ring_next[OF h] by (simp add: ring_advance_def ring_ok_def)
  then show "shm_ring_ok ?a" using rd pop adv by (simp add: shm_ring_ok_def)
qed

lemma ring_peek_None: "shm_ring_ok r \<Longrightarrow> ring_peek r = None \<longleftrightarrow> ring_msgs r = []"
proof (cases "ring_head r = ring_tail r")
  case True
  then show ?thesis by (simp add: ring_peek_def ring_msgs_def ring_slots_def)
next
  case False
  assume "shm_ring_ok r"
  from ring_advance_spec[OF this False] show ?thesis by (simp add: ring_msgs_def)
qed

lemma ring_peek_Some:
  assumes "shm_ring_ok r" "ring_msgs r = x # xs"
  shows "\<exists>sl. ring_peek r = Some sl \<and> slot_msg sl = x \<and> shm_ring_ok (ring_advance (ring_head r) r)
    \<and> ring_msgs (ring_advance (ring_head r) r) = xs \<and> sl = slots r ! unat (ring_head r)"
proof -
  have "ring_head r \<noteq> ring_tail r" using assms(2) by (auto simp: ring_msgs_def ring_slots_def)
  note a = ring_advance_spec[OF assms(1) this]
  then show ?thesis using assms(2) by (simp add: ring_msgs_def)
qed

interpretation shm_fifo: bounded_fifo "NOS_SHM_SLOT_COUNT - 1" shm_ring_ok ring_msgs ring_put ring_take
proof unfold_locales
  fix r x xs
  assume ok: "shm_ring_ok r"
  then have "unat (ring_head r) < NOS_SHM_SLOT_COUNT" "unat (ring_tail r) < NOS_SHM_SLOT_COUNT" "length (slots r) = NOS_SHM_SLOT_COUNT"
    by (auto simp: shm_ring_ok_def ring_ok_def)
  from ring_len_less[OF this(1,2)] this(3) show "length (ring_msgs r) \<le> NOS_SHM_SLOT_COUNT - 1"
    by (simp add: ring_msgs_def ring_slots_def)
  show "length (ring_msgs r) = NOS_SHM_SLOT_COUNT - 1 \<Longrightarrow> ring_put x r = None" using ring_put_spec(1)[OF ok] by blast
  show "length (ring_msgs r) < NOS_SHM_SLOT_COUNT - 1 \<Longrightarrow> \<exists>r'. ring_put x r = Some r' \<and> shm_ring_ok r' \<and> ring_msgs r' = ring_msgs r @ [x]"
    using ring_put_spec[OF ok, of x] by (cases "ring_put x r") auto
  show "ring_msgs r = [] \<Longrightarrow> ring_take r = None" using ring_peek_None[OF ok] by (simp add: ring_take_def)
  show "ring_msgs r = x # xs \<Longrightarrow> \<exists>r'. ring_take r = Some (x, r') \<and> shm_ring_ok r' \<and> ring_msgs r' = xs"
    using ring_peek_Some[OF ok, of x xs] by (auto simp: ring_take_def)
qed

section \<open>Channels\<close>

text \<open>The mapped object exists and both its rings are well formed.\<close>

definition chan_ok :: "nos_shm_channel_t \<Rightarrow> 'z shm_state_scheme \<Rightarrow> bool" where
  "chan_ok c s \<longleftrightarrow> shm_region c < length (shm_objs s) \<and> shm_objs s ! shm_region c \<noteq> None
     \<and> (\<forall>d. shm_ring_ok (get_ring (shm_region c) d s) \<and> (\<forall>sl \<in> set (slots (get_ring (shm_region c) d s)). length (slot_data sl) = NOS_SHM_SLOT_SIZE))"

lemma get_set_ring [simp]:
  "r < length (shm_objs s) \<Longrightarrow> get_ring r d (set_ring r d' g s) = (if d = d' then g else get_ring r d s)"
  by (cases d; cases d') (simp_all add: get_ring_def set_ring_def set_obj_def region_ring_def region_set_ring_def)

lemma get_ring_counters [simp]:
  "get_ring r d (s\<lparr>shm_tx_packets := a, shm_tx_bytes := b\<rparr>) = get_ring r d s"
  "get_ring r d (s\<lparr>shm_rx_packets := a, shm_rx_bytes := b\<rparr>) = get_ring r d s"
  by (simp_all add: get_ring_def)

lemma length_objs_set_ring [simp]: "length (shm_objs (set_ring r d g s)) = length (shm_objs s)"
  by (simp add: set_ring_def set_obj_def)

lemma ring_init_ok:
  assumes "length (slots r) = NOS_SHM_SLOT_COUNT"
  shows "shm_ring_ok (ring_init r)" "ring_msgs (ring_init r) = []"
  using assms by (simp_all add: shm_ring_ok_def ring_init_def ring_ok_def ring_slots_def ring_msgs_def NOS_SHM_SLOT_COUNT_def)

lemma region_init_zero: "shm_ring_ok (region_ring d (region_init zero_region)) \<and> ring_msgs (region_ring d (region_init zero_region)) = []
    \<and> (\<forall>sl \<in> set (slots (region_ring d (region_init zero_region))). length (slot_data sl) = NOS_SHM_SLOT_SIZE)"
  using ring_init_ok[of zero_ring]
  by (cases d) (auto simp: region_ring_def region_init_def zero_region_def zero_ring_def ring_init_def zero_slot_def)

text \<open>Creating a channel gives it a fresh, empty region under its name, and the peer that opens the name
  gets the same region with the two directions exchanged and does not reset the rings.\<close>

theorem shm_create_open_pair:
  assumes "valid_name (Some n)" "0 \<le> open_fd e" "truncate_ok e" "mmap_ok e" "calloc_ok e" "length n < NOS_SHM_NAME_MAX"
  shows "\<exists>a b s1. nos_shm_channel_create e (Some n) ta s = Some (Some a, s1) \<and> nos_shm_channel_open e (Some n) (\<not> ta) s1 = Some (Some b, s1)
    \<and> shm_region a = shm_region b \<and> tx a = rx b \<and> rx a = tx b \<and> tx a \<noteq> rx a \<and> chan_ok a s1 \<and> chan_ok b s1
    \<and> ring_msgs (get_ring (shm_region a) (tx a) s1) = [] \<and> ring_msgs (get_ring (shm_region a) (rx a) s1) = []
    \<and> shm_names (nos_shm_channel_close (Some a) s1) n = None \<and> nos_shm_channel_close (Some b) s1 = s1"
proof -
  let ?k = "length (shm_objs s)" and ?g = "region_init zero_region"
  let ?s1 = "set_obj ?k ?g (set_obj ?k zero_region (shm_unlink n s\<lparr>shm_names := (shm_names (shm_unlink n s))(n \<mapsto> ?k), shm_objs := shm_objs s @ [None]\<rparr>))"
  have un: "shm_names (shm_unlink n s) n = None" "shm_objs (shm_unlink n s) = shm_objs s" by (simp_all add: shm_unlink_def)
  have c: "nos_shm_channel_create e (Some n) ta s = Some (Some (new_channel e n ta True ?k), ?s1)"
    using assms un by (simp add: nos_shm_channel_create_def channel_map_def shm_open_def set_obj_def)
  have st: "shm_names ?s1 n = Some ?k" "shm_objs ?s1 = shm_objs s @ [Some ?g]" by (simp_all add: set_obj_def)
  have m: "shm_magic ?g = NOS_SHM_MAGIC" by (simp add: region_init_def)
  have o: "nos_shm_channel_open e (Some n) (\<not> ta) ?s1 = Some (Some (new_channel e n (\<not> ta) False ?k), ?s1)"
    using assms st m by (simp only: nos_shm_channel_open_def channel_map_def shm_open_def) simp
  have ring: "get_ring ?k d ?s1 = region_ring d ?g" for d by (simp add: get_ring_def st(2))
  have ok: "chan_ok ch ?s1" if "shm_region ch = ?k" for ch
    unfolding chan_ok_def that ring using region_init_zero st(2) by simp
  have nm: "shm_name (new_channel e n ta True ?k) = n" "n \<noteq> []"
    using assms(1,6) by (auto simp: new_channel_def valid_name_def)
  show ?thesis
  proof (intro exI conjI)
    show "chan_ok (new_channel e n ta True ?k) ?s1" by (rule ok) (simp add: new_channel_def)
    show "chan_ok (new_channel e n (\<not> ta) False ?k) ?s1" by (rule ok) (simp add: new_channel_def)
    show "shm_names (nos_shm_channel_close (Some (new_channel e n ta True ?k)) ?s1) n = None"
      using nm by (simp add: nos_shm_channel_close_def new_channel_def shm_unlink_def)
    show "nos_shm_channel_close (Some (new_channel e n (\<not> ta) False ?k)) ?s1 = ?s1"
      by (simp add: nos_shm_channel_close_def new_channel_def)
    show "nos_shm_channel_create e (Some n) ta s = Some (Some (new_channel e n ta True ?k), ?s1)" by (fact c)
    show "nos_shm_channel_open e (Some n) (\<not> ta) ?s1 = Some (Some (new_channel e n (\<not> ta) False ?k), ?s1)" by (fact o)
  qed (use region_init_zero ring in \<open>simp_all add: new_channel_def\<close>)
qed

definition demo_shm_env :: shm_env where
  "demo_shm_env = \<lparr>open_fd = 5, truncate_ok = True, mmap_ok = True, calloc_ok = True\<rparr>"

definition demo_shm :: shm_state where
  "demo_shm = sched_state.extend boot_state
    \<lparr>shm_names = Map.empty, shm_objs = [], shm_tx_packets = 0, shm_rx_packets = 0, shm_tx_bytes = 0, shm_rx_bytes = 0,
     shm_ring_full = 0, shm_fallback_uds = 0, shm_open_errors = 0\<rparr>"

theorem shm_create_open_pair_witness:
  "\<exists>a b s1. nos_shm_channel_create demo_shm_env (Some ''/c'') True demo_shm = Some (Some a, s1)
     \<and> nos_shm_channel_open demo_shm_env (Some ''/c'') False s1 = Some (Some b, s1) \<and> tx a = rx b \<and> chan_ok a s1"
  using shm_create_open_pair[of "''/c''" demo_shm_env True demo_shm]
  by (simp add: valid_name_def demo_shm_env_def NOS_SHM_NAME_MAX_def) blast

lemma shm_write_room:
  assumes "chan_ok c s" "unat n \<le> length bs"
    and n: "n \<noteq> 0" "unat n \<le> NOS_SHM_SLOT_SIZE" "length (ring_msgs (get_ring (shm_region c) (tx c) s)) < 255"
  shows "\<exists>s' bytes. nos_shm_channel_write (Some c) (Some bs) n s = (NOS_OK, s') \<and> chan_ok c s' \<and> take (unat n) bytes = take (unat n) bs
      \<and> ring_msgs (get_ring (shm_region c) (tx c) s') = ring_msgs (get_ring (shm_region c) (tx c) s) @ [(bytes, n)]
      \<and> (\<forall>d. d \<noteq> tx c \<longrightarrow> get_ring (shm_region c) d s' = get_ring (shm_region c) d s)
      \<and> shm_tx_packets s' = shm_tx_packets s + 1 \<and> shm_tx_bytes s' = shm_tx_bytes s + ucast n"
proof -
  let ?r = "get_ring (shm_region c) (tx c) s"
  have ok: "shm_ring_ok ?r" "shm_region c < length (shm_objs s)" "shm_objs s ! shm_region c \<noteq> None"
    and ds: "\<And>sl. sl \<in> set (slots ?r) \<Longrightarrow> length (slot_data sl) = NOS_SHM_SLOT_SIZE" using assms(1) by (auto simp: chan_ok_def)
  have tl: "unat (ring_tail ?r) < length (slots ?r)" using ok(1) by (simp add: shm_ring_ok_def ring_ok_def)
  let ?b = "write_bytes (slot_data (slots ?r ! unat (ring_tail ?r))) 0 (take (unat n) bs)"
  have dl: "length (slot_data (slots ?r ! unat (ring_tail ?r))) = NOS_SHM_SLOT_SIZE" using ds tl by simp
  obtain r' where put: "ring_put (?b, n) ?r = Some r'"
    using ring_put_spec(1)[OF ok(1), of "(?b, n)"] n by (auto simp: NOS_SHM_SLOT_COUNT_def)
  note p = ring_put_spec(2)[OF ok(1) put]
  let ?s = "(set_ring (shm_region c) (tx c) r' s)\<lparr>shm_tx_packets := shm_tx_packets s + 1, shm_tx_bytes := shm_tx_bytes s + ucast n\<rparr>"
  have w: "nos_shm_channel_write (Some c) (Some bs) n s = (NOS_OK, ?s)" using n put by (simp add: nos_shm_channel_write_def Let_def)
  have tk: "take (unat n) ?b = take (unat n) bs"
    using dl n assms(2) by (intro nth_equalityI) (auto simp: write_bytes_def)
  have "set (slots r') \<subseteq> insert \<lparr>ready = 1, slot_len = n, slot_data = ?b\<rparr> (set (slots ?r))"
    using put set_update_subset_insert by (fastforce simp: ring_put_def split: if_splits)
  moreover have "length ?b = NOS_SHM_SLOT_SIZE" using dl by (simp add: write_bytes_def)
  ultimately have ds': "\<And>sl. sl \<in> set (slots r') \<Longrightarrow> length (slot_data sl) = NOS_SHM_SLOT_SIZE" using ds by fastforce
  have "shm_objs (set_ring (shm_region c) (tx c) r' s) ! shm_region c \<noteq> None" using ok(2) by (simp add: set_ring_def set_obj_def)
  then have "chan_ok c ?s" using assms(1) p ds' ok(2) by (auto simp: chan_ok_def)
  then show ?thesis using w tk p ok(2) by (intro exI[of _ ?s] exI[of _ ?b]) simp
qed

text \<open>Writing a message of 1 to 8192 bytes appends it to the ring of the sending direction, bytes and
  length, and touches nothing of the other direction; with 255 messages waiting the write is refused
  and counted, and a message of another size is refused.\<close>

theorem shm_write_correct:
  assumes "chan_ok c s" "unat n \<le> length bs"
  shows "nos_shm_channel_write (Some c) (Some bs) n s =
      (if n = 0 \<or> unat n > NOS_SHM_SLOT_SIZE then (NOS_ERR, s)
       else if length (ring_msgs (get_ring (shm_region c) (tx c) s)) = 255
       then (NOS_ERR_BUSY, s\<lparr>shm_ring_full := shm_ring_full s + 1, shm_fallback_uds := shm_fallback_uds s + 1\<rparr>)
       else (NOS_OK, snd (nos_shm_channel_write (Some c) (Some bs) n s)))
    \<and> (\<forall>s'. nos_shm_channel_write (Some c) (Some bs) n s = (NOS_OK, s') \<longrightarrow> (\<exists>bytes. chan_ok c s' \<and> take (unat n) bytes = take (unat n) bs
        \<and> ring_msgs (get_ring (shm_region c) (tx c) s') = ring_msgs (get_ring (shm_region c) (tx c) s) @ [(bytes, n)]
        \<and> (\<forall>d. d \<noteq> tx c \<longrightarrow> get_ring (shm_region c) d s' = get_ring (shm_region c) d s)
        \<and> shm_tx_packets s' = shm_tx_packets s + 1 \<and> shm_tx_bytes s' = shm_tx_bytes s + ucast n))"
proof -
  let ?r = "get_ring (shm_region c) (tx c) s"
  have ok: "shm_ring_ok ?r" using assms(1) by (auto simp: chan_ok_def)
  have le: "length (ring_msgs ?r) \<le> 255" using shm_fifo.bound[OF ok] by (simp add: NOS_SHM_SLOT_COUNT_def)
  consider "n = 0 \<or> unat n > NOS_SHM_SLOT_SIZE"
    | "n \<noteq> 0" "unat n \<le> NOS_SHM_SLOT_SIZE" "length (ring_msgs ?r) = 255"
    | "n \<noteq> 0" "unat n \<le> NOS_SHM_SLOT_SIZE" "length (ring_msgs ?r) < 255" using le by linarith
  then show ?thesis
  proof cases
    case 1
    then have "nos_shm_channel_write (Some c) (Some bs) n s = (NOS_ERR, s)" by (auto simp: nos_shm_channel_write_def)
    then show ?thesis using 1 by simp
  next
    case 2
    have "ring_put x ?r = None" for x using ring_put_spec(1)[OF ok, of x] 2 by (simp add: NOS_SHM_SLOT_COUNT_def)
    then have "nos_shm_channel_write (Some c) (Some bs) n s = (NOS_ERR_BUSY, s\<lparr>shm_ring_full := shm_ring_full s + 1, shm_fallback_uds := shm_fallback_uds s + 1\<rparr>)"
      using 2 by (simp add: nos_shm_channel_write_def Let_def)
    then show ?thesis using 2 by simp
  next
    case 3
    then show ?thesis using shm_write_room[OF assms 3] by auto
  qed
qed

section \<open>Draining delivers everything in order\<close>

text \<open>A callback that leaves the ring it is called for alone; the log is kept in an extension of the state.\<close>

record shm_log = shm_state +
  shm_seen :: "(u8 list \<times> u32) list"

definition record_msg :: "(u8 list \<Rightarrow> u32 \<Rightarrow> 'z shm_log_scheme \<Rightarrow> 'z shm_log_scheme) \<Rightarrow> u8 list \<Rightarrow> u32 \<Rightarrow> 'z shm_log_scheme \<Rightarrow> 'z shm_log_scheme" where
  "record_msg f d l s = (f d l s)\<lparr>shm_seen := shm_seen s @ [(d, l)]\<rparr>"

definition keeps_ring :: "nos_shm_channel_t \<Rightarrow> (u8 list \<Rightarrow> u32 \<Rightarrow> 'z shm_log_scheme \<Rightarrow> 'z shm_log_scheme) \<Rightarrow> bool" where
  "keeps_ring c f \<longleftrightarrow> (\<forall>d l s. length (shm_objs s) \<le> length (shm_objs (f d l s))
     \<and> get_ring (shm_region c) (rx c) (f d l s) = get_ring (shm_region c) (rx c) s \<and> shm_rx_packets (f d l s) = shm_rx_packets s)"

lemma drain_one_spec:
  assumes "shm_region c < length (shm_objs s)" "shm_ring_ok (get_ring (shm_region c) (rx c) s)" "keeps_ring c f"
    and "ring_msgs (get_ring (shm_region c) (rx c) s) = x # xs"
  shows "\<exists>s'. drain_one (record_msg f) c s = Some s' \<and> shm_region c < length (shm_objs s') \<and> shm_ring_ok (get_ring (shm_region c) (rx c) s')
    \<and> ring_msgs (get_ring (shm_region c) (rx c) s') = xs \<and> shm_seen s' = shm_seen s @ [x] \<and> shm_rx_packets s' = shm_rx_packets s + 1"
proof -
  let ?r = "get_ring (shm_region c) (rx c) s"
  obtain sl where sl: "ring_peek ?r = Some sl" "slot_msg sl = x" "shm_ring_ok (ring_advance (ring_head ?r) ?r)" "ring_msgs (ring_advance (ring_head ?r) ?r) = xs"
    using ring_peek_Some[OF assms(2,4)] by blast
  let ?s1 = "record_msg f (slot_data sl) (slot_len sl) s"
  have k: "get_ring (shm_region c) (rx c) ?s1 = ?r" "shm_region c < length (shm_objs ?s1)" "shm_rx_packets ?s1 = shm_rx_packets s"
    "shm_seen ?s1 = shm_seen s @ [x]"
    using assms(3) sl(2) order_less_le_trans[OF assms(1)] by (auto simp: keeps_ring_def record_msg_def get_ring_def slot_msg_def)
  have p: "shm_rx_packets (set_ring a b g t) = shm_rx_packets t" "shm_seen (set_ring a b g t) = shm_seen t" for a b g and t :: "'a shm_log_scheme"
    by (simp_all add: set_ring_def set_obj_def)
  show ?thesis using sl k unfolding drain_one_def Let_def by (simp add: p)
qed

lemma drain_loop_spec:
  assumes "shm_region c < length (shm_objs s)" "shm_ring_ok (get_ring (shm_region c) (rx c) s)" "keeps_ring c f"
    and "length (ring_msgs (get_ring (shm_region c) (rx c) s)) \<le> fuel"
  shows "\<exists>s'. drain_loop fuel (record_msg f) c n s = Some (n + of_nat (length (ring_msgs (get_ring (shm_region c) (rx c) s))), s')
    \<and> ring_msgs (get_ring (shm_region c) (rx c) s') = [] \<and> shm_seen s' = shm_seen s @ ring_msgs (get_ring (shm_region c) (rx c) s)
    \<and> shm_rx_packets s' = shm_rx_packets s + of_nat (length (ring_msgs (get_ring (shm_region c) (rx c) s)))"
  using assms
proof (induction "ring_msgs (get_ring (shm_region c) (rx c) s)" arbitrary: s fuel n)
  case Nil
  then have "drain_one (record_msg f) c s = None" using ring_peek_None[OF Nil.prems(2)] by (simp add: drain_one_def)
  then show ?case using Nil.hyps by (subst drain_loop.simps) simp
next
  case (Cons x xs)
  obtain s1 where s1: "drain_one (record_msg f) c s = Some s1" "shm_region c < length (shm_objs s1)" "shm_ring_ok (get_ring (shm_region c) (rx c) s1)"
      "ring_msgs (get_ring (shm_region c) (rx c) s1) = xs" "shm_seen s1 = shm_seen s @ [x]" "shm_rx_packets s1 = shm_rx_packets s + 1"
    using drain_one_spec[OF Cons.prems(1-3) Cons.hyps(2)[symmetric]] by blast
  note e = Cons.hyps(2)[symmetric]
  have "Suc (length xs) \<le> fuel" using Cons.prems(4) unfolding e by simp
  then obtain k where k: "fuel = Suc k" "length xs \<le> k" by (cases fuel) auto
  have step: "drain_loop fuel (record_msg f) c n s = drain_loop k (record_msg f) c (n + 1) s1"
    using s1(1) k(1) by (subst drain_loop.simps) simp
  have l: "length (ring_msgs (get_ring (shm_region c) (rx c) s1)) \<le> k" using s1(4) k(2) by simp
  obtain s' where s': "drain_loop k (record_msg f) c (n + 1) s1 = Some (n + 1 + of_nat (length xs), s')"
      "ring_msgs (get_ring (shm_region c) (rx c) s') = []" "shm_seen s' = shm_seen s1 @ xs" "shm_rx_packets s' = shm_rx_packets s1 + of_nat (length xs)"
    using Cons.hyps(1)[OF s1(4)[symmetric] s1(2,3) Cons.prems(3) l, of "n + 1"] unfolding s1(4) by blast
  show ?case unfolding step e using s' s1(5,6) by (intro exI[of _ s']) simp
qed


text \<open>Writing then draining on the other side, as one computation.\<close>

definition demo_log :: shm_log where
  "demo_log = shm_state.extend demo_shm \<lparr>shm_seen = []\<rparr>"


theorem shm_write_correct_witness:
  "\<exists>a s1 s2. nos_shm_channel_create demo_shm_env (Some ''/c'') True demo_shm = Some (Some a, s1)
     \<and> nos_shm_channel_write (Some a) (Some [7, 8]) 2 s1 = (NOS_OK, s2) \<and> length (ring_msgs (get_ring (shm_region a) (tx a) s2)) = 1"
proof -
  obtain a b s1 where c: "nos_shm_channel_create demo_shm_env (Some ''/c'') True demo_shm = Some (Some a, s1)" "chan_ok a s1"
      "ring_msgs (get_ring (shm_region a) (tx a) s1) = []"
    using shm_create_open_pair[of "''/c''" demo_shm_env True demo_shm] by (auto simp: valid_name_def demo_shm_env_def NOS_SHM_NAME_MAX_def)
  have w: "nos_shm_channel_write (Some a) (Some [7, 8]) 2 s1 = (NOS_OK, snd (nos_shm_channel_write (Some a) (Some [7, 8]) 2 s1))"
    using shm_write_correct[OF c(2), of 2 "[7, 8]"] c(3) by (simp add: NOS_SHM_SLOT_SIZE_def)
  then have "length (ring_msgs (get_ring (shm_region a) (tx a) (snd (nos_shm_channel_write (Some a) (Some [7, 8]) 2 s1)))) = 1"
    using shm_write_correct[OF c(2), of 2 "[7, 8]"] c(3) by auto
  then show ?thesis using c(1) w by blast
qed

section \<open>One writer and one reader, interleaved\<close>

text \<open>
  The accesses of \<^verbatim>\<open>nos_shm_channel_write\<close> and of one round of \<^verbatim>\<open>nos_shm_channel_drain\<close> to the shared
  ring, in program order.  The writer loads \<^verbatim>\<open>head\<close>, may find the ring full, fills the slot, marks it
  ready and stores \<^verbatim>\<open>tail\<close>; the reader loads \<^verbatim>\<open>tail\<close>, tests the ready mark, hands out the slot, clears the
  mark and stores \<^verbatim>\<open>head\<close>.  Each side is the only one to store its own index.  The fields \<open>sent\<close> and
  \<open>got\<close> record what was published and what was handed out.  The accesses are sequentially
  consistent here; the release stores of the code order the filling of a slot before its publication.
\<close>

datatype 'm writer_pc = W_Idle | W_Loaded 'm nat | W_Filled 'm | W_Marked 'm
datatype reader_pc = R_Idle | R_Loaded | R_Reading | R_Handed | R_Cleared

record 'm spsc =
  sp_head :: nat
  sp_tail :: nat
  sp_slots :: "'m list"
  sp_ready :: "nat \<Rightarrow> bool"
  w_at :: "'m writer_pc"
  r_at :: reader_pc
  sent :: "'m list"
  got :: "'m list"

definition slot_next :: "nat \<Rightarrow> nat" where
  "slot_next i = (i + 1) mod NOS_SHM_SLOT_COUNT"

inductive shm_step :: "'m spsc \<Rightarrow> 'm spsc \<Rightarrow> bool" where
  w_load: "w_at q = W_Idle \<Longrightarrow> shm_step q (q\<lparr>w_at := W_Loaded m (sp_head q)\<rparr>)"
| w_full: "w_at q = W_Loaded m h \<Longrightarrow> slot_next (sp_tail q) = h \<Longrightarrow> shm_step q (q\<lparr>w_at := W_Idle\<rparr>)"
| w_fill: "w_at q = W_Loaded m h \<Longrightarrow> slot_next (sp_tail q) \<noteq> h \<Longrightarrow>
    shm_step q (q\<lparr>sp_slots := (sp_slots q)[sp_tail q := m], w_at := W_Filled m\<rparr>)"
| w_mark: "w_at q = W_Filled m \<Longrightarrow> shm_step q (q\<lparr>sp_ready := (sp_ready q)(sp_tail q := True), w_at := W_Marked m\<rparr>)"
| w_publish: "w_at q = W_Marked m \<Longrightarrow> shm_step q (q\<lparr>sp_tail := slot_next (sp_tail q), w_at := W_Idle, sent := sent q @ [m]\<rparr>)"
| r_load: "r_at q = R_Idle \<Longrightarrow> sp_head q \<noteq> sp_tail q \<Longrightarrow> shm_step q (q\<lparr>r_at := R_Loaded\<rparr>)"
| r_unready: "r_at q = R_Loaded \<Longrightarrow> \<not> sp_ready q (sp_head q) \<Longrightarrow> shm_step q (q\<lparr>r_at := R_Idle\<rparr>)"
| r_test: "r_at q = R_Loaded \<Longrightarrow> sp_ready q (sp_head q) \<Longrightarrow> shm_step q (q\<lparr>r_at := R_Reading\<rparr>)"
| r_hand: "r_at q = R_Reading \<Longrightarrow> shm_step q (q\<lparr>r_at := R_Handed, got := got q @ [sp_slots q ! sp_head q]\<rparr>)"
| r_clear: "r_at q = R_Handed \<Longrightarrow> shm_step q (q\<lparr>sp_ready := (sp_ready q)(sp_head q := False), r_at := R_Cleared\<rparr>)"
| r_advance: "r_at q = R_Cleared \<Longrightarrow> shm_step q (q\<lparr>sp_head := slot_next (sp_head q), r_at := R_Idle\<rparr>)"

definition spsc_init :: "'m list \<Rightarrow> 'm spsc" where
  "spsc_init mem = \<lparr>sp_head = 0, sp_tail = 0, sp_slots = mem, sp_ready = (\<lambda>_. False), w_at = W_Idle, r_at = R_Idle, sent = [], got = []\<rparr>"

inductive shm_reachable :: "'m spsc \<Rightarrow> bool" where
  spsc_start: "length mem = NOS_SHM_SLOT_COUNT \<Longrightarrow> shm_reachable (spsc_init mem)"
| spsc_step: "shm_reachable q \<Longrightarrow> shm_step q q' \<Longrightarrow> shm_reachable q'"

text \<open>The messages in the ring that the reader has not handed out.\<close>

definition sp_items :: "'m spsc \<Rightarrow> 'm list" where
  "sp_items q = ring_items (sp_slots q) (sp_head q) (sp_tail q)"

definition handed :: "'m spsc \<Rightarrow> nat" where
  "handed q = (if r_at q = R_Handed \<or> r_at q = R_Cleared then 1 else 0)"

definition spsc_inv :: "'m spsc \<Rightarrow> bool" where
  "spsc_inv q \<longleftrightarrow> ring_ok NOS_SHM_SLOT_COUNT (sp_slots q) (sp_head q) (sp_tail q)
     \<and> sent q = got q @ drop (handed q) (sp_items q)
     \<and> (r_at q \<noteq> R_Idle \<longrightarrow> sp_head q \<noteq> sp_tail q)
     \<and> (\<forall>m h. w_at q = W_Loaded m h \<longrightarrow> h < NOS_SHM_SLOT_COUNT \<and> ring_len NOS_SHM_SLOT_COUNT (sp_head q) (sp_tail q) \<le> ring_len NOS_SHM_SLOT_COUNT h (sp_tail q))
     \<and> (\<forall>m. w_at q = W_Filled m \<or> w_at q = W_Marked m \<longrightarrow> slot_next (sp_tail q) \<noteq> sp_head q \<and> sp_slots q ! sp_tail q = m)
     \<and> (\<forall>m. w_at q = W_Marked m \<longrightarrow> sp_ready q (sp_tail q))
     \<and> (\<forall>i. i < length (sp_items q) \<and> (r_at q = R_Cleared \<longrightarrow> 0 < i) \<longrightarrow> sp_ready q ((sp_head q + i) mod NOS_SHM_SLOT_COUNT))"

lemma slot_next_inj: "i < NOS_SHM_SLOT_COUNT \<Longrightarrow> j < NOS_SHM_SLOT_COUNT \<Longrightarrow> slot_next i = slot_next j \<longleftrightarrow> i = j"
  by (auto simp: slot_next_def mod_Suc_cases split: if_splits)

lemma slot_next_add: "(slot_next h + i) mod NOS_SHM_SLOT_COUNT = (h + (i + 1)) mod NOS_SHM_SLOT_COUNT"
  unfolding slot_next_def by (metis add.assoc add.commute mod_add_left_eq)

lemma sp_len: "ring_ok NOS_SHM_SLOT_COUNT (sp_slots q) (sp_head q) (sp_tail q) \<Longrightarrow>
    length (sp_items q) = ring_len NOS_SHM_SLOT_COUNT (sp_head q) (sp_tail q)"
  by (simp add: sp_items_def ring_ok_def)

lemma sp_items_pop:
  assumes "ring_ok NOS_SHM_SLOT_COUNT (sp_slots q) (sp_head q) (sp_tail q)" "sp_head q \<noteq> sp_tail q"
  shows "sp_items q = sp_slots q ! sp_head q # ring_items (sp_slots q) (slot_next (sp_head q)) (sp_tail q)"
  using ring_items_pop[OF assms] by (simp add: sp_items_def slot_next_def)

lemma ready_at: "spsc_inv q \<Longrightarrow> j < length (sp_items q) \<and> (r_at q = R_Cleared \<longrightarrow> 0 < j) \<Longrightarrow> sp_ready q ((sp_head q + j) mod NOS_SHM_SLOT_COUNT)"
  unfolding spsc_inv_def by blast

lemma spsc_w_fill:
  assumes i: "spsc_inv q" and w: "w_at q = W_Loaded m h" "slot_next (sp_tail q) \<noteq> h"
  shows "spsc_inv (q\<lparr>sp_slots := (sp_slots q)[sp_tail q := m], w_at := W_Filled m\<rparr>)"
proof -
  let ?N = NOS_SHM_SLOT_COUNT
  have k: "ring_ok ?N (sp_slots q) (sp_head q) (sp_tail q)" and h: "h < ?N" "ring_len ?N (sp_head q) (sp_tail q) \<le> ring_len ?N h (sp_tail q)"
    using i w(1) by (auto simp: spsc_inv_def)
  have b: "length (sp_slots q) = ?N" "sp_head q < ?N" "sp_tail q < ?N" using k by (auto simp: ring_ok_def)
  have ne: "slot_next (sp_tail q) \<noteq> sp_head q"
    using w(2) h ring_len_full[OF b(2,3)] ring_len_full[OF h(1) b(3)] ring_len_less[OF h(1) b(3)] by (auto simp: slot_next_def)
  have it: "ring_items ((sp_slots q)[sp_tail q := m]) (sp_head q) (sp_tail q) = sp_items q"
    using ring_items_update_tail[OF k] by (simp add: sp_items_def)
  then show ?thesis using i ne b by (simp add: spsc_inv_def sp_items_def handed_def ring_ok_def)
qed

lemma spsc_w_publish:
  assumes i: "spsc_inv q" and w: "w_at q = W_Marked m"
  shows "spsc_inv (q\<lparr>sp_tail := slot_next (sp_tail q), w_at := W_Idle, sent := sent q @ [m]\<rparr>)"
proof -
  let ?N = NOS_SHM_SLOT_COUNT and ?q = "q\<lparr>sp_tail := slot_next (sp_tail q), w_at := W_Idle, sent := sent q @ [m]\<rparr>"
  have k: "ring_ok ?N (sp_slots q) (sp_head q) (sp_tail q)" and m: "slot_next (sp_tail q) \<noteq> sp_head q" "sp_slots q ! sp_tail q = m" "sp_ready q (sp_tail q)"
    using i w by (auto simp: spsc_inv_def)
  have b: "length (sp_slots q) = ?N" "sp_head q < ?N" "sp_tail q < ?N" using k by (auto simp: ring_ok_def)
  have same: "(sp_slots q)[sp_tail q := m] = sp_slots q" using m(2) by auto
  have it: "sp_items ?q = sp_items q @ [m]"
    using ring_items_push[OF k, of m] m(1) unfolding same by (simp add: sp_items_def slot_next_def)
  have k': "ring_ok ?N (sp_slots q) (sp_head q) (slot_next (sp_tail q))" using k b by (simp add: ring_ok_def slot_next_def)
  have ne: "sp_head q \<noteq> slot_next (sp_tail q)" using m(1) by simp
  have hd: "handed q \<le> length (sp_items q)"
  proof (cases "handed q = 0")
    case False
    then have "sp_head q \<noteq> sp_tail q" using i by (auto simp: spsc_inv_def handed_def)
    from sp_items_pop[OF k this] show ?thesis by (simp add: handed_def)
  qed simp
  have rd: "sp_ready q ((sp_head q + j) mod ?N)" if "j < length (sp_items ?q)" "r_at q = R_Cleared \<longrightarrow> 0 < j" for j
  proof (cases "j < length (sp_items q)")
    case True
    then show ?thesis using i that(2) by (simp add: spsc_inv_def)
  next
    case False
    then have "j = ring_len ?N (sp_head q) (sp_tail q)" using that(1) it sp_len[OF k] by simp
    then show ?thesis using ring_pos_tail[OF b(2,3)] m(3) by simp
  qed
  have "sent q @ [m] = got q @ drop (handed ?q) (sp_items ?q)" using i it hd by (simp add: spsc_inv_def handed_def)
  then show ?thesis using k' ne rd unfolding spsc_inv_def by simp
qed

lemma spsc_r_clear:
  assumes i: "spsc_inv q" and r: "r_at q = R_Handed"
  shows "spsc_inv (q\<lparr>sp_ready := (sp_ready q)(sp_head q := False), r_at := R_Cleared\<rparr>)"
proof -
  let ?N = NOS_SHM_SLOT_COUNT
  have k: "ring_ok ?N (sp_slots q) (sp_head q) (sp_tail q)" and ne: "sp_head q \<noteq> sp_tail q" using i r by (auto simp: spsc_inv_def)
  have b: "sp_head q < ?N" "sp_tail q < ?N" using k by (auto simp: ring_ok_def)
  have "(sp_head q + j) mod ?N \<noteq> sp_head q" if "0 < j" "j < length (sp_items q)" for j
  proof -
    have "j < ?N" using that(2) sp_len[OF k] ring_len_less[OF b] by simp
    then show ?thesis using that(1) b by (cases "sp_head q + j < ?N") (simp_all add: le_mod_geq)
  qed
  then show ?thesis using i r ne by (auto simp: spsc_inv_def sp_items_def handed_def)
qed

lemma spsc_r_advance:
  assumes i: "spsc_inv q" and r: "r_at q = R_Cleared"
  shows "spsc_inv (q\<lparr>sp_head := slot_next (sp_head q), r_at := R_Idle\<rparr>)"
proof -
  let ?N = NOS_SHM_SLOT_COUNT and ?q = "q\<lparr>sp_head := slot_next (sp_head q), r_at := R_Idle\<rparr>"
  have k: "ring_ok ?N (sp_slots q) (sp_head q) (sp_tail q)" and ne: "sp_head q \<noteq> sp_tail q" using i r by (auto simp: spsc_inv_def)
  have b: "length (sp_slots q) = ?N" "sp_head q < ?N" "sp_tail q < ?N" using k by (auto simp: ring_ok_def)
  have it: "sp_items q = sp_slots q ! sp_head q # sp_items ?q" using sp_items_pop[OF k ne] by (simp add: sp_items_def)
  have k': "ring_ok ?N (sp_slots q) (slot_next (sp_head q)) (sp_tail q)" using b by (simp add: ring_ok_def slot_next_def)
  have len: "ring_len ?N (slot_next (sp_head q)) (sp_tail q) \<le> ring_len ?N (sp_head q) (sp_tail q)"
    using ring_len_pop[OF b(2,3) ne] by (simp add: slot_next_def)
  have nx: "slot_next (sp_tail q) \<noteq> slot_next (sp_head q)" using slot_next_inj[OF b(3,2)] ne by simp
  have rd: "sp_ready q ((slot_next (sp_head q) + j) mod ?N)" if "j < length (sp_items ?q)" for j
  proof -
    have "j + 1 < length (sp_items q) \<and> (r_at q = R_Cleared \<longrightarrow> 0 < j + 1)" using it that by simp
    then have "sp_ready q ((sp_head q + (j + 1)) mod ?N)" by (rule ready_at[OF i])
    then show ?thesis by (simp only: slot_next_add)
  qed
  have "sent q = got q @ drop (handed ?q) (sp_items ?q)" using i it r by (simp add: spsc_inv_def handed_def)
  moreover have "\<forall>m h. w_at q = W_Loaded m h \<longrightarrow> h < ?N \<and> ring_len ?N (slot_next (sp_head q)) (sp_tail q) \<le> ring_len ?N h (sp_tail q)"
    using i len by (fastforce simp: spsc_inv_def)
  moreover have "\<forall>m. w_at q = W_Filled m \<or> w_at q = W_Marked m \<longrightarrow> slot_next (sp_tail q) \<noteq> slot_next (sp_head q) \<and> sp_slots q ! sp_tail q = m"
    using i nx by (auto simp: spsc_inv_def)
  ultimately show ?thesis using i k' rd unfolding spsc_inv_def by simp
qed

lemma spsc_step_inv [nos_inv]: "shm_step q q' \<Longrightarrow> spsc_inv q \<Longrightarrow> spsc_inv q'"
proof (induction rule: shm_step.induct)
  case (w_load q m)
  then show ?case by (simp add: spsc_inv_def sp_items_def handed_def ring_ok_def)
next
  case (r_hand q)
  then have "ring_ok NOS_SHM_SLOT_COUNT (sp_slots q) (sp_head q) (sp_tail q)" "sp_head q \<noteq> sp_tail q" by (auto simp: spsc_inv_def)
  from sp_items_pop[OF this] r_hand show ?case by (simp add: spsc_inv_def sp_items_def handed_def)
qed (simp_all add: spsc_w_fill spsc_w_publish spsc_r_clear spsc_r_advance, (simp add: spsc_inv_def sp_items_def handed_def)+)

lemma spsc_reachable_inv: "shm_reachable q \<Longrightarrow> spsc_inv q"
proof (induction rule: shm_reachable.induct)
  case (spsc_start mem)
  then show ?case by (simp add: spsc_inv_def spsc_init_def sp_items_def handed_def ring_ok_def NOS_SHM_SLOT_COUNT_def)
next
  case (spsc_step q q')
  then show ?case by (blast intro: spsc_step_inv)
qed

text \<open>C9.  The ring is safe for one writer and one reader running concurrently.  In every interleaving of
  their accesses, what was handed out followed by what is still in the ring is exactly what was
  published, in order; the ring never holds more than 255 messages; the writer never fills the slot
  the reader is at; and a reader that has seen a message always finds its slot marked ready.\<close>

theorem shm_ring_concurrent_fifo:
  assumes "shm_reachable q"
  shows "sent q = got q @ drop (handed q) (sp_items q) \<and> length (sp_items q) \<le> 255
    \<and> (r_at q \<noteq> R_Idle \<longrightarrow> sp_tail q \<noteq> sp_head q) \<and> (r_at q = R_Loaded \<longrightarrow> sp_ready q (sp_head q))"
proof -
  have i: "spsc_inv q" by (rule spsc_reachable_inv[OF assms])
  then have k: "ring_ok NOS_SHM_SLOT_COUNT (sp_slots q) (sp_head q) (sp_tail q)" by (simp add: spsc_inv_def)
  then have b: "sp_head q < NOS_SHM_SLOT_COUNT" "sp_tail q < NOS_SHM_SLOT_COUNT" by (auto simp: ring_ok_def)
  have l: "length (sp_items q) \<le> 255" using sp_len[OF k] ring_len_less[OF b] by (simp add: NOS_SHM_SLOT_COUNT_def)
  have "sp_ready q (sp_head q)" if r: "r_at q = R_Loaded"
  proof -
    have ne: "sp_head q \<noteq> sp_tail q" using i r by (simp add: spsc_inv_def)
    have "0 < length (sp_items q) \<and> (r_at q = R_Cleared \<longrightarrow> 0 < (0 :: nat))" unfolding sp_items_pop[OF k ne] using r by simp
    then have "sp_ready q ((sp_head q + 0) mod NOS_SHM_SLOT_COUNT)" using ready_at[OF i] by blast
    then show ?thesis using b(1) by simp
  qed
  moreover have "sent q = got q @ drop (handed q) (sp_items q)" "r_at q \<noteq> R_Idle \<longrightarrow> sp_tail q \<noteq> sp_head q"
    using i by (auto simp: spsc_inv_def)
  ultimately show ?thesis using l by blast
qed

lemma spsc_demo: "\<exists>q :: nat spsc. shm_reachable q \<and> w_at q = W_Loaded 7 0"
proof -
  let ?q = "spsc_init (replicate NOS_SHM_SLOT_COUNT 0) :: nat spsc"
  have w: "w_at ?q = W_Idle" "sp_head ?q = 0" by (simp_all add: spsc_init_def)
  have "shm_reachable ?q" by (rule spsc_start) (rule length_replicate)
  then have "shm_reachable (?q\<lparr>w_at := W_Loaded 7 (sp_head ?q)\<rparr>)" using w_load[OF w(1)] by (rule spsc_step)
  then show ?thesis using w(2) by (intro exI[of _ "?q\<lparr>w_at := W_Loaded 7 (sp_head ?q)\<rparr>"]) simp
qed

theorem shm_ring_concurrent_fifo_witness:
  "\<exists>q :: nat spsc. shm_reachable q \<and> w_at q \<noteq> W_Idle \<and> sent q = got q @ drop (handed q) (sp_items q)"
proof -
  obtain q :: "nat spsc" where q: "shm_reachable q" "w_at q = W_Loaded 7 0" using spsc_demo by blast
  then have "w_at q \<noteq> W_Idle" by simp
  then show ?thesis using shm_ring_concurrent_fifo[OF q(1)] q(1) by blast
qed

end
