(* ===== verification/Nos_Ipc.thy ===== *)
theory Nos_Ipc
  imports Nos_Dispatch Nos_Shm
begin

text \<open>
  The transport between nodes, \<^verbatim>\<open>src/infra/nos_ipc_p2p.c\<close>: a table of at most 16 connections over UNIX
  sockets of packets, each with a transmit queue of 1024 slots, a state machine with exponential
  back-off, and a shared-memory channel that carries the data when both sides have it.  Of the status
  tables the rows are modelled, not their layout.

  A connection pointer is its index in \<open>g_remote_conns\<close>.  The mutexes make the sections
  between lock and unlock atomic, and every operation here is one such section or a sequence of them.
  The kernel is in the state: \<open>sock_rx\<close> holds the packets that wait on a descriptor, \<open>sock_closed\<close> says
  whether reading an empty one fails for good, \<open>sent_pkts\<close> collects what \<^verbatim>\<open>send\<close> accepted, and
  \<open>sys_calls\<close> fixes the outcome of every system call in advance, the next one being
  at \<open>sys_pos\<close>.  Log messages are left out.
\<close>

definition TX_QUEUE_SIZE :: nat where "TX_QUEUE_SIZE = 1024"
definition MAX_REMOTE_CONNS :: nat where "MAX_REMOTE_CONNS = 16"
definition NOS_IPC_MAX_PAYLOAD_LEN :: u32 where "NOS_IPC_MAX_PAYLOAD_LEN = 4096"
definition IPC_RETRY_INITIAL_MS :: u32 where "IPC_RETRY_INITIAL_MS = 100"
definition IPC_RETRY_MAX_MS :: u32 where "IPC_RETRY_MAX_MS = 5000"
definition NOS_IPC_CTRL_SHM_SETUP :: u32 where "NOS_IPC_CTRL_SHM_SETUP = 0x53484D31"
definition NOS_IPC_CTRL_SHM_NOTIFY :: u32 where "NOS_IPC_CTRL_SHM_NOTIFY = 0x53484D32"

datatype nos_ipc_conn_state_t = NOS_IPC_DISCONNECTED | NOS_IPC_CONNECTING | NOS_IPC_CONNECTED | NOS_IPC_BACKOFF

record nos_ipc_conn_t =
  c_uds_path :: string
  c_fd :: int
  tx_queue :: "bufp option list"
  tx_head :: nat
  tx_tail :: nat
  is_connected :: bool
  c_state :: nos_ipc_conn_state_t
  next_retry_ms :: u64
  retry_delay_ms :: u32
  connect_fail_count :: u32
  c_tx_packets :: u64
  c_tx_bytes :: u64
  c_tx_errors :: u64
  c_rx_packets :: u64
  c_rx_bytes :: u64
  c_rx_errors :: u64
  c_dropped_full :: u64
  generation :: u32
  is_passive :: bool
  c_remote_node :: string
  c_shm_name :: string
  c_shm :: "nos_shm_channel_t option"
  c_owner_thread :: "nat option"

record nos_ipc_shm_setup_t =
  setup_shm_name :: string
  setup_peer_node :: string

record nos_ipc_stats_t =
  st_tx_packets :: u64
  st_rx_packets :: u64
  st_tx_bytes :: u64
  st_rx_bytes :: u64
  st_tx_errors :: u64
  st_rx_errors :: u64
  st_dropped_full :: u64
  st_buffer_alloc_fails :: u64

text \<open>What a system call does when its turn comes; a call looks at the field that is its own.
  \<open>sys_stack\<close> is what uninitialised memory holds, \<open>sys_calloc\<close> the address \<^verbatim>\<open>calloc\<close> gives.\<close>

datatype send_result = Sent | Again | Failed

record sys_result =
  sys_fd :: int
  sys_ok :: bool
  sys_send :: send_result
  sys_shm :: shm_env
  sys_stack :: "u8 list"
  sys_calloc :: "nat option"

record ipc_state = shm_state +
  g_remote_conns :: "nos_ipc_conn_t list"
  g_remote_conn_count :: nat
  node_stats :: nos_ipc_stats_t
  sock_rx :: "int \<Rightarrow> u8 list list"
  sock_closed :: "int \<Rightarrow> bool"
  sent_pkts :: "(int \<times> u8 list) list"
  sys_calls :: "nat \<Rightarrow> sys_result"
  sys_pos :: nat

definition null_conn :: nos_ipc_conn_t where
  "null_conn = \<lparr>c_uds_path = [], c_fd = 0, tx_queue = replicate TX_QUEUE_SIZE None, tx_head = 0, tx_tail = 0,
     is_connected = False, c_state = NOS_IPC_DISCONNECTED, next_retry_ms = 0, retry_delay_ms = 0, connect_fail_count = 0,
     c_tx_packets = 0, c_tx_bytes = 0, c_tx_errors = 0, c_rx_packets = 0, c_rx_bytes = 0, c_rx_errors = 0, c_dropped_full = 0,
     generation = 0, is_passive = False, c_remote_node = [], c_shm_name = [], c_shm = None, c_owner_thread = None\<rparr>"

definition get_conn :: "'z ipc_state_scheme \<Rightarrow> nat \<Rightarrow> nos_ipc_conn_t" where
  "get_conn s i = g_remote_conns s ! i"

definition upd_conn :: "nat \<Rightarrow> (nos_ipc_conn_t \<Rightarrow> nos_ipc_conn_t) \<Rightarrow> 'z ipc_state_scheme \<Rightarrow> 'z ipc_state_scheme" where
  "upd_conn i f s = s\<lparr>g_remote_conns := (g_remote_conns s)[i := f (g_remote_conns s ! i)]\<rparr>"

definition upd_stats :: "(nos_ipc_stats_t \<Rightarrow> nos_ipc_stats_t) \<Rightarrow> 'z ipc_state_scheme \<Rightarrow> 'z ipc_state_scheme" where
  "upd_stats f s = s\<lparr>node_stats := f (node_stats s)\<rparr>"

definition next_sys :: "'z ipc_state_scheme \<Rightarrow> sys_result \<times> 'z ipc_state_scheme" where
  "next_sys s = (sys_calls s (sys_pos s), s\<lparr>sys_pos := sys_pos s + 1\<rparr>)"

text \<open>\<^verbatim>\<open>send\<close> on a socket of packets is atomic: the packet goes out whole or not at all.\<close>

definition sock_send :: "int \<Rightarrow> u8 list \<Rightarrow> 'z ipc_state_scheme \<Rightarrow> send_result \<times> 'z ipc_state_scheme" where
  "sock_send d bs s =
    (case next_sys s of (r, s1) \<Rightarrow>
       (sys_send r, if sys_send r = Sent then s1\<lparr>sent_pkts := sent_pkts s1 @ [(d, bs)]\<rparr> else s1))"

definition sock_close :: "int \<Rightarrow> 'z ipc_state_scheme \<Rightarrow> 'z ipc_state_scheme" where
  "sock_close d s = s\<lparr>sock_rx := (sock_rx s)(d := [])\<rparr>"

section \<open>Control messages\<close>

definition ipc_is_ctrl_msg :: "nos_service_msg_t \<Rightarrow> bool" where
  "ipc_is_ctrl_msg msg \<longleftrightarrow> flags msg AND NOS_MSG_F_IPC_CTRL \<noteq> 0"

definition ipc_make_shm_name :: "nat \<Rightarrow> string option \<Rightarrow> string option \<Rightarrow> string" where
  "ipc_make_shm_name out_size local remote =
    c_strncpy (out_size - 1) (''/nos_shm_'' @ (case local of None \<Rightarrow> ''local'' | Some l \<Rightarrow> l) @ ''_''
      @ (case remote of None \<Rightarrow> ''remote'' | Some r \<Rightarrow> r))"

text \<open>A string in a zeroed character array of \<open>n\<close> bytes, and the string such an array holds.\<close>

definition str_bytes :: "nat \<Rightarrow> string \<Rightarrow> u8 list" where
  "str_bytes n t = take n (map of_char t @ replicate n 0)"

definition bytes_str :: "u8 list \<Rightarrow> string" where
  "bytes_str bs = map (\<lambda>b. char_of (unat b)) (takeWhile (\<lambda>b. b \<noteq> 0) bs)"

definition sizeof_setup :: nat where "sizeof_setup = 96"

definition encode_setup :: "nos_ipc_shm_setup_t \<Rightarrow> u8 list" where
  "encode_setup st = str_bytes 64 (setup_shm_name st) @ str_bytes 32 (setup_peer_node st)"

definition decode_setup :: "u8 list \<Rightarrow> nos_ipc_shm_setup_t" where
  "decode_setup bs = \<lparr>setup_shm_name = bytes_str (take 64 bs), setup_peer_node = bytes_str (take 32 (drop 64 bs))\<rparr>"

definition ctrl_packet :: "u32 \<Rightarrow> u8 list \<Rightarrow> u8 list" where
  "ctrl_packet code payload = encode_msg \<lparr>magic = NOS_IPC_MAGIC, version = NOS_IPC_VERSION, dst_service = 0, src_component = 0,
     dst_component = 0, msg_code = code, seq = 0, flags = NOS_MSG_F_IPC_CTRL, payload_len = of_nat (length payload)\<rparr> @ payload"

definition ipc_send_ctrl :: "int \<Rightarrow> u32 \<Rightarrow> u8 list \<Rightarrow> 'z ipc_state_scheme \<Rightarrow> 'z ipc_state_scheme" where
  "ipc_send_ctrl d code payload s =
    (if length payload > sizeof_setup then s else snd (sock_send d (ctrl_packet code payload) s))"

section \<open>The state machine of a connection\<close>

definition ipc_monotonic_ms :: "'z ipc_state_scheme \<Rightarrow> u64 \<times> 'z ipc_state_scheme" where
  "ipc_monotonic_ms s = get_monotonic_ms s"

definition ipc_state_name :: "nos_ipc_conn_state_t \<Rightarrow> string" where
  "ipc_state_name st = (case st of NOS_IPC_DISCONNECTED \<Rightarrow> ''DISCONNECTED'' | NOS_IPC_CONNECTING \<Rightarrow> ''CONNECTING''
     | NOS_IPC_CONNECTED \<Rightarrow> ''CONNECTED'' | NOS_IPC_BACKOFF \<Rightarrow> ''BACKOFF'')"

definition ipc_queue_len :: "nos_ipc_conn_t \<Rightarrow> nat" where
  "ipc_queue_len c = (if tx_tail c \<ge> tx_head c then tx_tail c - tx_head c else TX_QUEUE_SIZE - tx_head c + tx_tail c)"

definition nos_ipc_mark_disconnected :: "nat \<Rightarrow> 'z ipc_state_scheme \<Rightarrow> 'z ipc_state_scheme" where
  "nos_ipc_mark_disconnected i s =
    (let c = get_conn s i;
         s1 = (if c_fd c \<ge> 0 then sock_close (c_fd c) (snd (nos_scheduler_remove_fd (c_owner_thread c) (c_fd c) s)) else s);
         s2 = (case c_shm c of None \<Rightarrow> s1 | Some ch \<Rightarrow> upd_conn i (\<lambda>c. c\<lparr>c_shm := None\<rparr>) (nos_shm_channel_close (Some ch) s1))
     in upd_conn i (\<lambda>c. c\<lparr>c_fd := -1, is_connected := False, c_state := NOS_IPC_DISCONNECTED, generation := generation c + 1\<rparr>) s2)"

definition fail_delay :: "nos_ipc_conn_t \<Rightarrow> u32" where
  "fail_delay c = (if retry_delay_ms c \<noteq> 0 then retry_delay_ms c else IPC_RETRY_INITIAL_MS)"

definition nos_ipc_mark_connect_failed :: "nat \<Rightarrow> 'z ipc_state_scheme \<Rightarrow> 'z ipc_state_scheme" where
  "nos_ipc_mark_connect_failed i s =
    (let delay = fail_delay (get_conn s i) in
     case ipc_monotonic_ms s of (now, s1) \<Rightarrow>
       upd_conn i (\<lambda>c. c\<lparr>connect_fail_count := connect_fail_count c + 1,
         retry_delay_ms := (if delay \<ge> IPC_RETRY_MAX_MS div 2 then IPC_RETRY_MAX_MS else delay * 2),
         next_retry_ms := now + ucast delay, c_state := NOS_IPC_BACKOFF, is_connected := False\<rparr>) s1)"

text \<open>Code addresses of the two callbacks, and the event mask of a connection.\<close>

definition event_handler_ptr :: nat where "event_handler_ptr = 1"
definition accept_handler_ptr :: nat where "accept_handler_ptr = 2"
definition conn_events :: u32 where "conn_events = EPOLLIN OR 0x004 OR 0x80000000"

text \<open>Creating a channel unlinks the name first, so that the object is new and the mapping is never
  of size 0: the value \<^verbatim>\<open>None\<close> of \<open>nos_shm_channel_create\<close> does not occur (\<open>shm_create_total\<close>).\<close>

definition setup_shm :: "nat \<Rightarrow> string \<Rightarrow> 'z ipc_state_scheme \<Rightarrow> 'z ipc_state_scheme" where
  "setup_shm i local s =
    (let name = ipc_make_shm_name NOS_SHM_NAME_MAX (Some local) (Some (c_remote_node (get_conn s i)));
         setup = \<lparr>setup_shm_name = c_strncpy 63 name, setup_peer_node = c_strncpy 31 local\<rparr>;
         s1 = upd_conn i (\<lambda>c. c\<lparr>c_shm_name := name\<rparr>) s
     in case next_sys s1 of (r, s2) \<Rightarrow>
       (case nos_shm_channel_create (sys_shm r) (Some name) True s2 of
          None \<Rightarrow> s2
        | Some (ch, s3) \<Rightarrow>
            (let s4 = upd_conn i (\<lambda>c. c\<lparr>c_shm := ch\<rparr>) s3 in
             if ch \<noteq> None then ipc_send_ctrl (c_fd (get_conn s4 i)) NOS_IPC_CTRL_SHM_SETUP (encode_setup setup) s4 else s4)))"

definition conn_established :: "nat \<Rightarrow> int \<Rightarrow> 'z ipc_state_scheme \<Rightarrow> 'z ipc_state_scheme" where
  "conn_established i d s =
    (let s1 = upd_conn i (\<lambda>c. c\<lparr>c_fd := d, is_connected := True, c_state := NOS_IPC_CONNECTED, generation := generation c + 1,
           retry_delay_ms := IPC_RETRY_INITIAL_MS, next_retry_ms := 0, connect_fail_count := 0\<rparr>) s
     in case next_sys s1 of (r, s2) \<Rightarrow>
       let s3 = snd (nos_scheduler_add_fd_ex (sys_ok r) (c_owner_thread (get_conn s2 i)) d conn_events (Some event_handler_ptr) (Some i) s2);
           c = get_conn s3 i
       in if c_shm c = None \<and> c_remote_node c \<noteq> []
          then (case node_def s3 of None \<Rightarrow> s3 | Some nd \<Rightarrow> setup_shm i (node_name nd) s3)
          else s3)"

definition nos_ipc_try_connect_locked :: "nat \<Rightarrow> 'z ipc_state_scheme \<Rightarrow> bool \<times> 'z ipc_state_scheme" where
  "nos_ipc_try_connect_locked i s =
    (case ipc_monotonic_ms s of (now, s1) \<Rightarrow>
       if c_state (get_conn s1 i) = NOS_IPC_BACKOFF \<and> now < next_retry_ms (get_conn s1 i) then (False, s1)
       else (case next_sys (upd_conn i (\<lambda>c. c\<lparr>c_state := NOS_IPC_CONNECTING\<rparr>) s1) of (r, s2) \<Rightarrow>
         if sys_fd r < 0 then (False, nos_ipc_mark_connect_failed i s2)
         else (case next_sys s2 of (r', s3) \<Rightarrow>
           if \<not> sys_ok r' then (False, nos_ipc_mark_connect_failed i (sock_close (sys_fd r) s3))
           else (True, conn_established i (sys_fd r) s3))))"

section \<open>Transmission\<close>

text \<open>\<open>buf_bytes s p n\<close>: the \<open>n\<close> bytes at the data pointer of a buffer.\<close>

definition buf_bytes :: "'z buf_state_scheme \<Rightarrow> bufp \<Rightarrow> nat \<Rightarrow> u8 list" where
  "buf_bytes s p n = (let b = get_buf s p in take n (drop (nat (data b - raw_data b)) (chunk b)))"

definition full_len :: "nos_service_msg_t \<Rightarrow> nat" where
  "full_len h = sizeof_msg + unat (payload_len h)"

definition tx_put :: "bufp option \<Rightarrow> nos_ipc_conn_t \<Rightarrow> nos_ipc_conn_t option" where
  "tx_put b c =
    (let next_tail = (tx_tail c + 1) mod TX_QUEUE_SIZE in
     if next_tail = tx_head c then None
     else Some (c\<lparr>tx_queue := (tx_queue c)[tx_tail c := b], tx_tail := next_tail\<rparr>))"

definition tx_pop :: "nos_ipc_conn_t \<Rightarrow> nos_ipc_conn_t" where
  "tx_pop c = c\<lparr>tx_head := (tx_head c + 1) mod TX_QUEUE_SIZE\<rparr>"

text \<open>After a successful transmission of \<open>n\<close> bytes.\<close>

definition tx_done :: "nat \<Rightarrow> bufp \<Rightarrow> nat \<Rightarrow> 'z ipc_state_scheme \<Rightarrow> 'z ipc_state_scheme" where
  "tx_done i p n s =
    upd_conn i tx_pop (nos_buffer_release (Some p)
      (upd_conn i (\<lambda>c. c\<lparr>c_tx_packets := c_tx_packets c + 1, c_tx_bytes := c_tx_bytes c + of_nat n\<rparr>) s))"

definition try_shm :: "nat \<Rightarrow> bufp \<Rightarrow> 'z ipc_state_scheme \<Rightarrow> nos_status_t \<times> 'z ipc_state_scheme" where
  "try_shm i p s =
    (let h = msg_header s p; n = full_len h; c = get_conn s i in
     if ipc_is_ctrl_msg h \<or> c_shm c = None \<or> n > NOS_SHM_SLOT_SIZE then (NOS_ERR, s)
     else nos_shm_channel_write (c_shm c) (Some (buf_bytes s p n)) (of_nat n) s)"

text \<open>One round of the transmit loop; the flag says whether the loop goes on.\<close>

definition tx_one :: "nat \<Rightarrow> bufp \<Rightarrow> 'z ipc_state_scheme \<Rightarrow> bool \<times> 'z ipc_state_scheme" where
  "tx_one i p s =
    (let n = full_len (msg_header s p) in
     case try_shm i p s of (r, s1) \<Rightarrow>
       if r = NOS_OK
       then (True, tx_done i p n (ipc_send_ctrl (c_fd (get_conn s1 i)) NOS_IPC_CTRL_SHM_NOTIFY [] s1))
       else (case sock_send (c_fd (get_conn s1 i)) (buf_bytes s1 p n) s1 of (out, s2) \<Rightarrow>
         (case out of
            Sent \<Rightarrow> (True, tx_done i p n (upd_stats (\<lambda>st. st\<lparr>st_tx_packets := st_tx_packets st + 1, st_tx_bytes := st_tx_bytes st + of_nat n\<rparr>) s2))
          | Again \<Rightarrow> (False, s2)
          | Failed \<Rightarrow> (False, nos_ipc_mark_disconnected i (upd_conn i (\<lambda>c. c\<lparr>c_tx_errors := c_tx_errors c + 1\<rparr>)
              (upd_stats (\<lambda>st. st\<lparr>st_tx_errors := st_tx_errors st + 1\<rparr>) s2))))))"

text \<open>The loop holds the lock and takes one message out per round, so that the length of the queue
  bounds the rounds.\<close>

fun tx_loop :: "nat \<Rightarrow> nat \<Rightarrow> 'z ipc_state_scheme \<Rightarrow> 'z ipc_state_scheme" where
  "tx_loop 0 i s = s"
| "tx_loop (Suc k) i s =
    (if tx_head (get_conn s i) = tx_tail (get_conn s i) then s
     else (case tx_queue (get_conn s i) ! tx_head (get_conn s i) of
         None \<Rightarrow> s
       | Some p \<Rightarrow> (case tx_one i p s of (go, s1) \<Rightarrow> if go then tx_loop k i s1 else s1)))"

definition nos_ipc_process_tx :: "nat \<Rightarrow> 'z ipc_state_scheme \<Rightarrow> 'z ipc_state_scheme" where
  "nos_ipc_process_tx i s =
    (let c = get_conn s i in
     if c_state c \<noteq> NOS_IPC_CONNECTED \<or> c_fd c < 0 then s else tx_loop (ipc_queue_len c) i s)"

text \<open>Queueing a buffer on a connection, or counting it as dropped.\<close>

definition tx_enqueue :: "nat \<Rightarrow> bufp \<Rightarrow> 'z ipc_state_scheme \<Rightarrow> nos_status_t \<times> 'z ipc_state_scheme" where
  "tx_enqueue i p s =
    (case tx_put (Some p) (get_conn s i) of
       None \<Rightarrow> (NOS_ERR_BUSY, upd_stats (\<lambda>st. st\<lparr>st_dropped_full := st_dropped_full st + 1\<rparr>)
                 (upd_conn i (\<lambda>c. c\<lparr>c_dropped_full := c_dropped_full c + 1\<rparr>) s))
     | Some c' \<Rightarrow> (NOS_OK, upd_conn i (\<lambda>_. c') (nos_buffer_retain (Some p) s)))"

definition nos_ipc_send_reply ::
  "nat option \<Rightarrow> u32 \<Rightarrow> bufp option \<Rightarrow> 'z ipc_state_scheme \<Rightarrow> nos_status_t \<times> 'z ipc_state_scheme" where
  "nos_ipc_send_reply reply_conn gen buf s =
    (case (reply_conn, buf) of
       (Some i, Some p) \<Rightarrow>
         (let c = get_conn s i in
          if c_state c \<noteq> NOS_IPC_CONNECTED \<or> c_fd c < 0 \<or> generation c \<noteq> gen then (NOS_ERR, s)
          else (case tx_enqueue i p s of (r, s1) \<Rightarrow> if r = NOS_OK then (NOS_OK, nos_ipc_process_tx i s1) else (r, s1)))
     | _ \<Rightarrow> (NOS_ERR, s))"

section \<open>Connections\<close>

definition clear_conn :: "nos_ipc_conn_t \<Rightarrow> nos_ipc_conn_t" where
  "clear_conn c = c\<lparr>tx_head := 0, tx_tail := 0, next_retry_ms := 0, retry_delay_ms := IPC_RETRY_INITIAL_MS, connect_fail_count := 0,
     c_tx_packets := 0, c_tx_bytes := 0, c_tx_errors := 0, c_rx_packets := 0, c_rx_bytes := 0, c_rx_errors := 0, c_dropped_full := 0,
     generation := 1\<rparr>"

definition get_or_create_conn :: "string option \<Rightarrow> string \<Rightarrow> 'z ipc_state_scheme \<Rightarrow> nat option \<times> 'z ipc_state_scheme" where
  "get_or_create_conn node uds_path s =
    (case find_idx (\<lambda>c. c_uds_path c = uds_path) (g_remote_conns s) (g_remote_conn_count s) of
       Some i \<Rightarrow> (Some i, s)
     | None \<Rightarrow>
         if g_remote_conn_count s \<ge> MAX_REMOTE_CONNS then (None, s)
         else (let i = g_remote_conn_count s in
           (Some i, upd_conn i (\<lambda>c. (clear_conn c)\<lparr>c_uds_path := c_strncpy 107 uds_path,
              c_remote_node := (case node of None \<Rightarrow> c_remote_node c | Some n \<Rightarrow> c_strncpy 31 n),
              c_fd := -1, is_connected := False, c_state := NOS_IPC_DISCONNECTED, is_passive := False, c_owner_thread := mgmt_thread s\<rparr>)
              (s\<lparr>g_remote_conn_count := i + 1\<rparr>))))"

text \<open>\<^verbatim>\<open>%d\<close> of a descriptor, which is not negative.\<close>

fun show_nat :: "nat \<Rightarrow> string" where
  "show_nat n = (if n < 10 then [char_of (48 + n)] else show_nat (n div 10) @ [char_of (48 + n mod 10)])"

declare show_nat.simps [simp del]

definition create_passive_conn :: "int \<Rightarrow> nat option \<Rightarrow> 'z ipc_state_scheme \<Rightarrow> nat option \<times> 'z ipc_state_scheme" where
  "create_passive_conn d thread s =
    (if g_remote_conn_count s \<ge> MAX_REMOTE_CONNS then (None, s)
     else (let i = g_remote_conn_count s in
       (Some i, upd_conn i (\<lambda>c. (clear_conn c)\<lparr>c_uds_path := c_strncpy 107 (''passive:'' @ show_nat (nat d)), c_fd := d,
          is_connected := True, c_state := NOS_IPC_CONNECTED, is_passive := True, c_owner_thread := thread\<rparr>)
          (s\<lparr>g_remote_conn_count := i + 1\<rparr>))))"

definition nos_ipc_send_enqueue ::
  "string option \<Rightarrow> string \<Rightarrow> bufp \<Rightarrow> 'z ipc_state_scheme \<Rightarrow> nos_status_t \<times> 'z ipc_state_scheme" where
  "nos_ipc_send_enqueue node uds_path p s =
    (case get_or_create_conn node uds_path s of
       (None, s1) \<Rightarrow> (NOS_ERR, s1)
     | (Some i, s1) \<Rightarrow>
         (case tx_enqueue i p s1 of (r, s2) \<Rightarrow>
            if r \<noteq> NOS_OK then (r, s2)
            else (let c = get_conn s2 i;
                      s3 = (if c_fd c < 0 \<or> c_state c \<noteq> NOS_IPC_CONNECTED then snd (nos_ipc_try_connect_locked i s2) else s2)
                  in (NOS_OK, if c_state (get_conn s3 i) = NOS_IPC_CONNECTED then nos_ipc_process_tx i s3 else s3))))"

text \<open>The scheduler's routing and replies with this transport.\<close>

definition ipc_msg_send :: "bufp option \<Rightarrow> 'z ipc_state_scheme \<Rightarrow> nos_status_t \<times> 'z ipc_state_scheme" where
  "ipc_msg_send = nos_service_msg_send (\<lambda>node path. nos_ipc_send_enqueue (Some node) path)"

definition ipc_service_reply :: "nat option \<Rightarrow> bufp option \<Rightarrow> 'z ipc_state_scheme \<Rightarrow> nos_status_t \<times> 'z ipc_state_scheme" where
  "ipc_service_reply = nos_service_reply (\<lambda>conn gen p. nos_ipc_send_reply conn gen (Some p))"

section \<open>Reception\<close>

definition count_rx_error :: "nat option \<Rightarrow> 'z ipc_state_scheme \<Rightarrow> 'z ipc_state_scheme" where
  "count_rx_error conn s = (case conn of None \<Rightarrow> s | Some i \<Rightarrow> upd_conn i (\<lambda>c. c\<lparr>c_rx_errors := c_rx_errors c + 1\<rparr>) s)"

definition stat_rx_error :: "'z ipc_state_scheme \<Rightarrow> 'z ipc_state_scheme" where
  "stat_rx_error = upd_stats (\<lambda>st. st\<lparr>st_rx_errors := st_rx_errors st + 1\<rparr>)"

definition stat_alloc_fail :: "'z ipc_state_scheme \<Rightarrow> 'z ipc_state_scheme" where
  "stat_alloc_fail = upd_stats (\<lambda>st. st\<lparr>st_buffer_alloc_fails := st_buffer_alloc_fails st + 1\<rparr>)"

definition put_bytes :: "bufp \<Rightarrow> u8 list \<Rightarrow> 'z buf_state_scheme \<Rightarrow> 'z buf_state_scheme" where
  "put_bytes p bs = upd_buf p (\<lambda>b. b\<lparr>chunk := write_bytes (chunk b) (nat (data b - raw_data b)) bs\<rparr>)"

text \<open>The reply context of a received message and the counters of its connection.\<close>

definition rx_origin :: "nat option \<Rightarrow> nos_service_msg_t \<Rightarrow> nat \<Rightarrow> bufp \<Rightarrow> 'z ipc_state_scheme \<Rightarrow> 'z ipc_state_scheme" where
  "rx_origin conn h n p s =
    (case conn of
       None \<Rightarrow> s
     | Some i \<Rightarrow>
         (case next_sys s of (r, s1) \<Rightarrow>
            (case nos_reply_ctx_create (sys_calloc r) (Some i) (generation (get_conn s1 i)) (seq h) (src_component h) s1 of (rc, s2) \<Rightarrow>
               upd_conn i (\<lambda>c. c\<lparr>c_rx_packets := c_rx_packets c + 1, c_rx_bytes := c_rx_bytes c + of_nat n\<rparr>)
                 (upd_buf p (\<lambda>b. b\<lparr>reply_ctx := rc\<rparr>) s2))))"

definition ipc_deliver_rx_data :: "u8 list option \<Rightarrow> u32 \<Rightarrow> nat option \<Rightarrow> 'z ipc_state_scheme \<Rightarrow> 'z ipc_state_scheme" where
  "ipc_deliver_rx_data d n conn s =
    (case d of
       None \<Rightarrow> s
     | Some bs \<Rightarrow>
         if unat n < sizeof_msg then s
         else (let h = decode_msg bs 0; full = full_len h in
           if payload_len h > NOS_IPC_MAX_PAYLOAD_LEN then count_rx_error conn (stat_rx_error s)
           else if unat n \<noteq> full then count_rx_error conn (stat_rx_error s)
           else (case nos_buffer_alloc (of_nat full) 0 s of
               (None, s1) \<Rightarrow> count_rx_error conn (stat_alloc_fail s1)
             | (Some p, s1) \<Rightarrow>
                 (let s2 = put_bytes p (take full bs) s1;
                      s3 = rx_origin conn h full p s2;
                      s4 = upd_stats (\<lambda>st. st\<lparr>st_rx_packets := st_rx_packets st + 1, st_rx_bytes := st_rx_bytes st + of_nat full\<rparr>) s3
                  in nos_buffer_release (Some p) (snd (ipc_msg_send (Some p) s4))))))"

definition ipc_shm_drain_cb :: "nat option \<Rightarrow> u8 list \<Rightarrow> u32 \<Rightarrow> 'z ipc_state_scheme \<Rightarrow> 'z ipc_state_scheme" where
  "ipc_shm_drain_cb arg d n s = ipc_deliver_rx_data (Some d) n arg s"

text \<open>\<open>payload\<close> are the bytes after the header.  The result \<^verbatim>\<open>None\<close> stands for a process killed by
  touching an empty shared object, or for a drain loop that has not ended after \<open>fuel\<close> rounds.\<close>

definition ipc_handle_ctrl_msg ::
  "nat \<Rightarrow> nat option \<Rightarrow> nos_service_msg_t \<Rightarrow> u8 list \<Rightarrow> 'z ipc_state_scheme \<Rightarrow> 'z ipc_state_scheme option" where
  "ipc_handle_ctrl_msg fuel conn msg payload s =
    (case conn of
       None \<Rightarrow> Some s
     | Some i \<Rightarrow>
         if msg_code msg = NOS_IPC_CTRL_SHM_SETUP \<and> unat (payload_len msg) \<ge> sizeof_setup then
           (let setup = decode_setup payload;
                s1 = upd_conn i (\<lambda>c. c\<lparr>c_remote_node := c_strncpy 31 (setup_peer_node setup), c_shm_name := c_strncpy 63 (setup_shm_name setup)\<rparr>) s
            in if c_shm (get_conn s1 i) \<noteq> None then Some s1
               else (case next_sys s1 of (r, s2) \<Rightarrow>
                 (case nos_shm_channel_open (sys_shm r) (Some (c_shm_name (get_conn s2 i))) False s2 of
                    None \<Rightarrow> None
                  | Some (ch, s3) \<Rightarrow> Some (upd_conn i (\<lambda>c. c\<lparr>c_shm := ch\<rparr>) s3))))
         else if msg_code msg = NOS_IPC_CTRL_SHM_NOTIFY then
           (case c_shm (get_conn s i) of
              None \<Rightarrow> Some s
            | Some ch \<Rightarrow> map_option snd (nos_shm_channel_drain fuel (Some ch) (Some (ipc_shm_drain_cb (Some i))) s))
         else Some s)"

definition drop_link :: "int \<Rightarrow> nat option \<Rightarrow> nat option \<Rightarrow> 'z ipc_state_scheme \<Rightarrow> 'z ipc_state_scheme" where
  "drop_link d conn thread s =
    (case conn of
       Some i \<Rightarrow> nos_ipc_mark_disconnected i s
     | None \<Rightarrow> sock_close d (snd (nos_scheduler_remove_fd thread d s)))"

definition sock_discard :: "int \<Rightarrow> 'z ipc_state_scheme \<Rightarrow> 'z ipc_state_scheme" where
  "sock_discard d s = s\<lparr>sock_rx := (sock_rx s)(d := tl (sock_rx s d))\<rparr>"

text \<open>The header buffer is on the stack and not initialised: a packet shorter than a header
  leaves its rest as it was.\<close>

definition peek_header :: "u8 list \<Rightarrow> u8 list \<Rightarrow> nos_service_msg_t" where
  "peek_header stack pkt = decode_msg (take sizeof_msg pkt @ drop (length pkt) stack) 0"

definition nos_ipc_recv_handler ::
  "nat \<Rightarrow> int \<Rightarrow> nat option \<Rightarrow> nat option \<Rightarrow> 'z ipc_state_scheme \<Rightarrow> 'z ipc_state_scheme option" where
  "nos_ipc_recv_handler fuel d conn thread s =
    (case sock_rx s d of
       [] \<Rightarrow> Some (if sock_closed s d then drop_link d conn thread s else s)
     | pkt # _ \<Rightarrow>
         if pkt = [] then Some (drop_link d conn thread s)
         else (case next_sys s of (r, s1) \<Rightarrow>
           let h = peek_header (sys_stack r) pkt; full = full_len h in
           if magic h \<noteq> NOS_IPC_MAGIC then Some (drop_link d conn thread (count_rx_error conn s1))
           else if payload_len h > NOS_IPC_MAX_PAYLOAD_LEN then Some (sock_discard d (count_rx_error conn (stat_rx_error s1)))
           else (case nos_buffer_alloc (of_nat full) 0 s1 of
               (None, s2) \<Rightarrow> Some (sock_discard d (count_rx_error conn (stat_alloc_fail s2)))
             | (Some p, s2) \<Rightarrow>
                 (let s3 = put_bytes p (take full pkt) (sock_discard d s2) in
                  map_option (nos_buffer_release (Some p))
                    (if length (take full pkt) = full then
                       (let rx_msg = msg_header s3 p in
                        if ipc_is_ctrl_msg rx_msg
                        then ipc_handle_ctrl_msg fuel conn rx_msg (drop sizeof_msg (buf_bytes s3 p full)) s3
                        else Some (ipc_deliver_rx_data (Some (buf_bytes s3 p full)) (of_nat full) conn s3))
                     else Some (count_rx_error conn (stat_rx_error s3)))))))"

definition nos_ipc_event_handler :: "nat \<Rightarrow> int \<Rightarrow> nat \<Rightarrow> 'z ipc_state_scheme \<Rightarrow> 'z ipc_state_scheme option" where
  "nos_ipc_event_handler fuel d i s =
    (if d < 0 then Some s
     else (let s1 = nos_ipc_process_tx i s; c = get_conn s1 i in
       if c_state c \<noteq> NOS_IPC_CONNECTED \<or> c_fd c < 0 then Some s1
       else nos_ipc_recv_handler fuel d (Some i) (c_owner_thread c) s1))"

definition nos_ipc_accept_handler :: "nat \<Rightarrow> 'z ipc_state_scheme \<Rightarrow> 'z ipc_state_scheme" where
  "nos_ipc_accept_handler t s =
    (case next_sys s of (r, s1) \<Rightarrow>
       if sys_fd r < 0 then s1
       else (case create_passive_conn (sys_fd r) (Some t) s1 of
           (None, s2) \<Rightarrow> sock_close (sys_fd r) s2
         | (Some i, s2) \<Rightarrow>
             (case next_sys s2 of (r', s3) \<Rightarrow>
                snd (nos_scheduler_add_fd_ex (sys_ok r') (Some t) (sys_fd r) conn_events (Some event_handler_ptr) (Some i) s3))))"

text \<open>The calls are \<^verbatim>\<open>socket\<close>, \<^verbatim>\<open>bind\<close>, \<^verbatim>\<open>listen\<close> and the registration with the kernel.\<close>

definition nos_ipc_init :: "nat \<Rightarrow> string \<Rightarrow> 'z ipc_state_scheme \<Rightarrow> nos_status_t \<times> 'z ipc_state_scheme" where
  "nos_ipc_init t uds_path s =
    (case next_sys s of (r, s1) \<Rightarrow>
       if sys_fd r < 0 then (NOS_ERR, s1)
       else (case next_sys s1 of (b, s2) \<Rightarrow>
         if \<not> sys_ok b then (NOS_ERR, sock_close (sys_fd r) s2)
         else (case next_sys s2 of (l, s3) \<Rightarrow>
           if \<not> sys_ok l then (NOS_ERR, sock_close (sys_fd r) s3)
           else (case next_sys s3 of (e, s4) \<Rightarrow>
             nos_scheduler_add_fd (sys_ok e) (Some t) (sys_fd r) (Some accept_handler_ptr) (Some t) s4))))"

section \<open>The tables shown to the operator\<close>

record conn_row =
  row_path :: string
  row_state :: string
  row_fd :: int
  row_queue :: nat
  row_retry :: u64
  row_failures :: u32

definition retry_left :: "u64 \<Rightarrow> nos_ipc_conn_t \<Rightarrow> u64" where
  "retry_left now c = (if c_state c = NOS_IPC_BACKOFF \<and> next_retry_ms c > now then next_retry_ms c - now else 0)"

definition connection_row :: "u64 \<Rightarrow> nos_ipc_conn_t \<Rightarrow> conn_row" where
  "connection_row now c = \<lparr>row_path = c_uds_path c, row_state = ipc_state_name (c_state c), row_fd = c_fd c, row_queue = ipc_queue_len c,
     row_retry = retry_left now c, row_failures = connect_fail_count c\<rparr>"

definition traffic_row :: "nos_ipc_conn_t \<Rightarrow> string \<times> u64 list" where
  "traffic_row c = (c_uds_path c, [c_tx_packets c, c_tx_bytes c, c_tx_errors c, c_rx_packets c, c_rx_bytes c, c_rx_errors c, c_dropped_full c])"

definition nos_ipc_dump_stats :: "'z ipc_state_scheme \<Rightarrow> (conn_row list \<times> (string \<times> u64 list) list) \<times> 'z ipc_state_scheme" where
  "nos_ipc_dump_stats s =
    (case ipc_monotonic_ms s of (now, s1) \<Rightarrow>
       let conns = take (g_remote_conn_count s1) (g_remote_conns s1) in ((map (connection_row now) conns, map traffic_row conns), s1))"

section \<open>Frames\<close>

text \<open>What an operation on one part of the state leaves alone.\<close>

lemma ipc_upd_conn [simp]:
  "g_bins (upd_conn i f s) = g_bins s" "g_threads (upd_conn i f s) = g_threads s" "shm_objs (upd_conn i f s) = shm_objs s"
  "sent_pkts (upd_conn i f s) = sent_pkts s" "sock_rx (upd_conn i f s) = sock_rx s" "sock_closed (upd_conn i f s) = sock_closed s" "sys_calls (upd_conn i f s) = sys_calls s"
  "sys_pos (upd_conn i f s) = sys_pos s" "g_remote_conn_count (upd_conn i f s) = g_remote_conn_count s" "node_stats (upd_conn i f s) = node_stats s"
  "length (g_remote_conns (upd_conn i f s)) = length (g_remote_conns s)" "shm_names (upd_conn i f s) = shm_names s"
  "g_service_registry (upd_conn i f s) = g_service_registry s" "g_service_count (upd_conn i f s) = g_service_count s" "node_def (upd_conn i f s) = node_def s"
  "loaded_info (upd_conn i f s) = loaded_info s" "loaded_count (upd_conn i f s) = loaded_count s" "g_comps (upd_conn i f s) = g_comps s" "g_reply_ctxs (upd_conn i f s) = g_reply_ctxs s"
  by (simp_all add: upd_conn_def)

lemma get_upd_conn [simp]:
  "i < length (g_remote_conns s) \<Longrightarrow> get_conn (upd_conn i f s) j = (if j = i then f (get_conn s i) else get_conn s j)"
  by (simp add: get_conn_def upd_conn_def nth_list_update)

lemma ipc_upd_stats [simp]:
  "g_bins (upd_stats f s) = g_bins s" "g_threads (upd_stats f s) = g_threads s" "shm_objs (upd_stats f s) = shm_objs s"
  "sent_pkts (upd_stats f s) = sent_pkts s" "g_remote_conns (upd_stats f s) = g_remote_conns s" "sock_rx (upd_stats f s) = sock_rx s" "sys_calls (upd_stats f s) = sys_calls s"
  "sys_pos (upd_stats f s) = sys_pos s" "g_remote_conn_count (upd_stats f s) = g_remote_conn_count s" "node_stats (upd_stats f s) = f (node_stats s)"
  "g_service_registry (upd_stats f s) = g_service_registry s" "g_service_count (upd_stats f s) = g_service_count s" "node_def (upd_stats f s) = node_def s"
  "loaded_info (upd_stats f s) = loaded_info s" "loaded_count (upd_stats f s) = loaded_count s" "g_comps (upd_stats f s) = g_comps s" "g_reply_ctxs (upd_stats f s) = g_reply_ctxs s"
  by (simp_all add: upd_stats_def)

lemma ipc_upd_buf [simp]:
  "g_remote_conns (upd_buf p g s) = g_remote_conns s" "shm_objs (upd_buf p g s) = shm_objs s" "sent_pkts (upd_buf p g s) = sent_pkts s"
  "g_remote_conn_count (upd_buf p g s) = g_remote_conn_count s" "sock_rx (upd_buf p g s) = sock_rx s" "sys_calls (upd_buf p g s) = sys_calls s" "sys_pos (upd_buf p g s) = sys_pos s"
  "g_reply_ctxs (upd_buf p g s) = g_reply_ctxs s"
  by (simp_all add: upd_buf_def upd_bin_def)

lemma ipc_release [simp]:
  "g_remote_conns (nos_buffer_release b s) = g_remote_conns s" "shm_objs (nos_buffer_release b s) = shm_objs s"
  "sent_pkts (nos_buffer_release b s) = sent_pkts s" "g_remote_conn_count (nos_buffer_release b s) = g_remote_conn_count s"
  by (simp_all add: nos_buffer_release_def nos_reply_ctx_release_def upd_buf_def upd_bin_def Let_def split: option.splits)

lemma ipc_retain [simp]:
  "g_remote_conns (nos_buffer_retain b s) = g_remote_conns s" "shm_objs (nos_buffer_retain b s) = shm_objs s"
  "sent_pkts (nos_buffer_retain b s) = sent_pkts s" "g_remote_conn_count (nos_buffer_retain b s) = g_remote_conn_count s"
  by (simp_all add: nos_buffer_retain_def split: option.splits)

lemma ipc_shm_write:
  assumes "nos_shm_channel_write ch d n s = (r, s')"
  shows "g_bins s' = g_bins s" "g_remote_conns s' = g_remote_conns s" "sent_pkts s' = sent_pkts s" "g_threads s' = g_threads s"
    "r \<noteq> NOS_OK \<Longrightarrow> shm_objs s' = shm_objs s"
  using assms by (auto simp: nos_shm_channel_write_def Let_def set_ring_def set_obj_def split: option.splits if_splits)

lemma ipc_sock_send:
  assumes "sock_send d bs s = (out, s')"
  shows "g_bins s' = g_bins s" "g_remote_conns s' = g_remote_conns s" "shm_objs s' = shm_objs s" "g_threads s' = g_threads s"
    "sent_pkts s' = (if out = Sent then sent_pkts s @ [(d, bs)] else sent_pkts s)"
  using assms by (auto simp: sock_send_def next_sys_def)

lemma ipc_link_down [simp]:
  "g_remote_conns (snd (nos_scheduler_remove_fd t d s)) = g_remote_conns s" "shm_objs (snd (nos_scheduler_remove_fd t d s)) = shm_objs s"
  "sent_pkts (snd (nos_scheduler_remove_fd t d s)) = sent_pkts s" "g_bins (snd (nos_scheduler_remove_fd t d s)) = g_bins s"
  "g_remote_conns (sock_close d s) = g_remote_conns s" "shm_objs (sock_close d s) = shm_objs s" "sent_pkts (sock_close d s) = sent_pkts s"
  "g_bins (sock_close d s) = g_bins s" "g_remote_conns (nos_shm_channel_close ch s) = g_remote_conns s"
  "shm_objs (nos_shm_channel_close ch s) = shm_objs s" "sent_pkts (nos_shm_channel_close ch s) = sent_pkts s" "g_bins (nos_shm_channel_close ch s) = g_bins s"
  by (simp_all add: nos_scheduler_remove_fd_def upd_thread_def Let_def sock_close_def nos_shm_channel_close_def shm_unlink_def split: option.splits)

lemma get_conn_cong: "g_remote_conns s' = g_remote_conns s \<Longrightarrow> get_conn s' i = get_conn s i"
  by (simp add: get_conn_def)

lemma disconnected_conn:
  assumes "i < length (g_remote_conns s)"
  shows "get_conn (nos_ipc_mark_disconnected i s) i =
      (get_conn s i)\<lparr>c_shm := None, c_fd := -1, is_connected := False, c_state := NOS_IPC_DISCONNECTED, generation := generation (get_conn s i) + 1\<rparr>"
    "j \<noteq> i \<Longrightarrow> get_conn (nos_ipc_mark_disconnected i s) j = get_conn s j"
    "g_bins (nos_ipc_mark_disconnected i s) = g_bins s" "shm_objs (nos_ipc_mark_disconnected i s) = shm_objs s"
    "sent_pkts (nos_ipc_mark_disconnected i s) = sent_pkts s" "length (g_remote_conns (nos_ipc_mark_disconnected i s)) = length (g_remote_conns s)"
  using assms by (auto simp: nos_ipc_mark_disconnected_def Let_def get_conn_def upd_conn_def split: option.splits)

section \<open>The transmit queue is a bounded FIFO\<close>

definition tx_ok :: "nos_ipc_conn_t \<Rightarrow> bool" where
  "tx_ok c \<longleftrightarrow> ring_ok TX_QUEUE_SIZE (tx_queue c) (tx_head c) (tx_tail c)"

definition tx_items :: "nos_ipc_conn_t \<Rightarrow> bufp option list" where
  "tx_items c = ring_items (tx_queue c) (tx_head c) (tx_tail c)"

definition tx_take :: "nos_ipc_conn_t \<Rightarrow> (bufp option \<times> nos_ipc_conn_t) option" where
  "tx_take c = (if tx_head c \<noteq> tx_tail c then Some (tx_queue c ! tx_head c, tx_pop c) else None)"

lemma tx_okD: "tx_ok c \<Longrightarrow> length (tx_queue c) = TX_QUEUE_SIZE \<and> tx_head c < TX_QUEUE_SIZE \<and> tx_tail c < TX_QUEUE_SIZE"
  by (simp add: tx_ok_def ring_ok_def)

lemma length_tx_items: "tx_ok c \<Longrightarrow> length (tx_items c) = ipc_queue_len c"
  using tx_okD[of c] by (auto simp: tx_items_def ring_len_def ipc_queue_len_def)

lemma tx_put_spec:
  assumes "tx_ok c"
  shows "tx_put b c = None \<longleftrightarrow> length (tx_items c) = TX_QUEUE_SIZE - 1"
    and "tx_put b c = Some c' \<Longrightarrow> tx_ok c' \<and> tx_items c' = tx_items c @ [b]"
proof -
  note r = tx_okD[OF assms]
  show "tx_put b c = None \<longleftrightarrow> length (tx_items c) = TX_QUEUE_SIZE - 1"
    using ring_len_full[of "tx_head c" TX_QUEUE_SIZE "tx_tail c"] r by (simp add: tx_put_def Let_def tx_items_def)
  show "tx_put b c = Some c' \<Longrightarrow> tx_ok c' \<and> tx_items c' = tx_items c @ [b]"
    using assms ring_items_push[of TX_QUEUE_SIZE "tx_queue c" "tx_head c" "tx_tail c" b] ring_ok_push[of TX_QUEUE_SIZE "tx_queue c" "tx_head c" "tx_tail c" b]
    by (auto simp: tx_put_def Let_def tx_ok_def tx_items_def split: if_splits)
qed

lemma tx_pop_spec:
  assumes "tx_ok c" "tx_head c \<noteq> tx_tail c"
  shows "tx_ok (tx_pop c) \<and> tx_items c = tx_queue c ! tx_head c # tx_items (tx_pop c)"
  using assms ring_items_pop[of TX_QUEUE_SIZE "tx_queue c" "tx_head c" "tx_tail c"] ring_ok_pop[of TX_QUEUE_SIZE "tx_queue c" "tx_head c" "tx_tail c"]
  by (auto simp: tx_pop_def tx_ok_def tx_items_def)

lemma tx_items_empty: "tx_ok c \<Longrightarrow> tx_items c = [] \<longleftrightarrow> tx_head c = tx_tail c"
  using ring_len_0[of "tx_head c" TX_QUEUE_SIZE "tx_tail c"] tx_okD[of c] length_ring_items[of "tx_queue c" "tx_head c" "tx_tail c"]
  by (metis length_0_conv tx_items_def)

interpretation tx_fifo: bounded_fifo "TX_QUEUE_SIZE - 1" tx_ok tx_items tx_put tx_take
proof unfold_locales
  fix c :: nos_ipc_conn_t and b bs
  assume ok: "tx_ok c"
  note r = tx_okD[OF ok]
  show "length (tx_items c) \<le> TX_QUEUE_SIZE - 1"
    using ring_len_less[of "tx_head c" TX_QUEUE_SIZE "tx_tail c"] r by (simp add: tx_items_def)
  show "length (tx_items c) = TX_QUEUE_SIZE - 1 \<Longrightarrow> tx_put b c = None" using tx_put_spec(1)[OF ok] by blast
  show "length (tx_items c) < TX_QUEUE_SIZE - 1 \<Longrightarrow> \<exists>c'. tx_put b c = Some c' \<and> tx_ok c' \<and> tx_items c' = tx_items c @ [b]"
    using tx_put_spec[OF ok, of b] by (cases "tx_put b c") auto
  show "tx_items c = [] \<Longrightarrow> tx_take c = None" using tx_items_empty[OF ok] by (simp add: tx_take_def)
  show "tx_items c = b # bs \<Longrightarrow> \<exists>c'. tx_take c = Some (b, c') \<and> tx_ok c' \<and> tx_items c' = bs"
    using tx_items_empty[OF ok] tx_pop_spec[OF ok] by (auto simp: tx_take_def)
qed

section \<open>Transmission keeps order and references\<close>

text \<open>Buffers are pairs; quantifiers over them stay as they are.\<close>

declare split_paired_All [simp del]

definition msg_bytes :: "'z buf_state_scheme \<Rightarrow> bufp \<Rightarrow> u8 list" where
  "msg_bytes s p = buf_bytes s p (full_len (msg_header s p))"

text \<open>The header of a queued buffer does not promise more payload than the buffer holds.\<close>

definition fits :: "'z buf_state_scheme \<Rightarrow> bufp \<Rightarrow> bool" where
  "fits s p \<longleftrightarrow> length (msg_bytes s p) = full_len (msg_header s p)"

text \<open>What the socket carried, apart from notifications, and the contents of the messages in the
  shared ring of the sending direction.\<close>

definition sock_data :: "'z ipc_state_scheme \<Rightarrow> (int \<times> u8 list) list" where
  "sock_data s = filter (\<lambda>x. snd x \<noteq> ctrl_packet NOS_IPC_CTRL_SHM_NOTIFY []) (sent_pkts s)"

definition ring_data :: "nos_shm_channel_t option \<Rightarrow> 'z shm_state_scheme \<Rightarrow> u8 list list" where
  "ring_data ch s = (case ch of None \<Rightarrow> [] | Some c \<Rightarrow> map (\<lambda>m. take (unat (snd m)) (fst m)) (ring_msgs (get_ring (shm_region c) (tx c) s)))"

definition tx_ready :: "nat \<Rightarrow> 'z ipc_state_scheme \<Rightarrow> bool" where
  "tx_ready i s \<longleftrightarrow> i < length (g_remote_conns s) \<and> tx_ok (get_conn s i) \<and> pool_ok s \<and> queue_held s (tx_items (get_conn s i))
     \<and> (\<forall>p. Some p \<in> set (tx_items (get_conn s i)) \<longrightarrow> fits s p)
     \<and> (case c_shm (get_conn s i) of None \<Rightarrow> True | Some ch \<Rightarrow> chan_ok ch s)"

lemma chan_ok_cong: "shm_objs s' = shm_objs s \<Longrightarrow> chan_ok c s' = chan_ok c s"
  by (simp add: chan_ok_def get_ring_def)

lemma ring_data_cong: "shm_objs s' = shm_objs s \<Longrightarrow> ring_data ch s' = ring_data ch s"
  by (simp add: ring_data_def get_ring_def split: option.splits)

lemma bytes_cong: "g_bins s' = g_bins s \<Longrightarrow> msg_bytes s' p = msg_bytes s p \<and> fits s' p = fits s p \<and> buf_bytes s' p n = buf_bytes s p n"
  using bins_cong[of s' s p] by (simp add: fits_def msg_bytes_def buf_bytes_def)

lemma queue_held_cong: "g_bins s' = g_bins s \<Longrightarrow> queue_held s' bs = queue_held s bs"
  using bins_cong[of s' s] by (simp add: queue_held_def)

lemma release_keeps_bytes:
  assumes "pool_ok s" "valid_buf s p" "q \<noteq> p \<or> ref_cnt (get_buf s p) \<noteq> 1"
  shows "msg_bytes (nos_buffer_release (Some p) s) q = msg_bytes s q" "fits (nos_buffer_release (Some p) s) q = fits s q"
proof -
  have "chunk (get_buf (nos_buffer_release (Some p) s) q) = chunk (get_buf s q) \<and> data (get_buf (nos_buffer_release (Some p) s) q) = data (get_buf s q)
    \<and> raw_data (get_buf (nos_buffer_release (Some p) s) q) = raw_data (get_buf s q)"
  proof (cases "q = p")
    case False
    then show ?thesis using release_frame(3)[OF assms(1,2)] by simp
  next
    case True
    then have "nos_buffer_release (Some p) s = upd_buf p (\<lambda>b. b\<lparr>ref_cnt := ref_cnt b - 1\<rparr>) s"
      using assms(3) by (simp add: nos_buffer_release_def Let_def)
    then show ?thesis using True get_buf_upd_buf[OF assms(2)] by simp
  qed
  then show "msg_bytes (nos_buffer_release (Some p) s) q = msg_bytes s q" "fits (nos_buffer_release (Some p) s) q = fits s q"
    using release_keeps_header[OF assms] by (simp_all add: fits_def msg_bytes_def buf_bytes_def Let_def)
qed

lemma release_head:
  assumes "pool_ok s" "queue_held s (Some p # bs)"
  shows "pool_ok (nos_buffer_release (Some p) s)" "queue_held (nos_buffer_release (Some p) s) bs"
    "\<And>q. valid_buf (nos_buffer_release (Some p) s) q = valid_buf s q"
    "\<And>q. valid_buf s q \<Longrightarrow> ref_cnt (get_buf (nos_buffer_release (Some p) s) q) = ref_cnt (get_buf s q) - (if q = p then 1 else 0)"
    "\<And>q. Some q \<in> set bs \<Longrightarrow> msg_bytes (nos_buffer_release (Some p) s) q = msg_bytes s q \<and> fits (nos_buffer_release (Some p) s) q = fits s q"
proof -
  have p: "valid_buf s p" "int (count_list bs (Some p)) + 1 \<le> ref_cnt (get_buf s p)"
    using assms(2) by (auto simp: queue_held_def)
  show "pool_ok (nos_buffer_release (Some p) s)" by (rule pool_ok_release[OF assms(1) p(1)])
  show v: "valid_buf (nos_buffer_release (Some p) s) q = valid_buf s q" for q by (rule release_frame(1)[OF assms(1) p(1)])
  show r: "ref_cnt (get_buf (nos_buffer_release (Some p) s) q) = ref_cnt (get_buf s q) - (if q = p then 1 else 0)" if "valid_buf s q" for q
    using release_frame(2,3)[OF assms(1) p(1)] by simp
  show "queue_held (nos_buffer_release (Some p) s) bs"
    using assms(2) v r p(2) unfolding queue_held_def by (auto split: if_splits)
  show "msg_bytes (nos_buffer_release (Some p) s) q = msg_bytes s q \<and> fits (nos_buffer_release (Some p) s) q = fits s q" if "Some q \<in> set bs" for q
  proof -
    have "count_list bs (Some q) \<noteq> 0" using that by (simp add: count_list_0_iff)
    then have "q \<noteq> p \<or> ref_cnt (get_buf s p) \<noteq> 1" using p(2) by auto
    then show ?thesis using release_keeps_bytes[OF assms(1) p(1)] by simp
  qed
qed

text \<open>A message that was handed over leaves the queue and gives back its reference.\<close>

lemma tx_done_spec:
  assumes "tx_ready i s" "tx_items (get_conn s i) = Some p # bs"
    and "g_bins s1 = g_bins s" "g_remote_conns s1 = g_remote_conns s" "case c_shm (get_conn s i) of None \<Rightarrow> True | Some ch \<Rightarrow> chan_ok ch s1"
  shows "let s2 = tx_done i p n s1 in tx_ready i s2 \<and> tx_items (get_conn s2 i) = bs \<and> shm_objs s2 = shm_objs s1 \<and> sent_pkts s2 = sent_pkts s1
    \<and> c_shm (get_conn s2 i) = c_shm (get_conn s i) \<and> c_fd (get_conn s2 i) = c_fd (get_conn s i) \<and> c_state (get_conn s2 i) = c_state (get_conn s i)
    \<and> c_tx_packets (get_conn s2 i) = c_tx_packets (get_conn s i) + 1
    \<and> (\<forall>q. valid_buf s2 q = valid_buf s q) \<and> (\<forall>q. Some q \<in> set bs \<longrightarrow> msg_bytes s2 q = msg_bytes s q)
    \<and> (\<forall>q. valid_buf s q \<longrightarrow> ref_cnt (get_buf s2 q) = ref_cnt (get_buf s q) - (if q = p then 1 else 0))"
proof -
  have r: "i < length (g_remote_conns s)" "tx_ok (get_conn s i)" "pool_ok s" "queue_held s (Some p # bs)" "\<And>q. Some q \<in> set (Some p # bs) \<Longrightarrow> fits s q"
    using assms(1,2) by (auto simp: tx_ready_def)
  have ne: "tx_head (get_conn s i) \<noteq> tx_tail (get_conn s i)" using assms(2) tx_items_empty[OF r(2)] by auto
  note pop = tx_pop_spec[OF r(2) ne]
  have l: "i < length (g_remote_conns s1)" using r(1) assms(4) by simp
  let ?c = "upd_conn i (\<lambda>c. c\<lparr>c_tx_packets := c_tx_packets c + 1, c_tx_bytes := c_tx_bytes c + of_nat n\<rparr>) s1"
  have b: "g_bins ?c = g_bins s" using assms(3) by simp
  have ok: "pool_ok ?c" "queue_held ?c (Some p # bs)" using r(3,4) pool_ok_cong[OF b] queue_held_cong[OF b] by simp_all
  note rel = release_head[OF ok]
  note cg = bins_cong[OF b] bytes_cong[OF b]
  let ?s2 = "tx_done i p n s1"
  have s2: "?s2 = upd_conn i tx_pop (nos_buffer_release (Some p) ?c)" by (simp add: tx_done_def)
  have b2: "g_bins ?s2 = g_bins (nos_buffer_release (Some p) ?c)" unfolding s2 by simp
  note cg2 = bins_cong[OF b2] bytes_cong[OF b2]
  have g: "get_conn ?s2 i = (tx_pop (get_conn s i))\<lparr>c_tx_packets := c_tx_packets (get_conn s i) + 1, c_tx_bytes := c_tx_bytes (get_conn s i) + of_nat n\<rparr>"
    using l assms(4) by (simp add: s2 get_conn_cong[OF ipc_release(1)] get_conn_cong[OF assms(4)] tx_pop_def)
  have it: "tx_items (get_conn ?s2 i) = bs" "tx_ok (get_conn ?s2 i)" using pop assms(2) by (simp_all add: g tx_items_def tx_ok_def)
  have f: "fits ?s2 q" "msg_bytes ?s2 q = msg_bytes s q" if "Some q \<in> set bs" for q
    using rel(5)[OF that] r(5)[of q] that cg cg2 by simp_all
  have shm: "shm_objs ?s2 = shm_objs s1" "sent_pkts ?s2 = sent_pkts s1" unfolding s2 by simp_all
  have "case c_shm (get_conn ?s2 i) of None \<Rightarrow> True | Some ch \<Rightarrow> chan_ok ch ?s2"
    using assms(5) chan_ok_cong[OF shm(1)] by (simp add: g tx_pop_def split: option.splits)
  moreover have "i < length (g_remote_conns ?s2)" using l unfolding s2 by simp
  ultimately have "tx_ready i ?s2"
    using it f(1) rel(1,2) pool_ok_cong[OF b2] queue_held_cong[OF b2] by (simp add: tx_ready_def)
  then show ?thesis using it shm f(2) rel(3,4) cg cg2 by (simp add: Let_def g tx_pop_def)
qed

lemma shm_write_OK_room:
  assumes "chan_ok c s" "nos_shm_channel_write (Some c) (Some bs) n s = (NOS_OK, s')"
  shows "n \<noteq> 0 \<and> unat n \<le> NOS_SHM_SLOT_SIZE \<and> length (ring_msgs (get_ring (shm_region c) (tx c) s)) < 255"
proof -
  let ?r = "get_ring (shm_region c) (tx c) s"
  have ok: "shm_ring_ok ?r" using assms(1) by (simp add: chan_ok_def)
  have n: "n \<noteq> 0" "unat n \<le> NOS_SHM_SLOT_SIZE" using assms(2) by (auto simp: nos_shm_channel_write_def split: if_splits)
  have "length (ring_msgs ?r) \<noteq> 255"
  proof
    assume "length (ring_msgs ?r) = 255"
    then have "ring_put x ?r = None" for x using ring_put_spec(1)[OF ok, of x] by (simp add: NOS_SHM_SLOT_COUNT_def)
    then show False using assms(2) n by (simp add: nos_shm_channel_write_def Let_def)
  qed
  moreover have "length (ring_msgs ?r) \<le> 255" using shm_fifo.bound[OF ok] by (simp add: NOS_SHM_SLOT_COUNT_def)
  ultimately show ?thesis using n by simp
qed

lemma try_shm_spec:
  assumes "tx_ready i s" "tx_items (get_conn s i) = Some p # bs" "try_shm i p s = (r, s1)"
  shows "g_bins s1 = g_bins s" "g_remote_conns s1 = g_remote_conns s" "sent_pkts s1 = sent_pkts s"
    "r \<noteq> NOS_OK \<Longrightarrow> shm_objs s1 = shm_objs s"
    "r = NOS_OK \<Longrightarrow> \<exists>ch. c_shm (get_conn s i) = Some ch \<and> chan_ok ch s1 \<and> ring_data (Some ch) s1 = ring_data (Some ch) s @ [msg_bytes s p]"
proof -
  let ?n = "full_len (msg_header s p)" and ?c = "get_conn s i"
  have "(r = NOS_ERR \<and> s1 = s) \<or> (c_shm ?c \<noteq> None \<and> ?n \<le> NOS_SHM_SLOT_SIZE
      \<and> nos_shm_channel_write (c_shm ?c) (Some (buf_bytes s p ?n)) (of_nat ?n) s = (r, s1))"
    using assms(3) by (auto simp: try_shm_def Let_def split: if_splits)
  note c = this
  then show "g_bins s1 = g_bins s" "g_remote_conns s1 = g_remote_conns s" "sent_pkts s1 = sent_pkts s" "r \<noteq> NOS_OK \<Longrightarrow> shm_objs s1 = shm_objs s"
    using ipc_shm_write[of "c_shm ?c" "Some (buf_bytes s p ?n)" "of_nat ?n" s r s1] by auto
  show "\<exists>ch. c_shm ?c = Some ch \<and> chan_ok ch s1 \<and> ring_data (Some ch) s1 = ring_data (Some ch) s @ [msg_bytes s p]" if ok0: "r = NOS_OK"
  proof -
    obtain ch where ch: "c_shm ?c = Some ch" and n: "?n \<le> NOS_SHM_SLOT_SIZE"
      and w: "nos_shm_channel_write (Some ch) (Some (buf_bytes s p ?n)) (of_nat ?n) s = (NOS_OK, s1)" using c ok0 by auto
    have u: "unat (of_nat ?n :: u32) = ?n" using n by (simp add: NOS_SHM_SLOT_SIZE_def unat_of_nat)
    have "fits s p" using assms(1,2) by (simp add: tx_ready_def)
    then have lb: "length (buf_bytes s p ?n) = ?n" by (simp add: fits_def msg_bytes_def)
    have ok: "chan_ok ch s" using assms(1) ch by (simp add: tx_ready_def)
    note room = shm_write_OK_room[OF ok w]
    have "unat (of_nat ?n :: u32) \<le> length (buf_bytes s p ?n)" using u lb by simp
    from shm_write_room[OF ok this] room w obtain b where b: "chan_ok ch s1" "take ?n b = take ?n (buf_bytes s p ?n)"
      "ring_msgs (get_ring (shm_region ch) (tx ch) s1) = ring_msgs (get_ring (shm_region ch) (tx ch) s) @ [(b, of_nat ?n)]"
      unfolding u by auto
    then have "ring_data (Some ch) s1 = ring_data (Some ch) s @ [msg_bytes s p]"
      using u lb by (simp add: ring_data_def msg_bytes_def)
    then show ?thesis using ch b(1) by blast
  qed
qed

lemma ipc_send_ctrl_frame:
  "g_bins (ipc_send_ctrl d code pl s) = g_bins s" "g_remote_conns (ipc_send_ctrl d code pl s) = g_remote_conns s"
  "shm_objs (ipc_send_ctrl d code pl s) = shm_objs s" "g_threads (ipc_send_ctrl d code pl s) = g_threads s"
  "sock_data (ipc_send_ctrl d NOS_IPC_CTRL_SHM_NOTIFY [] s) = sock_data s"
  by (auto simp: ipc_send_ctrl_def sock_send_def next_sys_def sock_data_def)

text \<open>One round.  \<open>v\<close> says whether the message went through the shared ring.\<close>

definition tx_sent :: "nat \<Rightarrow> bool list \<Rightarrow> u8 list list \<Rightarrow> 'z ipc_state_scheme \<Rightarrow> 'z ipc_state_scheme \<Rightarrow> bool" where
  "tx_sent i via ms s s' \<longleftrightarrow>
     ring_data (c_shm (get_conn s i)) s' = ring_data (c_shm (get_conn s i)) s @ map snd (filter fst (zip via ms))
     \<and> sock_data s' = sock_data s @ filter (\<lambda>x. snd x \<noteq> ctrl_packet NOS_IPC_CTRL_SHM_NOTIFY [])
         (map (\<lambda>x. (c_fd (get_conn s i), snd x)) (filter (\<lambda>x. \<not> fst x) (zip via ms)))
     \<and> (c_shm (get_conn s i) = None \<longrightarrow> True \<notin> set via)"

lemma tx_one_go:
  assumes "tx_ready i s" "tx_items (get_conn s i) = Some p # bs" "tx_one i p s = (True, s')"
  shows "tx_ready i s' \<and> tx_items (get_conn s' i) = bs
    \<and> c_shm (get_conn s' i) = c_shm (get_conn s i) \<and> c_fd (get_conn s' i) = c_fd (get_conn s i) \<and> c_state (get_conn s' i) = c_state (get_conn s i)
    \<and> c_tx_packets (get_conn s' i) = c_tx_packets (get_conn s i) + 1
    \<and> (\<forall>q. valid_buf s' q = valid_buf s q) \<and> (\<forall>q. Some q \<in> set bs \<longrightarrow> msg_bytes s' q = msg_bytes s q)
    \<and> (\<forall>q. valid_buf s q \<longrightarrow> ref_cnt (get_buf s' q) = ref_cnt (get_buf s q) - (if q = p then 1 else 0))
    \<and> (\<exists>v. tx_sent i [v] [msg_bytes s p] s s')"
proof -
  let ?n = "full_len (msg_header s p)"
  obtain r s1 where t: "try_shm i p s = (r, s1)" by fastforce
  note ts = try_shm_spec[OF assms(1,2) t]
  have g1: "get_conn s1 i = get_conn s i" by (rule get_conn_cong[OF ts(2)])
  show ?thesis
  proof (cases "r = NOS_OK")
    case True
    obtain ch where ch: "c_shm (get_conn s i) = Some ch" "chan_ok ch s1" "ring_data (Some ch) s1 = ring_data (Some ch) s @ [msg_bytes s p]" using ts(5)[OF True] by blast
    let ?s2 = "ipc_send_ctrl (c_fd (get_conn s1 i)) NOS_IPC_CTRL_SHM_NOTIFY [] s1"
    have s': "s' = tx_done i p ?n ?s2" using assms(3) t True by (simp add: tx_one_def)
    have "case c_shm (get_conn s i) of None \<Rightarrow> True | Some c \<Rightarrow> chan_ok c ?s2" using ch by (simp add: chan_ok_cong[OF ipc_send_ctrl_frame(3)])
    note d = tx_done_spec[OF assms(1,2) _ _ this, of ?n, unfolded ipc_send_ctrl_frame(1,2), OF ts(1,2)]
    have e: "shm_objs s' = shm_objs s1" "sent_pkts s' = sent_pkts ?s2" using d s' by (simp_all add: Let_def ipc_send_ctrl_frame(3))
    have "sock_data s' = sock_data s" using e(2) ipc_send_ctrl_frame(5)[of _ s1] ts(3) by (simp add: sock_data_def)
    then have "tx_sent i [True] [msg_bytes s p] s s'" using ch ring_data_cong[OF e(1)] by (simp add: tx_sent_def)
    then show ?thesis using d s' by (auto simp: Let_def)
  next
    case False
    obtain out s2 where o: "sock_send (c_fd (get_conn s1 i)) (buf_bytes s1 p ?n) s1 = (out, s2)" by fastforce
    note so = ipc_sock_send[OF o]
    have out: "out = Sent" using assms(3) t False o by (cases out) (simp_all add: tx_one_def Let_def)
    let ?s3 = "upd_stats (\<lambda>st. st\<lparr>st_tx_packets := st_tx_packets st + 1, st_tx_bytes := st_tx_bytes st + of_nat ?n\<rparr>) s2"
    have s': "s' = tx_done i p ?n ?s3" using assms(3) t False o out by (simp add: tx_one_def Let_def)
    have sh: "shm_objs ?s3 = shm_objs s" using so(3) ts(4)[OF False] by simp
    have "case c_shm (get_conn s i) of None \<Rightarrow> True | Some c \<Rightarrow> chan_ok c ?s3"
      using assms(1) chan_ok_cong[OF sh] by (simp add: tx_ready_def split: option.splits)
    moreover have "g_bins ?s3 = g_bins s" "g_remote_conns ?s3 = g_remote_conns s" using so ts by simp_all
    ultimately have d: "let x = s' in tx_ready i x \<and> tx_items (get_conn x i) = bs \<and> shm_objs x = shm_objs ?s3 \<and> sent_pkts x = sent_pkts ?s3
    \<and> c_shm (get_conn x i) = c_shm (get_conn s i) \<and> c_fd (get_conn x i) = c_fd (get_conn s i) \<and> c_state (get_conn x i) = c_state (get_conn s i)
    \<and> c_tx_packets (get_conn x i) = c_tx_packets (get_conn s i) + 1
    \<and> (\<forall>q. valid_buf x q = valid_buf s q) \<and> (\<forall>q. Some q \<in> set bs \<longrightarrow> msg_bytes x q = msg_bytes s q)
    \<and> (\<forall>q. valid_buf s q \<longrightarrow> ref_cnt (get_buf x q) = ref_cnt (get_buf s q) - (if q = p then 1 else 0))"
      using tx_done_spec[OF assms(1,2), of ?s3 ?n] unfolding s' by blast
    have e: "shm_objs s' = shm_objs s" "sent_pkts s' = sent_pkts s @ [(c_fd (get_conn s i), msg_bytes s p)]"
      using d sh so(5) out ts(3) g1 bytes_cong[OF ts(1)] by (simp_all add: Let_def msg_bytes_def)
    have "tx_sent i [False] [msg_bytes s p] s s'" using ring_data_cong[OF e(1)] e(2) by (simp add: tx_sent_def sock_data_def)
    then show ?thesis using d by (auto simp: Let_def)
  qed
qed

lemma tx_one_stop:
  assumes "tx_ready i s" "tx_items (get_conn s i) = Some p # bs" "tx_one i p s = (False, s')"
  shows "g_bins s' = g_bins s \<and> shm_objs s' = shm_objs s \<and> sent_pkts s' = sent_pkts s
    \<and> (get_conn s' i = get_conn s i
       \<or> get_conn s' i = (get_conn s i)\<lparr>c_tx_errors := c_tx_errors (get_conn s i) + 1, c_shm := None, c_fd := -1, is_connected := False,
           c_state := NOS_IPC_DISCONNECTED, generation := generation (get_conn s i) + 1\<rparr>)"
proof -
  let ?n = "full_len (msg_header s p)"
  obtain r s1 where t: "try_shm i p s = (r, s1)" by fastforce
  note ts = try_shm_spec[OF assms(1,2) t]
  have r: "r \<noteq> NOS_OK" using assms(3) t by (auto simp: tx_one_def)
  obtain out s2 where o: "sock_send (c_fd (get_conn s1 i)) (buf_bytes s1 p ?n) s1 = (out, s2)" by fastforce
  note so = ipc_sock_send[OF o]
  have l: "i < length (g_remote_conns s2)" using assms(1) so(2) ts(2) by (simp add: tx_ready_def)
  have g: "get_conn s2 i = get_conn s i" using get_conn_cong[OF so(2)] get_conn_cong[OF ts(2)] by simp
  have "out \<noteq> Sent" using assms(3) t r o by (auto simp: tx_one_def Let_def)
  then have f: "g_bins s2 = g_bins s" "shm_objs s2 = shm_objs s" "sent_pkts s2 = sent_pkts s" using so ts(1,3) ts(4)[OF r] by simp_all
  show ?thesis
  proof (cases "out = Again")
    case True
    then have "s' = s2" using assms(3) t r o by (simp add: tx_one_def)
    then show ?thesis using f g by simp
  next
    case False
    let ?s3 = "upd_conn i (\<lambda>c. c\<lparr>c_tx_errors := c_tx_errors c + 1\<rparr>) (upd_stats (\<lambda>st. st\<lparr>st_tx_errors := st_tx_errors st + 1\<rparr>) s2)"
    have s': "s' = nos_ipc_mark_disconnected i ?s3" using assms(3) t r o False \<open>out \<noteq> Sent\<close> by (cases out) (simp_all add: tx_one_def Let_def)
    have "i < length (g_remote_conns ?s3)" using l by simp
    note dc = disconnected_conn[OF this]
    show ?thesis using dc(1,3,4,5) f g l s' by (simp add: get_conn_cong[OF ipc_upd_stats(5)])
  qed
qed

lemma tx_sent_Cons:
  assumes "tx_sent i [v] [m] s s1" "tx_sent i via ms s1 s'" "c_shm (get_conn s1 i) = c_shm (get_conn s i)" "c_fd (get_conn s1 i) = c_fd (get_conn s i)"
  shows "tx_sent i (v # via) (m # ms) s s'"
  using assms by (cases v) (auto simp: tx_sent_def)

text \<open>How the loop ends: with an empty queue, with a socket that takes no more, or with a broken link.\<close>

definition tx_exit :: "nat \<Rightarrow> 'z ipc_state_scheme \<Rightarrow> 'z ipc_state_scheme \<Rightarrow> bool" where
  "tx_exit i s s' \<longleftrightarrow>
     (c_state (get_conn s' i) = c_state (get_conn s i) \<and> c_fd (get_conn s' i) = c_fd (get_conn s i) \<and> c_shm (get_conn s' i) = c_shm (get_conn s i))
     \<or> (c_state (get_conn s' i) = NOS_IPC_DISCONNECTED \<and> c_fd (get_conn s' i) = -1 \<and> c_shm (get_conn s' i) = None \<and> tx_items (get_conn s' i) \<noteq> [])"

text \<open>\<open>n\<close> messages at the front of the queue are gone, the last ones by the ways \<open>via\<close>.\<close>

definition tx_moved :: "nat \<Rightarrow> nat \<Rightarrow> bool list \<Rightarrow> 'z ipc_state_scheme \<Rightarrow> 'z ipc_state_scheme \<Rightarrow> bool" where
  "tx_moved i n via s s' \<longleftrightarrow> n \<le> length (tx_items (get_conn s i)) \<and> length via = n
    \<and> tx_items (get_conn s' i) = drop n (tx_items (get_conn s i)) \<and> tx_ok (get_conn s' i) \<and> pool_ok s'
    \<and> c_tx_packets (get_conn s' i) = c_tx_packets (get_conn s i) + of_nat n
    \<and> (\<forall>q. valid_buf s q \<longrightarrow> ref_cnt (get_buf s' q) = ref_cnt (get_buf s q) - int (count_list (take n (tx_items (get_conn s i))) (Some q)))
    \<and> tx_sent i via (map (\<lambda>b. msg_bytes s (the b)) (take n (tx_items (get_conn s i)))) s s'"

lemma tx_moved_0:
  assumes "tx_ready i s" "g_bins s' = g_bins s" "shm_objs s' = shm_objs s" "sent_pkts s' = sent_pkts s"
    and "tx_items (get_conn s' i) = tx_items (get_conn s i)" "tx_ok (get_conn s' i)" "c_tx_packets (get_conn s' i) = c_tx_packets (get_conn s i)"
  shows "tx_moved i 0 [] s s'"
  using assms bins_cong[OF assms(2)] pool_ok_cong[OF assms(2)] ring_data_cong[OF assms(3)]
  by (simp add: tx_moved_def tx_sent_def sock_data_def tx_ready_def)

lemma tx_moved_Suc:
  assumes "tx_ready i s" "tx_items (get_conn s i) = Some p # bs" "tx_one i p s = (True, s1)" "tx_moved i n via s1 s'"
  shows "\<exists>v. tx_moved i (Suc n) (v # via) s s'"
proof -
  note o = tx_one_go[OF assms(1-3)]
  obtain v where v: "tx_sent i [v] [msg_bytes s p] s s1" using o by blast
  have it: "tx_items (get_conn s1 i) = bs" using o by blast
  note m = assms(4)[unfolded tx_moved_def it]
  have same: "c_shm (get_conn s1 i) = c_shm (get_conn s i)" "c_fd (get_conn s1 i) = c_fd (get_conn s i)"
    "c_tx_packets (get_conn s1 i) = c_tx_packets (get_conn s i) + 1" using o by blast+
  have q: "queue_held s (Some p # bs)" using assms(1,2) by (simp add: tx_ready_def)
  have bytes: "map (\<lambda>b. msg_bytes s1 (the b)) (take n bs) = map (\<lambda>b. msg_bytes s (the b)) (take n bs)"
  proof (rule map_cong[OF refl])
    fix x assume "x \<in> set (take n bs)"
    then have x: "x \<in> set bs" by (rule in_set_takeD)
    have "None \<notin> set bs" using q by (simp add: queue_held_def)
    then obtain q where "x = Some q" using x by (metis option.exhaust)
    then show "msg_bytes s1 (the x) = msg_bytes s (the x)" using o x by simp
  qed
  have "tx_sent i via (map (\<lambda>b. msg_bytes s1 (the b)) (take n bs)) s1 s'" using m by blast
  from tx_sent_Cons[OF v this same(1,2)]
  have snt: "tx_sent i (v # via) (msg_bytes s p # map (\<lambda>b. msg_bytes s (the b)) (take n bs)) s s'" unfolding bytes .
  have ref: "ref_cnt (get_buf s' q) = ref_cnt (get_buf s q) - int (count_list (take (Suc n) (Some p # bs)) (Some q))" if "valid_buf s q" for q
  proof -
    have "valid_buf s1 q" "ref_cnt (get_buf s1 q) = ref_cnt (get_buf s q) - (if q = p then 1 else 0)" using o that by blast+
    then show ?thesis using m by simp
  qed
  show ?thesis using m snt ref same(3) by (intro exI[of _ v]) (simp add: tx_moved_def assms(2))
qed

lemma tx_loop_spec:
  assumes "tx_ready i s" "length (tx_items (get_conn s i)) \<le> k"
  shows "\<exists>n via. tx_moved i n via s (tx_loop k i s) \<and> tx_exit i s (tx_loop k i s)"
  using assms
proof (induction k arbitrary: s)
  case 0
  then show ?case using tx_moved_0[OF 0(1), of s] by (auto simp: tx_ready_def tx_exit_def)
next
  case (Suc k)
  let ?c = "get_conn s i"
  have ok: "tx_ok ?c" "queue_held s (tx_items ?c)" using Suc.prems(1) by (simp_all add: tx_ready_def)
  show ?case
  proof (cases "tx_items ?c")
    case Nil
    then have "tx_loop (Suc k) i s = s" using tx_items_empty[OF ok(1)] by simp
    then show ?thesis using tx_moved_0[OF Suc.prems(1), of s] ok(1) by (auto simp: tx_exit_def)
  next
    case (Cons b bs)
    have ne: "tx_head ?c \<noteq> tx_tail ?c" using Cons tx_items_empty[OF ok(1)] by auto
    have hd: "tx_queue ?c ! tx_head ?c = b" using tx_pop_spec[OF ok(1) ne] Cons by simp
    obtain p where b: "b = Some p" using ok(2) Cons by (cases b) (auto simp: queue_held_def)
    note it = Cons[unfolded b]
    obtain go s1 where t: "tx_one i p s = (go, s1)" by fastforce
    have l: "tx_loop (Suc k) i s = (if go then tx_loop k i s1 else s1)" using ne hd b t by simp
    show ?thesis
    proof (cases go)
      case True
      then have t1: "tx_one i p s = (True, s1)" using t by simp
      note o = tx_one_go[OF Suc.prems(1) it t1]
      have "tx_ready i s1" "length (tx_items (get_conn s1 i)) \<le> k" using o Suc.prems(2) it by auto
      from Suc.IH[OF this] obtain n via where IH: "tx_moved i n via s1 (tx_loop k i s1)" "tx_exit i s1 (tx_loop k i s1)" by blast
      have "tx_exit i s (tx_loop k i s1)" using IH(2) o unfolding tx_exit_def by simp
      then show ?thesis using tx_moved_Suc[OF Suc.prems(1) it t1 IH(1)] l True by auto
    next
      case False
      then have t0: "tx_one i p s = (False, s1)" using t by simp
      note st = tx_one_stop[OF Suc.prems(1) it t0]
      then have it1: "tx_items (get_conn s1 i) = tx_items ?c" "tx_ok (get_conn s1 i)" "c_tx_packets (get_conn s1 i) = c_tx_packets ?c"
        using ok(1) by (auto simp: tx_items_def tx_ok_def)
      have "tx_exit i s s1" using st it it1 by (auto simp: tx_exit_def)
      then show ?thesis using tx_moved_0[OF Suc.prems(1), of s1] st it1 l False by auto
    qed
  qed
qed

text \<open>C3.  Transmission over a link takes messages out of the queue in order: there is a number \<open>n\<close> of
  messages at the front of the queue such that exactly these are gone from it, each was handed over
  once and whole, to the shared ring or to the socket, in the order of the queue, and gave back
  one reference; the others stay queued in order.  When messages are left, the link still stands and the socket
  takes no more, or the link is marked disconnected.\<close>

theorem ipc_tx_in_order:
  assumes "tx_ready i s" "c_state (get_conn s i) = NOS_IPC_CONNECTED" "c_fd (get_conn s i) \<ge> 0"
  shows "\<exists>n via. tx_moved i n via s (nos_ipc_process_tx i s) \<and> tx_exit i s (nos_ipc_process_tx i s)"
proof -
  have "tx_ok (get_conn s i)" using assms(1) by (simp add: tx_ready_def)
  then have "nos_ipc_process_tx i s = tx_loop (length (tx_items (get_conn s i))) i s"
    using assms(2,3) length_tx_items[of "get_conn s i"] by (simp add: nos_ipc_process_tx_def Let_def)
  then show ?thesis using tx_loop_spec[OF assms(1) order_refl] by simp
qed

section \<open>The invariant of the connection table\<close>

definition conn_ok :: "nos_ipc_conn_t \<Rightarrow> bool" where
  "conn_ok c \<longleftrightarrow> tx_ok c \<and> (is_connected c \<longleftrightarrow> c_state c = NOS_IPC_CONNECTED) \<and> (c_state c = NOS_IPC_CONNECTED \<longleftrightarrow> c_fd c \<ge> 0)
     \<and> c_state c \<noteq> NOS_IPC_CONNECTING \<and> IPC_RETRY_INITIAL_MS \<le> retry_delay_ms c \<and> retry_delay_ms c \<le> IPC_RETRY_MAX_MS"

text \<open>The slots that are not in use yet have their array; the others are well formed.\<close>

definition conns_ok :: "'z ipc_state_scheme \<Rightarrow> bool" where
  "conns_ok s \<longleftrightarrow> length (g_remote_conns s) = MAX_REMOTE_CONNS \<and> g_remote_conn_count s \<le> MAX_REMOTE_CONNS
     \<and> (\<forall>c \<in> set (g_remote_conns s). length (tx_queue c) = TX_QUEUE_SIZE) \<and> (\<forall>i < g_remote_conn_count s. conn_ok (get_conn s i))"

lemma conns_ok_cong: "g_remote_conns s' = g_remote_conns s \<Longrightarrow> g_remote_conn_count s' = g_remote_conn_count s \<Longrightarrow> conns_ok s' = conns_ok s"
  by (simp add: conns_ok_def get_conn_def)

lemma conns_ok_upd:
  assumes "conns_ok s" "i < g_remote_conn_count s" "conn_ok (f (get_conn s i))"
  shows "conns_ok (upd_conn i f s)"
proof -
  have "length (tx_queue (f (get_conn s i))) = TX_QUEUE_SIZE" using assms(3) tx_okD by (auto simp: conn_ok_def)
  then show ?thesis using assms set_update_subset_insert[of "g_remote_conns s" i "f (g_remote_conns s ! i)"]
    by (auto simp: conns_ok_def upd_conn_def get_conn_def nth_list_update)
qed

lemma conns_okD: "conns_ok s \<Longrightarrow> i < g_remote_conn_count s \<Longrightarrow> i < length (g_remote_conns s) \<and> conn_ok (get_conn s i)"
  by (auto simp: conns_ok_def)

lemma conn_ok_tx_pop: "conn_ok c \<Longrightarrow> conn_ok (tx_pop c)"
  using ring_ok_pop[of TX_QUEUE_SIZE "tx_queue c" "tx_head c" "tx_tail c"]
  by (auto simp: conn_ok_def tx_ok_def tx_pop_def ring_ok_def TX_QUEUE_SIZE_def)

lemma conn_ok_tx_put: "conn_ok c \<Longrightarrow> tx_put b c = Some c' \<Longrightarrow> conn_ok c'"
  using tx_put_spec(2)[of c b c'] by (auto simp: conn_ok_def tx_put_def Let_def split: if_splits)

text \<open>Operations that do not touch the table at all.\<close>

definition same_conns :: "'z ipc_state_scheme \<Rightarrow> 'z ipc_state_scheme \<Rightarrow> bool" where
  "same_conns s s' \<longleftrightarrow> g_remote_conns s' = g_remote_conns s \<and> g_remote_conn_count s' = g_remote_conn_count s"

lemma same_conns_ok: "same_conns s s' \<Longrightarrow> conns_ok s' = conns_ok s"
  using conns_ok_cong[of s' s] by (simp add: same_conns_def)

lemma same_conns_refl [simp]: "same_conns s s"
  by (simp add: same_conns_def)

lemma same_conns_trans: "same_conns s s1 \<Longrightarrow> same_conns s1 s2 \<Longrightarrow> same_conns s s2"
  by (simp add: same_conns_def)

lemma same_conns_sys:
  "same_conns s (snd (next_sys s))" "same_conns s (snd (ipc_monotonic_ms s))" "same_conns s (sock_close d s)" "same_conns s (sock_discard d s)"
  "same_conns s (upd_stats g s)" "same_conns s (snd (sock_send d bs s))" "same_conns s (ipc_send_ctrl d code pl s)"
  by (simp_all add: same_conns_def next_sys_def ipc_monotonic_ms_def get_monotonic_ms_def sock_close_def sock_discard_def upd_stats_def ipc_send_ctrl_def sock_send_def)

lemma same_conns_buf:
  "same_conns s (nos_buffer_release b s)" "same_conns s (nos_buffer_retain b s)" "same_conns s (upd_buf p h s)"
  "same_conns s (snd (nos_reply_ctx_create ca cn gen corr req s))"
  by (simp_all add: same_conns_def nos_reply_ctx_create_def split: option.splits)

lemma same_conns_alloc: "same_conns s (snd (nos_buffer_alloc sz hr s))"
  by (simp add: same_conns_def nos_buffer_alloc_def Let_def upd_buf_def upd_bin_def split: option.splits prod.splits)

lemma same_conns_upd_thread: "same_conns s (upd_thread t f s)"
  by (simp add: same_conns_def upd_thread_def)

lemma same_conns_sched:
  "same_conns s (snd (nos_scheduler_remove_fd t d s))" "same_conns s (snd (nos_scheduler_add_fd_ex e t d ev cb arg s))"
  by (auto simp: nos_scheduler_remove_fd_def nos_scheduler_add_fd_ex_def Let_def same_conns_def upd_thread_def split: option.splits)

lemma same_conns_local: "same_conns s (snd (nos_transport_local_send q t s))"
  by (auto simp: nos_transport_local_send_def notify_def Let_def same_conns_def upd_thread_def split: option.splits)

lemma same_conns_shm:
  "same_conns s (nos_shm_channel_close ch s)" "same_conns s (set_ring rg dir rng s)" "same_conns s (snd (nos_shm_channel_write ch' dat n s))"
  by (auto simp: nos_shm_channel_close_def shm_unlink_def same_conns_def nos_shm_channel_write_def set_ring_def set_obj_def Let_def split: option.splits)

lemmas same_connsI = same_conns_sys same_conns_buf same_conns_alloc same_conns_upd_thread same_conns_sched same_conns_local same_conns_shm

lemma same_connsD: "same_conns s s' \<Longrightarrow> get_conn s' i = get_conn s i \<and> g_remote_conn_count s' = g_remote_conn_count s"
  by (simp add: same_conns_def get_conn_def)

lemmas conns_ok_skip [simp] = same_connsI[THEN same_conns_ok]

lemmas get_conn_skip [simp] = same_connsI[THEN same_connsD, THEN conjunct1] same_connsI[THEN same_connsD, THEN conjunct2]

subsection \<open>Every operation preserves it\<close>

text \<open>While it connects, one connection is between two states; what matters of it then is what
  its state does not say.\<close>

definition idle_conn :: "nos_ipc_conn_t \<Rightarrow> nos_ipc_conn_t" where
  "idle_conn c = c\<lparr>c_state := NOS_IPC_DISCONNECTED, c_fd := -1, is_connected := False\<rparr>"

definition conns_mid :: "nat \<Rightarrow> 'z ipc_state_scheme \<Rightarrow> bool" where
  "conns_mid i s \<longleftrightarrow> i < g_remote_conn_count s \<and> conns_ok (upd_conn i idle_conn s)"

lemma upd_conn_twice: "i < length (g_remote_conns s) \<Longrightarrow> upd_conn i g (upd_conn i f s) = upd_conn i (\<lambda>c. g (f c)) s"
  by (simp add: upd_conn_def)

lemma conns_mid_start: "conns_ok s \<Longrightarrow> i < g_remote_conn_count s \<Longrightarrow> conns_mid i s"
  using conns_okD[of s i] by (auto simp: conns_mid_def conn_ok_def idle_conn_def tx_ok_def intro!: conns_ok_upd)

lemma conns_mid_length: "conns_mid i s \<Longrightarrow> i < length (g_remote_conns s)"
  by (auto simp: conns_mid_def conns_ok_def)

lemma conns_mid_conn:
  assumes "conns_mid i s"
  shows "tx_ok (get_conn s i)" "IPC_RETRY_INITIAL_MS \<le> retry_delay_ms (get_conn s i)" "retry_delay_ms (get_conn s i) \<le> IPC_RETRY_MAX_MS"
proof -
  have "conn_ok (get_conn (upd_conn i idle_conn s) i)" using assms by (auto simp: conns_mid_def conns_ok_def)
  then show "tx_ok (get_conn s i)" "IPC_RETRY_INITIAL_MS \<le> retry_delay_ms (get_conn s i)" "retry_delay_ms (get_conn s i) \<le> IPC_RETRY_MAX_MS"
    using conns_mid_length[OF assms] by (simp_all add: conn_ok_def idle_conn_def tx_ok_def)
qed

lemma conns_mid_end:
  assumes "conns_mid i s" "conn_ok (f (get_conn s i))"
  shows "conns_ok (upd_conn i f s)"
proof -
  note l = conns_mid_length[OF assms(1)]
  have "upd_conn i f s = upd_conn i (\<lambda>_. f (get_conn s i)) (upd_conn i idle_conn s)" using l by (simp add: upd_conn_def get_conn_def)
  then show ?thesis using assms conns_ok_upd[of "upd_conn i idle_conn s" i "\<lambda>_. f (get_conn s i)"] by (simp add: conns_mid_def)
qed

lemma conns_mid_upd: "conns_mid i s \<Longrightarrow> conn_ok (idle_conn (f (get_conn s i))) \<Longrightarrow> conns_mid i (upd_conn i f s)"
  using conns_mid_end[of i s "\<lambda>c. idle_conn (f c)"] conns_mid_length[of i s] by (simp add: conns_mid_def upd_conn_twice)

lemma conns_mid_same: "same_conns s s' \<Longrightarrow> conns_mid i s' = conns_mid i s"
  by (simp add: conns_mid_def same_conns_def conns_ok_def upd_conn_def get_conn_def)

lemma conns_mid_pop:
  assumes "conns_mid i s"
  shows "conns_mid i (upd_conn i (\<lambda>c. c\<lparr>c_state := st\<rparr>) s)"
  using conns_mid_conn[OF assms] by (intro conns_mid_upd[OF assms]) (simp add: conn_ok_def idle_conn_def tx_ok_def)

lemma ok_disconnected:
  assumes "conns_ok s" "i < g_remote_conn_count s"
  shows "conns_ok (nos_ipc_mark_disconnected i s)" "g_remote_conn_count (nos_ipc_mark_disconnected i s) = g_remote_conn_count s"
proof -
  note m = conns_mid_start[OF assms]
  define s1 where "s1 = (if c_fd (get_conn s i) \<ge> 0 then sock_close (c_fd (get_conn s i)) (snd (nos_scheduler_remove_fd (c_owner_thread (get_conn s i)) (c_fd (get_conn s i)) s)) else s)"
  have "same_conns s s1" unfolding s1_def by (auto intro: same_conns_trans[OF same_conns_sched(1) same_conns_sys(3)])
  then have m1: "conns_mid i s1" "same_conns s s1" using m conns_mid_same by blast+
  define s2 where "s2 = (case c_shm (get_conn s i) of None \<Rightarrow> s1 | Some ch \<Rightarrow> upd_conn i (\<lambda>c. c\<lparr>c_shm := None\<rparr>) (nos_shm_channel_close (Some ch) s1))"
  have "conns_mid i (nos_shm_channel_close ch s1)" for ch using m1(1) conns_mid_same[OF same_conns_shm(1)] by blast
  note conns_mid_upd[OF this, of "\<lambda>c. c\<lparr>c_shm := None\<rparr>"] conns_mid_conn[OF this]
  then have m2: "conns_mid i s2" "g_remote_conn_count s2 = g_remote_conn_count s"
    using m1 by (auto simp: s2_def conn_ok_def idle_conn_def tx_ok_def same_conns_def split: option.splits)
  have e: "nos_ipc_mark_disconnected i s = upd_conn i (\<lambda>c. c\<lparr>c_fd := -1, is_connected := False, c_state := NOS_IPC_DISCONNECTED, generation := generation c + 1\<rparr>) s2"
    unfolding nos_ipc_mark_disconnected_def Let_def s2_def s1_def by (rule refl)
  show "conns_ok (nos_ipc_mark_disconnected i s)" unfolding e using conns_mid_conn[OF m2(1)] by (intro conns_mid_end[OF m2(1)]) (simp add: conn_ok_def tx_ok_def)
  show "g_remote_conn_count (nos_ipc_mark_disconnected i s) = g_remote_conn_count s" using m2(2) by (simp add: e)
qed

lemma retry_step: "IPC_RETRY_INITIAL_MS \<le> d \<Longrightarrow> d \<le> IPC_RETRY_MAX_MS \<Longrightarrow>
    IPC_RETRY_INITIAL_MS \<le> (if d \<ge> IPC_RETRY_MAX_MS div 2 then IPC_RETRY_MAX_MS else d * 2)
    \<and> (if d \<ge> IPC_RETRY_MAX_MS div 2 then IPC_RETRY_MAX_MS else d * 2) \<le> IPC_RETRY_MAX_MS"
  by (simp add: IPC_RETRY_INITIAL_MS_def IPC_RETRY_MAX_MS_def word_le_nat_alt unat_word_ariths)

lemma ok_connect_failed:
  assumes "conns_mid i s" "c_fd (get_conn s i) < 0"
  shows "conns_ok (nos_ipc_mark_connect_failed i s)" "g_remote_conn_count (nos_ipc_mark_connect_failed i s) = g_remote_conn_count s"
proof -
  obtain now s1 where t: "ipc_monotonic_ms s = (now, s1)" by fastforce
  have sc: "same_conns s s1" using same_conns_sys(2)[of s] t by simp
  then have m: "conns_mid i s1" using assms(1) conns_mid_same by blast
  have g: "get_conn s1 i = get_conn s i" "g_remote_conn_count s1 = g_remote_conn_count s" using same_connsD[OF sc] by blast+
  note c = conns_mid_conn[OF m, unfolded g(1)]
  have d: "fail_delay (get_conn s i) = retry_delay_ms (get_conn s i)" using c(2) by (auto simp: fail_delay_def IPC_RETRY_INITIAL_MS_def g)
  show "conns_ok (nos_ipc_mark_connect_failed i s)" unfolding nos_ipc_mark_connect_failed_def Let_def t prod.case
    using c retry_step[OF c(2,3)] assms(2) by (intro conns_mid_end[OF m]) (auto simp: conn_ok_def tx_ok_def d g split: if_splits)
  show "g_remote_conn_count (nos_ipc_mark_connect_failed i s) = g_remote_conn_count s" using g(2) by (simp add: nos_ipc_mark_connect_failed_def Let_def t)
qed

lemma shm_create_total: "\<exists>ch s'. nos_shm_channel_create e name d s = Some (ch, s')"
proof (cases "valid_name name")
  case True
  let ?s = "shm_unlink (the name) s"
  have "shm_names ?s (the name) = None" by (simp add: shm_unlink_def)
  then show ?thesis using True by (auto simp: nos_shm_channel_create_def channel_map_def shm_open_def set_obj_def Let_def nth_append)
qed (simp add: nos_shm_channel_create_def)

lemma same_conns_create:
  assumes "nos_shm_channel_create e name d s = Some (ch, s') \<or> nos_shm_channel_open e name d s = Some (ch, s')"
  shows "same_conns s s'"
  using assms by (auto simp: same_conns_def nos_shm_channel_create_def nos_shm_channel_open_def channel_map_def shm_open_def shm_unlink_def
      count_open_error_def set_obj_def Let_def split: if_splits option.splits)

lemma ok_setup_shm:
  assumes "conns_ok s" "i < g_remote_conn_count s"
  shows "conns_ok (setup_shm i local s)" "g_remote_conn_count (setup_shm i local s) = g_remote_conn_count s"
    "c_state (get_conn (setup_shm i local s) i) = c_state (get_conn s i)" "c_fd (get_conn (setup_shm i local s) i) = c_fd (get_conn s i)"
    "generation (get_conn (setup_shm i local s) i) = generation (get_conn s i)"
proof -
  let ?name = "ipc_make_shm_name NOS_SHM_NAME_MAX (Some local) (Some (c_remote_node (get_conn s i)))"
  let ?s1 = "upd_conn i (\<lambda>c. c\<lparr>c_shm_name := ?name\<rparr>) s"
  note ci = conns_okD[OF assms]
  have ok1: "conns_ok ?s1" using ci by (intro conns_ok_upd[OF assms]) (simp add: conn_ok_def tx_ok_def)
  obtain r s2 where n: "next_sys ?s1 = (r, s2)" by fastforce
  obtain ch s3 where c: "nos_shm_channel_create (sys_shm r) (Some ?name) True s2 = Some (ch, s3)" using shm_create_total by blast
  have "same_conns ?s1 s2" using same_conns_sys(1)[of ?s1] n by simp
  then have sc: "same_conns ?s1 s3" using same_conns_create c same_conns_trans by blast
  have ok3: "conns_ok s3" "g_remote_conn_count s3 = g_remote_conn_count s" "get_conn s3 i = (get_conn s i)\<lparr>c_shm_name := ?name\<rparr>"
    using same_conns_ok[OF sc] ok1 same_connsD[OF sc] ci by simp_all
  let ?s4 = "upd_conn i (\<lambda>c. c\<lparr>c_shm := ch\<rparr>) s3"
  have ok4: "conns_ok ?s4" using ci ok3 assms(2) by (intro conns_ok_upd) (simp_all add: conn_ok_def tx_ok_def)
  have l3: "i < length (g_remote_conns s3)" using ok3 assms(2) by (auto simp: conns_ok_def)
  have e: "setup_shm i local s = ?s4 \<or> (\<exists>d pl. setup_shm i local s = ipc_send_ctrl d NOS_IPC_CTRL_SHM_SETUP pl ?s4)"
    using n c by (auto simp: setup_shm_def Let_def)
  then show "conns_ok (setup_shm i local s)" "g_remote_conn_count (setup_shm i local s) = g_remote_conn_count s"
    "c_state (get_conn (setup_shm i local s) i) = c_state (get_conn s i)" "c_fd (get_conn (setup_shm i local s) i) = c_fd (get_conn s i)"
    "generation (get_conn (setup_shm i local s) i) = generation (get_conn s i)"
    using ok4 ok3 l3 by auto
qed

lemma ok_established:
  assumes "conns_mid i s" "d \<ge> 0"
  shows "conns_ok (conn_established i d s)" "g_remote_conn_count (conn_established i d s) = g_remote_conn_count s"
    "c_state (get_conn (conn_established i d s) i) = NOS_IPC_CONNECTED" "generation (get_conn (conn_established i d s) i) = generation (get_conn s i) + 1"
proof -
  define s1 where "s1 = upd_conn i (\<lambda>c. c\<lparr>c_fd := d, is_connected := True, c_state := NOS_IPC_CONNECTED, generation := generation c + 1,
           retry_delay_ms := IPC_RETRY_INITIAL_MS, next_retry_ms := 0, connect_fail_count := 0\<rparr>) s"
  have ok1: "conns_ok s1" unfolding s1_def using conns_mid_conn[OF assms(1)] assms(2)
    by (intro conns_mid_end[OF assms(1)]) (simp add: conn_ok_def tx_ok_def IPC_RETRY_INITIAL_MS_def IPC_RETRY_MAX_MS_def)
  obtain r s2 where n: "next_sys s1 = (r, s2)" by fastforce
  define s3 where "s3 = snd (nos_scheduler_add_fd_ex (sys_ok r) (c_owner_thread (get_conn s2 i)) d conn_events (Some event_handler_ptr) (Some i) s2)"
  have "same_conns s1 s2" using same_conns_sys(1)[of s1] n by simp
  then have sc: "same_conns s1 s3" unfolding s3_def using same_conns_sched(2) same_conns_trans by blast
  have l: "i < length (g_remote_conns s)" "i < g_remote_conn_count s" using conns_mid_length[OF assms(1)] assms(1) by (simp_all add: conns_mid_def)
  have c3: "conns_ok s3" "g_remote_conn_count s3 = g_remote_conn_count s" "c_state (get_conn s3 i) = NOS_IPC_CONNECTED"
    "generation (get_conn s3 i) = generation (get_conn s i) + 1"
    using same_conns_ok[OF sc] ok1 same_connsD[OF sc] l by (simp_all add: s1_def)
  have e: "conn_established i d s = s3 \<or> (\<exists>nm. conn_established i d s = setup_shm i nm s3)"
    using n unfolding conn_established_def Let_def s1_def[symmetric] by (auto simp: s3_def split: option.splits)
  have "i < g_remote_conn_count s3" using c3(2) l(2) by simp
  note st = ok_setup_shm[OF c3(1) this]
  show "conns_ok (conn_established i d s)" "g_remote_conn_count (conn_established i d s) = g_remote_conn_count s"
    "c_state (get_conn (conn_established i d s) i) = NOS_IPC_CONNECTED" "generation (get_conn (conn_established i d s) i) = generation (get_conn s i) + 1"
    using e st c3 by auto
qed

lemma ok_try_connect:
  assumes "conns_ok s" "i < g_remote_conn_count s" "c_fd (get_conn s i) < 0" "nos_ipc_try_connect_locked i s = (b, s')"
  shows "conns_ok s'" "g_remote_conn_count s' = g_remote_conn_count s" "b \<longleftrightarrow> c_state (get_conn s' i) = NOS_IPC_CONNECTED"
    "generation (get_conn s' i) = generation (get_conn s i) + (if b then 1 else 0)"
proof -
  obtain now s1 where t: "ipc_monotonic_ms s = (now, s1)" by fastforce
  have sc: "same_conns s s1" using same_conns_sys(2)[of s] t by simp
  note g = same_connsD[OF sc, of i]
  have ok1: "conns_ok s1" "i < g_remote_conn_count s1" using same_conns_ok[OF sc] assms(1,2) g by simp_all
  let ?s = "upd_conn i (\<lambda>c. c\<lparr>c_state := NOS_IPC_CONNECTING\<rparr>) s1"
  obtain r s2 where n: "next_sys ?s = (r, s2)" by fastforce
  obtain r' s3 where n': "next_sys s2 = (r', s3)" by fastforce
  have m: "conns_mid i ?s" by (rule conns_mid_pop[OF conns_mid_start[OF ok1]])
  have s2: "same_conns ?s s2" "same_conns ?s s3" using same_conns_sys(1)[of ?s] n same_conns_sys(1)[of s2] n' same_conns_trans by auto
  have s4: "same_conns ?s (sock_close (sys_fd r) s3)" using s2(2) same_conns_sys(3) same_conns_trans by blast
  have l1: "i < length (g_remote_conns s1)" using conns_okD[OF ok1] by simp
  have f: "c_fd (get_conn x i) < 0 \<and> generation (get_conn x i) = generation (get_conn s i) \<and> g_remote_conn_count x = g_remote_conn_count s \<and> conns_mid i x"
    if "same_conns ?s x" for x using same_connsD[OF that, of i] conns_mid_same[OF that, of i] m l1 g assms(3) by simp
  have fail: "generation (get_conn (nos_ipc_mark_connect_failed i x) i) = generation (get_conn x i) \<and> c_state (get_conn (nos_ipc_mark_connect_failed i x) i) = NOS_IPC_BACKOFF"
    if "conns_mid i x" for x
  proof -
    obtain nw y where y: "ipc_monotonic_ms x = (nw, y)" by fastforce
    have "same_conns x y" using same_conns_sys(2)[of x] y by simp
    note gy = this same_connsD[OF this, of i] conns_mid_length[OF that]
    then have "i < length (g_remote_conns y)" by (simp add: same_conns_def)
    then show ?thesis using gy by (simp add: nos_ipc_mark_connect_failed_def Let_def y)
  qed
  consider "b = False" "s' = s1" "c_state (get_conn s1 i) = NOS_IPC_BACKOFF" | x where "b = False" "s' = nos_ipc_mark_connect_failed i x" "same_conns ?s x"
    | "b = True" "s' = conn_established i (sys_fd r) s3" "sys_fd r \<ge> 0"
    using assms(4) s2 s4 by (auto simp: nos_ipc_try_connect_locked_def t n n' split: if_splits)
  then have "conns_ok s' \<and> g_remote_conn_count s' = g_remote_conn_count s \<and> (b \<longleftrightarrow> c_state (get_conn s' i) = NOS_IPC_CONNECTED)
    \<and> generation (get_conn s' i) = generation (get_conn s i) + (if b then 1 else 0)"
  proof cases
    case 1
    then show ?thesis using ok1 g by simp
  next
    case (2 x)
    note x = f[OF 2(3)]
    then show ?thesis using ok_connect_failed[of i x] fail[of x] 2(1,2) by simp
  next
    case 3
    then show ?thesis using ok_established[of i s3 "sys_fd r"] f[OF s2(2)] by simp
  qed
  then show "conns_ok s'" "g_remote_conn_count s' = g_remote_conn_count s" "b \<longleftrightarrow> c_state (get_conn s' i) = NOS_IPC_CONNECTED"
    "generation (get_conn s' i) = generation (get_conn s i) + (if b then 1 else 0)" by blast+
qed

text \<open>An operation keeps the table well formed and never gives a slot back.\<close>

definition keeps :: "'z ipc_state_scheme \<Rightarrow> 'z ipc_state_scheme \<Rightarrow> bool" where
  "keeps s s' \<longleftrightarrow> (conns_ok s \<longrightarrow> conns_ok s' \<and> g_remote_conn_count s \<le> g_remote_conn_count s')"

lemma keeps_same: "same_conns s s' \<Longrightarrow> keeps s s'"
  using same_conns_ok[of s s'] by (simp add: keeps_def same_conns_def)

lemma keeps_trans: "keeps s s1 \<Longrightarrow> keeps s1 s2 \<Longrightarrow> keeps s s2"
  by (auto simp: keeps_def)

lemma keeps_count: "keeps s s' \<Longrightarrow> conns_ok s \<Longrightarrow> i < g_remote_conn_count s \<Longrightarrow> i < g_remote_conn_count s'"
  by (simp add: keeps_def)

lemma keeps_upd:
  assumes "i < g_remote_conn_count s" "\<And>c. conn_ok c \<Longrightarrow> conn_ok (f c)"
  shows "keeps s (upd_conn i f s)"
  using assms conns_ok_upd[of s i f] conns_okD[of s i] by (simp add: keeps_def)

lemmas conn_ok_simps = conn_ok_def tx_ok_def

lemma keeps_disconnect: "i < g_remote_conn_count s \<Longrightarrow> keeps s (nos_ipc_mark_disconnected i s)"
  using ok_disconnected[of s i] by (simp add: keeps_def)

lemma tx_done_count [simp]: "g_remote_conn_count (tx_done i p n s) = g_remote_conn_count s"
  by (simp add: tx_done_def)

lemma keeps_tx_done:
  assumes "i < g_remote_conn_count s"
  shows "keeps s (tx_done i p n s)"
proof -
  let ?s1 = "upd_conn i (\<lambda>c. c\<lparr>c_tx_packets := c_tx_packets c + 1, c_tx_bytes := c_tx_bytes c + of_nat n\<rparr>) s"
  have "keeps s ?s1" using assms by (intro keeps_upd) (simp_all add: conn_ok_simps)
  moreover have "keeps ?s1 (nos_buffer_release (Some p) ?s1)" by (intro keeps_same same_connsI)
  moreover have "keeps (nos_buffer_release (Some p) ?s1) (tx_done i p n s)"
    unfolding tx_done_def using assms by (intro keeps_upd conn_ok_tx_pop) simp_all
  ultimately show ?thesis using keeps_trans by blast
qed

lemma same_conns_try_shm: "same_conns s (snd (try_shm i p s))"
  by (simp add: try_shm_def Let_def same_conns_shm)

lemma keeps_tx_one:
  assumes "i < g_remote_conn_count s"
  shows "keeps s (snd (tx_one i p s))" "g_remote_conn_count (snd (tx_one i p s)) = g_remote_conn_count s \<or> \<not> conns_ok s"
proof -
  let ?n = "full_len (msg_header s p)"
  obtain r s1 where t: "try_shm i p s = (r, s1)" by fastforce
  have sc: "same_conns s s1" using same_conns_try_shm[of s i p] t by simp
  obtain out s2 where o: "sock_send (c_fd (get_conn s1 i)) (buf_bytes s1 p ?n) s1 = (out, s2)" by fastforce
  have sc2: "same_conns s s2" using same_conns_sys(6)[of s1] o same_conns_trans[OF sc] by (metis snd_conv)
  let ?a = "ipc_send_ctrl (c_fd (get_conn s1 i)) NOS_IPC_CTRL_SHM_NOTIFY [] s1"
  let ?b = "upd_stats (\<lambda>st. st\<lparr>st_tx_packets := st_tx_packets st + 1, st_tx_bytes := st_tx_bytes st + of_nat ?n\<rparr>) s2"
  let ?e = "upd_stats (\<lambda>st. st\<lparr>st_tx_errors := st_tx_errors st + 1\<rparr>) s2"
  let ?f = "upd_conn i (\<lambda>c. c\<lparr>c_tx_errors := c_tx_errors c + 1\<rparr>) ?e"
  have sa: "same_conns s ?a" "same_conns s ?b" "same_conns s ?e" using same_conns_trans[OF sc same_conns_sys(7)] same_conns_trans[OF sc2 same_conns_sys(5)] by blast+
  then have cnt: "g_remote_conn_count ?a = g_remote_conn_count s" "g_remote_conn_count ?b = g_remote_conn_count s" "g_remote_conn_count ?e = g_remote_conn_count s"
    by (simp_all only: same_conns_def)
  have kf: "keeps s ?f" using keeps_trans[OF keeps_same[OF sa(3)]] keeps_upd[of i ?e] assms cnt(3) by (simp add: conn_ok_simps)
  have kg: "keeps s (nos_ipc_mark_disconnected i ?f)" using keeps_trans[OF kf] keeps_disconnect[of i ?f] assms cnt(3) by simp
  have "snd (tx_one i p s) \<in> {tx_done i p ?n ?a, tx_done i p ?n ?b, s2, nos_ipc_mark_disconnected i ?f}"
    by (cases out) (simp_all add: tx_one_def Let_def t o)
  moreover have "keeps s (tx_done i p ?n ?a)" "keeps s (tx_done i p ?n ?b)" "keeps s s2"
    using keeps_trans[OF keeps_same[OF sa(1)] keeps_tx_done] keeps_trans[OF keeps_same[OF sa(2)] keeps_tx_done] keeps_same[OF sc2] assms cnt by simp_all
  ultimately show "keeps s (snd (tx_one i p s))" using kg by auto
  have "g_remote_conn_count (nos_ipc_mark_disconnected i ?f) = g_remote_conn_count s" if "conns_ok s"
    using ok_disconnected(2)[of ?f i] kf that assms cnt(3) by (simp add: keeps_def)
  then show "g_remote_conn_count (snd (tx_one i p s)) = g_remote_conn_count s \<or> \<not> conns_ok s"
    using \<open>snd (tx_one i p s) \<in> _\<close> sc2 cnt by (auto simp: same_conns_def)
qed

lemma keeps_tx_loop: "i < g_remote_conn_count s \<Longrightarrow> keeps s (tx_loop k i s)"
proof (induction k arbitrary: s)
  case (Suc k)
  have step: "keeps s (if go then tx_loop k i s1 else s1)" if "tx_one i p s = (go, s1)" for p go s1
  proof (cases "conns_ok s")
    case True
    then have "keeps s s1" "g_remote_conn_count s1 = g_remote_conn_count s" using keeps_tx_one[OF Suc.prems, of p] that by auto
    then show ?thesis using keeps_trans[of s s1 "tx_loop k i s1"] Suc.IH[of s1] Suc.prems by simp
  qed (simp add: keeps_def)
  show ?case using step by (auto simp: keeps_same split: option.splits prod.splits)
qed (simp add: keeps_same)

lemma keeps_process_tx: "i < g_remote_conn_count s \<Longrightarrow> keeps s (nos_ipc_process_tx i s)"
  by (simp add: nos_ipc_process_tx_def Let_def keeps_same keeps_tx_loop)

lemma keeps_tx_enqueue:
  assumes "i < g_remote_conn_count s"
  shows "keeps s (snd (tx_enqueue i p s))" "g_remote_conn_count (snd (tx_enqueue i p s)) = g_remote_conn_count s"
proof -
  let ?d = "upd_conn i (\<lambda>c. c\<lparr>c_dropped_full := c_dropped_full c + 1\<rparr>) s"
  have d: "keeps s ?d" using assms by (intro keeps_upd) (simp_all add: conn_ok_simps)
  have full: "keeps s (upd_stats (\<lambda>st. st\<lparr>st_dropped_full := st_dropped_full st + 1\<rparr>) ?d)"
    by (rule keeps_trans[OF d keeps_same[OF same_conns_sys(5)]])
  have room: "keeps s (upd_conn i (\<lambda>_. c') (nos_buffer_retain (Some p) s))" if "tx_put (Some p) (get_conn s i) = Some c'" for c'
    using conns_okD[of s i] conn_ok_tx_put[OF _ that] conns_ok_upd[of "nos_buffer_retain (Some p) s" i "\<lambda>_. c'"] assms by (simp add: keeps_def)
  show "keeps s (snd (tx_enqueue i p s))" using full room by (auto simp: tx_enqueue_def split: option.splits)
  show "g_remote_conn_count (snd (tx_enqueue i p s)) = g_remote_conn_count s" by (simp add: tx_enqueue_def split: option.splits)
qed

lemma keeps_send_reply:
  assumes "\<forall>i. conn = Some i \<longrightarrow> i < g_remote_conn_count s"
  shows "keeps s (snd (nos_ipc_send_reply conn gen buf s))"
proof -
  have step: "keeps s (snd (case tx_enqueue i p s of (r, s1) \<Rightarrow> if r = NOS_OK then (NOS_OK, nos_ipc_process_tx i s1) else (r, s1)))" if "i < g_remote_conn_count s" for i p
    using keeps_tx_enqueue[OF that, of p] keeps_process_tx[of i "snd (tx_enqueue i p s)"] keeps_trans that
    by (cases "tx_enqueue i p s") auto
  show ?thesis using step assms by (cases conn; cases buf) (simp_all add: nos_ipc_send_reply_def Let_def keeps_same)
qed

lemma conn_ok_fresh:
  assumes "length (tx_queue c) = TX_QUEUE_SIZE"
  shows "conn_ok ((clear_conn c)\<lparr>c_uds_path := u, c_remote_node := nn, c_fd := -1, is_connected := False,
      c_state := NOS_IPC_DISCONNECTED, is_passive := pv, c_owner_thread := t\<rparr>)"
    and "d \<ge> 0 \<Longrightarrow> conn_ok ((clear_conn c)\<lparr>c_uds_path := u, c_fd := d, is_connected := True, c_state := NOS_IPC_CONNECTED, is_passive := pv, c_owner_thread := t\<rparr>)"
  using assms by (simp_all add: conn_ok_def tx_ok_def clear_conn_def ring_ok_def TX_QUEUE_SIZE_def IPC_RETRY_INITIAL_MS_def IPC_RETRY_MAX_MS_def)

text \<open>Claiming the next slot.\<close>

lemma ok_claim:
  assumes "conns_ok s" "g_remote_conn_count s < MAX_REMOTE_CONNS" "\<And>c. length (tx_queue c) = TX_QUEUE_SIZE \<Longrightarrow> conn_ok (f c)"
  shows "conns_ok (upd_conn (g_remote_conn_count s) f (s\<lparr>g_remote_conn_count := g_remote_conn_count s + 1\<rparr>))"
proof -
  let ?n = "g_remote_conn_count s"
  have l: "?n < length (g_remote_conns s)" using assms(1,2) by (simp add: conns_ok_def)
  then have "length (tx_queue (g_remote_conns s ! ?n)) = TX_QUEUE_SIZE" using assms(1) by (simp add: conns_ok_def)
  then have c: "conn_ok (f (g_remote_conns s ! ?n))" by (rule assms(3))
  then have "length (tx_queue (f (g_remote_conns s ! ?n))) = TX_QUEUE_SIZE" using tx_okD by (auto simp: conn_ok_def)
  then show ?thesis using assms(1,2) c l set_update_subset_insert[of "g_remote_conns s" ?n "f (g_remote_conns s ! ?n)"]
    by (auto simp: conns_ok_def upd_conn_def get_conn_def nth_list_update less_Suc_eq)
qed

lemma ok_get_or_create:
  assumes "conns_ok s" "get_or_create_conn node path s = (r, s')"
  shows "conns_ok s'" "keeps s s'" "r = Some i \<Longrightarrow> i < g_remote_conn_count s'" "r = None \<Longrightarrow> s' = s \<and> g_remote_conn_count s = MAX_REMOTE_CONNS"
proof -
  have "conns_ok s' \<and> g_remote_conn_count s \<le> g_remote_conn_count s' \<and> (r = Some i \<longrightarrow> i < g_remote_conn_count s')
    \<and> (r = None \<longrightarrow> s' = s \<and> g_remote_conn_count s = MAX_REMOTE_CONNS)" for i
  proof (cases "find_idx (\<lambda>c. c_uds_path c = path) (g_remote_conns s) (g_remote_conn_count s)")
    case (Some k)
    then show ?thesis using assms find_idx_SomeD[OF Some] by (auto simp: get_or_create_conn_def)
  next
    case None
    show ?thesis
    proof (cases "g_remote_conn_count s \<ge> MAX_REMOTE_CONNS")
      case True
      then show ?thesis using None assms by (auto simp: get_or_create_conn_def conns_ok_def)
    next
      case False
      then have "g_remote_conn_count s < MAX_REMOTE_CONNS" by simp
      note cl = ok_claim[OF assms(1) this]
      have "r = Some (g_remote_conn_count s)" "g_remote_conn_count s' = g_remote_conn_count s + 1" using None False assms(2) by (auto simp: get_or_create_conn_def Let_def)
      moreover have "conns_ok s'" using None False assms(2) unfolding get_or_create_conn_def Let_def
        by (auto simp del: add_Suc_right Suc_eq_plus1 One_nat_def intro!: cl conn_ok_fresh(1))
      ultimately show ?thesis by auto
    qed
  qed
  then show "conns_ok s'" "keeps s s'" "r = Some i \<Longrightarrow> i < g_remote_conn_count s'" "r = None \<Longrightarrow> s' = s \<and> g_remote_conn_count s = MAX_REMOTE_CONNS"
    by (simp_all add: keeps_def)
qed

lemma keeps_passive:
  assumes "d \<ge> 0"
  shows "keeps s (snd (create_passive_conn d t s))"
proof (cases "conns_ok s \<and> g_remote_conn_count s < MAX_REMOTE_CONNS")
  case True
  let ?f = "\<lambda>c. (clear_conn c)\<lparr>c_uds_path := c_strncpy 107 (''passive:'' @ show_nat (nat d)), c_fd := d,
      is_connected := True, c_state := NOS_IPC_CONNECTED, is_passive := True, c_owner_thread := t\<rparr>"
  have "conns_ok (upd_conn (g_remote_conn_count s) ?f (s\<lparr>g_remote_conn_count := g_remote_conn_count s + 1\<rparr>))"
    using True ok_claim[of s ?f] conn_ok_fresh(2)[OF _ assms] by blast
  then show ?thesis using True by (simp add: keeps_def create_passive_conn_def Let_def)
qed (auto simp: keeps_def create_passive_conn_def)

lemma keeps_send_enqueue: "keeps s (snd (nos_ipc_send_enqueue node path p s))"
proof (cases "conns_ok s")
  case True
  obtain r s1 where g: "get_or_create_conn node path s = (r, s1)" by fastforce
  note gc = ok_get_or_create[OF True g]
  show ?thesis
  proof (cases r)
    case None
    then show ?thesis using g gc(2) by (simp add: nos_ipc_send_enqueue_def)
  next
    case (Some i)
    have i: "i < g_remote_conn_count s1" by (rule gc(3)[OF Some])
    obtain q s2 where e: "tx_enqueue i p s1 = (q, s2)" by fastforce
    have k2: "keeps s1 s2" "g_remote_conn_count s2 = g_remote_conn_count s1" using keeps_tx_enqueue[OF i, of p] e by simp_all
    have ok2: "conns_ok s2" "i < g_remote_conn_count s2" using k2 gc(1) i by (simp_all add: keeps_def)
    define s3 where "s3 = (if c_fd (get_conn s2 i) < 0 \<or> c_state (get_conn s2 i) \<noteq> NOS_IPC_CONNECTED then snd (nos_ipc_try_connect_locked i s2) else s2)"
    have "c_fd (get_conn s2 i) < 0 \<or> c_state (get_conn s2 i) \<noteq> NOS_IPC_CONNECTED \<longrightarrow> c_fd (get_conn s2 i) < 0"
      using conns_okD[OF ok2] by (auto simp: conn_ok_def)
    then have k3: "conns_ok s3" "g_remote_conn_count s3 = g_remote_conn_count s2" unfolding s3_def
      using ok_try_connect(1,2)[OF ok2 _ prod.collapse[symmetric]] ok2(1) by simp_all
    then have k3': "keeps s2 s3" by (simp add: keeps_def)
    have k4: "keeps s3 (nos_ipc_process_tx i s3)" using k3(2) ok2(2) by (intro keeps_process_tx) simp
    have "snd (nos_ipc_send_enqueue node path p s) \<in> {s2, s3, nos_ipc_process_tx i s3}"
      using g Some e by (simp add: nos_ipc_send_enqueue_def Let_def s3_def)
    moreover have s2: "keeps s s2" by (rule keeps_trans[OF gc(2) k2(1)])
    moreover have s3: "keeps s s3" by (rule keeps_trans[OF s2 k3'])
    moreover have "keeps s (nos_ipc_process_tx i s3)" by (rule keeps_trans[OF s3 k4])
    ultimately show ?thesis by auto
  qed
qed (simp add: keeps_def)

lemma keeps_msg_send: "keeps s (snd (ipc_msg_send buf s))"
  using keeps_send_enqueue[of s] keeps_same[OF same_conns_local[of s]]
  by (auto simp: ipc_msg_send_def nos_service_msg_send_def Let_def keeps_same split: option.splits)

lemma keeps_rx_error: "\<forall>i. conn = Some i \<longrightarrow> i < g_remote_conn_count s \<Longrightarrow> keeps s (count_rx_error conn s)"
  by (cases conn) (auto simp: count_rx_error_def keeps_same conn_ok_simps intro!: keeps_upd)

lemma count_rx_count [simp]: "g_remote_conn_count (count_rx_error conn s) = g_remote_conn_count s"
  "g_remote_conn_count (stat_rx_error s) = g_remote_conn_count s" "g_remote_conn_count (stat_alloc_fail s) = g_remote_conn_count s"
  by (auto simp: count_rx_error_def stat_rx_error_def stat_alloc_fail_def split: option.splits)

lemma same_conns_stat: "same_conns s (stat_rx_error s)" "same_conns s (stat_alloc_fail s)" "same_conns s (put_bytes p bs s)"
  by (simp_all add: stat_rx_error_def stat_alloc_fail_def put_bytes_def same_connsI)

lemma keeps_rx_origin:
  assumes "\<forall>i. conn = Some i \<longrightarrow> i < g_remote_conn_count s"
  shows "keeps s (rx_origin conn h n p s)"
proof (cases conn)
  case (Some i)
  obtain r s1 where n: "next_sys s = (r, s1)" by fastforce
  obtain rc s2 where c: "nos_reply_ctx_create (sys_calloc r) (Some i) (generation (get_conn s1 i)) (seq h) (src_component h) s1 = (rc, s2)" by fastforce
  have "same_conns s s1" "same_conns s1 s2" using same_conns_sys(1)[of s] n same_conns_buf(4)[of s1] c by (metis snd_conv)+
  then have "same_conns s (upd_buf p (\<lambda>b. b\<lparr>reply_ctx := rc\<rparr>) s2)" using same_conns_trans same_conns_buf(3) by blast
  note sc = this
  then have "i < g_remote_conn_count (upd_buf p (\<lambda>b. b\<lparr>reply_ctx := rc\<rparr>) s2)" using assms Some by (simp only: same_conns_def)
  from keeps_upd[OF this] have "keeps (upd_buf p (\<lambda>b. b\<lparr>reply_ctx := rc\<rparr>) s2) (rx_origin conn h n p s)"
    using Some n c by (simp add: rx_origin_def conn_ok_simps)
  then show ?thesis by (rule keeps_trans[OF keeps_same[OF sc]])
qed (simp add: rx_origin_def keeps_same)

lemma keeps_deliver:
  assumes "\<forall>i. conn = Some i \<longrightarrow> i < g_remote_conn_count s"
  shows "keeps s (ipc_deliver_rx_data d n conn s)"
proof -
  have err: "keeps s (count_rx_error conn x)" if "same_conns s x" for x
    using keeps_trans[OF keeps_same[OF that] keeps_rx_error] assms that by (simp add: same_conns_def)
  have deliver: "keeps s (nos_buffer_release (Some p) (snd (ipc_msg_send (Some p)
      (upd_stats f (rx_origin conn h m p (put_bytes p bs s1))))))" if "nos_buffer_alloc sz 0 s = (Some p, s1)" for p s1 sz f h m bs
  proof -
    have "same_conns s s1" using same_conns_alloc[of s sz 0] that by simp
    then have sc: "same_conns s (put_bytes p bs s1)" using same_conns_trans same_conns_stat(3) by blast
    then have "\<forall>i. conn = Some i \<longrightarrow> i < g_remote_conn_count (put_bytes p bs s1)" using assms by (simp add: same_conns_def)
    note k1 = keeps_trans[OF keeps_same[OF sc] keeps_rx_origin[OF this]]
    note k2 = keeps_trans[OF k1 keeps_same[OF same_conns_sys(5)]]
    show ?thesis by (rule keeps_trans[OF keeps_trans[OF k2 keeps_msg_send] keeps_same[OF same_conns_buf(1)]])
  qed
  have fail: "keeps s (count_rx_error conn (stat_alloc_fail s1))" if "nos_buffer_alloc sz 0 s = (None, s1)" for sz s1
  proof (rule err)
    have "same_conns s s1" using same_conns_alloc[of s sz 0] that by simp
    then show "same_conns s (stat_alloc_fail s1)" by (rule same_conns_trans[OF _ same_conns_stat(2)])
  qed
  show ?thesis using err[OF same_conns_stat(1)] deliver fail
    by (auto simp: ipc_deliver_rx_data_def Let_def keeps_same split: option.splits prod.splits)
qed

lemma keeps_drain:
  assumes "drain_loop fuel (ipc_shm_drain_cb (Some i)) ch n s = Some (m, s')" "i < g_remote_conn_count s"
  shows "keeps s s'"
  using assms
proof (induction fuel arbitrary: n s)
  case 0
  then show ?case by (auto simp: drain_loop.simps keeps_same split: option.splits)
next
  case (Suc k)
  show ?case
  proof (cases "drain_one (ipc_shm_drain_cb (Some i)) ch s")
    case None
    then show ?thesis using Suc.prems(1) by (simp add: drain_loop.simps keeps_same)
  next
    case (Some s1)
    then obtain sl where "ring_peek (get_ring (shm_region ch) (rx ch) s) = Some sl"
      by (cases "ring_peek (get_ring (shm_region ch) (rx ch) s)") (simp_all add: drain_one_def)
    then have s1: "same_conns (ipc_shm_drain_cb (Some i) (slot_data sl) (slot_len sl) s) s1"
      using Some by (auto simp: drain_one_def Let_def same_conns_def set_ring_def set_obj_def)
    have "keeps s (ipc_shm_drain_cb (Some i) (slot_data sl) (slot_len sl) s)" unfolding ipc_shm_drain_cb_def using Suc.prems(2) by (intro keeps_deliver) simp
    then have k: "keeps s s1" using keeps_trans keeps_same[OF s1] by blast
    have "drain_loop k (ipc_shm_drain_cb (Some i)) ch (n + 1) s1 = Some (m, s')" using Suc.prems(1) Some by (simp add: drain_loop.simps[of "Suc k"])
    then show ?thesis using Suc.IH[of "n + 1" s1] k keeps_trans[OF k] keeps_count[OF k _ Suc.prems(2)] by (cases "conns_ok s") (auto simp: keeps_def)
  qed
qed

lemma keeps_ctrl:
  assumes "\<forall>i. conn = Some i \<longrightarrow> i < g_remote_conn_count s" "ipc_handle_ctrl_msg fuel conn msg pl s = Some s'"
  shows "keeps s s'"
proof (cases conn)
  case (Some i)
  then have i: "i < g_remote_conn_count s" using assms(1) by simp
  let ?s1 = "upd_conn i (\<lambda>c. c\<lparr>c_remote_node := c_strncpy 31 (setup_peer_node (decode_setup pl)), c_shm_name := c_strncpy 63 (setup_shm_name (decode_setup pl))\<rparr>) s"
  have k1: "keeps s ?s1" using i by (intro keeps_upd) (simp_all add: conn_ok_simps)
  have op: "keeps s (upd_conn i (\<lambda>c. c\<lparr>c_shm := ch\<rparr>) s3)" if "nos_shm_channel_open e nm d s2 = Some (ch, s3)" "next_sys ?s1 = (r, s2)" for e nm d ch s3 s2 r
  proof -
    have "same_conns ?s1 s2" using same_conns_sys(1)[of ?s1] that(2) by simp
    then have sc: "same_conns ?s1 s3" using same_conns_create that(1) same_conns_trans by blast
    then have "keeps s3 (upd_conn i (\<lambda>c. c\<lparr>c_shm := ch\<rparr>) s3)" using i by (intro keeps_upd) (simp_all add: conn_ok_simps same_conns_def)
    then show ?thesis using keeps_trans[OF k1 keeps_trans[OF keeps_same[OF sc]]] by blast
  qed
  show ?thesis using assms(2) Some k1 op keeps_drain[OF _ i]
    by (auto simp: ipc_handle_ctrl_msg_def Let_def keeps_same nos_shm_channel_drain_def split: if_splits option.splits prod.splits)
qed (use assms(2) in \<open>simp add: ipc_handle_ctrl_msg_def keeps_same\<close>)

lemma keeps_drop_link: "\<forall>i. conn = Some i \<longrightarrow> i < g_remote_conn_count s \<Longrightarrow> keeps s (drop_link d conn t s)"
  using keeps_same[OF same_conns_trans[OF same_conns_sched(1) same_conns_sys(3)]] keeps_disconnect[of "the conn" s]
  by (cases conn) (simp_all add: drop_link_def)

lemma keeps_recv:
  assumes "\<forall>i. conn = Some i \<longrightarrow> i < g_remote_conn_count s" "nos_ipc_recv_handler fuel d conn t s = Some s'"
  shows "keeps s s'"
proof (cases "sock_rx s d = [] \<or> hd (sock_rx s d) = []")
  case True
  then show ?thesis using assms keeps_drop_link[OF assms(1)] by (auto simp: nos_ipc_recv_handler_def keeps_same split: list.splits if_splits)
next
  case False
  then obtain pkt rest where rx: "sock_rx s d = pkt # rest" "pkt \<noteq> []" by (cases "sock_rx s d") auto
  obtain r s1 where n: "next_sys s = (r, s1)" by fastforce
  let ?h = "peek_header (sys_stack r) pkt"
  have sc: "same_conns s s1" using same_conns_sys(1)[of s] n by simp
  have idx: "\<forall>i. conn = Some i \<longrightarrow> i < g_remote_conn_count x" if "same_conns s x" for x using assms(1) that by (simp add: same_conns_def)
  have err: "keeps s (count_rx_error conn x)" if "same_conns s x" for x using keeps_trans[OF keeps_same[OF that] keeps_rx_error[OF idx[OF that]]] .
  have link: "keeps s (drop_link d conn t (count_rx_error conn s1))" using keeps_trans[OF err[OF sc] keeps_drop_link] idx[OF sc] by simp
  have disc: "keeps s (sock_discard d (count_rx_error conn x))" if "same_conns s x" for x using keeps_trans[OF err[OF that] keeps_same[OF same_conns_sys(4)]] .
  show ?thesis
  proof (cases "magic ?h \<noteq> NOS_IPC_MAGIC \<or> payload_len ?h > NOS_IPC_MAX_PAYLOAD_LEN")
    case True
    then have "s' \<in> {drop_link d conn t (count_rx_error conn s1), sock_discard d (count_rx_error conn (stat_rx_error s1))}"
      using assms(2) rx n by (auto simp: nos_ipc_recv_handler_def Let_def split: if_splits)
    then show ?thesis using link disc[OF same_conns_trans[OF sc same_conns_stat(1)]] by auto
  next
    case False
    obtain b s2 where a: "nos_buffer_alloc (of_nat (full_len ?h)) 0 s1 = (b, s2)" by fastforce
    have sc2: "same_conns s s2" using same_conns_trans[OF sc] same_conns_alloc[of s1 "of_nat (full_len ?h)" 0] a by simp
    show ?thesis
    proof (cases b)
      case None
      then have "s' = sock_discard d (count_rx_error conn (stat_alloc_fail s2))" using assms(2) rx n a False by (simp add: nos_ipc_recv_handler_def Let_def)
      then show ?thesis using disc[OF same_conns_trans[OF sc2 same_conns_stat(2)]] by simp
    next
      case (Some p)
      define s3 where "s3 = put_bytes p (take (full_len ?h) pkt) (sock_discard d s2)"
      have sc3: "same_conns s s3" unfolding s3_def by (rule same_conns_trans[OF same_conns_trans[OF sc2 same_conns_sys(4)] same_conns_stat(3)])
      obtain x where x: "s' = nos_buffer_release (Some p) x" "ipc_handle_ctrl_msg fuel conn (msg_header s3 p) (drop sizeof_msg (buf_bytes s3 p (full_len ?h))) s3 = Some x
          \<or> x = ipc_deliver_rx_data (Some (buf_bytes s3 p (full_len ?h))) (of_nat (full_len ?h)) conn s3 \<or> x = count_rx_error conn (stat_rx_error s3)"
        using assms(2) rx n a False Some by (auto simp: nos_ipc_recv_handler_def Let_def s3_def split: if_splits)
      have "keeps s3 x" using x(2) keeps_ctrl[OF idx[OF sc3]] keeps_deliver[OF idx[OF sc3]] keeps_rx_error[of conn "stat_rx_error s3"] idx[OF sc3]
          keeps_trans[OF keeps_same[OF same_conns_stat(1)]] by auto
      then show ?thesis unfolding x(1) by (rule keeps_trans[OF keeps_trans[OF keeps_same[OF sc3]] keeps_same[OF same_conns_buf(1)]])
    qed
  qed
qed

lemma keeps_event:
  assumes "i < g_remote_conn_count s" "nos_ipc_event_handler fuel d i s = Some s'"
  shows "keeps s s'"
proof (cases "conns_ok s")
  case True
  note k = keeps_process_tx[OF assms(1)]
  have "i < g_remote_conn_count (nos_ipc_process_tx i s)" by (rule keeps_count[OF k True assms(1)])
  then have "\<forall>j. Some i = Some j \<longrightarrow> j < g_remote_conn_count (nos_ipc_process_tx i s)" by simp
  note r = keeps_recv[OF this]
  show ?thesis using assms(2) k keeps_trans[OF k r] by (auto simp: nos_ipc_event_handler_def Let_def keeps_same split: if_splits)
qed (simp add: keeps_def)

lemma keeps_accept: "keeps s (nos_ipc_accept_handler t s)"
proof -
  obtain r s1 where n: "next_sys s = (r, s1)" by fastforce
  have k1: "keeps s s1" using keeps_same[OF same_conns_sys(1)[of s]] n by simp
  show ?thesis
  proof (cases "sys_fd r < 0")
    case True
    then show ?thesis using n k1 by (simp add: nos_ipc_accept_handler_def)
  next
    case False
    obtain c s2 where c: "create_passive_conn (sys_fd r) (Some t) s1 = (c, s2)" by fastforce
    have k2: "keeps s s2" using keeps_trans[OF k1 keeps_passive[of "sys_fd r" s1 "Some t"]] False c by simp
    obtain r' s3 where n': "next_sys s2 = (r', s3)" by fastforce
    have k3: "keeps s s3" using keeps_trans[OF k2 keeps_same[OF same_conns_sys(1)[of s2]]] n' by simp
    show ?thesis using False n c n' keeps_trans[OF k2 keeps_same[OF same_conns_sys(3)]] keeps_trans[OF k3 keeps_same[OF same_conns_sched(2)]]
      by (cases c) (simp_all add: nos_ipc_accept_handler_def)
  qed
qed

subsection \<open>Reachable states\<close>

text \<open>What the transport does: messages sent by components, replies, events of a connection and
  new connections, and everything else that leaves the table alone.\<close>

inductive ipc_step :: "'z ipc_state_scheme \<Rightarrow> 'z ipc_state_scheme \<Rightarrow> bool" where
  send: "ipc_step s (snd (ipc_msg_send buf s))"
| reply: "(\<forall>i. conn = Some i \<longrightarrow> i < g_remote_conn_count s) \<Longrightarrow> ipc_step s (snd (nos_ipc_send_reply conn gen buf s))"
| event: "i < g_remote_conn_count s \<Longrightarrow> nos_ipc_event_handler fuel d i s = Some s' \<Longrightarrow> ipc_step s s'"
| accept: "ipc_step s (nos_ipc_accept_handler t s)"
| init: "ipc_step s (snd (nos_ipc_init t path s))"
| other: "g_remote_conns s' = g_remote_conns s \<Longrightarrow> g_remote_conn_count s' = g_remote_conn_count s \<Longrightarrow> ipc_step s s'"

inductive ipc_reachable :: "'z ipc_state_scheme \<Rightarrow> bool" where
  start: "g_remote_conns s = replicate MAX_REMOTE_CONNS null_conn \<Longrightarrow> g_remote_conn_count s = 0 \<Longrightarrow> ipc_reachable s"
| step: "ipc_reachable s \<Longrightarrow> ipc_step s s' \<Longrightarrow> ipc_reachable s'"

lemma keeps_init: "keeps s (snd (nos_ipc_init t path s))"
proof (rule keeps_same)
  note k = same_conns_sys(1) same_conns_sys(3) same_conns_sched(2)
  show "same_conns s (snd (nos_ipc_init t path s))"
    by (auto simp: nos_ipc_init_def next_sys_def same_conns_def sock_close_def nos_scheduler_add_fd_def nos_scheduler_add_fd_ex_def upd_thread_def Let_def)
qed

lemma keeps_step: "ipc_step s s' \<Longrightarrow> keeps s s'"
proof (induction rule: ipc_step.induct)
  case (other s' s)
  then show ?case by (intro keeps_same) (simp add: same_conns_def)
qed (simp_all add: keeps_msg_send keeps_send_reply keeps_event keeps_accept keeps_init)

text \<open>C15.  In every reachable state of the transport, each connection in use has its queue indices
  inside the array, is marked connected exactly when its state says so and then has a descriptor and
  otherwise none, is never left half connected, and waits between 100 and 5000 milliseconds
  before the next attempt; there are never more than 16 connections, and a slot once taken is never given
  back.\<close>

theorem ipc_reachable_ok:
  assumes "ipc_reachable s" "ipc_step s s'"
  shows "conns_ok s \<and> conns_ok s' \<and> g_remote_conn_count s \<le> g_remote_conn_count s'"
proof -
  have "conns_ok s" using assms(1)
  proof (induction rule: ipc_reachable.induct)
    case (start s)
    then show ?case by (auto simp: conns_ok_def null_conn_def)
  next
    case (step s s')
    then show ?case using keeps_step by (auto simp: keeps_def)
  qed
  then show ?thesis using keeps_step[OF assms(2)] by (simp add: keeps_def)
qed

section \<open>Back-off\<close>

lemma failed_conn:
  assumes "i < length (g_remote_conns s)"
  shows "get_conn (nos_ipc_mark_connect_failed i s) i = (get_conn s i)\<lparr>connect_fail_count := connect_fail_count (get_conn s i) + 1,
      retry_delay_ms := (if fail_delay (get_conn s i) \<ge> IPC_RETRY_MAX_MS div 2 then IPC_RETRY_MAX_MS else fail_delay (get_conn s i) * 2),
      next_retry_ms := g_clock s (g_clock_pos s) + ucast (fail_delay (get_conn s i)), c_state := NOS_IPC_BACKOFF, is_connected := False\<rparr>"
    "length (g_remote_conns (nos_ipc_mark_connect_failed i s)) = length (g_remote_conns s)"
  using assms by (simp_all add: nos_ipc_mark_connect_failed_def Let_def ipc_monotonic_ms_def get_monotonic_ms_def get_conn_def upd_conn_def)

definition backoff_ms :: "nat \<Rightarrow> u32" where
  "backoff_ms n = (if n \<le> 5 then 100 * 2 ^ n else 5000)"

lemma backoff_step: "(if backoff_ms n \<ge> IPC_RETRY_MAX_MS div 2 then IPC_RETRY_MAX_MS else backoff_ms n * 2) = backoff_ms (Suc n)" "backoff_ms n \<noteq> 0"
proof -
  consider "n \<in> {0, 1, 2, 3, 4, 5}" | "n > 5" by force
  then show "(if backoff_ms n \<ge> IPC_RETRY_MAX_MS div 2 then IPC_RETRY_MAX_MS else backoff_ms n * 2) = backoff_ms (Suc n)" "backoff_ms n \<noteq> 0"
    by (cases; auto simp: backoff_ms_def IPC_RETRY_MAX_MS_def)+
qed

lemma failures_delay:
  assumes "i < length (g_remote_conns s)" "retry_delay_ms (get_conn s i) = IPC_RETRY_INITIAL_MS"
  shows "let s' = (nos_ipc_mark_connect_failed i ^^ n) s in length (g_remote_conns s') = length (g_remote_conns s)
    \<and> retry_delay_ms (get_conn s' i) = backoff_ms n \<and> connect_fail_count (get_conn s' i) = connect_fail_count (get_conn s i) + of_nat n"
proof (induction n)
  case 0
  then show ?case using assms(2) by (simp add: backoff_ms_def IPC_RETRY_INITIAL_MS_def)
next
  case (Suc n)
  let ?s = "(nos_ipc_mark_connect_failed i ^^ n) s"
  have l: "i < length (g_remote_conns ?s)" using Suc assms(1) by (simp add: Let_def)
  have d: "fail_delay (get_conn ?s i) = backoff_ms n" using Suc backoff_step(2)[of n] by (simp add: fail_delay_def Let_def)
  show ?case using Suc failed_conn[OF l, unfolded d backoff_step(1)] by (simp add: Let_def ac_simps)
qed

text \<open>C39.  Back-off.  After \<open>n\<close> failed attempts in a row the next failure sets the earliest time of
  another attempt to the clock plus \<open>100 \<cdot> 2\<^sup>n\<close> milliseconds, from the seventh on plus 5000; until
  then an attempt reads the clock and does nothing else.\<close>

theorem ipc_backoff_schedule:
  assumes "i < length (g_remote_conns s)" "retry_delay_ms (get_conn s i) = IPC_RETRY_INITIAL_MS" "s' = (nos_ipc_mark_connect_failed i ^^ n) s"
    and "s'' = nos_ipc_mark_connect_failed i s'"
  shows "next_retry_ms (get_conn s'' i) = g_clock s' (g_clock_pos s') + (if n \<le> 5 then 100 * 2 ^ n else 5000)
    \<and> connect_fail_count (get_conn s'' i) = connect_fail_count (get_conn s i) + of_nat n + 1
    \<and> (\<forall>x. get_conn x i = get_conn s'' i \<and> g_clock x (g_clock_pos x) < next_retry_ms (get_conn s'' i) \<longrightarrow>
         nos_ipc_try_connect_locked i x = (False, x\<lparr>g_clock_pos := g_clock_pos x + 1\<rparr>))"
proof -
  note f = failures_delay[OF assms(1,2), of n, folded assms(3), unfolded Let_def]
  have l: "i < length (g_remote_conns s')" using f assms(1) by simp
  have d: "fail_delay (get_conn s' i) = backoff_ms n" using f backoff_step(2)[of n] by (simp add: fail_delay_def)
  note c = failed_conn(1)[OF l, folded assms(4)]
  have u: "ucast (backoff_ms n) = (if n \<le> 5 then 100 * 2 ^ n else 5000 :: u64)"
  proof -
    consider "n \<in> {0, 1, 2, 3, 4, 5}" | "n > 5" by force
    then show ?thesis by cases (auto simp: backoff_ms_def)
  qed
  have "nos_ipc_try_connect_locked i x = (False, x\<lparr>g_clock_pos := g_clock_pos x + 1\<rparr>)"
    if x: "get_conn x i = get_conn s'' i" "g_clock x (g_clock_pos x) < next_retry_ms (get_conn s'' i)" for x
  proof -
    have g: "get_conn (x\<lparr>g_clock_pos := g_clock_pos x + 1\<rparr>) i = get_conn s'' i" using x(1) by (simp add: get_conn_def)
    have "c_state (get_conn s'' i) = NOS_IPC_BACKOFF" by (simp add: c)
    then show ?thesis using x(2) g by (simp add: nos_ipc_try_connect_locked_def ipc_monotonic_ms_def get_monotonic_ms_def)
  qed
  note idle = this
  have n: "next_retry_ms (get_conn s'' i) = g_clock s' (g_clock_pos s') + (if n \<le> 5 then 100 * 2 ^ n else 5000)"
    "connect_fail_count (get_conn s'' i) = connect_fail_count (get_conn s i) + of_nat n + 1" using c d f u by simp_all
  show ?thesis by (intro conjI n allI impI idle; blast)
qed

section \<open>Replies\<close>

text \<open>Losing the link and trying to connect again.\<close>

definition relink :: "nat \<Rightarrow> 'z ipc_state_scheme \<Rightarrow> 'z ipc_state_scheme" where
  "relink i s = snd (nos_ipc_try_connect_locked i (nos_ipc_mark_disconnected i s))"

lemma relink_generation:
  assumes "conns_ok s" "i < g_remote_conn_count s"
  shows "conns_ok (relink i s) \<and> g_remote_conn_count (relink i s) = g_remote_conn_count s
    \<and> (generation (get_conn (relink i s) i) = generation (get_conn s i) + 1 \<or> generation (get_conn (relink i s) i) = generation (get_conn s i) + 2)"
proof -
  let ?d = "nos_ipc_mark_disconnected i s"
  have l: "i < length (g_remote_conns s)" using conns_okD[OF assms] by simp
  note d = ok_disconnected[OF assms] disconnected_conn(1)[OF l]
  obtain b s' where t: "nos_ipc_try_connect_locked i ?d = (b, s')" by fastforce
  have "i < g_remote_conn_count ?d" "c_fd (get_conn ?d i) < 0" using d assms(2) by simp_all
  from ok_try_connect[OF d(1) this t] show ?thesis using d t by (auto simp: relink_def)
qed

lemma relinks_generation:
  assumes "conns_ok s" "i < g_remote_conn_count s"
  shows "\<exists>m. conns_ok ((relink i ^^ n) s) \<and> g_remote_conn_count ((relink i ^^ n) s) = g_remote_conn_count s
    \<and> n \<le> m \<and> m \<le> 2 * n \<and> generation (get_conn ((relink i ^^ n) s) i) = generation (get_conn s i) + of_nat m"
proof (induction n)
  case 0
  then show ?case using assms by (intro exI[of _ 0]) simp
next
  case (Suc n)
  then obtain m where m: "conns_ok ((relink i ^^ n) s)" "g_remote_conn_count ((relink i ^^ n) s) = g_remote_conn_count s" "n \<le> m" "m \<le> 2 * n"
    "generation (get_conn ((relink i ^^ n) s) i) = generation (get_conn s i) + of_nat m" by blast
  note r = relink_generation[OF m(1), of i]
  have "generation (get_conn ((relink i ^^ Suc n) s) i) = generation (get_conn s i) + of_nat (m + 1)
      \<or> generation (get_conn ((relink i ^^ Suc n) s) i) = generation (get_conn s i) + of_nat (m + 2)"
    using r m(2,5) assms(2) by (auto simp: add.assoc)
  moreover have "Suc n \<le> m + 1 \<and> m + 1 \<le> 2 * Suc n \<and> Suc n \<le> m + 2 \<and> m + 2 \<le> 2 * Suc n" using m(3,4) by simp
  moreover have "conns_ok ((relink i ^^ Suc n) s)" "g_remote_conn_count ((relink i ^^ Suc n) s) = g_remote_conn_count s" using r m(2) assms(2) by simp_all
  ultimately show ?case by blast
qed

text \<open>C16.  A reply never reaches another connection than the one its request came from: once the link
  was lost, any number of times below \<open>2\<^sup>3\<^sup>1\<close>, a reply with the old generation is refused without
  effect, although the slot may be connected again.\<close>

theorem ipc_stale_reply_refused:
  assumes "conns_ok s" "i < g_remote_conn_count s" "0 < n" "n < 2 ^ 31"
  shows "nos_ipc_send_reply (Some i) (generation (get_conn s i)) buf ((relink i ^^ n) s) = (NOS_ERR, (relink i ^^ n) s)"
proof -
  obtain m where m: "n \<le> m" "m \<le> 2 * n" "generation (get_conn ((relink i ^^ n) s) i) = generation (get_conn s i) + of_nat m"
    using relinks_generation[OF assms(1,2)] by blast
  have "m < 2 ^ 32" "m \<noteq> 0" using m(1,2) assms(3,4) by simp_all
  then have "(of_nat m :: u32) \<noteq> 0" by (simp add: word_of_nat_eq_0_iff nat_dvd_not_less)
  then show ?thesis using m(3) by (cases buf) (simp_all add: nos_ipc_send_reply_def Let_def)
qed

section \<open>Queueing a message\<close>

lemma tx_enqueue_spec:
  assumes "i < length (g_remote_conns s)" "tx_ok (get_conn s i)" "valid_buf s p"
  shows "length (tx_items (get_conn s i)) = 1023 \<Longrightarrow> \<exists>s'. tx_enqueue i p s = (NOS_ERR_BUSY, s') \<and> g_bins s' = g_bins s \<and> sent_pkts s' = sent_pkts s
      \<and> get_conn s' i = (get_conn s i)\<lparr>c_dropped_full := c_dropped_full (get_conn s i) + 1\<rparr> \<and> st_dropped_full (node_stats s') = st_dropped_full (node_stats s) + 1"
    and "length (tx_items (get_conn s i)) \<noteq> 1023 \<Longrightarrow> \<exists>s' c'. tx_enqueue i p s = (NOS_OK, s') \<and> get_conn s' i = c' \<and> tx_put (Some p) (get_conn s i) = Some c'
      \<and> s' = upd_conn i (\<lambda>_. c') (nos_buffer_retain (Some p) s) \<and> tx_ok c' \<and> tx_items c' = tx_items (get_conn s i) @ [Some p]
      \<and> (\<forall>q. get_buf s' q = (if q = p then (get_buf s p)\<lparr>ref_cnt := ref_cnt (get_buf s p) + 1\<rparr> else get_buf s q))"
proof -
  note t = tx_put_spec[OF assms(2), of "Some p"]
  show "\<exists>s'. tx_enqueue i p s = (NOS_ERR_BUSY, s') \<and> g_bins s' = g_bins s \<and> sent_pkts s' = sent_pkts s
      \<and> get_conn s' i = (get_conn s i)\<lparr>c_dropped_full := c_dropped_full (get_conn s i) + 1\<rparr> \<and> st_dropped_full (node_stats s') = st_dropped_full (node_stats s) + 1"
    if "length (tx_items (get_conn s i)) = 1023"
    using t(1) that assms(1) by (simp add: tx_enqueue_def TX_QUEUE_SIZE_def)
  show "\<exists>s' c'. tx_enqueue i p s = (NOS_OK, s') \<and> get_conn s' i = c' \<and> tx_put (Some p) (get_conn s i) = Some c'
      \<and> s' = upd_conn i (\<lambda>_. c') (nos_buffer_retain (Some p) s) \<and> tx_ok c' \<and> tx_items c' = tx_items (get_conn s i) @ [Some p]
      \<and> (\<forall>q. get_buf s' q = (if q = p then (get_buf s p)\<lparr>ref_cnt := ref_cnt (get_buf s p) + 1\<rparr> else get_buf s q))"
    if n: "length (tx_items (get_conn s i)) \<noteq> 1023"
  proof -
    obtain c' where c: "tx_put (Some p) (get_conn s i) = Some c'" using t(1) n by (cases "tx_put (Some p) (get_conn s i)") (auto simp: TX_QUEUE_SIZE_def)
    let ?s = "upd_conn i (\<lambda>_. c') (nos_buffer_retain (Some p) s)"
    have "get_buf ?s q = (if q = p then (get_buf s p)\<lparr>ref_cnt := ref_cnt (get_buf s p) + 1\<rparr> else get_buf s q)" for q
      using bins_cong[of ?s "nos_buffer_retain (Some p) s" q] get_buf_upd_buf[OF assms(3)] by (simp add: nos_buffer_retain_def)
    then show ?thesis using c t(2)[OF c] assms(1) by (simp add: tx_enqueue_def)
  qed
qed

text \<open>Queueing keeps the link ready for transmission.\<close>

lemma enqueue_ready:
  assumes "tx_ready i s" "valid_buf s p" "1 \<le> ref_cnt (get_buf s p)" "fits s p"
    and "int (count_list (tx_items (get_conn s i)) (Some p)) < ref_cnt (get_buf s p)"
    and "tx_enqueue i p s = (NOS_OK, s')"
  shows "tx_ready i s'"
proof -
  have r: "i < length (g_remote_conns s)" "tx_ok (get_conn s i)" "pool_ok s" "queue_held s (tx_items (get_conn s i))"
    "\<And>q. Some q \<in> set (tx_items (get_conn s i)) \<Longrightarrow> fits s q" using assms(1) by (auto simp: tx_ready_def)
  have "length (tx_items (get_conn s i)) \<noteq> 1023" using tx_enqueue_spec(1)[OF r(1,2) assms(2)] assms(6) by auto
  from tx_enqueue_spec(2)[OF r(1,2) assms(2) this, unfolded assms(6)]
  obtain c' where c: "get_conn s' i = c'" "s' = upd_conn i (\<lambda>_. c') (nos_buffer_retain (Some p) s)"
    "tx_put (Some p) (get_conn s i) = Some c'" "tx_ok c'" "tx_items c' = tx_items (get_conn s i) @ [Some p]"
    "\<forall>q. get_buf s' q = (if q = p then (get_buf s p)\<lparr>ref_cnt := ref_cnt (get_buf s p) + 1\<rparr> else get_buf s q)" by blast
  have v: "valid_buf s' q = valid_buf s q" for q
    using bins_cong[of s' "nos_buffer_retain (Some p) s" q] c(2) by (simp add: nos_buffer_retain_def)
  have ok: "pool_ok s'" using pool_ok_retain[OF r(3) assms(2,3)] pool_ok_cong[of s' "nos_buffer_retain (Some p) s"] c(2) by simp
  have f: "fits s' q = fits s q" for q using c(6) by (simp add: fits_def msg_bytes_def buf_bytes_def msg_header_def Let_def)
  have h: "queue_held s' (tx_items c')" using r(4) assms(2,5) v c(6) unfolding queue_held_def c(5) by (auto simp: count_list_append split: if_splits)
  have shm: "c_shm c' = c_shm (get_conn s i)" using c(3) by (auto simp: tx_put_def Let_def split: if_splits)
  have "shm_objs s' = shm_objs s" using c(2) by simp
  note ch = chan_ok_cong[OF this]
  have "i < length (g_remote_conns s')" using c(2) r(1) by simp
  then show ?thesis using c(1,4,5) ok f h r(5) assms(1,4) shm ch by (auto simp: tx_ready_def split: option.splits)
qed


section \<open>Delivery of a received message\<close>

lemma decode_write_all: "sizeof_msg \<le> length bs \<Longrightarrow> length bs \<le> length c \<Longrightarrow> decode_msg (write_bytes c 0 bs) 0 = decode_msg bs 0"
  by (intro decode_msg_cong) (simp add: get_byte_write_inside)

lemma take_write_all: "length bs \<le> length c \<Longrightarrow> take (length bs) (write_bytes c 0 bs) = bs"
  by (intro nth_equalityI) (simp_all add: write_bytes_def)

lemma alloc_same:
  assumes "nos_buffer_alloc sz hr s = (Some p, s')" "pool_ok s"
  shows "\<exists>b. s' = s\<lparr>g_bins := b\<rparr>"
  using assms by (rule nos_buffer_alloc_Some) blast

lemma msg_send_local:
  "flags (msg_header s p) AND NOS_MSG_F_REPLY = 0 \<Longrightarrow> reg_view s (dst_service (msg_header s p)) = Some (Route_Local prov t) \<Longrightarrow>
    nos_service_msg_send ipc (Some p) s = nos_transport_local_send p t s"
  by (auto simp: nos_service_msg_send_def is_reply_msg_def reg_view_def entry_route_def Let_def split: option.splits if_splits)

text \<open>The buffer as it is handed to the router.\<close>

lemma rx_buffer:
  assumes "pool_ok s" "bufs_ok s" "length bs < 2 ^ 32" "sizeof_msg \<le> length bs" "nos_buffer_alloc (of_nat (length bs)) 0 s = (Some p, s1)"
    and "s3 = rx_origin (Some i) h m p (put_bytes p bs s1)"
  shows "valid_buf s3 p" "ref_cnt (get_buf s3 p) = 1" "msg_header s3 p = decode_msg bs 0" "buf_bytes s3 p (length bs) = bs"
    "g_threads s3 = g_threads s" "g_service_registry s3 = g_service_registry s" "g_service_count s3 = g_service_count s"
    "reply_ctx (get_buf s3 p) = sys_calloc (sys_calls s (sys_pos s))"
    "sys_calloc (sys_calls s (sys_pos s)) = Some rc \<Longrightarrow> g_reply_ctxs s3 rc = Some \<lparr>rc_ref_cnt = 1, ipc_conn = Some i, ipc_generation = generation (get_conn s i),
        corr_id = seq h, requester_component = src_component h\<rparr>"
    "pool_ok s3"
proof -
  note a = alloc_frame[OF assms(5,1)]
  obtain b where s1: "s1 = s\<lparr>g_bins := b\<rparr>" using alloc_same[OF assms(5,1)] by blast
  have u: "unat (of_nat (length bs) :: u32) = length bs" using assms(3) by (simp add: unat_of_nat)
  have cap: "length bs \<le> length (chunk (get_buf s p))" using a(6) u bufs_okD[OF assms(2) a(1)] by (simp add: buf_ok_def)
  have v1: "valid_buf s1 p" using a(1,5) by simp
  have g1: "data (get_buf s1 p) = raw_data (get_buf s1 p)" "ref_cnt (get_buf s1 p) = 1" "chunk (get_buf s1 p) = chunk (get_buf s p)"
    using a(3) by (simp_all add: alloc_reset_def)
  let ?s2 = "put_bytes p bs s1" and ?c = "write_bytes (chunk (get_buf s p)) 0 bs"
  have g2: "get_buf ?s2 p = (get_buf s1 p)\<lparr>chunk := ?c\<rparr>" using get_buf_upd_buf[OF v1, of _ p] g1 by (simp add: put_bytes_def)
  have sys: "sys_calls ?s2 = sys_calls s" "sys_pos ?s2 = sys_pos s" "get_conn ?s2 i = get_conn s i" "g_threads ?s2 = g_threads s" "g_service_registry ?s2 = g_service_registry s"
    "g_service_count ?s2 = g_service_count s"
    by (simp_all add: put_bytes_def s1 get_conn_def)
  define r where "r = sys_calls s (sys_pos s)"
  obtain x s2 where x: "nos_reply_ctx_create (sys_calloc r) (Some i) (generation (get_conn s i)) (seq h) (src_component h) (?s2\<lparr>sys_pos := sys_pos s + 1\<rparr>) = (x, s2)" by fastforce
  have x1: "x = sys_calloc r" "g_bins s2 = g_bins ?s2" "g_threads s2 = g_threads s" "g_service_registry s2 = g_service_registry s" "g_service_count s2 = g_service_count s"
    "x = Some q \<Longrightarrow> g_reply_ctxs s2 q = Some \<lparr>rc_ref_cnt = 1, ipc_conn = Some i, ipc_generation = generation (get_conn s i), corr_id = seq h, requester_component = src_component h\<rparr>" for q
    using x sys by (auto simp: nos_reply_ctx_create_def split: option.splits)
  have gx: "get_conn (?s2\<lparr>sys_pos := sys_pos s + 1\<rparr>) i = get_conn s i" using sys(3) by (simp add: get_conn_def)
  have s3: "s3 = upd_conn i (\<lambda>c. c\<lparr>c_rx_packets := c_rx_packets c + 1, c_rx_bytes := c_rx_bytes c + of_nat m\<rparr>) (upd_buf p (\<lambda>b. b\<lparr>reply_ctx := x\<rparr>) s2)"
    using x gx unfolding assms(6) by (simp add: rx_origin_def next_sys_def sys r_def)
  have v2: "valid_buf s2 p" using bins_cong[OF x1(2)] v1 by (simp add: put_bytes_def)
  have "get_buf s3 p = get_buf (upd_buf p (\<lambda>b. b\<lparr>reply_ctx := x\<rparr>) s2) p" using bins_cong[of s3 "upd_buf p (\<lambda>b. b\<lparr>reply_ctx := x\<rparr>) s2" p] s3 by simp
  then have g3: "get_buf s3 p = (get_buf s1 p)\<lparr>chunk := ?c, reply_ctx := x\<rparr>" using get_buf_upd_buf[OF v2] bins_cong[OF x1(2)] g2 by simp
  show "valid_buf s3 p" using v2 bins_cong[of s3 "upd_buf p (\<lambda>b. b\<lparr>reply_ctx := x\<rparr>) s2" p] s3 by simp
  show "ref_cnt (get_buf s3 p) = 1" using g3 g1 by simp
  show "msg_header s3 p = decode_msg bs 0" using decode_write_all[OF assms(4) cap] g3 g1 by (simp add: msg_header_def)
  show "buf_bytes s3 p (length bs) = bs" using take_write_all[OF cap] g3 g1 by (simp add: buf_bytes_def)
  show "g_threads s3 = g_threads s" "g_service_registry s3 = g_service_registry s" "g_service_count s3 = g_service_count s" using x1 by (simp_all add: s3)
  show "reply_ctx (get_buf s3 p) = sys_calloc (sys_calls s (sys_pos s))" using g3 x1(1) by (simp add: r_def)
  show "g_reply_ctxs s3 rc = Some \<lparr>rc_ref_cnt = 1, ipc_conn = Some i, ipc_generation = generation (get_conn s i), corr_id = seq h, requester_component = src_component h\<rparr>"
    if "sys_calloc (sys_calls s (sys_pos s)) = Some rc" using x1(1,6) that by (simp add: s3 r_def)
  have "pool_ok ?s2" unfolding put_bytes_def using pool_ok_alloc[OF assms(1,5)] v1 by (intro pool_ok_upd_buf) simp_all
  then have "pool_ok s2" using pool_ok_cong[OF x1(2)] by simp
  then have "pool_ok (upd_buf p (\<lambda>b. b\<lparr>reply_ctx := x\<rparr>) s2)" using v2 by (intro pool_ok_upd_buf) simp_all
  then show "pool_ok s3" using pool_ok_cong[of s3 "upd_buf p (\<lambda>b. b\<lparr>reply_ctx := x\<rparr>) s2"] s3 by simp
qed

text \<open>A request that arrives from another node for a service of this one reaches the queue of the provider's thread
  unchanged: the thread's queue gains a buffer that holds the bytes of the packet, has
  exactly the reference of the queue, and carries a reply context with the connection, its
  generation, and the sequence number and component of the requester.\<close>

theorem ipc_deliver_correct:
  assumes "pool_ok s" "bufs_ok s" "h = decode_msg bs 0" "length bs = full_len h" "payload_len h \<le> NOS_IPC_MAX_PAYLOAD_LEN"
    and "flags h AND NOS_MSG_F_REPLY = 0" "reg_view s (dst_service h) = Some (Route_Local prov (Some t))"
    and "t < length (g_threads s)" "queue_ok (get_thread s t)" "length (queue_items (get_thread s t)) < 1023"
    and "nos_buffer_alloc (of_nat (length bs)) 0 s = (Some p, s1)" "sys_calloc (sys_calls s (sys_pos s)) = Some rc"
    and "s' = ipc_deliver_rx_data (Some bs) (of_nat (length bs)) (Some i) s"
  shows "queue_items (get_thread s' t) = queue_items (get_thread s t) @ [Some p] \<and> ref_cnt (get_buf s' p) = 1
    \<and> msg_header s' p = h \<and> buf_bytes s' p (length bs) = bs \<and> reply_ctx (get_buf s' p) = Some rc
    \<and> (\<forall>u. u \<noteq> t \<longrightarrow> get_thread s' u = get_thread s u)
    \<and> g_reply_ctxs s' rc = Some \<lparr>rc_ref_cnt = 1, ipc_conn = Some i, ipc_generation = generation (get_conn s i), corr_id = seq h,
        requester_component = src_component h\<rparr>"
proof -
  have sz: "length bs < 2 ^ 32" "sizeof_msg \<le> length bs"
    using assms(4,5) by (simp_all add: full_len_def sizeof_msg_def NOS_IPC_MAX_PAYLOAD_LEN_def word_le_nat_alt)
  have u: "unat (of_nat (length bs) :: u32) = length bs" using sz(1) by (simp add: unat_of_nat)
  define s3 where "s3 = rx_origin (Some i) h (length bs) p (put_bytes p bs s1)"
  note b = rx_buffer[OF assms(1,2) sz assms(11) s3_def]
  let ?f = "\<lambda>st. st\<lparr>st_rx_packets := st_rx_packets st + 1, st_rx_bytes := st_rx_bytes st + of_nat (length bs)\<rparr>"
  let ?s4 = "upd_stats ?f s3"
  have s': "s' = nos_buffer_release (Some p) (snd (ipc_msg_send (Some p) ?s4))"
    unfolding assms(13) using assms(3-5,11) u sz by (simp add: ipc_deliver_rx_data_def Let_def s3_def)
  have c4: "get_buf ?s4 q = get_buf s3 q" "valid_buf ?s4 q = valid_buf s3 q" "msg_header ?s4 q = msg_header s3 q" for q
    using bins_cong[of ?s4 s3 q] by simp_all
  have th: "get_thread ?s4 u = get_thread s u" for u using b(5) by simp
  have "reg_view ?s4 = reg_view s" using b(6,7) by (simp add: reg_view_def find_service_entry_def get_entry_def fun_eq_iff)
  then have snd: "ipc_msg_send (Some p) ?s4 = nos_transport_local_send p (Some t) ?s4"
    unfolding ipc_msg_send_def using c4(3) b(3) assms(3,6,7) by (intro msg_send_local) simp_all
  have pre: "t < length (g_threads ?s4)" "queue_ok (get_thread ?s4 t)" "valid_buf ?s4 p" "length (queue_items (get_thread ?s4 t)) < 1023"
    using assms(8-10) b(1,5) c4(2) th by simp_all
  from local_send_OK[OF pre] obtain s5 where s5: "nos_transport_local_send p (Some t) ?s4 = (NOS_OK, s5)"
    "queue_items (get_thread s5 t) = queue_items (get_thread ?s4 t) @ [Some p]" "\<forall>u. u \<noteq> t \<longrightarrow> get_thread s5 u = get_thread ?s4 u"
    "\<forall>q. get_buf s5 q = (if q = p then (get_buf ?s4 p)\<lparr>ref_cnt := ref_cnt (get_buf ?s4 p) + 1\<rparr> else get_buf ?s4 q)" by blast
  have rc5: "g_reply_ctxs s5 = g_reply_ctxs s3" "valid_buf s5 p = valid_buf ?s4 p"
    using s5(1) by (auto simp: nos_transport_local_send_def Let_def notify_def upd_thread_def nos_buffer_retain_def valid_buf_def upd_buf_def split: option.splits if_splits)
  have r5: "ref_cnt (get_buf s5 p) = 2" using s5(4) b(2) c4(1) by simp
  have "nos_buffer_release (Some p) s5 = upd_buf p (\<lambda>b. b\<lparr>ref_cnt := ref_cnt b - 1\<rparr>) s5" using r5 by (simp add: nos_buffer_release_def Let_def)
  then have s6: "s' = upd_buf p (\<lambda>b. b\<lparr>ref_cnt := ref_cnt b - 1\<rparr>) s5" using s' snd s5(1) by simp
  have v5: "valid_buf s5 p" using rc5(2) pre(3) by simp
  have g: "get_buf s' p = get_buf s3 p" using s6 get_buf_upd_buf[OF v5] s5(4) c4(1) by simp
  then have "msg_header s' p = msg_header s3 p" "buf_bytes s' p (length bs) = buf_bytes s3 p (length bs)" by (simp_all add: msg_header_def buf_bytes_def)
  moreover have "get_thread s' u = get_thread s5 u" for u by (simp add: s6)
  moreover have "g_reply_ctxs s' = g_reply_ctxs s3" using rc5(1) by (simp add: s6)
  ultimately show ?thesis using g b(2,3,4,8) b(9)[OF assms(12)] s5(2,3) th assms(3,12) by simp
qed

section \<open>A concrete node\<close>

definition demo_conn :: nos_ipc_conn_t where
  "demo_conn = null_conn\<lparr>c_uds_path := ''/tmp/n2'', c_fd := 7, is_connected := True, c_state := NOS_IPC_CONNECTED, retry_delay_ms := 100,
     generation := 1, tx_queue := (replicate TX_QUEUE_SIZE None)[0 := Some (0, 1)], tx_tail := 1\<rparr>"

definition demo_ipc :: "nos_ipc_conn_t list \<Rightarrow> nat \<Rightarrow> ipc_state" where
  "demo_ipc cs n = \<lparr>g_bins = g_bins demo_held, g_reply_ctxs = (\<lambda>_. None), g_comps = (\<lambda>_. None), g_timers = (\<lambda>_. None), g_threads = [demo_thread],
     g_service_registry = (replicate 64 null_entry)[0 := null_entry\<lparr>local_provider := Some 5, local_thread := Some 0\<rparr>],
     g_service_count = 1, g_clock = (\<lambda>_. 0), g_clock_pos = 0, node_def = None,
     loaded_info = replicate MAX_COMPONENTS_PER_NODE null_info, loaded_count = 0, keep_running = True, mgmt_thread = Some 0, worker_threads = [0],
     shm_names = Map.empty, shm_objs = [], shm_tx_packets = 0, shm_rx_packets = 0, shm_tx_bytes = 0, shm_rx_bytes = 0, shm_ring_full = 0,
     shm_fallback_uds = 0, shm_open_errors = 0, g_remote_conns = cs, g_remote_conn_count = n,
     node_stats = \<lparr>st_tx_packets = 0, st_rx_packets = 0, st_tx_bytes = 0, st_rx_bytes = 0, st_tx_errors = 0, st_rx_errors = 0, st_dropped_full = 0,
       st_buffer_alloc_fails = 0\<rparr>,
     sock_rx = (\<lambda>_. []), sock_closed = (\<lambda>_. False), sent_pkts = [],
     sys_calls = (\<lambda>_. \<lparr>sys_fd = 8, sys_ok = True, sys_send = Sent, sys_shm = demo_shm_env, sys_stack = [], sys_calloc = Some 3\<rparr>), sys_pos = 0\<rparr>"

definition demo_up :: ipc_state where
  "demo_up = demo_ipc ((replicate MAX_REMOTE_CONNS null_conn)[0 := demo_conn]) 1"

definition demo_down :: ipc_state where
  "demo_down = demo_ipc (replicate MAX_REMOTE_CONNS null_conn) 0"

lemma demo_up_conn: "get_conn demo_up 0 = demo_conn" "g_remote_conn_count demo_up = 1" "g_bins demo_up = g_bins demo_held" "length (g_remote_conns demo_up) = 16"
  "g_remote_conns demo_up = (replicate MAX_REMOTE_CONNS null_conn)[0 := demo_conn]"
  by (simp_all add: demo_up_def demo_ipc_def get_conn_def MAX_REMOTE_CONNS_def)

lemma demo_conn_ok: "tx_ok demo_conn" "tx_items demo_conn = [Some (0, 1)]" "conn_ok demo_conn"
  by (simp_all add: demo_conn_def null_conn_def conn_ok_def tx_ok_def tx_items_def ring_ok_def ring_items_def ring_len_def TX_QUEUE_SIZE_def
      IPC_RETRY_INITIAL_MS_def IPC_RETRY_MAX_MS_def)

lemma demo_conns_ok: "conns_ok demo_up"
proof -
  have "length (tx_queue c) = TX_QUEUE_SIZE" if "c \<in> set (g_remote_conns demo_up)" for c
    using that set_update_subset_insert[of "replicate MAX_REMOTE_CONNS null_conn" 0 demo_conn] unfolding demo_up_conn(5)
    by (auto simp: demo_conn_def null_conn_def)
  then show ?thesis using demo_conn_ok(3) demo_up_conn by (simp add: conns_ok_def MAX_REMOTE_CONNS_def)
qed

lemma demo_bytes: "fits demo_held (0, 1)"
  by code_simp

lemma demo_up_buf: "pool_ok demo_up" "valid_buf demo_up (0, 1)" "ref_cnt (get_buf demo_up (0, 1)) = 2" "fits demo_up (0, 1)"
proof -
  show "pool_ok demo_up" using demo_held_ok(1) demo_up_conn(3) by (simp add: pool_ok_def)
  have "valid_buf demo_up p = valid_buf demo_held p" "get_buf demo_up p = get_buf demo_held p" "fits demo_up p = fits demo_held p" for p
    using demo_up_conn(3) by (simp_all add: valid_buf_def get_buf_def fits_def msg_bytes_def buf_bytes_def msg_header_def)
  then show "valid_buf demo_up (0, 1)" "ref_cnt (get_buf demo_up (0, 1)) = 2" "fits demo_up (0, 1)" using demo_held_ok demo_bytes by simp_all
qed

lemma demo_up_ready: "tx_ready 0 demo_up"
  using demo_up_conn demo_conn_ok demo_up_buf by (simp add: tx_ready_def queue_held_def demo_conn_def null_conn_def)

theorem ipc_tx_in_order_witness:
  "\<exists>n via. tx_moved 0 n via demo_up (nos_ipc_process_tx 0 demo_up) \<and> tx_exit 0 demo_up (nos_ipc_process_tx 0 demo_up)"
  using ipc_tx_in_order[OF demo_up_ready] demo_up_conn(1) by (simp add: demo_conn_def)

theorem ipc_reachable_ok_witness: "conns_ok (nos_ipc_accept_handler 0 demo_down)"
proof -
  have "ipc_reachable demo_down" by (rule ipc_reachable.start) (simp_all add: demo_down_def demo_ipc_def)
  then show ?thesis using ipc_reachable_ok[OF _ ipc_step.accept, of demo_down 0] by blast
qed

theorem ipc_backoff_schedule_witness:
  "next_retry_ms (get_conn ((nos_ipc_mark_connect_failed 0 ^^ 4) demo_up) 0) = g_clock ((nos_ipc_mark_connect_failed 0 ^^ 3) demo_up)
     (g_clock_pos ((nos_ipc_mark_connect_failed 0 ^^ 3) demo_up)) + 800"
proof -
  have "(nos_ipc_mark_connect_failed 0 ^^ 4) demo_up = nos_ipc_mark_connect_failed 0 ((nos_ipc_mark_connect_failed 0 ^^ 3) demo_up)"
    by (simp add: numeral_eq_Suc)
  note e = this
  have "0 < length (g_remote_conns demo_up)" "retry_delay_ms (get_conn demo_up 0) = IPC_RETRY_INITIAL_MS"
    using demo_up_conn by (simp_all add: demo_conn_def IPC_RETRY_INITIAL_MS_def MAX_REMOTE_CONNS_def)
  from ipc_backoff_schedule[OF this refl e, THEN conjunct1] show ?thesis by simp
qed

theorem ipc_stale_reply_refused_witness:
  "nos_ipc_send_reply (Some 0) 1 (Some (0, 1)) ((relink 0 ^^ 1) demo_up) = (NOS_ERR, (relink 0 ^^ 1) demo_up)"
  using ipc_stale_reply_refused[OF demo_conns_ok, of 0 1 "Some (0, 1)"] demo_up_conn(1,2) by (simp add: demo_conn_def)


definition demo_packet :: "u8 list" where
  "demo_packet = encode_msg \<lparr>magic = NOS_IPC_MAGIC, version = NOS_IPC_VERSION, dst_service = 0, src_component = 4, dst_component = 0, msg_code = 1, seq = 6,
     flags = NOS_MSG_F_NEED_REPLY, payload_len = 0\<rparr>"

lemma demo_packet_header: "length demo_packet = 32" "flags (decode_msg demo_packet 0) AND NOS_MSG_F_REPLY = 0" "dst_service (decode_msg demo_packet 0) = 0"
  "payload_len (decode_msg demo_packet 0) = 0"
  by code_simp+

lemma demo_up_bufs_ok: "bufs_ok demo_up"
proof -
  have "bufs_ok demo_held" unfolding bufs_ok_iff by code_simp
  then show ?thesis using demo_up_conn(3) by (simp add: bufs_ok_iff)
qed

lemma demo_rx_alloc: "fst (nos_buffer_alloc 32 0 demo_held) = Some (0, 0)"
  by code_simp

theorem ipc_deliver_correct_witness:
  "queue_items (get_thread (ipc_deliver_rx_data (Some demo_packet) 32 (Some 0) demo_up) 0) = [Some (0, 1), Some (0, 0)]"
proof -
  have "fst (nos_buffer_alloc 32 0 demo_up) = fst (nos_buffer_alloc 32 0 demo_held)"
    by (simp add: nos_buffer_alloc_def Let_def demo_up_conn(3) split: option.split prod.split)
  then have a: "nos_buffer_alloc 32 0 demo_up = (Some (0, 0), snd (nos_buffer_alloc 32 0 demo_up))" using demo_rx_alloc by (metis prod.collapse)
  have v: "reg_view demo_up 0 = Some (Route_Local (Some 5) (Some 0))"
    by (simp add: reg_view_def find_service_entry_def find_idx_def demo_up_def demo_ipc_def get_entry_def entry_route_def null_entry_def)
  have t: "get_thread demo_up 0 = demo_thread" "length (g_threads demo_up) = 1" "sys_calloc (sys_calls demo_up (sys_pos demo_up)) = Some 3"
    by (simp_all add: demo_up_def demo_ipc_def)
  show ?thesis
    using ipc_deliver_correct[OF demo_up_buf(1) demo_up_bufs_ok refl, of demo_packet, OF _ _ _ _ _ _ _ _ _ refl, of "Some 5" 0 "(0, 0)" _ 3 0]
      demo_packet_header a v t demo_thread_queue by (simp add: full_len_def sizeof_msg_def NOS_IPC_MAX_PAYLOAD_LEN_def)
qed

end
