(* ===== verification/Nos_Service.thy ===== *)
theory Nos_Service
  imports Nos_Types
begin

text \<open>
  The registry of embedded services, \<^verbatim>\<open>src/core/nos_service.c\<close>, through which the infrastructure
  offers its operation tables by name, with two of its users: the timer service
  (\<^verbatim>\<open>src/infra/timer/nos_timer.c\<close>) and the cached lookup of the log service in
  \<^verbatim>\<open>include/nos_log_api.h\<close>.  The address of an operation table is a natural number.
\<close>

definition MAX_EMBEDDED_SERVICES :: nat where "MAX_EMBEDDED_SERVICES = 32"

record nos_embedded_service_t =
  service_name :: string
  ops :: nat

record svc_state =
  g_embedded_registry :: "nos_embedded_service_t list"
  g_embedded_count :: nat
  timer_initialized :: bool
  log_ops_cache :: "nat option"

definition nos_embedded_service_register :: "string \<Rightarrow> nat \<Rightarrow> 'z svc_state_scheme \<Rightarrow> nos_status_t \<times> 'z svc_state_scheme" where
  "nos_embedded_service_register name p s =
    (if g_embedded_count s \<ge> MAX_EMBEDDED_SERVICES then (NOS_ERR, s)
     else (NOS_OK, s\<lparr>g_embedded_registry := (g_embedded_registry s)[g_embedded_count s := \<lparr>service_name = name, ops = p\<rparr>],
                     g_embedded_count := g_embedded_count s + 1\<rparr>))"

definition nos_embedded_service_get :: "string \<Rightarrow> 'z svc_state_scheme \<Rightarrow> nat option" where
  "nos_embedded_service_get name s =
    map_option (\<lambda>i. ops (g_embedded_registry s ! i)) (find_idx (\<lambda>e. service_name e = name) (g_embedded_registry s) (g_embedded_count s))"

definition nos_timer_init :: "nat \<Rightarrow> 'z svc_state_scheme \<Rightarrow> 'z svc_state_scheme" where
  "nos_timer_init g_timer_ops s =
    (if timer_initialized s then s
     else (snd (nos_embedded_service_register ''SVC_TIMER'' g_timer_ops s))\<lparr>timer_initialized := True\<rparr>)"

text \<open>The cache of a compilation unit that logs.\<close>

definition nos_get_log_ops :: "'z svc_state_scheme \<Rightarrow> nat option \<times> 'z svc_state_scheme" where
  "nos_get_log_ops s =
    (case log_ops_cache s of
       Some p \<Rightarrow> (Some p, s)
     | None \<Rightarrow> (case nos_embedded_service_get ''SVC_LOG'' s of
         None \<Rightarrow> (None, s)
       | Some p \<Rightarrow> (Some p, s\<lparr>log_ops_cache := Some p\<rparr>)))"

section \<open>Properties\<close>

text \<open>What a cached lookup promises to the calls that go through it, once for the three services that are found this way: the lookup is made at most
  once, and while the cache holds nothing but what the registry holds, the answer is that of the registry.\<close>

locale cached_lookup =
  fixes cache :: "'s \<Rightarrow> nat option" and lookup :: "'s \<Rightarrow> nat option" and fetch :: "'s \<Rightarrow> nat option \<times> 's"
  assumes hit: "cache s = Some p \<Longrightarrow> fetch s = (Some p, s)"
    and absent: "cache s = None \<Longrightarrow> lookup s = None \<Longrightarrow> fetch s = (None, s)"
    and fill: "cache s = None \<Longrightarrow> lookup s = Some p \<Longrightarrow> fst (fetch s) = Some p \<and> cache (snd (fetch s)) = Some p \<and> lookup (snd (fetch s)) = lookup s"
begin

lemma fetch_lookup:
  assumes "cache s = None \<or> cache s = lookup s"
  shows "fst (fetch s) = lookup s" "cache (snd (fetch s)) = lookup s" "lookup (snd (fetch s)) = lookup s"
  using assms by (cases "cache s"; cases "lookup s"; simp add: hit absent fill)+

lemma fetch_cached: "fst (fetch s) = Some p \<Longrightarrow> cache (snd (fetch s)) = Some p"
  by (cases "cache s"; cases "lookup s") (auto simp: hit absent dest: fill)

lemma fetch_again: "fst (fetch s) = Some p \<Longrightarrow> fetch (snd (fetch s)) = (Some p, snd (fetch s))"
  by (rule hit) (rule fetch_cached)

end

lemma get_cache_upd [simp]: "nos_embedded_service_get name (s\<lparr>log_ops_cache := x\<rparr>) = nos_embedded_service_get name s"
  by (simp add: nos_embedded_service_get_def)

interpretation log_lookup: cached_lookup log_ops_cache "nos_embedded_service_get ''SVC_LOG''" nos_get_log_ops
  by unfold_locales (simp_all add: nos_get_log_ops_def)

definition embedded_ok :: "'z svc_state_scheme \<Rightarrow> bool" where
  "embedded_ok s \<longleftrightarrow> length (g_embedded_registry s) = MAX_EMBEDDED_SERVICES \<and> g_embedded_count s \<le> MAX_EMBEDDED_SERVICES"

definition embedded_list :: "'z svc_state_scheme \<Rightarrow> nos_embedded_service_t list" where
  "embedded_list s = take (g_embedded_count s) (g_embedded_registry s)"

lemma embedded_register_list:
  assumes "embedded_ok s" "nos_embedded_service_register name p s = (r, s')"
  shows "embedded_ok s'" "r = NOS_OK \<Longrightarrow> embedded_list s' = embedded_list s @ [\<lparr>service_name = name, ops = p\<rparr>]" "r \<noteq> NOS_OK \<Longrightarrow> s' = s"
    "r = NOS_OK \<longleftrightarrow> length (embedded_list s) < 32"
  using assms by (auto simp: nos_embedded_service_register_def embedded_ok_def embedded_list_def take_Suc_conv_app_nth MAX_EMBEDDED_SERVICES_def split: if_splits)

lemma find_idx_take: "n \<le> length xs \<Longrightarrow> map_option (\<lambda>i. f (xs ! i)) (find_idx P xs n) = map_option f (List.find P (take n xs))"
proof -
  assume n: "n \<le> length xs"
  show ?thesis
  proof (cases "find_idx P xs n")
    case None
    then have "\<forall>i < n. \<not> P (xs ! i)" by (simp add: find_idx_None)
    then have "List.find P (take n xs) = None" using n by (auto simp: find_None_iff in_set_conv_nth)
    then show ?thesis using None by simp
  next
    case (Some i)
    have i: "i < n" "P (xs ! i)" "\<forall>j < i. \<not> P (xs ! j)" using find_idx_SomeD[OF Some] by blast+
    then have "List.find P (take n xs) = Some (xs ! i)" using n by (auto simp: find_Some_iff intro!: exI[of _ i])
    then show ?thesis using Some by simp
  qed
qed

lemma embedded_get_find: "embedded_ok s \<Longrightarrow> nos_embedded_service_get name s = map_option ops (List.find (\<lambda>e. service_name e = name) (embedded_list s))"
  by (simp add: nos_embedded_service_get_def embedded_list_def embedded_ok_def find_idx_take)

lemma find_append: "List.find P (xs @ ys) = (case List.find P xs of None \<Rightarrow> List.find P ys | Some x \<Rightarrow> Some x)"
  by (induction xs) auto

lemma embedded_register_keeps:
  assumes "embedded_ok s" "nos_embedded_service_get name s = Some p"
  shows "nos_embedded_service_get name (snd (nos_embedded_service_register other q s)) = Some p" "embedded_ok (snd (nos_embedded_service_register other q s))"
proof -
  obtain r s' where e: "nos_embedded_service_register other q s = (r, s')" by fastforce
  note l = embedded_register_list[OF assms(1) e]
  note f = embedded_get_find[OF assms(1)] embedded_get_find[OF l(1)]
  show "embedded_ok (snd (nos_embedded_service_register other q s))" using l(1) e by simp
  have "nos_embedded_service_get name s' = Some p"
    using assms(2) l(2,3) f by (cases "r = NOS_OK") (auto simp: find_append split: option.splits)
  then show "nos_embedded_service_get name (snd (nos_embedded_service_register other q s)) = Some p" using e by simp
qed

lemma embedded_register_new:
  assumes "embedded_ok s" "nos_embedded_service_get name s = None" "length (embedded_list s) < 32"
  shows "nos_embedded_service_get name (snd (nos_embedded_service_register name q s)) = Some q"
    "length (embedded_list (snd (nos_embedded_service_register name q s))) = length (embedded_list s) + 1"
    "other \<noteq> name \<Longrightarrow> nos_embedded_service_get other (snd (nos_embedded_service_register name q s)) = nos_embedded_service_get other s"
proof -
  obtain r s' where e: "nos_embedded_service_register name q s = (r, s')" by fastforce
  note l = embedded_register_list[OF assms(1) e]
  note f = embedded_get_find[OF assms(1)] embedded_get_find[OF l(1)]
  have r: "r = NOS_OK" using l(4) assms(3) by simp
  show "nos_embedded_service_get name (snd (nos_embedded_service_register name q s)) = Some q"
    using assms(2) e f l(2)[OF r] by (simp add: find_append)
  show "length (embedded_list (snd (nos_embedded_service_register name q s))) = length (embedded_list s) + 1" using e l(2)[OF r] by simp
  show "nos_embedded_service_get other (snd (nos_embedded_service_register name q s)) = nos_embedded_service_get other s" if "other \<noteq> name"
    using that e f l(2)[OF r] by (simp add: find_append split: option.split)
qed

text \<open>A lookup after a registration: the first table registered under a name stays the one that is
  found, other names are not affected, and the 33rd registration is refused.\<close>

theorem embedded_register_get:
  assumes "embedded_ok s" "nos_embedded_service_register name p s = (r, s')"
  shows "(r = NOS_OK \<longleftrightarrow> length (embedded_list s) < 32) \<and> embedded_ok s'
    \<and> (r = NOS_OK \<longrightarrow> nos_embedded_service_get name s' = Some (case nos_embedded_service_get name s of None \<Rightarrow> p | Some q \<Rightarrow> q))
    \<and> (\<forall>other. other \<noteq> name \<longrightarrow> nos_embedded_service_get other s' = nos_embedded_service_get other s)"
proof -
  note e = embedded_register_list[OF assms]
  note f = embedded_get_find[OF assms(1)] embedded_get_find[OF e(1)]
  have ok: "nos_embedded_service_get name s' = Some (case nos_embedded_service_get name s of None \<Rightarrow> p | Some q \<Rightarrow> q)" if "r = NOS_OK"
    unfolding f e(2)[OF that] by (simp add: find_append split: option.splits)
  have other: "nos_embedded_service_get n s' = nos_embedded_service_get n s" if "n \<noteq> name" for n
    using e(2,3) that by (cases "r = NOS_OK") (auto simp: f find_append split: option.splits)
  show ?thesis using e(1,4) ok other by blast
qed

definition demo_svc :: svc_state where
  "demo_svc = \<lparr>g_embedded_registry = replicate 32 \<lparr>service_name = [], ops = 0\<rparr>, g_embedded_count = 0, timer_initialized = False, log_ops_cache = None\<rparr>"

theorem embedded_register_get_witness:
  "nos_embedded_service_get ''SVC_LOG'' (snd (nos_embedded_service_register ''SVC_LOG'' 7 demo_svc)) = Some 7"
proof -
  have ok: "embedded_ok demo_svc" "length (embedded_list demo_svc) < 32" by (simp_all add: embedded_ok_def embedded_list_def demo_svc_def MAX_EMBEDDED_SERVICES_def)
  have "nos_embedded_service_get ''SVC_LOG'' demo_svc = None" by (simp add: nos_embedded_service_get_def find_idx_def demo_svc_def)
  then show ?thesis using embedded_register_get[OF ok(1) prod.collapse[symmetric], of "''SVC_LOG''" 7] ok(2) by auto
qed

end
