(* ===== verification/Nos_Stats.thy ===== *)
theory Nos_Stats
  imports Nos_Service
begin

text \<open>
  The table of statistics, \<^verbatim>\<open>src/infra/stats/nos_stats.c\<close>: at most 128 counters and gauges under a module
  name and a name, and the registrations of the transports.  A counter is the address of its
  variable, a gauge the address of its function; \<open>mem\<close> and \<open>call\<close> read them.  Of the dumps the
  rows are modelled, not their layout.
\<close>

definition NOS_STATS_MAX_ITEMS :: nat where "NOS_STATS_MAX_ITEMS = 128"
definition NOS_STATS_NAME_MAX :: nat where "NOS_STATS_NAME_MAX = 32"

datatype nos_stats_type_t = NOS_STATS_COUNTER | NOS_STATS_GAUGE

record nos_stats_item_t =
  st_module :: string
  st_name :: string
  st_type :: nos_stats_type_t
  st_counter :: "nat option"
  st_read_fn :: "nat option"
  st_arg :: "nat option"

record stats_state =
  g_stats :: "nos_stats_item_t list"
  g_stats_count :: nat

definition null_item :: nos_stats_item_t where
  "null_item = \<lparr>st_module = [], st_name = [], st_type = NOS_STATS_COUNTER, st_counter = None, st_read_fn = None, st_arg = None\<rparr>"

definition nos_stats_init :: "stats_state \<Rightarrow> stats_state" where
  "nos_stats_init s = s\<lparr>g_stats_count := 0, g_stats := replicate NOS_STATS_MAX_ITEMS null_item\<rparr>"

definition stats_register_item ::
  "string option \<Rightarrow> string option \<Rightarrow> nos_stats_type_t \<Rightarrow> nat option \<Rightarrow> nat option \<Rightarrow> nat option \<Rightarrow> stats_state \<Rightarrow> nos_status_t \<times> stats_state" where
  "stats_register_item module name ty counter read_fn arg s =
    (case (module, name) of
       (Some m, Some n) \<Rightarrow>
         if find_idx (\<lambda>it. st_module it = m \<and> st_name it = n) (g_stats s) (g_stats_count s) \<noteq> None then (NOS_OK, s)
         else if g_stats_count s \<ge> NOS_STATS_MAX_ITEMS then (NOS_ERR_BUSY, s)
         else (NOS_OK, s\<lparr>g_stats := (g_stats s)[g_stats_count s := \<lparr>st_module = c_strncpy (NOS_STATS_NAME_MAX - 1) m,
                   st_name = c_strncpy (NOS_STATS_NAME_MAX - 1) n, st_type = ty, st_counter = counter, st_read_fn = read_fn, st_arg = arg\<rparr>],
                 g_stats_count := g_stats_count s + 1\<rparr>)
     | _ \<Rightarrow> (NOS_ERR, s))"

definition nos_stats_register_counter :: "string option \<Rightarrow> string option \<Rightarrow> nat option \<Rightarrow> stats_state \<Rightarrow> nos_status_t \<times> stats_state" where
  "nos_stats_register_counter module name value s =
    (if value = None then (NOS_ERR, s) else stats_register_item module name NOS_STATS_COUNTER value None None s)"

definition nos_stats_register_gauge :: "string option \<Rightarrow> string option \<Rightarrow> nat option \<Rightarrow> nat option \<Rightarrow> stats_state \<Rightarrow> nos_status_t \<times> stats_state" where
  "nos_stats_register_gauge module name read_fn arg s =
    (if read_fn = None then (NOS_ERR, s) else stats_register_item module name NOS_STATS_GAUGE None read_fn arg s)"

definition stats_read_item :: "(nat \<Rightarrow> u64) \<Rightarrow> (nat \<Rightarrow> nat option \<Rightarrow> u64) \<Rightarrow> nos_stats_item_t \<Rightarrow> u64" where
  "stats_read_item mem call it =
    (case st_type it of
       NOS_STATS_COUNTER \<Rightarrow> mem (the (st_counter it))
     | NOS_STATS_GAUGE \<Rightarrow> (case st_read_fn it of None \<Rightarrow> 0 | Some f \<Rightarrow> call f (st_arg it)))"

definition stats_row :: "(nat \<Rightarrow> u64) \<Rightarrow> (nat \<Rightarrow> nat option \<Rightarrow> u64) \<Rightarrow> nos_stats_item_t \<Rightarrow> string \<times> string \<times> string \<times> u64" where
  "stats_row mem call it = (st_module it, st_name it, (case st_type it of NOS_STATS_COUNTER \<Rightarrow> ''counter'' | NOS_STATS_GAUGE \<Rightarrow> ''gauge''), stats_read_item mem call it)"

definition stats_dump_locked ::
  "(nat \<Rightarrow> u64) \<Rightarrow> (nat \<Rightarrow> nat option \<Rightarrow> u64) \<Rightarrow> string option \<Rightarrow> stats_state \<Rightarrow> (string \<times> string \<times> string \<times> u64) list" where
  "stats_dump_locked mem call module s =
    map (stats_row mem call) (filter (\<lambda>it. case module of None \<Rightarrow> True | Some m \<Rightarrow> st_module it = m) (take (g_stats_count s) (g_stats s)))"

text \<open>The result is the number of rows; the rows are the output.\<close>

definition nos_stats_dump_all ::
  "(nat \<Rightarrow> u64) \<Rightarrow> (nat \<Rightarrow> nat option \<Rightarrow> u64) \<Rightarrow> stats_state \<Rightarrow> u32 \<times> (string \<times> string \<times> string \<times> u64) list" where
  "nos_stats_dump_all mem call s = (let rows = stats_dump_locked mem call None s in (of_nat (length rows), rows))"

definition nos_stats_dump_module ::
  "(nat \<Rightarrow> u64) \<Rightarrow> (nat \<Rightarrow> nat option \<Rightarrow> u64) \<Rightarrow> string option \<Rightarrow> stats_state \<Rightarrow> u32 \<times> (string \<times> string \<times> string \<times> u64) list" where
  "nos_stats_dump_module mem call module s = (let rows = stats_dump_locked mem call module s in (of_nat (length rows), rows))"

text \<open>The counters of the transports; \<open>addr\<close> gives the address of the variable behind a name.\<close>

definition register_counters :: "string \<Rightarrow> (string \<Rightarrow> nat) \<Rightarrow> string list \<Rightarrow> stats_state \<Rightarrow> stats_state" where
  "register_counters module addr names = fold (\<lambda>n s. snd (nos_stats_register_counter (Some module) (Some n) (Some (addr n)) s)) names"

definition nos_shm_register_stats :: "(string \<Rightarrow> nat) \<Rightarrow> stats_state \<Rightarrow> stats_state" where
  "nos_shm_register_stats addr = register_counters ''shm'' addr
    [''tx_packets'', ''rx_packets'', ''tx_bytes'', ''rx_bytes'', ''ring_full'', ''fallback_uds'', ''open_errors'']"

definition nos_ipc_register_stats :: "(string \<Rightarrow> nat) \<Rightarrow> (string \<Rightarrow> nat) \<Rightarrow> stats_state \<Rightarrow> stats_state" where
  "nos_ipc_register_stats addr shm_addr s = nos_shm_register_stats shm_addr
    (register_counters ''ipc'' addr [''tx_packets'', ''rx_packets'', ''tx_errors'', ''rx_errors'', ''dropped_full'', ''buffer_alloc_fails''] s)"

section \<open>Properties\<close>

definition stats_items :: "stats_state \<Rightarrow> nos_stats_item_t list" where
  "stats_items s = take (g_stats_count s) (g_stats s)"

definition stats_key :: "nos_stats_item_t \<Rightarrow> string \<times> string" where
  "stats_key it = (st_module it, st_name it)"

definition stats_ok :: "stats_state \<Rightarrow> bool" where
  "stats_ok s \<longleftrightarrow> length (g_stats s) = NOS_STATS_MAX_ITEMS \<and> g_stats_count s \<le> NOS_STATS_MAX_ITEMS \<and> distinct (map stats_key (stats_items s))"

lemma stats_find: "stats_ok s \<Longrightarrow> find_idx (\<lambda>it. st_module it = m \<and> st_name it = n) (g_stats s) (g_stats_count s) = None \<longleftrightarrow> (m, n) \<notin> stats_key ` set (stats_items s)"
proof -
  assume "stats_ok s"
  then have "set (stats_items s) = (!) (g_stats s) ` {0..<g_stats_count s}" by (simp add: stats_ok_def stats_items_def nth_image)
  then show ?thesis by (auto simp: find_idx_None stats_key_def image_iff)
qed

lemma stats_register_known:
  assumes "stats_ok s" "(m, n) \<in> stats_key ` set (stats_items s)"
  shows "stats_register_item (Some m) (Some n) ty c f a s = (NOS_OK, s)"
  using stats_find[OF assms(1), of m n] assms(2) by (simp add: stats_register_item_def)

lemma stats_register_new:
  assumes "stats_ok s" "(m, n) \<notin> stats_key ` set (stats_items s)" "length (stats_items s) < 128" "length m \<le> 31" "length n \<le> 31"
  shows "\<exists>s'. stats_register_item (Some m) (Some n) ty c f a s = (NOS_OK, s') \<and> stats_ok s'
    \<and> stats_items s' = stats_items s @ [\<lparr>st_module = m, st_name = n, st_type = ty, st_counter = c, st_read_fn = f, st_arg = a\<rparr>]"
proof -
  let ?it = "\<lparr>st_module = m, st_name = n, st_type = ty, st_counter = c, st_read_fn = f, st_arg = a\<rparr>"
  let ?s = "s\<lparr>g_stats := (g_stats s)[g_stats_count s := ?it], g_stats_count := g_stats_count s + 1\<rparr>"
  have l: "g_stats_count s < length (g_stats s)" "g_stats_count s < NOS_STATS_MAX_ITEMS" using assms(1,3) by (auto simp: stats_ok_def stats_items_def NOS_STATS_MAX_ITEMS_def)
  have r: "stats_register_item (Some m) (Some n) ty c f a s = (NOS_OK, ?s)"
    using stats_find[OF assms(1), of m n] assms(2,4,5) l by (simp add: stats_register_item_def NOS_STATS_NAME_MAX_def)
  have it: "stats_items ?s = stats_items s @ [?it]" using l by (simp add: stats_items_def take_Suc_conv_app_nth)
  have "distinct (map stats_key (stats_items ?s))" unfolding it using assms(1,2) by (simp add: stats_ok_def stats_key_def)
  then have "stats_ok ?s" using assms(1) l by (simp add: stats_ok_def)
  then show ?thesis using r it by blast
qed

text \<open>Registering a statistic: names of at most 31 characters are registered once, a second registration of the same
  pair succeeds and changes nothing, and a new pair appears at the end of the dump of its module with the value
  of its variable, while the dump of every other module stays the same; the 129th is refused.\<close>

theorem stats_register_correct:
  assumes "stats_ok s" "length m \<le> 31" "length n \<le> 31" "nos_stats_register_counter (Some m) (Some n) (Some v) s = (r, s')"
  shows "stats_ok s' \<and> (if (m, n) \<in> stats_key ` set (stats_items s) then r = NOS_OK \<and> s' = s
    else if length (stats_items s) = 128 then r = NOS_ERR_BUSY \<and> s' = s
    else r = NOS_OK \<and> (\<forall>q. stats_dump_locked mem call (Some q) s' =
        stats_dump_locked mem call (Some q) s @ (if q = m then [(m, n, ''counter'', mem v)] else [])))"
proof (cases "(m, n) \<in> stats_key ` set (stats_items s)")
  case True
  then show ?thesis using stats_register_known[OF assms(1) True] assms(1,4) by (simp add: nos_stats_register_counter_def)
next
  case False
  have le: "length (stats_items s) \<le> 128" using assms(1) by (simp add: stats_ok_def stats_items_def NOS_STATS_MAX_ITEMS_def)
  show ?thesis
  proof (cases "length (stats_items s) = 128")
    case True
    then have "r = NOS_ERR_BUSY \<and> s' = s"
      using assms(1,4) stats_find[OF assms(1), of m n] False
      by (auto simp: nos_stats_register_counter_def stats_register_item_def stats_ok_def stats_items_def NOS_STATS_MAX_ITEMS_def)
    then show ?thesis using assms(1) True False by simp
  next
    case less: False
    then have "length (stats_items s) < 128" using le by simp
    from stats_register_new[OF assms(1) False this assms(2,3), of NOS_STATS_COUNTER "Some v" None None] assms(4)
    have s': "r = NOS_OK" "stats_ok s'" "stats_items s' = stats_items s @ [\<lparr>st_module = m, st_name = n, st_type = NOS_STATS_COUNTER, st_counter = Some v, st_read_fn = None, st_arg = None\<rparr>]"
      by (auto simp: nos_stats_register_counter_def)
    have "stats_dump_locked mem call (Some q) s' = stats_dump_locked mem call (Some q) s @ (if q = m then [(m, n, ''counter'', mem v)] else [])" for q
      using s'(3) by (auto simp: stats_dump_locked_def stats_items_def stats_row_def stats_read_item_def)
    then show ?thesis using s' False less by simp
  qed
qed

definition demo_stats :: stats_state where
  "demo_stats = nos_stats_init \<lparr>g_stats = [], g_stats_count = 0\<rparr>"

lemma demo_stats_ok: "stats_ok demo_stats" "stats_items demo_stats = []"
  by (simp_all add: demo_stats_def nos_stats_init_def stats_ok_def stats_items_def)

theorem stats_register_correct_witness:
  "fst (nos_stats_register_counter (Some ''shm'') (Some ''rx_bytes'') (Some 8) demo_stats) = NOS_OK"
  using stats_register_correct[OF demo_stats_ok(1) _ _ prod.collapse[symmetric], of "''shm''" "''rx_bytes''" 8] demo_stats_ok(2) by simp

end
