(* ===== verification/Nos_Log.thy ===== *)
theory Nos_Log
  imports Nos_Ring Nos_Service
begin

text \<open>
  The logger, \<^verbatim>\<open>src/infra/log/nos_log.c\<close>: producers claim a slot of a ring of 1024 entries by
  incrementing \<open>write_idx\<close> and take it by a compare-and-swap on its \<open>ready\<close> mark (0 empty, 1 being written, 2
  full); one consumer prints the entries in the order of the ring.  A message is its formatted text, and the time of
  day is an argument.  What the consumer printed is \<open>log_out\<close>.

  The operations are the sequential ones; the last section takes producers and consumer apart into their
  accesses to the shared ring and interleaves them.
\<close>

definition LOG_BUFFER_SIZE :: nat where "LOG_BUFFER_SIZE = 1024"
definition LOG_MSG_MAX :: nat where "LOG_MSG_MAX = 256"
definition MAX_COMP_ID :: u32 where "MAX_COMP_ID = 256"

datatype nos_log_level_t = NOS_LOG_LEVEL_DEBUG | NOS_LOG_LEVEL_INFO | NOS_LOG_LEVEL_WARN | NOS_LOG_LEVEL_ERROR

text \<open>Levels are compared by the numbers of the enumeration.\<close>

definition level_num :: "nos_log_level_t \<Rightarrow> nat" where
  "level_num l = (case l of NOS_LOG_LEVEL_DEBUG \<Rightarrow> 0 | NOS_LOG_LEVEL_INFO \<Rightarrow> 1 | NOS_LOG_LEVEL_WARN \<Rightarrow> 2 | NOS_LOG_LEVEL_ERROR \<Rightarrow> 3)"

lemma level_num_inj: "level_num a = level_num b \<longleftrightarrow> a = b"
  by (cases a; cases b) (simp_all add: level_num_def)

instantiation nos_log_level_t :: linorder
begin
definition less_eq_nos_log_level_t where "a \<le> b \<longleftrightarrow> level_num a \<le> level_num b"
definition less_nos_log_level_t where "a < b \<longleftrightarrow> level_num a < level_num b" for a b :: nos_log_level_t
instance
  by standard (auto simp: less_eq_nos_log_level_t_def less_nos_log_level_t_def level_num_inj)
end

record nos_log_entry_t =
  le_level :: nos_log_level_t
  le_comp_id :: u32
  le_time :: string
  le_message :: string
  le_ready :: nat

record nos_comp_info_t =
  ci_name :: string
  ci_filter_level :: nos_log_level_t
  ci_registered :: bool

record log_state = svc_state +
  log_ring :: "nos_log_entry_t list"
  write_idx :: u32
  read_idx :: u32
  global_filter_level :: nos_log_level_t
  comp_info :: "nos_comp_info_t list"
  dropped_count :: u64
  log_keep_running :: bool
  log_initialized :: bool
  log_out :: "(string \<times> string \<times> string \<times> string) list"

definition level_to_str :: "nos_log_level_t \<Rightarrow> string" where
  "level_to_str l = (case l of NOS_LOG_LEVEL_DEBUG \<Rightarrow> ''DEBUG'' | NOS_LOG_LEVEL_INFO \<Rightarrow> ''INFO '' | NOS_LOG_LEVEL_WARN \<Rightarrow> ''WARN ''
     | NOS_LOG_LEVEL_ERROR \<Rightarrow> ''ERROR'')"

definition slot_of :: "u32 \<Rightarrow> nat" where
  "slot_of i = unat i mod LOG_BUFFER_SIZE"

definition registered_comp :: "u32 \<Rightarrow> 'z log_state_scheme \<Rightarrow> bool" where
  "registered_comp c s \<longleftrightarrow> c > 0 \<and> c < MAX_COMP_ID \<and> ci_registered (comp_info s ! unat c)"

section \<open>The consumer\<close>

definition log_line :: "'z log_state_scheme \<Rightarrow> nos_log_entry_t \<Rightarrow> string \<times> string \<times> string \<times> string" where
  "log_line s e = (le_time e, level_to_str (le_level e),
     (if registered_comp (le_comp_id e) s then ci_name (comp_info s ! unat (le_comp_id e)) else ''System''), le_message e)"

definition head_ready :: "'z log_state_scheme \<Rightarrow> bool" where
  "head_ready s \<longleftrightarrow> le_ready (log_ring s ! slot_of (read_idx s)) = 2"

text \<open>One round of the loop; without a full entry the thread sleeps for a millisecond.\<close>

definition consumer_iter :: "'z log_state_scheme \<Rightarrow> 'z log_state_scheme" where
  "consumer_iter s =
    (let i = slot_of (read_idx s); e = log_ring s ! i in
     if head_ready s
     then s\<lparr>log_out := log_out s @ [log_line s e], log_ring := (log_ring s)[i := e\<lparr>le_ready := 0\<rparr>], read_idx := read_idx s + 1\<rparr>
     else s)"

text \<open>The loop with at most \<open>fuel\<close> rounds; \<^verbatim>\<open>None\<close> when it has not ended.\<close>

fun nos_log_consumer_thread :: "nat \<Rightarrow> 'z log_state_scheme \<Rightarrow> 'z log_state_scheme option" where
  "nos_log_consumer_thread fuel s =
    (if log_keep_running s \<or> head_ready s
     then (case fuel of 0 \<Rightarrow> None | Suc k \<Rightarrow> nos_log_consumer_thread k (consumer_iter s))
     else Some s)"

declare nos_log_consumer_thread.simps [simp del]

section \<open>The producers\<close>

definition filter_level_of :: "u32 \<Rightarrow> 'z log_state_scheme \<Rightarrow> nos_log_level_t" where
  "filter_level_of c s = (if registered_comp c s then ci_filter_level (comp_info s ! unat c) else global_filter_level s)"

definition log_write :: "nos_log_entry_t \<Rightarrow> 'z log_state_scheme \<Rightarrow> 'z log_state_scheme" where
  "log_write e s =
    (let i = slot_of (write_idx s); s1 = s\<lparr>write_idx := write_idx s + 1\<rparr> in
     if le_ready (log_ring s ! i) \<noteq> 0 then s1\<lparr>dropped_count := dropped_count s + 1\<rparr>
     else s1\<lparr>log_ring := (log_ring s)[i := e\<lparr>le_ready := 2\<rparr>]\<rparr>)"

definition new_entry :: "nos_log_level_t \<Rightarrow> u32 \<Rightarrow> string \<Rightarrow> string \<Rightarrow> nos_log_entry_t" where
  "new_entry level c time text = \<lparr>le_level = level, le_comp_id = c, le_time = take 15 time, le_message = take (LOG_MSG_MAX - 1) text, le_ready = 2\<rparr>"

definition nos_log_impl :: "nos_log_level_t \<Rightarrow> u32 \<Rightarrow> string \<Rightarrow> string \<Rightarrow> 'z log_state_scheme \<Rightarrow> 'z log_state_scheme" where
  "nos_log_impl level c time text s = (if level < filter_level_of c s then s else log_write (new_entry level c time text) s)"

section \<open>Configuration\<close>

definition nos_log_deinit :: "nat \<Rightarrow> 'z log_state_scheme \<Rightarrow> 'z log_state_scheme option" where
  "nos_log_deinit fuel s =
    (if \<not> log_initialized s then Some s
     else map_option (\<lambda>s'. s'\<lparr>log_initialized := False\<rparr>) (nos_log_consumer_thread fuel (s\<lparr>log_keep_running := False\<rparr>)))"

text \<open>The text of a decimal number is an argument.\<close>

definition nos_set_level_impl :: "string \<Rightarrow> nos_log_level_t \<Rightarrow> 'z log_state_scheme \<Rightarrow> 'z log_state_scheme" where
  "nos_set_level_impl time level s =
    nos_log_impl NOS_LOG_LEVEL_INFO 0 time (''Global filter level set to '' @ level_to_str level) (s\<lparr>global_filter_level := level\<rparr>)"

definition nos_set_comp_level_impl :: "(u32 \<Rightarrow> string) \<Rightarrow> string \<Rightarrow> u32 \<Rightarrow> nos_log_level_t \<Rightarrow> 'z log_state_scheme \<Rightarrow> 'z log_state_scheme" where
  "nos_set_comp_level_impl dec time c level s =
    (if c = 0 \<or> c \<ge> MAX_COMP_ID then s
     else nos_log_impl NOS_LOG_LEVEL_INFO 0 time (''Component ID ['' @ dec c @ ''] filter level set to '' @ level_to_str level)
       (s\<lparr>comp_info := (comp_info s)[unat c := (comp_info s ! unat c)\<lparr>ci_filter_level := level\<rparr>]\<rparr>))"

definition nos_log_get_dropped_count :: "'z log_state_scheme \<Rightarrow> u64" where
  "nos_log_get_dropped_count s = dropped_count s"

definition nos_log_set_comp_info :: "u32 \<Rightarrow> string option \<Rightarrow> 'z log_state_scheme \<Rightarrow> 'z log_state_scheme" where
  "nos_log_set_comp_info c name s =
    (case name of
       None \<Rightarrow> s
     | Some n \<Rightarrow> if c = 0 \<or> c \<ge> MAX_COMP_ID then s
         else s\<lparr>comp_info := (comp_info s)[unat c := \<lparr>ci_name = c_strncpy 31 n, ci_filter_level = global_filter_level s, ci_registered = True\<rparr>]\<rparr>)"

definition nos_log_init :: "nat \<Rightarrow> 'z log_state_scheme \<Rightarrow> 'z log_state_scheme" where
  "nos_log_init g_log_ops s =
    (if log_initialized s then s
     else (snd (nos_embedded_service_register ''SVC_LOG'' g_log_ops
       (s\<lparr>log_ring := map (\<lambda>e. e\<lparr>le_ready := 0\<rparr>) (log_ring s), log_keep_running := True\<rparr>)))\<lparr>log_initialized := True\<rparr>)"

section \<open>The ring as a FIFO\<close>

definition log_pending :: "'z log_state_scheme \<Rightarrow> nat" where
  "log_pending s = unat (write_idx s - read_idx s)"

text \<open>Reader and writer are in step: the full slots are those from \<open>read_idx\<close> up to \<open>write_idx\<close>.\<close>

definition ring_at :: "'z log_state_scheme \<Rightarrow> nat \<Rightarrow> nos_log_entry_t" where
  "ring_at s k = log_ring s ! ((unat (read_idx s) + k) mod LOG_BUFFER_SIZE)"

definition log_sync :: "'z log_state_scheme \<Rightarrow> bool" where
  "log_sync s \<longleftrightarrow> length (log_ring s) = LOG_BUFFER_SIZE \<and> log_pending s \<le> LOG_BUFFER_SIZE
     \<and> (\<forall>k < LOG_BUFFER_SIZE. le_ready (ring_at s k) = (if k < log_pending s then 2 else 0))"

definition log_items :: "'z log_state_scheme \<Rightarrow> nos_log_entry_t list" where
  "log_items s = map (ring_at s) [0..<log_pending s]"

definition log_put :: "nos_log_entry_t \<Rightarrow> 'z log_state_scheme \<Rightarrow> 'z log_state_scheme option" where
  "log_put e s = (if le_ready (log_ring s ! slot_of (write_idx s)) \<noteq> 0 then None else Some (log_write e s))"

definition log_take :: "'z log_state_scheme \<Rightarrow> (nos_log_entry_t \<times> 'z log_state_scheme) option" where
  "log_take s = (if head_ready s then Some (log_ring s ! slot_of (read_idx s), consumer_iter s) else None)"

lemma unat_add_mod: "unat (x + of_nat k :: u32) mod LOG_BUFFER_SIZE = (unat x + k) mod LOG_BUFFER_SIZE"
proof -
  have "unat (x + of_nat k) = (unat x + k) mod 2 ^ 32" by (simp add: unat_word_ariths unat_of_nat mod_simps)
  moreover have "LOG_BUFFER_SIZE dvd 2 ^ 32" by (simp add: LOG_BUFFER_SIZE_def)
  ultimately show ?thesis by (simp add: mod_mod_cancel)
qed

lemma ring_pos_neq: "k < j \<Longrightarrow> j < n \<Longrightarrow> (r + k) mod n \<noteq> (r + j) mod n" for n :: nat
  using mod_eq_dvd_iff_nat[of "r + k" "r + j" n] by (auto dest!: dvd_imp_le)

lemma ring_pos_inj: "k < n \<Longrightarrow> j < n \<Longrightarrow> (r + k) mod n = (r + j) mod n \<longleftrightarrow> k = j" for n :: nat
  using ring_pos_neq[of k j n r] ring_pos_neq[of j k n r] by (metis linorder_neqE_nat)

lemma ring_at_write:
  assumes "length (log_ring s) = LOG_BUFFER_SIZE" "slot_of (write_idx s) = (unat (read_idx s) + n) mod LOG_BUFFER_SIZE" "n < LOG_BUFFER_SIZE" "k < LOG_BUFFER_SIZE"
    and "le_ready (ring_at s n) = 0"
  shows "ring_at (log_write e s) k = (if k = n then e\<lparr>le_ready := 2\<rparr> else ring_at s k)"
proof -
  have "(unat (read_idx s) + n) mod LOG_BUFFER_SIZE < length (log_ring s)" using assms(1) by (simp add: LOG_BUFFER_SIZE_def)
  then show ?thesis using assms ring_pos_inj[OF assms(4,3), of "unat (read_idx s)"] by (auto simp: ring_at_def log_write_def Let_def nth_list_update)
qed

lemma write_slot: "write_idx s = read_idx s + of_nat n \<Longrightarrow> slot_of (write_idx s) = (unat (read_idx s) + n) mod LOG_BUFFER_SIZE"
  by (simp add: slot_of_def unat_add_mod)

lemma pending_diff: "write_idx s = read_idx s + of_nat (log_pending s)"
  by (simp add: log_pending_def)

lemma log_put_spec:
  assumes "log_sync s"
  shows "log_put e s = None \<longleftrightarrow> log_pending s = LOG_BUFFER_SIZE"
    and "log_put e s = Some s' \<Longrightarrow> log_sync s' \<and> log_items s' = log_items s @ [e\<lparr>le_ready := 2\<rparr>] \<and> s' = log_write e s"
proof -
  let ?n = "log_pending s"
  note w = write_slot[OF pending_diff[of s]]
  have l: "length (log_ring s) = LOG_BUFFER_SIZE" "?n \<le> LOG_BUFFER_SIZE" and rd: "\<And>k. k < LOG_BUFFER_SIZE \<Longrightarrow> le_ready (ring_at s k) = (if k < ?n then 2 else 0)"
    using assms by (auto simp: log_sync_def)
  have at: "log_ring s ! slot_of (write_idx s) = ring_at s ?n" using w by (simp add: ring_at_def)
  have full: "le_ready (ring_at s ?n) = 2" if "?n = LOG_BUFFER_SIZE"
  proof -
    have "ring_at s ?n = ring_at s 0" using that by (simp add: ring_at_def)
    then show ?thesis using rd[of 0] that by (simp add: LOG_BUFFER_SIZE_def)
  qed
  show none: "log_put e s = None \<longleftrightarrow> log_pending s = LOG_BUFFER_SIZE" using rd[of ?n] full l(2) at by (cases "?n = LOG_BUFFER_SIZE") (auto simp: log_put_def)
  assume p: "log_put e s = Some s'"
  then have n: "?n < LOG_BUFFER_SIZE" using none l(2) by auto
  then have z: "le_ready (ring_at s ?n) = 0" using rd[of ?n] by simp
  have s': "s' = log_write e s" using p by (auto simp: log_put_def split: if_splits)
  have at': "ring_at s' k = (if k = ?n then e\<lparr>le_ready := 2\<rparr> else ring_at s k)" if "k < LOG_BUFFER_SIZE" for k
    unfolding s' by (rule ring_at_write[OF l(1) w n that z])
  have idx: "read_idx s' = read_idx s" "write_idx s' = write_idx s + 1" "length (log_ring s') = LOG_BUFFER_SIZE" using z at l(1) by (simp_all add: s' log_write_def Let_def)
  have "write_idx s + 1 - read_idx s = (write_idx s - read_idx s) + 1" by (simp add: algebra_simps)
  moreover have "unat (write_idx s - read_idx s) < unat (1024 :: u32)" using n by (simp add: log_pending_def LOG_BUFFER_SIZE_def)
  ultimately have pn: "log_pending s' = ?n + 1" using unat_inc[of "write_idx s - read_idx s" 1024] unfolding log_pending_def idx by metis
  have "le_ready (ring_at s' k) = (if k < log_pending s' then 2 else 0)" if "k < LOG_BUFFER_SIZE" for k using at'[OF that] rd[OF that] pn by auto
  then have "log_sync s'" using idx(3) pn n by (simp add: log_sync_def)
  moreover have "log_items s' = log_items s @ [e\<lparr>le_ready := 2\<rparr>]" using at' n by (simp add: log_items_def pn)
  ultimately show "log_sync s' \<and> log_items s' = log_items s @ [e\<lparr>le_ready := 2\<rparr>] \<and> s' = log_write e s" using s' by blast
qed

lemma log_take_spec:
  assumes "log_sync s"
  shows "log_take s = None \<longleftrightarrow> log_pending s = 0"
    and "log_take s = Some (e, s') \<Longrightarrow> log_sync s' \<and> log_items s = e # log_items s' \<and> s' = consumer_iter s"
proof -
  let ?n = "log_pending s"
  have l: "length (log_ring s) = LOG_BUFFER_SIZE" "?n \<le> LOG_BUFFER_SIZE" and rd: "\<And>k. k < LOG_BUFFER_SIZE \<Longrightarrow> le_ready (ring_at s k) = (if k < ?n then 2 else 0)"
    using assms by (auto simp: log_sync_def)
  have pos: "0 < LOG_BUFFER_SIZE" by (simp add: LOG_BUFFER_SIZE_def)
  have at: "log_ring s ! slot_of (read_idx s) = ring_at s 0" by (simp add: ring_at_def slot_of_def)
  have hr: "head_ready s \<longleftrightarrow> ?n > 0" using rd[OF pos] at by (simp add: head_ready_def)
  then show "log_take s = None \<longleftrightarrow> log_pending s = 0" by (simp add: log_take_def)
  assume t: "log_take s = Some (e, s')"
  then have n: "?n > 0" and e: "e = ring_at s 0" and s': "s' = consumer_iter s" using hr at by (auto simp: log_take_def split: if_splits)
  have idx: "read_idx s' = read_idx s + 1" "write_idx s' = write_idx s" "log_ring s' = (log_ring s)[slot_of (read_idx s) := e\<lparr>le_ready := 0\<rparr>]"
    using hr n at e by (simp_all add: s' consumer_iter_def Let_def)
  have pn: "log_pending s' = ?n - 1" using n unat_dec[of "write_idx s - read_idx s"] by (simp add: log_pending_def idx diff_diff_eq2 diff_diff_add)
  have slot: "(unat (read_idx s') + k) mod LOG_BUFFER_SIZE = (unat (read_idx s) + (k + 1)) mod LOG_BUFFER_SIZE" for k
    using unat_add_mod[of "read_idx s" 1] by (simp add: idx) (metis (no_types) add_Suc_right add_Suc mod_add_left_eq)
  have at': "ring_at s' k = (if k = LOG_BUFFER_SIZE - 1 then e\<lparr>le_ready := 0\<rparr> else ring_at s (k + 1))" if "k < LOG_BUFFER_SIZE" for k
  proof (cases "k = LOG_BUFFER_SIZE - 1")
    case True
    then have "(unat (read_idx s) + (k + 1)) mod LOG_BUFFER_SIZE = slot_of (read_idx s)" using pos by (simp add: slot_of_def)
    moreover have "slot_of (read_idx s) < length (log_ring s)" using l(1) pos by (simp add: slot_of_def)
    ultimately show ?thesis using True unfolding ring_at_def slot idx(3) by simp
  next
    case False
    then have "k + 1 < LOG_BUFFER_SIZE" using that by simp
    then have "(unat (read_idx s) + (k + 1)) mod LOG_BUFFER_SIZE \<noteq> slot_of (read_idx s)" using ring_pos_inj[of "k + 1" LOG_BUFFER_SIZE 0 "unat (read_idx s)"] pos by (simp add: slot_of_def)
    then show ?thesis using False unfolding ring_at_def slot idx(3) by simp
  qed
  have "le_ready (ring_at s' k) = (if k < log_pending s' then 2 else 0)" if "k < LOG_BUFFER_SIZE" for k
    using at'[OF that] rd[of "k + 1"] pn n l(2) that by (cases "k = LOG_BUFFER_SIZE - 1") auto
  then have "log_sync s'" using l pn idx(3) by (simp add: log_sync_def)
  moreover have "log_items s = e # log_items s'"
  proof -
    have u: "[0..<?n] = 0 # map Suc [0..<?n - 1]" using n by (simp add: map_Suc_upt upt_conv_Cons)
    have "ring_at s' k = ring_at s (Suc k)" if "k < ?n - 1" for k using at'[of k] that l(2) by simp
    then show ?thesis by (simp add: log_items_def pn u e)
  qed
  ultimately show "log_sync s' \<and> log_items s = e # log_items s' \<and> s' = consumer_iter s" using s' by blast
qed

text \<open>
  A ring in which the writer is \<open>d\<close> slots ahead of the reader with nothing in between, followed by \<open>n\<close> full slots;
  with \<open>d = 0\<close> reader and writer are in step.
\<close>

definition log_gap :: "nat \<Rightarrow> nat \<Rightarrow> 'z log_state_scheme \<Rightarrow> bool" where
  "log_gap d n s \<longleftrightarrow> length (log_ring s) = LOG_BUFFER_SIZE \<and> d + n \<le> LOG_BUFFER_SIZE \<and> write_idx s = read_idx s + of_nat (d + n)
     \<and> (\<forall>k < LOG_BUFFER_SIZE. le_ready (ring_at s k) = (if d \<le> k \<and> k < d + n then 2 else 0))"

lemma log_gap_write:
  assumes "log_gap d n s" "d + n < LOG_BUFFER_SIZE"
  shows "log_gap d (Suc n) (log_write e s) \<and> dropped_count (log_write e s) = dropped_count s"
proof -
  note g = assms(1)[unfolded log_gap_def]
  have w: "slot_of (write_idx s) = (unat (read_idx s) + (d + n)) mod LOG_BUFFER_SIZE" using write_slot g by blast
  have z: "le_ready (ring_at s (d + n)) = 0" using g assms(2) by simp
  have "le_ready (log_ring s ! slot_of (write_idx s)) = 0" using z w by (simp add: ring_at_def)
  then have idx: "read_idx (log_write e s) = read_idx s" "write_idx (log_write e s) = read_idx s + of_nat (d + Suc n)" "length (log_ring (log_write e s)) = LOG_BUFFER_SIZE"
      "dropped_count (log_write e s) = dropped_count s"
    using g by (simp_all add: log_write_def Let_def)
  have "le_ready (ring_at (log_write e s) k) = (if d \<le> k \<and> k < d + Suc n then 2 else 0)" if "k < LOG_BUFFER_SIZE" for k
    using ring_at_write[OF _ w assms(2) that z, of e] g that by auto
  then show ?thesis using idx assms(2) by (simp add: log_gap_def)
qed

lemma log_gap_blocked: "log_gap d n s \<Longrightarrow> 0 < d \<Longrightarrow> consumer_iter s = s"
  by (auto simp: log_gap_def consumer_iter_def head_ready_def ring_at_def slot_of_def Let_def LOG_BUFFER_SIZE_def dest!: spec[of _ 0])

section \<open>Runs of the logger\<close>

datatype log_event = LogCall nos_log_level_t u32 string string | ConsumerRound

primrec log_event_step :: "log_event \<Rightarrow> 'z log_state_scheme \<Rightarrow> 'z log_state_scheme" where
  "log_event_step (LogCall level c time text) s = nos_log_impl level c time text s"
| "log_event_step ConsumerRound s = consumer_iter s"

definition log_run :: "log_event list \<Rightarrow> 'z log_state_scheme \<Rightarrow> 'z log_state_scheme" where
  "log_run evs s = fold log_event_step evs s"

text \<open>The entries of the calls that pass the filter.\<close>

fun log_passed :: "'z log_state_scheme \<Rightarrow> log_event list \<Rightarrow> nos_log_entry_t list" where
  "log_passed s [] = []"
| "log_passed s (LogCall level c time text # evs) = (if level < filter_level_of c s then [] else [new_entry level c time text]) @ log_passed s evs"
| "log_passed s (ConsumerRound # evs) = log_passed s evs"

text \<open>Producers and consumer leave the configuration alone.\<close>

lemma log_write_frame [simp]:
  "comp_info (log_write e s) = comp_info s" "global_filter_level (log_write e s) = global_filter_level s" "log_out (log_write e s) = log_out s"
  "log_keep_running (log_write e s) = log_keep_running s" "length (log_ring (log_write e s)) = length (log_ring s)"
  "log_initialized (log_write e s) = log_initialized s" "write_idx (log_write e s) = write_idx s + 1" "read_idx (log_write e s) = read_idx s"
  by (simp_all add: log_write_def Let_def)

lemma consumer_iter_frame [simp]:
  "comp_info (consumer_iter s) = comp_info s" "global_filter_level (consumer_iter s) = global_filter_level s" "write_idx (consumer_iter s) = write_idx s"
  "log_keep_running (consumer_iter s) = log_keep_running s" "dropped_count (consumer_iter s) = dropped_count s" "length (log_ring (consumer_iter s)) = length (log_ring s)"
  "log_initialized (consumer_iter s) = log_initialized s"
  by (simp_all add: consumer_iter_def Let_def)

lemma log_line_cong: "comp_info s' = comp_info s \<Longrightarrow> log_line s' e = log_line s e"
  by (simp add: log_line_def registered_comp_def)

lemma log_line_ready [simp]: "log_line s (e\<lparr>le_ready := r\<rparr>) = log_line s e"
  by (simp add: log_line_def)

lemma log_passed_cong: "comp_info s' = comp_info s \<Longrightarrow> global_filter_level s' = global_filter_level s \<Longrightarrow> log_passed s' evs = log_passed s evs"
  by (induction s evs rule: log_passed.induct) (auto simp: filter_level_of_def registered_comp_def)

lemma log_event_frame [simp]:
  "comp_info (log_event_step ev s) = comp_info s" "global_filter_level (log_event_step ev s) = global_filter_level s"
  by (cases ev; simp add: nos_log_impl_def)+

lemmas log_event_cong = log_line_cong[OF log_event_frame(1)] log_passed_cong[OF log_event_frame]

definition log_drop1 :: "log_event \<Rightarrow> 'z log_state_scheme \<Rightarrow> nat" where
  "log_drop1 ev s = (case ev of LogCall level c time msg \<Rightarrow> of_bool (\<not> level < filter_level_of c s \<and> le_ready (log_ring s ! slot_of (write_idx s)) \<noteq> 0)
     | ConsumerRound \<Rightarrow> 0)"

primrec log_drops :: "log_event list \<Rightarrow> 'z log_state_scheme \<Rightarrow> nat" where
  "log_drops [] s = 0"
| "log_drops (ev # evs) s = log_drop1 ev s + log_drops evs (log_event_step ev s)"

lemma log_run_simps [simp]: "log_run [] s = s" "log_run (ev # evs) s = log_run evs (log_event_step ev s)"
  by (simp_all add: log_run_def)

lemma log_drop1_count: "dropped_count (log_event_step ev s) = dropped_count s + of_nat (log_drop1 ev s)"
  by (cases ev) (auto simp: log_drop1_def nos_log_impl_def log_write_def Let_def)

lemma log_drops_count: "dropped_count (log_run evs s) = dropped_count s + of_nat (log_drops evs s)"
  by (induction evs arbitrary: s) (simp_all add: log_drop1_count algebra_simps)

lemma log_drops_le: "log_drops evs s \<le> length evs"
proof (induction evs arbitrary: s)
  case (Cons ev evs)
  have "log_drop1 ev s \<le> 1" by (simp add: log_drop1_def split: log_event.split)
  then show ?case using Cons[of "log_event_step ev s"] by simp
qed simp

lemma log_no_drops:
  assumes "dropped_count (log_run evs s) = dropped_count s" "length evs < 2 ^ 64"
  shows "log_drops evs s = 0"
proof -
  have "(of_nat (log_drops evs s) :: u64) = 0" using assms(1) log_drops_count[of evs s] by simp
  then have "2 ^ 64 dvd log_drops evs s" by (simp add: of_nat_eq_0_iff word_of_nat_eq_0_iff)
  moreover have "log_drops evs s < 2 ^ 64" using log_drops_le[of evs s] assms(2) by (rule le_less_trans)
  ultimately show ?thesis using nat_dvd_not_less by (metis gr0I)
qed

text \<open>One event without a drop: what was printed and what is pending grow by what passed the filter.\<close>

definition log_history :: "'z log_state_scheme \<Rightarrow> (string \<times> string \<times> string \<times> string) list" where
  "log_history s = log_out s @ map (log_line s) (log_items s)"

lemma log_event_history:
  assumes "log_sync s" "log_drop1 ev s = 0"
  shows "log_sync (log_event_step ev s) \<and> log_history (log_event_step ev s) = log_history s @ map (log_line s) (log_passed s [ev])"
proof (cases ev)
  case (LogCall level c time msg)
  let ?e = "new_entry level c time msg"
  show ?thesis
  proof (cases "level < filter_level_of c s")
    case False
    then have p: "log_put ?e s = Some (log_write ?e s)" using assms(2) LogCall by (simp add: log_put_def log_drop1_def)
    have "log_line (log_write ?e s) = log_line s" using log_line_cong log_write_frame(1) by blast
    then show ?thesis using log_put_spec(2)[OF assms(1) p] LogCall False by (simp add: nos_log_impl_def log_history_def)
  qed (use LogCall assms(1) in \<open>simp add: nos_log_impl_def\<close>)
next
  case ConsumerRound
  show ?thesis
  proof (cases "log_take s")
    case None
    then have "consumer_iter s = s" by (simp add: log_take_def consumer_iter_def split: if_splits)
    then show ?thesis using assms(1) ConsumerRound by simp
  next
    case (Some p)
    then obtain e s' where t: "log_take s = Some (e, s')" by (cases p) auto
    then have out: "log_out (consumer_iter s) = log_out s @ [log_line s e]" by (auto simp: log_take_def consumer_iter_def Let_def split: if_splits)
    have "log_line (consumer_iter s) = log_line s" using log_line_cong consumer_iter_frame(1) by blast
    then show ?thesis using log_take_spec(2)[OF assms(1) t] ConsumerRound out by (auto simp: log_history_def)
  qed
qed

lemma log_run_history:
  "log_sync s \<Longrightarrow> log_drops evs s = 0 \<Longrightarrow>
    log_sync (log_run evs s) \<and> log_history (log_run evs s) = log_history s @ map (log_line s) (log_passed s evs)"
proof (induction evs arbitrary: s)
  case (Cons ev evs)
  have e: "log_sync (log_event_step ev s)" "log_history (log_event_step ev s) = log_history s @ map (log_line s) (log_passed s [ev])"
    using log_event_history[of s ev] Cons.prems by simp_all
  have l: "log_line (log_event_step ev s) = log_line s" "log_passed (log_event_step ev s) evs = log_passed s evs" using log_event_cong by (auto intro!: ext)
  have a: "log_passed s (ev # evs) = log_passed s [ev] @ log_passed s evs" by (cases ev) simp_all
  show ?case using Cons.IH[OF e(1)] Cons.prems e(2) unfolding log_run_simps l a by simp
qed simp

section \<open>Shutting down\<close>

definition full_slots :: "'z log_state_scheme \<Rightarrow> nat set" where
  "full_slots s = {i. i < length (log_ring s) \<and> le_ready (log_ring s ! i) = 2}"

lemma consumer_iter_full:
  assumes "head_ready s" "length (log_ring s) = LOG_BUFFER_SIZE"
  shows "card (full_slots (consumer_iter s)) < card (full_slots s)"
proof -
  have i: "slot_of (read_idx s) < length (log_ring s)" using assms(2) by (simp add: slot_of_def LOG_BUFFER_SIZE_def)
  then have "full_slots (consumer_iter s) = full_slots s - {slot_of (read_idx s)}"
    using assms by (auto simp: full_slots_def consumer_iter_def Let_def nth_list_update split: if_splits)
  moreover have "slot_of (read_idx s) \<in> full_slots s" using assms(1) i by (simp add: full_slots_def head_ready_def)
  moreover have "finite (full_slots s)" by (simp add: full_slots_def)
  ultimately show ?thesis by (metis card_Diff1_less)
qed

lemma full_slots_le: "card (full_slots s) \<le> length (log_ring s)"
  using card_mono[of "{..<length (log_ring s)}" "full_slots s"] by (simp add: full_slots_def subset_iff)

lemma consumer_thread_ends:
  "\<not> log_keep_running s \<Longrightarrow> length (log_ring s) = LOG_BUFFER_SIZE \<Longrightarrow> card (full_slots s) \<le> fuel \<Longrightarrow>
    \<exists>n. n \<le> fuel \<and> nos_log_consumer_thread fuel s = Some ((consumer_iter ^^ n) s) \<and> \<not> head_ready ((consumer_iter ^^ n) s)"
proof (induction fuel arbitrary: s)
  case 0
  then have "\<not> head_ready s" using consumer_iter_full[of s] by auto
  then show ?case using 0 by (simp add: nos_log_consumer_thread.simps)
next
  case (Suc k)
  show ?case
  proof (cases "head_ready s")
    case True
    then have "card (full_slots (consumer_iter s)) \<le> k" using consumer_iter_full[of s] Suc.prems by simp
    then obtain n where n: "n \<le> k" "nos_log_consumer_thread k (consumer_iter s) = Some ((consumer_iter ^^ n) (consumer_iter s))"
        "\<not> head_ready ((consumer_iter ^^ n) (consumer_iter s))"
      using Suc.IH[of "consumer_iter s"] Suc.prems by auto
    then have "Suc n \<le> Suc k \<and> nos_log_consumer_thread (Suc k) s = Some ((consumer_iter ^^ Suc n) s) \<and> \<not> head_ready ((consumer_iter ^^ Suc n) s)"
      using True by (simp add: nos_log_consumer_thread.simps[of "Suc k"] funpow_swap1)
    then show ?thesis by blast
  next
    case False
    then show ?thesis using Suc.prems by (intro exI[of _ 0]) (simp add: nos_log_consumer_thread.simps)
  qed
qed

lemma funpow_rounds: "(consumer_iter ^^ n) s = log_run (replicate n ConsumerRound) s"
  by (induction n arbitrary: s) (simp_all add: funpow_Suc_right del: funpow.simps(2))

lemma rounds_silent [simp]: "log_drops (replicate n ConsumerRound) s = 0" "log_passed s (replicate n ConsumerRound) = []"
  by (induction n arbitrary: s) (simp_all add: log_drop1_def)

lemma rounds_history: "log_sync s \<Longrightarrow> log_sync ((consumer_iter ^^ n) s) \<and> log_history ((consumer_iter ^^ n) s) = log_history s"
  using log_run_history[of s "replicate n ConsumerRound"] by (simp add: funpow_rounds)

lemma not_ready_drained: "log_sync s \<Longrightarrow> \<not> head_ready s \<Longrightarrow> log_items s = []"
  using log_take_spec(1)[of s] by (simp add: log_take_def log_items_def)

lemma rounds_frame [simp]:
  "comp_info ((consumer_iter ^^ n) s) = comp_info s" "log_keep_running ((consumer_iter ^^ n) s) = log_keep_running s" "write_idx ((consumer_iter ^^ n) s) = write_idx s"
  "dropped_count ((consumer_iter ^^ n) s) = dropped_count s" "length (log_ring ((consumer_iter ^^ n) s)) = length (log_ring s)"
  "log_initialized ((consumer_iter ^^ n) s) = log_initialized s"
  by (induction n) simp_all

lemma log_deinit_spec:
  assumes "length (log_ring s) = LOG_BUFFER_SIZE" "log_initialized s"
  shows "\<exists>n. nos_log_deinit LOG_BUFFER_SIZE s = Some (((consumer_iter ^^ n) (s\<lparr>log_keep_running := False\<rparr>))\<lparr>log_initialized := False\<rparr>)
    \<and> \<not> head_ready ((consumer_iter ^^ n) (s\<lparr>log_keep_running := False\<rparr>))"
proof -
  let ?s = "s\<lparr>log_keep_running := False\<rparr>"
  have "card (full_slots ?s) \<le> LOG_BUFFER_SIZE" using full_slots_le[of ?s] assms(1) by simp
  then show ?thesis using consumer_thread_ends[of ?s LOG_BUFFER_SIZE] assms by (auto simp: nos_log_deinit_def)
qed

lemma log_sync_cong: "log_ring s' = log_ring s \<Longrightarrow> write_idx s' = write_idx s \<Longrightarrow> read_idx s' = read_idx s \<Longrightarrow> log_sync s' = log_sync s \<and> log_items s' = log_items s"
  by (simp add: log_sync_def log_items_def log_pending_def ring_at_def)

lemma log_history_cong:
  assumes "log_ring s' = log_ring s" "write_idx s' = write_idx s" "read_idx s' = read_idx s" "comp_info s' = comp_info s" "log_out s' = log_out s"
  shows "log_history s' = log_history s"
  using log_sync_cong[OF assms(1-3)] log_line_cong[OF assms(4)] assms(5) by (simp add: log_history_def)

section \<open>After a drop\<close>

lemma consumer_iter_write_idx:
  "consumer_iter (s\<lparr>write_idx := w, dropped_count := d\<rparr>) = (consumer_iter s)\<lparr>write_idx := w, dropped_count := d\<rparr>"
  by (simp add: consumer_iter_def head_ready_def log_line_def registered_comp_def Let_def)

lemma rounds_write_idx:
  "(consumer_iter ^^ n) (s\<lparr>write_idx := w, dropped_count := d\<rparr>) = ((consumer_iter ^^ n) s)\<lparr>write_idx := w, dropped_count := d\<rparr>"
  by (induction n) (simp_all add: consumer_iter_write_idx)

lemma rounds_pending: "log_sync s \<Longrightarrow> log_pending ((consumer_iter ^^ n) s) = log_pending s - n"
proof (induction n)
  case (Suc n)
  let ?t = "(consumer_iter ^^ n) s"
  have t: "log_sync ?t" using rounds_history Suc.prems by blast
  show ?case
  proof (cases "log_take ?t")
    case None
    then have "consumer_iter ?t = ?t" by (simp add: log_take_def consumer_iter_def split: if_splits)
    then show ?thesis using Suc log_take_spec(1)[OF t] None by simp
  next
    case (Some p)
    then obtain e u where u: "log_take ?t = Some (e, u)" by (cases p) auto
    then have "length (log_items ?t) = Suc (length (log_items (consumer_iter ?t)))" using log_take_spec(2)[OF t u] by auto
    then show ?thesis using Suc by (simp add: log_items_def)
  qed
qed simp

lemma drop_leaves_gap:
  assumes "log_sync s" "log_pending s = LOG_BUFFER_SIZE" "LOG_BUFFER_SIZE \<le> n"
  shows "log_gap 1 0 ((consumer_iter ^^ n) (log_write e s)) \<and> log_out ((consumer_iter ^^ n) (log_write e s)) = log_history s"
proof -
  let ?t = "(consumer_iter ^^ n) s"
  have "log_put e s = None" using log_put_spec(1)[OF assms(1)] assms(2) by blast
  then have w: "log_write e s = s\<lparr>write_idx := write_idx s + 1, dropped_count := dropped_count s + 1\<rparr>" by (auto simp: log_put_def log_write_def Let_def split: if_splits)
  have t: "log_sync ?t" "log_history ?t = log_history s" "log_pending ?t = 0" using rounds_history[OF assms(1)] rounds_pending[OF assms(1)] assms(2,3) by auto
  then have "write_idx s = read_idx ?t" using pending_diff[of ?t] by simp
  then have "log_gap 1 0 (?t\<lparr>write_idx := write_idx s + 1, dropped_count := dropped_count s + 1\<rparr>)"
    using t(1,3) by (simp add: log_gap_def log_sync_def ring_at_def LOG_BUFFER_SIZE_def)
  then show ?thesis using t(2,3) unfolding w rounds_write_idx by (simp add: log_history_def log_items_def)
qed

lemma log_gap_run:
  "log_gap d n s \<Longrightarrow> 0 < d \<Longrightarrow> d + n + length (log_passed s evs) \<le> LOG_BUFFER_SIZE \<Longrightarrow>
    log_gap d (n + length (log_passed s evs)) (log_run evs s) \<and> log_out (log_run evs s) = log_out s \<and> dropped_count (log_run evs s) = dropped_count s"
proof (induction evs arbitrary: s n)
  case (Cons ev evs)
  have c: "log_passed (log_event_step ev s) evs = log_passed s evs" by (rule log_event_cong)
  show ?case
  proof (cases ev)
    case (LogCall level cid time msg)
    show ?thesis
    proof (cases "level < filter_level_of cid s")
      case True
      then show ?thesis using Cons LogCall by (simp add: nos_log_impl_def)
    next
      case False
      let ?w = "log_write (new_entry level cid time msg) s"
      have st: "log_event_step ev s = ?w" using LogCall False by (simp add: nos_log_impl_def)
      then have "log_gap d (Suc n) ?w" "dropped_count ?w = dropped_count s" using log_gap_write[OF Cons.prems(1), of "new_entry level cid time msg"] Cons.prems(3) LogCall False by auto
      then show ?thesis using Cons.IH[of "Suc n" ?w] Cons.prems c LogCall False st by simp
    qed
  next
    case ConsumerRound
    then show ?thesis using Cons log_gap_blocked[OF Cons.prems(1,2)] by simp
  qed
qed simp

section \<open>Producers and consumer interleaved\<close>

text \<open>
  Several threads log at the same time.  A producer goes through the accesses of \<open>nos_log_impl\<close> to the shared ring: it
  claims an index, takes the slot by the compare-and-swap (or drops the message), fills it and publishes it.  The
  consumer sees a full head entry, and later prints it and releases the slot.  The lists \<open>mp_started\<close>, \<open>mp_dropped\<close>
  and \<open>mp_printed\<close> record what happened to the entries.
\<close>

datatype producer = PIdle | PClaimed nat nos_log_entry_t | PWriting nat nos_log_entry_t | PFilled nat nos_log_entry_t

record mp_state = log_state +
  mp_prods :: "producer list"
  mp_reading :: bool
  mp_started :: "nos_log_entry_t list"
  mp_dropped :: "nos_log_entry_t list"
  mp_printed :: "nos_log_entry_t list"

definition set_ready :: "nat \<Rightarrow> nat \<Rightarrow> 'z mp_state_scheme \<Rightarrow> 'z mp_state_scheme" where
  "set_ready i r s = s\<lparr>log_ring := (log_ring s)[i := (log_ring s ! i)\<lparr>le_ready := r\<rparr>]\<rparr>"

inductive mp_step :: "mp_state \<Rightarrow> mp_state \<Rightarrow> bool" where
  mp_claim: "p < length (mp_prods s) \<Longrightarrow> mp_prods s ! p = PIdle \<Longrightarrow> le_ready e = 2 \<Longrightarrow>
    mp_step s (s\<lparr>write_idx := write_idx s + 1, mp_prods := (mp_prods s)[p := PClaimed (slot_of (write_idx s)) e], mp_started := e # mp_started s\<rparr>)"
| mp_take: "p < length (mp_prods s) \<Longrightarrow> mp_prods s ! p = PClaimed i e \<Longrightarrow> le_ready (log_ring s ! i) = 0 \<Longrightarrow>
    mp_step s ((set_ready i 1 s)\<lparr>mp_prods := (mp_prods s)[p := PWriting i e]\<rparr>)"
| mp_drop: "p < length (mp_prods s) \<Longrightarrow> mp_prods s ! p = PClaimed i e \<Longrightarrow> le_ready (log_ring s ! i) \<noteq> 0 \<Longrightarrow>
    mp_step s (s\<lparr>dropped_count := dropped_count s + 1, mp_prods := (mp_prods s)[p := PIdle], mp_dropped := e # mp_dropped s\<rparr>)"
| mp_fill: "p < length (mp_prods s) \<Longrightarrow> mp_prods s ! p = PWriting i e \<Longrightarrow>
    mp_step s (s\<lparr>log_ring := (log_ring s)[i := e\<lparr>le_ready := le_ready (log_ring s ! i)\<rparr>], mp_prods := (mp_prods s)[p := PFilled i e]\<rparr>)"
| mp_publish: "p < length (mp_prods s) \<Longrightarrow> mp_prods s ! p = PFilled i e \<Longrightarrow>
    mp_step s ((set_ready i 2 s)\<lparr>mp_prods := (mp_prods s)[p := PIdle]\<rparr>)"
| mp_see: "\<not> mp_reading s \<Longrightarrow> head_ready s \<Longrightarrow> mp_step s (s\<lparr>mp_reading := True\<rparr>)"
| mp_print: "mp_reading s \<Longrightarrow>
    mp_step s ((set_ready (slot_of (read_idx s)) 0 s)
      \<lparr>mp_reading := False, read_idx := read_idx s + 1, mp_printed := log_ring s ! slot_of (read_idx s) # mp_printed s,
       log_out := log_out s @ [log_line s (log_ring s ! slot_of (read_idx s))]\<rparr>)"

text \<open>The slot a producer owns, and the entry it carries.\<close>

primrec owned :: "producer \<Rightarrow> nat option" where
  "owned PIdle = None"
| "owned (PClaimed i e) = None"
| "owned (PWriting i e) = Some i"
| "owned (PFilled i e) = Some i"

primrec carried :: "producer \<Rightarrow> nos_log_entry_t list" where
  "carried PIdle = []"
| "carried (PClaimed i e) = [e]"
| "carried (PWriting i e) = [e]"
| "carried (PFilled i e) = [e]"

definition published :: "nos_log_entry_t \<Rightarrow> nos_log_entry_t list" where
  "published e = (if le_ready e = 2 then [e] else [])"

definition in_flight :: "'z mp_state_scheme \<Rightarrow> nos_log_entry_t list" where
  "in_flight s = concat (map carried (mp_prods s))"

definition waiting :: "'z mp_state_scheme \<Rightarrow> nos_log_entry_t list" where
  "waiting s = concat (map published (log_ring s))"

definition mp_owners_ok :: "'z mp_state_scheme \<Rightarrow> bool" where
  "mp_owners_ok s \<longleftrightarrow> (\<forall>p < length (mp_prods s). \<forall>i. owned (mp_prods s ! p) = Some i \<longrightarrow> i < LOG_BUFFER_SIZE \<and> le_ready (log_ring s ! i) = 1
     \<and> (\<forall>q < length (mp_prods s). owned (mp_prods s ! q) = Some i \<longrightarrow> q = p))"

primrec producer_ok :: "nos_log_entry_t list \<Rightarrow> producer \<Rightarrow> bool" where
  "producer_ok ring PIdle = True"
| "producer_ok ring (PClaimed i e) = (i < LOG_BUFFER_SIZE \<and> le_ready e = 2)"
| "producer_ok ring (PWriting i e) = (le_ready e = 2)"
| "producer_ok ring (PFilled i e) = (le_ready e = 2 \<and> ring ! i = e\<lparr>le_ready := 1\<rparr>)"

definition mp_prods_ok :: "'z mp_state_scheme \<Rightarrow> bool" where
  "mp_prods_ok s \<longleftrightarrow> (\<forall>p < length (mp_prods s). producer_ok (log_ring s) (mp_prods s ! p))"

definition mp_conserved :: "'z mp_state_scheme \<Rightarrow> bool" where
  "mp_conserved s \<longleftrightarrow> mset (mp_started s) = mset (mp_printed s) + mset (mp_dropped s) + mset (waiting s) + mset (in_flight s)"

definition mp_inv :: "'z mp_state_scheme \<Rightarrow> bool" where
  "mp_inv s \<longleftrightarrow> length (log_ring s) = LOG_BUFFER_SIZE \<and> mp_owners_ok s \<and> mp_prods_ok s \<and> (mp_reading s \<longrightarrow> head_ready s) \<and> mp_conserved s"

lemma mset_concat_update:
  "i < length xs \<Longrightarrow> mset (concat (map f (xs[i := x]))) + mset (f (xs ! i)) = mset (concat (map f xs)) + mset (f x)"
proof (induction xs arbitrary: i)
  case (Cons y ys)
  then show ?case by (cases i) (simp_all add: ac_simps)
qed simp

lemma in_flight_update:
  assumes "p < length (mp_prods s)" "mp_prods s' = (mp_prods s)[p := x]"
  shows "mset (in_flight s') + mset (carried (mp_prods s ! p)) = mset (in_flight s) + mset (carried x)"
  using mset_concat_update[OF assms(1), of carried x] assms(2) by (simp add: in_flight_def)

lemma waiting_update:
  assumes "i < length (log_ring s)" "log_ring s' = (log_ring s)[i := x]"
  shows "mset (waiting s') + mset (published (log_ring s ! i)) = mset (waiting s) + mset (published x)"
  using mset_concat_update[OF assms(1), of published x] assms(2) by (simp add: waiting_def)

lemma slot_of_less [simp]: "slot_of i < LOG_BUFFER_SIZE"
  by (simp add: slot_of_def LOG_BUFFER_SIZE_def)

lemma mp_ownersD:
  assumes "mp_owners_ok s" "p < length (mp_prods s)" "owned (mp_prods s ! p) = Some i"
  shows "i < LOG_BUFFER_SIZE" "le_ready (log_ring s ! i) = 1" "q < length (mp_prods s) \<Longrightarrow> owned (mp_prods s ! q) = Some i \<Longrightarrow> q = p"
  using assms unfolding mp_owners_ok_def by blast+

lemma mp_owners_cong: "mp_prods s' = mp_prods s \<Longrightarrow> log_ring s' = log_ring s \<Longrightarrow> mp_owners_ok s' = mp_owners_ok s"
  unfolding mp_owners_ok_def by (simp only:)

lemma mp_owners_update:
  assumes "mp_owners_ok s" "mp_prods s' = (mp_prods s)[p := x]" "p < length (mp_prods s)"
    and new: "\<And>i. owned x = Some i \<Longrightarrow> i < LOG_BUFFER_SIZE \<and> le_ready (log_ring s' ! i) = 1 \<and> (\<forall>q < length (mp_prods s). q \<noteq> p \<longrightarrow> owned (mp_prods s ! q) \<noteq> Some i)"
    and old: "\<And>q i. q < length (mp_prods s) \<Longrightarrow> q \<noteq> p \<Longrightarrow> owned (mp_prods s ! q) = Some i \<Longrightarrow> le_ready (log_ring s' ! i) = le_ready (log_ring s ! i)"
  shows "mp_owners_ok s'"
  unfolding mp_owners_ok_def
proof (intro allI impI)
  fix q i assume q: "q < length (mp_prods s')" "owned (mp_prods s' ! q) = Some i"
  have l: "length (mp_prods s') = length (mp_prods s)" and n: "\<And>r. mp_prods s' ! r = (if r = p then x else mp_prods s ! r)"
    using assms(2,3) by (simp_all add: nth_list_update)
  show "i < LOG_BUFFER_SIZE \<and> le_ready (log_ring s' ! i) = 1 \<and> (\<forall>r < length (mp_prods s'). owned (mp_prods s' ! r) = Some i \<longrightarrow> r = q)"
  proof (cases "q = p")
    case True
    then show ?thesis using new[of i] q(2) by (simp add: l n)
  next
    case False
    then have o: "owned (mp_prods s ! q) = Some i" "q < length (mp_prods s)" using q by (simp_all add: l n)
    then have "owned x \<noteq> Some i" using new[of i] False by blast
    then show ?thesis using mp_ownersD[OF assms(1) o(2,1)] old[OF o(2) False o(1)] by (simp add: l n)
  qed
qed

lemma mp_step_owners:
  assumes "mp_step s s'" "mp_inv s"
  shows "mp_owners_ok s'"
proof -
  have o: "mp_owners_ok s" and l: "length (log_ring s) = LOG_BUFFER_SIZE" and pr: "mp_prods_ok s" and h: "mp_reading s \<Longrightarrow> head_ready s"
    using assms(2) by (auto simp: mp_inv_def)
  note d = mp_ownersD[OF o]
  from assms(1) show ?thesis
  proof cases
    case (mp_claim p e)
    show ?thesis by (rule mp_owners_update[OF o _ mp_claim(2)], simp add: mp_claim(1)) (simp_all add: mp_claim(1))
  next
    case (mp_take p i e)
    have i: "i < LOG_BUFFER_SIZE" using pr mp_take(2,3) by (force simp: mp_prods_ok_def)
    have "owned (mp_prods s ! q) \<noteq> Some i" if "q < length (mp_prods s)" for q using d(2)[OF that, of i] mp_take(4) by auto
    then show ?thesis using i l by (intro mp_owners_update[OF o _ mp_take(2)], simp add: mp_take(1) set_ready_def) (auto simp: mp_take(1) set_ready_def nth_list_update)
  next
    case (mp_drop p i e)
    show ?thesis by (rule mp_owners_update[OF o _ mp_drop(2)], simp add: mp_drop(1)) (simp_all add: mp_drop(1))
  next
    case (mp_fill p i e)
    have i: "owned (mp_prods s ! p) = Some i" using mp_fill(3) by simp
    show ?thesis using d[OF mp_fill(2) i] l by (intro mp_owners_update[OF o _ mp_fill(2)], simp add: mp_fill(1) set_ready_def) (auto simp: mp_fill(1) nth_list_update)
  next
    case (mp_publish p i e)
    have i: "owned (mp_prods s ! p) = Some i" using mp_publish(3) by simp
    show ?thesis using d(3)[OF mp_publish(2) i] l by (intro mp_owners_update[OF o _ mp_publish(2)], simp add: mp_publish(1) set_ready_def) (simp, simp add: mp_publish(1) set_ready_def, metis nth_list_update_neq)
  next
    case mp_see
    have "mp_prods s' = mp_prods s" "log_ring s' = log_ring s" by (simp_all add: mp_see(1))
    then show ?thesis using o mp_owners_cong by blast
  next
    case mp_print
    have "j \<noteq> slot_of (read_idx s)" if "q < length (mp_prods s)" "owned (mp_prods s ! q) = Some j" for q j
      using d(2)[OF that] h mp_print(2) by (auto simp: head_ready_def)
    then have r: "log_ring s' ! j = log_ring s ! j" if "q < length (mp_prods s)" "owned (mp_prods s ! q) = Some j" for q j
      using that by (simp add: mp_print(1) set_ready_def nth_list_update_neq not_sym)
    have "mp_prods s' = mp_prods s" by (simp add: mp_print(1) set_ready_def)
    then show ?thesis using d r unfolding mp_owners_ok_def by metis
  qed
qed

lemma producer_ok_cong: "producer_ok r x \<Longrightarrow> (\<And>i. owned x = Some i \<Longrightarrow> r' ! i = r ! i) \<Longrightarrow> producer_ok r' x"
  by (cases x) simp_all

lemma mp_prods_update:
  assumes "mp_prods_ok s" "mp_prods s' = (mp_prods s)[p := x]" "p < length (mp_prods s)"
    and new: "producer_ok (log_ring s') x"
    and old: "\<And>q i. q < length (mp_prods s) \<Longrightarrow> q \<noteq> p \<Longrightarrow> owned (mp_prods s ! q) = Some i \<Longrightarrow> log_ring s' ! i = log_ring s ! i"
  shows "mp_prods_ok s'"
  unfolding mp_prods_ok_def
proof (intro allI impI)
  fix q assume "q < length (mp_prods s')"
  then have q: "q < length (mp_prods s)" using assms(2) by simp
  have n: "mp_prods s' ! q = (if q = p then x else mp_prods s ! q)" using assms(2,3) by (simp add: nth_list_update)
  have "producer_ok (log_ring s) (mp_prods s ! q)" using assms(1) q by (simp add: mp_prods_ok_def)
  then show "producer_ok (log_ring s') (mp_prods s' ! q)" using new old[OF q] producer_ok_cong unfolding n by simp
qed

text \<open>A slot with mark 0 or 2 has no owner; an owned slot has one.\<close>

lemma mp_step_prods:
  assumes "mp_step s s'" "mp_inv s"
  shows "mp_prods_ok s'"
proof -
  have o: "mp_owners_ok s" and l: "length (log_ring s) = LOG_BUFFER_SIZE" and pr: "mp_prods_ok s" and h: "mp_reading s \<Longrightarrow> head_ready s"
    using assms(2) by (auto simp: mp_inv_def)
  note d = mp_ownersD[OF o]
  note at = pr[unfolded mp_prods_ok_def, rule_format]
  from assms(1) show ?thesis
  proof cases
    case (mp_claim p e)
    show ?thesis using mp_claim(4) by (intro mp_prods_update[OF pr _ mp_claim(2)], simp add: mp_claim(1)) (simp_all add: mp_claim(1))
  next
    case (mp_take p i e)
    have "owned (mp_prods s ! q) \<noteq> Some i" if "q < length (mp_prods s)" for q using d(2)[OF that, of i] mp_take(4) by auto
    then show ?thesis using at[OF mp_take(2)] mp_take(3) by (intro mp_prods_update[OF pr _ mp_take(2)], simp add: mp_take(1) set_ready_def)
      (simp, simp add: mp_take(1) set_ready_def, metis nth_list_update_neq)
  next
    case (mp_drop p i e)
    show ?thesis by (rule mp_prods_update[OF pr _ mp_drop(2)], simp add: mp_drop(1)) (simp_all add: mp_drop(1))
  next
    case (mp_fill p i e)
    have i: "owned (mp_prods s ! p) = Some i" using mp_fill(3) by simp
    show ?thesis using d[OF mp_fill(2) i] l at[OF mp_fill(2)] mp_fill(3)
      by (intro mp_prods_update[OF pr _ mp_fill(2)], simp add: mp_fill(1)) (simp add: mp_fill(1), simp add: mp_fill(1), metis nth_list_update_neq)
  next
    case (mp_publish p i e)
    have i: "owned (mp_prods s ! p) = Some i" using mp_publish(3) by simp
    show ?thesis using d(3)[OF mp_publish(2) i] by (intro mp_prods_update[OF pr _ mp_publish(2)], simp add: mp_publish(1) set_ready_def)
      (simp, simp add: mp_publish(1) set_ready_def, metis nth_list_update_neq)
  next
    case mp_see
    then show ?thesis using pr by (simp add: mp_prods_ok_def)
  next
    case mp_print
    have "log_ring s' ! j = log_ring s ! j" if "q < length (mp_prods s)" "owned (mp_prods s ! q) = Some j" for q j
    proof -
      have "slot_of (read_idx s) \<noteq> j" using d(2)[OF that] h mp_print(2) by (auto simp: head_ready_def)
      then show ?thesis by (simp add: mp_print(1) set_ready_def)
    qed
    moreover have "mp_prods s' = mp_prods s" by (simp add: mp_print(1) set_ready_def)
    ultimately show ?thesis using at producer_ok_cong unfolding mp_prods_ok_def by metis
  qed
qed

lemma mp_step_reading:
  assumes "mp_step s s'" "mp_inv s"
  shows "mp_reading s' \<longrightarrow> head_ready s'"
proof -
  have o: "mp_owners_ok s" and l: "length (log_ring s) = LOG_BUFFER_SIZE" and h: "mp_reading s \<longrightarrow> head_ready s"
    using assms(2) by (auto simp: mp_inv_def)
  note d = mp_ownersD(2)[OF o]
  have own: "i \<noteq> slot_of (read_idx s)" if "head_ready s" "p < length (mp_prods s)" "owned (mp_prods s ! p) = Some i" for p i
    using d[OF that(2,3)] that(1) by (auto simp: head_ready_def)
  from assms(1) show ?thesis
  proof cases
    case (mp_fill p i e)
    then show ?thesis using own[of p i] h by (auto simp: head_ready_def)
  next
    case (mp_publish p i e)
    then show ?thesis using own[of p i] h by (auto simp: head_ready_def set_ready_def)
  next
    case (mp_take p i e)
    then have "head_ready s \<Longrightarrow> i \<noteq> slot_of (read_idx s)" by (auto simp: head_ready_def)
    then show ?thesis using h mp_take by (auto simp: head_ready_def set_ready_def)
  qed (use h in \<open>simp_all add: head_ready_def set_ready_def\<close>)
qed

lemma mp_step_conserved:
  assumes "mp_step s s'" "mp_inv s"
  shows "mp_conserved s'"
proof -
  have o: "mp_owners_ok s" and l: "length (log_ring s) = LOG_BUFFER_SIZE" and pr: "mp_prods_ok s" and h: "mp_reading s \<longrightarrow> head_ready s" and c: "mp_conserved s"
    using assms(2) by (auto simp: mp_inv_def)
  note d = mp_ownersD[OF o]
  note at = pr[unfolded mp_prods_ok_def, rule_format]
  note cons = c[unfolded mp_conserved_def]
  from assms(1) show ?thesis
  proof cases
    case (mp_claim p e)
    have "mset (in_flight s') = mset (in_flight s) + {#e#}" "waiting s' = waiting s" using in_flight_update[OF mp_claim(2), of s' "PClaimed (slot_of (write_idx s)) e"] mp_claim(1,3) by (simp_all add: waiting_def)
    then show ?thesis using cons by (simp add: mp_conserved_def mp_claim(1))
  next
    case (mp_take p i e)
    have "i < length (log_ring s)" using at[OF mp_take(2)] mp_take(3) l by simp
    then have "mset (waiting s') = mset (waiting s)" using waiting_update[of i s s' "(log_ring s ! i)\<lparr>le_ready := 1\<rparr>"] mp_take(1,4) by (simp add: set_ready_def published_def)
    moreover have "mset (in_flight s') = mset (in_flight s)" using in_flight_update[OF mp_take(2), of s' "PWriting i e"] mp_take(1,3) by (simp add: set_ready_def)
    ultimately show ?thesis using cons by (simp add: mp_conserved_def mp_take(1) set_ready_def)
  next
    case (mp_drop p i e)
    have "mset (in_flight s') + {#e#} = mset (in_flight s)" "waiting s' = waiting s"
      using in_flight_update[OF mp_drop(2), of s' PIdle] mp_drop(1,3) by (simp_all add: waiting_def)
    then have "mset (in_flight s) = mset (in_flight s') + {#e#}" "waiting s' = waiting s" by simp_all
    then show ?thesis using cons mp_drop(1) by (simp add: mp_conserved_def)
  next
    case (mp_fill p i e)
    have i: "owned (mp_prods s ! p) = Some i" using mp_fill(3) by simp
    have "mset (waiting s') = mset (waiting s)"
      using waiting_update[of i s s' "e\<lparr>le_ready := le_ready (log_ring s ! i)\<rparr>"] d(1,2)[OF mp_fill(2) i] l by (simp add: published_def mp_fill(1))
    moreover have "mset (in_flight s') = mset (in_flight s)" using in_flight_update[OF mp_fill(2), of s' "PFilled i e"] mp_fill(1,3) by simp
    ultimately show ?thesis using cons by (simp add: mp_conserved_def mp_fill(1))
  next
    case (mp_publish p i e)
    have i: "owned (mp_prods s ! p) = Some i" using mp_publish(3) by simp
    have e: "log_ring s ! i = e\<lparr>le_ready := 1\<rparr>" "(log_ring s ! i)\<lparr>le_ready := 2\<rparr> = e" using at[OF mp_publish(2)] mp_publish(3) by auto
    have "published (log_ring s ! i) = []" "published e = [e]" using e(1) at[OF mp_publish(2)] mp_publish(3) by (simp_all add: published_def)
    then have "mset (waiting s') = mset (waiting s) + {#e#}"
      using waiting_update[of i s s' e] e(2) d(1)[OF mp_publish(2) i] l by (simp add: mp_publish(1) set_ready_def)
    moreover have "mset (in_flight s) = mset (in_flight s') + {#e#}" using in_flight_update[OF mp_publish(2), of s' PIdle] mp_publish(1,3) by (simp add: set_ready_def)
    moreover have "mp_started s' = mp_started s" "mp_printed s' = mp_printed s" "mp_dropped s' = mp_dropped s" by (simp_all add: mp_publish(1) set_ready_def)
    ultimately show ?thesis using cons by (simp add: mp_conserved_def)
  next
    case mp_see
    then show ?thesis using cons by (simp add: mp_conserved_def waiting_def in_flight_def)
  next
    case mp_print
    let ?i = "slot_of (read_idx s)"
    have "mset (waiting s) = mset (waiting s') + {#log_ring s ! ?i#}"
      using waiting_update[of ?i s s' "(log_ring s ! ?i)\<lparr>le_ready := 0\<rparr>"] h mp_print(2) l by (simp add: mp_print(1) set_ready_def published_def head_ready_def)
    moreover have "in_flight s' = in_flight s" "mp_started s' = mp_started s" "mp_dropped s' = mp_dropped s" "mp_printed s' = log_ring s ! ?i # mp_printed s"
      by (simp_all add: mp_print(1) set_ready_def in_flight_def)
    ultimately show ?thesis using cons by (simp add: mp_conserved_def)
  qed
qed

lemma mp_step_length: "mp_step s s' \<Longrightarrow> length (log_ring s') = length (log_ring s)"
  by (induction rule: mp_step.induct) (simp_all add: set_ready_def)

lemma mp_step_inv: "mp_step s s' \<Longrightarrow> mp_inv s \<Longrightarrow> mp_inv s'"
  using mp_step_owners[of s s'] mp_step_prods[of s s'] mp_step_reading[of s s'] mp_step_conserved[of s s'] mp_step_length[of s s'] by (simp add: mp_inv_def)

text \<open>A call that is not interrupted, and a round of the consumer, have the effect of the sequential operations.\<close>

lemma mp_solo_write:
  assumes p: "p < length (mp_prods s)" "mp_prods s ! p = PIdle" and e: "le_ready e = 2" and l: "length (log_ring s) = LOG_BUFFER_SIZE"
  shows "mp_step\<^sup>*\<^sup>* s ((log_write e s)\<lparr>mp_started := e # mp_started s,
    mp_dropped := (if le_ready (log_ring s ! slot_of (write_idx s)) = 0 then [] else [e]) @ mp_dropped s\<rparr>)"
proof -
  let ?i = "slot_of (write_idx s)"
  let ?s1 = "s\<lparr>write_idx := write_idx s + 1, mp_prods := (mp_prods s)[p := PClaimed ?i e], mp_started := e # mp_started s\<rparr>"
  have same: "(mp_prods s)[p := PIdle] = mp_prods s" using p(2) by (metis list_update_id)
  have 1: "mp_step s ?s1" by (rule mp_claim[OF p e])
  have p1: "p < length (mp_prods ?s1)" "mp_prods ?s1 ! p = PClaimed ?i e" using p(1) by simp_all
  show ?thesis
  proof (cases "le_ready (log_ring s ! ?i) = 0")
    case False
    then have "mp_step ?s1 (?s1\<lparr>dropped_count := dropped_count ?s1 + 1, mp_prods := (mp_prods ?s1)[p := PIdle], mp_dropped := e # mp_dropped ?s1\<rparr>)"
      using mp_drop[OF p1] by simp
    with 1 have "mp_step\<^sup>*\<^sup>* s (?s1\<lparr>dropped_count := dropped_count ?s1 + 1, mp_prods := (mp_prods ?s1)[p := PIdle], mp_dropped := e # mp_dropped ?s1\<rparr>)" by auto
    moreover have "?s1\<lparr>dropped_count := dropped_count ?s1 + 1, mp_prods := (mp_prods ?s1)[p := PIdle], mp_dropped := e # mp_dropped ?s1\<rparr> =
        (log_write e s)\<lparr>mp_started := e # mp_started s, mp_dropped := e # mp_dropped s\<rparr>"
      using False same by (cases s) (simp add: log_write_def Let_def)
    ultimately show ?thesis using False by simp
  next
    case True
    let ?s2 = "(set_ready ?i 1 ?s1)\<lparr>mp_prods := (mp_prods ?s1)[p := PWriting ?i e]\<rparr>"
    let ?s3 = "?s2\<lparr>log_ring := (log_ring ?s2)[?i := e\<lparr>le_ready := le_ready (log_ring ?s2 ! ?i)\<rparr>], mp_prods := (mp_prods ?s2)[p := PFilled ?i e]\<rparr>"
    let ?s4 = "(set_ready ?i 2 ?s3)\<lparr>mp_prods := (mp_prods ?s3)[p := PIdle]\<rparr>"
    have 2: "mp_step ?s1 ?s2" using mp_take[OF p1] True by simp
    have 3: "mp_step ?s2 ?s3" by (rule mp_fill) (use p(1) in simp_all)
    have 4: "mp_step ?s3 ?s4" by (rule mp_publish) (use p(1) in simp_all)
    have "?s4 = (log_write e s)\<lparr>mp_started := e # mp_started s, mp_dropped := mp_dropped s\<rparr>"
      using True l e same by (cases s) (simp add: log_write_def Let_def set_ready_def)
    moreover have "mp_step\<^sup>*\<^sup>* s ?s4" using 1 2 3 4 by (meson r_into_rtranclp rtranclp.rtrancl_into_rtrancl)
    ultimately show ?thesis using True by simp
  qed
qed

lemma mp_solo_round:
  assumes "\<not> mp_reading s" "head_ready s"
  shows "mp_step\<^sup>*\<^sup>* s ((consumer_iter s)\<lparr>mp_printed := log_ring s ! slot_of (read_idx s) # mp_printed s\<rparr>)"
proof -
  let ?s1 = "s\<lparr>mp_reading := True\<rparr>"
  have "mp_step s ?s1" by (rule mp_see[OF assms])
  moreover have "mp_step ?s1 ((set_ready (slot_of (read_idx ?s1)) 0 ?s1)
      \<lparr>mp_reading := False, read_idx := read_idx ?s1 + 1, mp_printed := log_ring ?s1 ! slot_of (read_idx ?s1) # mp_printed ?s1,
       log_out := log_out ?s1 @ [log_line ?s1 (log_ring ?s1 ! slot_of (read_idx ?s1))]\<rparr>)" (is "mp_step _ ?s2") by (rule mp_print) simp
  moreover have "?s2 = (consumer_iter s)\<lparr>mp_printed := log_ring s ! slot_of (read_idx s) # mp_printed s\<rparr>"
    using assms by (cases s) (simp add: consumer_iter_def set_ready_def Let_def log_line_def registered_comp_def)
  ultimately show ?thesis by (metis (no_types) converse_rtranclp_into_rtranclp r_into_rtranclp)
qed

section \<open>Properties\<close>

definition empty_log_entry :: nos_log_entry_t where
  "empty_log_entry = \<lparr>le_level = NOS_LOG_LEVEL_DEBUG, le_comp_id = 0, le_time = [], le_message = [], le_ready = 0\<rparr>"

text \<open>The static context as the program starts.\<close>

definition log_boot :: log_state where
  "log_boot = \<lparr>g_embedded_registry = replicate 32 \<lparr>service_name = [], ops = 0\<rparr>, g_embedded_count = 0, timer_initialized = False, log_ops_cache = None,
    log_ring = replicate LOG_BUFFER_SIZE empty_log_entry, write_idx = 0, read_idx = 0, global_filter_level = NOS_LOG_LEVEL_DEBUG,
    comp_info = replicate 256 \<lparr>ci_name = [], ci_filter_level = NOS_LOG_LEVEL_DEBUG, ci_registered = False\<rparr>, dropped_count = 0, log_keep_running = True,
    log_initialized = False, log_out = []\<rparr>"

text \<open>C35.  As long as no message is dropped, the output of any sequence of calls and consumer rounds, followed by the
  entries that are still pending, is what the filters let through, in the order of the calls.\<close>

theorem log_in_order:
  assumes "log_sync s" "length evs < 2 ^ 64" "nos_log_get_dropped_count (log_run evs s) = nos_log_get_dropped_count s"
  shows "log_sync (log_run evs s) \<and>
    log_out (log_run evs s) @ map (log_line s) (log_items (log_run evs s)) = log_out s @ map (log_line s) (log_items s @ log_passed s evs)"
proof -
  have d: "log_drops evs s = 0" using log_no_drops assms(2,3) by (simp add: nos_log_get_dropped_count_def)
  have "comp_info (log_run evs s) = comp_info s" by (induction evs arbitrary: s) simp_all
  then have "log_line (log_run evs s) = log_line s" using log_line_cong by blast
  then show ?thesis using log_run_history[OF assms(1) d] by (simp add: log_history_def)
qed

lemma log_boot_sync: "log_sync log_boot" "log_items log_boot = []" "log_out log_boot = []"
  by (simp_all add: log_sync_def log_items_def log_pending_def ring_at_def log_boot_def LOG_BUFFER_SIZE_def empty_log_entry_def)

theorem log_in_order_witness:
  "log_out (log_run [LogCall NOS_LOG_LEVEL_INFO 0 ''t'' ''a'', LogCall NOS_LOG_LEVEL_INFO 0 ''t'' ''b'', ConsumerRound, ConsumerRound] log_boot) =
    [(''t'', ''INFO '', ''System'', ''a''), (''t'', ''INFO '', ''System'', ''b'')]"
proof -
  let ?evs = "[LogCall NOS_LOG_LEVEL_INFO 0 ''t'' ''a'', LogCall NOS_LOG_LEVEL_INFO 0 ''t'' ''b'', ConsumerRound, ConsumerRound]"
  have dr: "log_drops ?evs log_boot = 0"
    by (simp add: log_drop1_def log_boot_def nos_log_impl_def filter_level_of_def registered_comp_def log_write_def Let_def slot_of_def LOG_BUFFER_SIZE_def empty_log_entry_def
        less_nos_log_level_t_def level_num_def new_entry_def)
  then have d: "nos_log_get_dropped_count (log_run ?evs log_boot) = nos_log_get_dropped_count log_boot" unfolding nos_log_get_dropped_count_def log_drops_count by (simp only: semiring_1_class.of_nat_0 add_0_right)
  have "\<not> head_ready (log_run ?evs log_boot)"
    by (simp add: log_boot_def nos_log_impl_def filter_level_of_def registered_comp_def log_write_def consumer_iter_def head_ready_def Let_def slot_of_def LOG_BUFFER_SIZE_def empty_log_entry_def
        less_nos_log_level_t_def level_num_def new_entry_def)
  moreover have l: "length ?evs < 2 ^ 64" by simp
  ultimately have "log_items (log_run ?evs log_boot) = []" using not_ready_drained conjunct1[OF log_in_order[OF log_boot_sync(1) l d]] by blast
  then show ?thesis using conjunct2[OF log_in_order[OF log_boot_sync(1) l d]] log_boot_sync(2,3)
    by (simp add: log_line_def new_entry_def log_boot_def registered_comp_def level_to_str_def filter_level_of_def less_nos_log_level_t_def level_num_def LOG_MSG_MAX_def)
qed

text \<open>C37.  Shutting down ends: once \<open>keep_running\<close> is cleared the consumer makes at most 1024 more rounds, whatever the
  state of the ring.  With reader and writer in step it prints every pending entry before it ends.\<close>

theorem log_deinit_flushes:
  assumes "length (log_ring s) = LOG_BUFFER_SIZE" "log_initialized s"
  shows "\<exists>s'. nos_log_deinit LOG_BUFFER_SIZE s = Some s' \<and> \<not> log_initialized s' \<and> \<not> log_keep_running s'
    \<and> (log_sync s \<longrightarrow> log_out s' = log_out s @ map (log_line s) (log_items s))"
proof -
  let ?s = "s\<lparr>log_keep_running := False\<rparr>"
  obtain n where n: "nos_log_deinit LOG_BUFFER_SIZE s = Some (((consumer_iter ^^ n) ?s)\<lparr>log_initialized := False\<rparr>)" "\<not> head_ready ((consumer_iter ^^ n) ?s)"
    using log_deinit_spec[OF assms] by blast
  have "log_out ((consumer_iter ^^ n) ?s) = log_history s" if "log_sync s"
  proof -
    have "log_sync ?s" "log_history ?s = log_history s" using that log_sync_cong[of ?s s] log_history_cong[of ?s s] by simp_all
    then have "log_history ((consumer_iter ^^ n) ?s) = log_history s" "log_items ((consumer_iter ^^ n) ?s) = []"
      using rounds_history[of ?s n] not_ready_drained n(2) by auto
    then show ?thesis by (simp add: log_history_def)
  qed
  then show ?thesis using n(1) by (simp add: log_history_def)
qed

theorem log_deinit_flushes_witness:
  "\<exists>s'. nos_log_deinit LOG_BUFFER_SIZE (log_boot\<lparr>log_initialized := True\<rparr>) = Some s' \<and> log_out s' = []"
proof -
  have "log_sync (log_boot\<lparr>log_initialized := True\<rparr>) \<and> log_items (log_boot\<lparr>log_initialized := True\<rparr>) = []"
    using log_sync_cong[of "log_boot\<lparr>log_initialized := True\<rparr>" log_boot] log_boot_sync by simp
  then show ?thesis using log_deinit_flushes[of "log_boot\<lparr>log_initialized := True\<rparr>"] by (auto simp: log_boot_def)
qed

lemma log_passed_le: "length (log_passed s evs) \<le> length evs"
  by (induction s evs rule: log_passed.induct) auto

text \<open>C36.  A single drop on a full ring takes the writer out of step for good: the index it claimed is never filled, and the
  consumer waits there once it has drained the ring.  Up to 1023 further messages are accepted (the drop counter does
  not move), none is printed however often the consumer looks, and a shutdown then ends without printing them.\<close>

theorem log_drop_blocks:
  assumes "log_sync s" "log_pending s = LOG_BUFFER_SIZE" "LOG_BUFFER_SIZE \<le> n"
    and "t = (consumer_iter ^^ n) (log_write e s)"
    and "length (log_passed t evs) \<le> 1023"
  shows "log_out t = log_out s @ map (log_line s) (log_items s)
    \<and> log_out (log_run evs t) = log_out t \<and> nos_log_get_dropped_count (log_run evs t) = nos_log_get_dropped_count t
    \<and> map_option log_out (nos_log_deinit 0 (log_run evs t)) = Some (log_out t)"
proof -
  have t: "log_gap 1 0 t" "log_out t = log_history s" using drop_leaves_gap[OF assms(1-3)] assms(4) by auto
  let ?u = "log_run evs t"
  have u: "log_gap 1 (length (log_passed t evs)) ?u" "log_out ?u = log_out t" "dropped_count ?u = dropped_count t"
    using log_gap_run[OF t(1), of evs] assms(5) by (simp_all add: LOG_BUFFER_SIZE_def)
  have "\<not> head_ready ?u" using u(1) by (auto simp: log_gap_def head_ready_def ring_at_def slot_of_def LOG_BUFFER_SIZE_def dest!: spec[of _ 0])
  then have "\<not> head_ready (?u\<lparr>log_keep_running := False\<rparr>)" by (simp add: head_ready_def)
  then have "map_option log_out (nos_log_deinit 0 ?u) = Some (log_out t)" using u(2) by (simp add: nos_log_deinit_def nos_log_consumer_thread.simps)
  then show ?thesis using t(2) u(2,3) by (simp add: log_history_def nos_log_get_dropped_count_def)
qed

definition log_demo_full :: log_state where
  "log_demo_full = log_boot\<lparr>log_ring := replicate LOG_BUFFER_SIZE (empty_log_entry\<lparr>le_ready := 2\<rparr>), write_idx := 1024\<rparr>"

theorem log_drop_blocks_witness:
  "let t = (consumer_iter ^^ 1024) (log_write empty_log_entry log_demo_full) in
    log_out (log_run [LogCall NOS_LOG_LEVEL_ERROR 0 ''t'' ''fatal'', ConsumerRound] t) = log_out t"
proof -
  have f: "log_sync log_demo_full" "log_pending log_demo_full = LOG_BUFFER_SIZE"
    by (simp_all add: log_sync_def log_pending_def ring_at_def log_demo_full_def log_boot_def LOG_BUFFER_SIZE_def empty_log_entry_def)
  let ?evs = "[LogCall NOS_LOG_LEVEL_ERROR 0 ''t'' ''fatal'', ConsumerRound]"
  have "length (log_passed ((consumer_iter ^^ 1024) (log_write empty_log_entry log_demo_full)) ?evs) \<le> 1023" using log_passed_le[of _ ?evs] by (rule order_trans) simp
  then show ?thesis using log_drop_blocks[OF f _ refl, of 1024 empty_log_entry ?evs] by (simp add: LOG_BUFFER_SIZE_def Let_def)
qed

text \<open>C13.  With any number of threads logging at once, in every interleaving: no two of them write the same slot, a slot being
  written is neither printed nor taken, and every entry is exactly once printed, dropped, waiting in the ring or still in
  the hands of its producer, unchanged.\<close>

theorem log_concurrent_safe:
  assumes "mp_step\<^sup>*\<^sup>* s0 s" "length (log_ring s0) = LOG_BUFFER_SIZE" "set (mp_prods s0) \<subseteq> {PIdle}" "\<not> mp_reading s0"
    and "\<forall>i < LOG_BUFFER_SIZE. le_ready (log_ring s0 ! i) = 0" "mp_started s0 = []" "mp_printed s0 = []" "mp_dropped s0 = []"
  shows "mset (mp_started s) = mset (mp_printed s) + mset (mp_dropped s) + mset (waiting s) + mset (in_flight s)
    \<and> (\<forall>p < length (mp_prods s). \<forall>i. owned (mp_prods s ! p) = Some i \<longrightarrow>
      le_ready (log_ring s ! i) = 1 \<and> (mp_reading s \<longrightarrow> i \<noteq> slot_of (read_idx s)) \<and> (\<forall>q < length (mp_prods s). owned (mp_prods s ! q) = Some i \<longrightarrow> q = p))"
proof -
  have idle: "mp_prods s0 ! p = PIdle" if "p < length (mp_prods s0)" for p using assms(3) that nth_mem by blast
  have "waiting s0 = []" using assms(2,5) by (auto simp: waiting_def published_def in_set_conv_nth)
  moreover have "in_flight s0 = []" using assms(3) by (auto simp: in_flight_def)
  ultimately have "mp_inv s0" using assms idle by (simp add: mp_inv_def mp_owners_ok_def mp_prods_ok_def mp_conserved_def)
  with assms(1) have inv: "mp_inv s" by (induction rule: rtranclp_induct) (auto intro: mp_step_inv)
  then have c: "mset (mp_started s) = mset (mp_printed s) + mset (mp_dropped s) + mset (waiting s) + mset (in_flight s)" by (simp add: mp_inv_def mp_conserved_def)
  have o: "mp_owners_ok s" and r: "mp_reading s \<longrightarrow> le_ready (log_ring s ! slot_of (read_idx s)) = 2" using inv by (simp_all add: mp_inv_def head_ready_def)
  have "le_ready (log_ring s ! i) = 1 \<and> (mp_reading s \<longrightarrow> i \<noteq> slot_of (read_idx s)) \<and> (\<forall>q < length (mp_prods s). owned (mp_prods s ! q) = Some i \<longrightarrow> q = p)"
    if "p < length (mp_prods s)" "owned (mp_prods s ! p) = Some i" for p i using mp_ownersD[OF o that] r by auto
  then show ?thesis using c by blast
qed

definition mp_demo0 :: mp_state where
  "mp_demo0 = log_state.extend log_boot \<lparr>mp_prods = [PIdle, PIdle], mp_reading = False, mp_started = [], mp_dropped = [], mp_printed = []\<rparr>"

definition mp_demo1 :: mp_state where
  "mp_demo1 = mp_demo0\<lparr>write_idx := write_idx mp_demo0 + 1, mp_prods := (mp_prods mp_demo0)[0 := PClaimed (slot_of (write_idx mp_demo0)) (empty_log_entry\<lparr>le_ready := 2\<rparr>)],
    mp_started := (empty_log_entry\<lparr>le_ready := 2\<rparr>) # mp_started mp_demo0\<rparr>"

theorem log_concurrent_safe_witness: "mset (mp_started mp_demo1) = {#empty_log_entry\<lparr>le_ready := 2\<rparr>#} \<and> mset (mp_started mp_demo1) = mset (waiting mp_demo1) + mset (in_flight mp_demo1)"
proof -
  have "mp_step mp_demo0 mp_demo1" unfolding mp_demo1_def by (rule mp_claim) (simp_all add: mp_demo0_def log_state.defs)
  then have "mp_step\<^sup>*\<^sup>* mp_demo0 mp_demo1" by blast
  from log_concurrent_safe[OF this]
  have "mset (mp_started mp_demo1) = mset (mp_printed mp_demo1) + mset (mp_dropped mp_demo1) + mset (waiting mp_demo1) + mset (in_flight mp_demo1)"
    by (simp add: mp_demo0_def log_state.defs log_boot_def empty_log_entry_def LOG_BUFFER_SIZE_def)
  then show ?thesis by (simp add: mp_demo1_def mp_demo0_def log_state.defs log_boot_def)
qed



end
