(* ===== verification/Nos_Kv.thy ===== *)
theory Nos_Kv
  imports Nos_Pool Nos_Map Nos_Message
begin

text \<open>
  The key-value store of \<^verbatim>\<open>src/infra/db/nos_kv.c\<close>: a table is an array of buckets, each the
  head of a chain of entries linked by index, over a pool of entries with a stack of free
  indices.  The memory of an entry is its \<^verbatim>\<open>data\<close> array, the key followed by the value.
  A table pointer is its index in \<^verbatim>\<open>g_tables\<close>.  The subscribers that an update notifies are
  returned as the list of calls, in the order the code makes them.  The chain walk takes the
  capacity as fuel; \<open>kv_walk_spec\<close> shows that it never runs out on a well-formed table.
  The bucket locks make each operation atomic for one bucket; a bucket counts the read locks
  handed out by \<^verbatim>\<open>nos_kv_get_ptr\<close>.
\<close>

definition KV_INVALID_IDX :: u32 where "KV_INVALID_IDX = 0xFFFFFFFF"
definition MAX_TABLES :: nat where "MAX_TABLES = 32"

record nos_kv_entry_t =
  next_idx :: u32
  val_len :: u32
  sub_list :: "(nat \<times> nat option) list"
  kv_data :: "u8 list"

record nos_kv_bucket_t =
  first_idx :: u32
  readers :: nat

record nos_kv_table_t =
  kv_name :: string
  key_size :: u32
  max_val_size :: u32
  entry_size :: u32
  kv_capacity :: u32
  kv_buckets :: "nos_kv_bucket_t list"
  bucket_count :: u32
  pool_mem :: "nos_kv_entry_t list"
  kv_free_stack :: "nat list"
  kv_free_top :: int
  kv_used_count :: u32

section \<open>The hash\<close>

definition murmur_c1 :: u32 where "murmur_c1 = 0xcc9e2d51"
definition murmur_c2 :: u32 where "murmur_c2 = 0x1b873593"

definition rotl32 :: "nat \<Rightarrow> u32 \<Rightarrow> u32" where
  "rotl32 n x = push_bit n x OR drop_bit (32 - n) x"

definition murmur_k1 :: "u32 \<Rightarrow> u32" where
  "murmur_k1 k = rotl32 15 (k * murmur_c1) * murmur_c2"

definition murmur_block :: "u32 \<Rightarrow> u32 \<Rightarrow> u32" where
  "murmur_block h1 k = rotl32 13 (h1 XOR murmur_k1 k) * 5 + 0xe6546b64"

text \<open>The index \<^verbatim>\<open>i\<close> of the C loop runs from \<^verbatim>\<open>-nblocks\<close> to \<open>-1\<close> relative to the end of the blocks,
  that is over the blocks in order.\<close>

fun murmur_body :: "u8 list \<Rightarrow> nat \<Rightarrow> nat \<Rightarrow> u32 \<Rightarrow> u32" where
  "murmur_body bs i 0 h1 = h1"
| "murmur_body bs i (Suc n) h1 = murmur_body bs (i + 4) n (murmur_block h1 (get_u32 bs i))"

definition murmur_tail :: "u8 list \<Rightarrow> nat \<Rightarrow> nat \<Rightarrow> u32 \<Rightarrow> u32" where
  "murmur_tail bs off n h1 =
    (let t2 = (if n = 3 then push_bit 16 (ucast (get_byte bs (off + 2))) else 0);
         t1 = (if n \<ge> 2 then t2 XOR push_bit 8 (ucast (get_byte bs (off + 1))) else 0);
         t0 = t1 XOR ucast (get_byte bs off)
     in if n = 0 then h1 else h1 XOR murmur_k1 t0)"

definition murmur_fmix :: "u32 \<Rightarrow> u32" where
  "murmur_fmix h =
    (let h = h XOR drop_bit 16 h; h = h * 0x85ebca6b; h = h XOR drop_bit 13 h; h = h * 0xc2b2ae35
     in h XOR drop_bit 16 h)"

definition murmurhash3_32 :: "u8 list \<Rightarrow> nat \<Rightarrow> u32 \<Rightarrow> u32" where
  "murmurhash3_32 key n seed =
    (let nblocks = n div 4;
         h1 = murmur_tail key (nblocks * 4) (n mod 4) (murmur_body key 0 nblocks seed)
     in murmur_fmix (h1 XOR of_nat n))"

section \<open>Tables\<close>

text \<open>\<^verbatim>\<open>while (bucket_count < capacity) bucket_count <<= 1\<close>, with fuel.\<close>

fun grow_buckets :: "nat \<Rightarrow> u32 \<Rightarrow> u32 \<Rightarrow> u32 option" where
  "grow_buckets fuel bc cap =
    (if bc < cap then (case fuel of 0 \<Rightarrow> None | Suc n \<Rightarrow> grow_buckets n (push_bit 1 bc) cap) else Some bc)"

definition empty_entry :: "u32 \<Rightarrow> u32 \<Rightarrow> nos_kv_entry_t" where
  "empty_entry ks mv = \<lparr>next_idx = 0, val_len = 0, sub_list = [], kv_data = replicate (unat ks + unat mv) 0\<rparr>"

text \<open>\<^verbatim>\<open>sizeof(nos_kv_entry_t)\<close> is 16.\<close>

definition new_table :: "string \<Rightarrow> u32 \<Rightarrow> u32 \<Rightarrow> u32 \<Rightarrow> u32 \<Rightarrow> nos_kv_table_t" where
  "new_table name ks mv cap bc =
    \<lparr>kv_name = c_strncpy 31 name, key_size = ks, max_val_size = mv, entry_size = 16 + ks + mv, kv_capacity = cap,
     kv_buckets = replicate (unat bc) \<lparr>first_idx = KV_INVALID_IDX, readers = 0\<rparr>, bucket_count = bc,
     pool_mem = replicate (unat cap) (empty_entry ks mv), kv_free_stack = [0..<unat cap],
     kv_free_top = int (unat cap) - 1, kv_used_count = 0\<rparr>"

text \<open>\<open>None\<close>: the loop that sizes the bucket array does not end within \<open>fuel\<close> iterations.
  \<open>calloc_ok\<close> is whether the table itself could be allocated.\<close>

definition nos_kv_table_create ::
  "nat \<Rightarrow> bool \<Rightarrow> string option \<Rightarrow> u32 \<Rightarrow> u32 \<Rightarrow> u32 \<Rightarrow> nos_kv_table_t list \<Rightarrow> (nat option \<times> nos_kv_table_t list) option" where
  "nos_kv_table_create fuel calloc_ok name ks mv cap tables =
    (case name of
       None \<Rightarrow> Some (None, tables)
     | Some nm \<Rightarrow>
         if ks = 0 \<or> cap = 0 then Some (None, tables)
         else (case find_idx (\<lambda>t. kv_name t = nm) tables (length tables) of
             Some i \<Rightarrow> Some (Some i, tables)
           | None \<Rightarrow>
               if length tables \<ge> MAX_TABLES then Some (None, tables)
               else if \<not> calloc_ok then Some (None, tables)
               else (case grow_buckets fuel 1024 cap of
                   None \<Rightarrow> None
                 | Some bc \<Rightarrow> Some (Some (length tables), tables @ [new_table nm ks mv cap bc]))))"

definition bucket_of :: "nos_kv_table_t \<Rightarrow> u8 list \<Rightarrow> nat" where
  "bucket_of t key = unat (murmurhash3_32 key (unat (key_size t)) 0 mod bucket_count t)"

definition get_kv_entry :: "nos_kv_table_t \<Rightarrow> nat \<Rightarrow> nos_kv_entry_t" where
  "get_kv_entry t i = pool_mem t ! i"

definition entry_key :: "nos_kv_table_t \<Rightarrow> nat \<Rightarrow> u8 list" where
  "entry_key t i = take (unat (key_size t)) (kv_data (pool_mem t ! i))"

definition entry_val :: "nos_kv_table_t \<Rightarrow> nat \<Rightarrow> u8 list" where
  "entry_val t i = take (unat (val_len (pool_mem t ! i))) (drop (unat (key_size t)) (kv_data (pool_mem t ! i)))"

definition upd_kv :: "nat \<Rightarrow> (nos_kv_entry_t \<Rightarrow> nos_kv_entry_t) \<Rightarrow> nos_kv_table_t \<Rightarrow> nos_kv_table_t" where
  "upd_kv i f t = t\<lparr>pool_mem := (pool_mem t)[i := f (pool_mem t ! i)]\<rparr>"

definition upd_bucket :: "nat \<Rightarrow> (nos_kv_bucket_t \<Rightarrow> nos_kv_bucket_t) \<Rightarrow> nos_kv_table_t \<Rightarrow> nos_kv_table_t" where
  "upd_bucket b f t = t\<lparr>kv_buckets := (kv_buckets t)[b := f (kv_buckets t ! b)]\<rparr>"

text \<open>The chain walk shared by all operations: the entry found and the index before it.\<close>

datatype walk = Found u32 nat | Missing | Fuel_Out

fun kv_walk :: "nos_kv_table_t \<Rightarrow> u8 list \<Rightarrow> u32 \<Rightarrow> u32 \<Rightarrow> nat \<Rightarrow> walk" where
  "kv_walk t key prev cur fuel =
    (if cur = KV_INVALID_IDX then Missing
     else (case fuel of
         0 \<Rightarrow> Fuel_Out
       | Suc n \<Rightarrow>
           if entry_key t (unat cur) = take (unat (key_size t)) key then Found prev (unat cur)
           else kv_walk t key cur (next_idx (get_kv_entry t (unat cur))) n))"

declare kv_walk.simps [simp del]
declare grow_buckets.simps [simp del]

definition kv_find :: "nos_kv_table_t \<Rightarrow> u8 list \<Rightarrow> walk" where
  "kv_find t key = kv_walk t key KV_INVALID_IDX (first_idx (kv_buckets t ! bucket_of t key)) (length (pool_mem t))"

section \<open>Operations\<close>

definition write_val :: "u32 \<Rightarrow> u8 list option \<Rightarrow> u32 \<Rightarrow> nos_kv_entry_t \<Rightarrow> nos_kv_entry_t" where
  "write_val ks val len e =
    e\<lparr>kv_data := (case val of None \<Rightarrow> kv_data e | Some v \<Rightarrow> write_bytes (kv_data e) (unat ks) (take (unat len) v)),
      val_len := len\<rparr>"

definition kv_pop :: "nos_kv_table_t \<Rightarrow> (nat \<times> nos_kv_table_t) option" where
  "kv_pop t = (if kv_free_top t < 0 then None
     else Some (kv_free_stack t ! nat (kv_free_top t), t\<lparr>kv_free_top := kv_free_top t - 1\<rparr>))"

definition kv_push :: "nat \<Rightarrow> nos_kv_table_t \<Rightarrow> nos_kv_table_t" where
  "kv_push i t = t\<lparr>kv_free_top := kv_free_top t + 1, kv_free_stack := (kv_free_stack t)[nat (kv_free_top t + 1) := i]\<rparr>"

text \<open>A notification: function, argument, key, value, length.\<close>

type_synonym kv_call = "nat \<times> nat option \<times> u8 list \<times> u8 list option \<times> u32"

definition kv_insert :: "nat \<Rightarrow> u8 list \<Rightarrow> u8 list option \<Rightarrow> u32 \<Rightarrow> nat \<Rightarrow> nos_kv_table_t \<Rightarrow> nos_kv_table_t" where
  "kv_insert b key val len i t =
    (let t1 = upd_kv i (\<lambda>e. (write_val (key_size t) val len
                  (e\<lparr>kv_data := write_bytes (kv_data e) 0 (take (unat (key_size t)) key)\<rparr>))
                \<lparr>sub_list := [], next_idx := first_idx (kv_buckets t ! b)\<rparr>) t;
         t2 = upd_bucket b (\<lambda>bk. bk\<lparr>first_idx := of_nat i\<rparr>) t1
     in t2\<lparr>kv_used_count := kv_used_count t2 + 1\<rparr>)"

definition nos_kv_put ::
  "u8 list option \<Rightarrow> u8 list option \<Rightarrow> u32 \<Rightarrow> nos_kv_table_t \<Rightarrow> nos_status_t \<times> kv_call list \<times> nos_kv_table_t" where
  "nos_kv_put key val len t =
    (case key of
       None \<Rightarrow> (NOS_ERR, [], t)
     | Some k \<Rightarrow>
         if len > max_val_size t then (NOS_ERR, [], t)
         else (case kv_find t k of
             Found prev i \<Rightarrow>
               (NOS_OK, map (\<lambda>(f, a). (f, a, k, val, len)) (sub_list (get_kv_entry t i)),
                upd_kv i (write_val (key_size t) val len) t)
           | Missing \<Rightarrow>
               (case kv_pop t of
                  None \<Rightarrow> (NOS_ERR_BUSY, [], t)
                | Some (i, t1) \<Rightarrow> (NOS_OK, [], kv_insert (bucket_of t k) k val len i t1))
           | Fuel_Out \<Rightarrow> (NOS_ERR, [], t)))"

text \<open>\<^verbatim>\<open>nos_kv_get\<close>: the status, the bytes copied to \<^verbatim>\<open>val_buf\<close> and the new \<^verbatim>\<open>*val_len\<close>.  \<open>buf_ok\<close> says that
  \<^verbatim>\<open>val_buf\<close> is not null, \<open>len\<close> is \<^verbatim>\<open>None\<close> for a null \<^verbatim>\<open>val_len\<close>.\<close>

definition nos_kv_get ::
  "u8 list option \<Rightarrow> bool \<Rightarrow> u32 option \<Rightarrow> nos_kv_table_t \<Rightarrow> nos_status_t \<times> u8 list \<times> u32 option" where
  "nos_kv_get key buf_ok len t =
    (case (key, len) of
       (Some k, Some l) \<Rightarrow>
         if \<not> buf_ok then (NOS_ERR, [], len)
         else (case kv_find t k of
            Found prev i \<Rightarrow>
              (let e = get_kv_entry t i; copy_len = (if l < val_len e then l else val_len e)
               in (NOS_OK, take (unat copy_len) (drop (unat (key_size t)) (kv_data e)), Some (val_len e)))
          | _ \<Rightarrow> (NOS_ERR, [], len))
     | _ \<Rightarrow> (NOS_ERR, [], len))"

text \<open>\<^verbatim>\<open>nos_kv_get_ptr\<close>: the entry and its length, and the bucket whose read lock is now held.
  \<open>outs_ok\<close> says that the three out pointers are not null.\<close>

definition nos_kv_get_ptr ::
  "u8 list option \<Rightarrow> bool \<Rightarrow> nos_kv_table_t \<Rightarrow> nos_status_t \<times> (nat \<times> u32 \<times> nat) option \<times> nos_kv_table_t" where
  "nos_kv_get_ptr key outs_ok t =
    (case key of
       None \<Rightarrow> (NOS_ERR, None, t)
     | Some k \<Rightarrow>
         if \<not> outs_ok then (NOS_ERR, None, t)
         else (case kv_find t k of
            Found prev i \<Rightarrow> (NOS_OK, Some (i, val_len (get_kv_entry t i), bucket_of t k),
              upd_bucket (bucket_of t k) (\<lambda>bk. bk\<lparr>readers := readers bk + 1\<rparr>) t)
          | _ \<Rightarrow> (NOS_ERR, None, t)))"

definition nos_kv_release_ptr :: "nat option \<Rightarrow> nos_kv_table_t \<Rightarrow> nos_kv_table_t" where
  "nos_kv_release_ptr handle t =
    (case handle of None \<Rightarrow> t | Some b \<Rightarrow> upd_bucket b (\<lambda>bk. bk\<lparr>readers := readers bk - 1\<rparr>) t)"

definition nos_kv_subscribe :: "u8 list option \<Rightarrow> nat option \<Rightarrow> nat option \<Rightarrow> nos_kv_table_t \<Rightarrow> nos_status_t \<times> nos_kv_table_t" where
  "nos_kv_subscribe key fn arg t =
    (case (key, fn) of
       (Some k, Some f) \<Rightarrow>
         (case kv_find t k of
            Found prev i \<Rightarrow>
              if (f, arg) \<in> set (sub_list (get_kv_entry t i)) then (NOS_OK, t)
              else (NOS_OK, upd_kv i (\<lambda>e. e\<lparr>sub_list := (f, arg) # sub_list e\<rparr>) t)
          | _ \<Rightarrow> (NOS_ERR, t))
     | _ \<Rightarrow> (NOS_ERR, t))"

definition nos_kv_unsubscribe :: "u8 list option \<Rightarrow> nat option \<Rightarrow> nat option \<Rightarrow> nos_kv_table_t \<Rightarrow> nos_status_t \<times> nos_kv_table_t" where
  "nos_kv_unsubscribe key fn arg t =
    (case (key, fn) of
       (Some k, Some f) \<Rightarrow>
         (case kv_find t k of
            Found prev i \<Rightarrow>
              if (f, arg) \<in> set (sub_list (get_kv_entry t i))
              then (NOS_OK, upd_kv i (\<lambda>e. e\<lparr>sub_list := remove1 (f, arg) (sub_list e)\<rparr>) t)
              else (NOS_ERR, t)
          | _ \<Rightarrow> (NOS_ERR, t))
     | _ \<Rightarrow> (NOS_ERR, t))"

definition kv_unlink :: "nat \<Rightarrow> u32 \<Rightarrow> nat \<Rightarrow> nos_kv_table_t \<Rightarrow> nos_kv_table_t" where
  "kv_unlink b prev i t =
    (let nxt = next_idx (get_kv_entry t i) in
     if prev = KV_INVALID_IDX then upd_bucket b (\<lambda>bk. bk\<lparr>first_idx := nxt\<rparr>) t
     else upd_kv (unat prev) (\<lambda>e. e\<lparr>next_idx := nxt\<rparr>) t)"

definition nos_kv_del :: "u8 list option \<Rightarrow> nos_kv_table_t \<Rightarrow> nos_status_t \<times> nos_kv_table_t" where
  "nos_kv_del key t =
    (case key of
       None \<Rightarrow> (NOS_ERR, t)
     | Some k \<Rightarrow>
         (case kv_find t k of
            Found prev i \<Rightarrow>
              (let t1 = upd_kv i (\<lambda>e. e\<lparr>sub_list := []\<rparr>) (kv_unlink (bucket_of t k) prev i t);
                   t2 = kv_push i t1
               in (NOS_OK, t2\<lparr>kv_used_count := kv_used_count t2 - 1\<rparr>))
          | _ \<Rightarrow> (NOS_ERR, t)))"

text \<open>\<^verbatim>\<open>sizeof\<close>: table 88, bucket 64.  The products are computed in \<^verbatim>\<open>size_t\<close>.\<close>

definition nos_kv_get_total_mem_usage :: "nos_kv_table_t list \<Rightarrow> u64" where
  "nos_kv_get_total_mem_usage tables =
    fold (\<lambda>t total. total + 88 + ucast (bucket_count t) * 64 + ucast (kv_capacity t) * (ucast (entry_size t) + 4)) tables 0"

definition nos_kv_db_deinit :: "nos_kv_table_t list \<Rightarrow> nos_kv_table_t list" where
  "nos_kv_db_deinit tables = []"

section \<open>The hash on known inputs\<close>

definition ascii :: "string \<Rightarrow> u8 list" where
  "ascii s = map of_char s"

text \<open>The hash is MurmurHash3 (x86, 32 bit): it gives the published values on inputs of every
  length class.\<close>

theorem murmur_reference_vectors:
  "murmurhash3_32 [] 0 0 = 0 \<and> murmurhash3_32 [] 0 1 = 0x514E28B7
   \<and> murmurhash3_32 [0x21, 0x43, 0x65, 0x87] 4 0 = 0xF55B516B
   \<and> murmurhash3_32 [0x21, 0x43, 0x65] 3 0 = 0x7E4A8634
   \<and> murmurhash3_32 [0x21, 0x43] 2 0 = 0xA0F7B07A
   \<and> murmurhash3_32 [0x21] 1 0 = 0x72661CF4
   \<and> murmurhash3_32 (ascii ''Hello, world!'') 13 0 = 0xC0363E43"
  by code_simp

section \<open>Sizing the bucket array\<close>

lemma grow_zero: "0 < cap \<Longrightarrow> grow_buckets fuel 0 cap = None" for cap :: u32
  by (induction fuel) (subst grow_buckets.simps; simp)+

lemma grow_step:
  "bc < cap \<Longrightarrow> grow_buckets (Suc n) bc cap = grow_buckets n (push_bit 1 bc) cap" "\<not> bc < cap \<Longrightarrow> grow_buckets n bc cap = Some bc"
  "bc < cap \<Longrightarrow> grow_buckets 0 bc cap = None"
  by (subst grow_buckets.simps; simp)+

lemma unat_pow2: "k < 32 \<Longrightarrow> unat (2 ^ k :: u32) = 2 ^ k"
proof -
  assume "k < 32"
  then have "(2 :: nat) ^ k < 2 ^ LENGTH(32)" by (intro power_strict_increasing) auto
  then have "unat (of_nat (2 ^ k) :: u32) = 2 ^ k" by (simp only: unat_of_nat mod_less)
  then show ?thesis by simp
qed

lemma grow_buckets_Some:
  assumes "unat cap \<le> 2 ^ 31" "k \<le> 31" "31 - k \<le> fuel"
  shows "\<exists>m. k \<le> m \<and> m \<le> 31 \<and> grow_buckets fuel (2 ^ k) cap = Some (2 ^ m) \<and> unat cap \<le> 2 ^ m"
  using assms
proof (induction fuel arbitrary: k)
  case 0
  then have "k = 31" by simp
  then have "\<not> (2 ^ k :: u32) < cap" using 0 unat_pow2[of 31] by (simp add: word_less_nat_alt not_less)
  then show ?case using grow_step(2)[of "2 ^ k" cap] 0 unat_pow2[of 31] \<open>k = 31\<close> by auto
next
  case (Suc n)
  show ?case
  proof (cases "(2 ^ k :: u32) < cap")
    case True
    then have "2 ^ k < unat cap" using unat_pow2[of k] Suc.prems(2) by (simp add: word_less_nat_alt)
    then have "(2 :: nat) ^ k < 2 ^ 31" using Suc.prems(1) by linarith
    then have k: "k < 31" by (rule power_less_imp_less_exp[rotated]) simp
    have p: "push_bit 1 (2 ^ k :: u32) = 2 ^ (k + 1)" by (simp add: push_bit_eq_mult)
    have rem: "31 - (k + 1) \<le> n" using Suc.prems(3) by linarith
    obtain m where "k + 1 \<le> m" "m \<le> 31" "grow_buckets n (2 ^ (k + 1)) cap = Some (2 ^ m)" "unat cap \<le> 2 ^ m"
      using Suc.IH[OF Suc.prems(1), of "k + 1"] rem k by auto
    then show ?thesis using grow_step(1)[OF True, of n] unfolding p by (intro exI[of _ m]) auto
  next
    case False
    then show ?thesis using grow_step(2)[OF False] Suc.prems unat_pow2[of k] by (auto simp: word_less_nat_alt not_less)
  qed
qed

lemma grow_buckets_None: "unat cap > 2 ^ 31 \<Longrightarrow> k \<le> 31 \<Longrightarrow> grow_buckets fuel (2 ^ k) cap = None"
proof (induction fuel arbitrary: k)
  case 0
  have "2 ^ k \<le> (2 :: nat) ^ 31" using "0.prems"(2) by (rule power_increasing) simp
  then have "(2 ^ k :: u32) < cap" using 0 unat_pow2[of k] by (simp add: word_less_nat_alt)
  then show ?case by (rule grow_step(3))
next
  case (Suc n)
  have "2 ^ k \<le> (2 :: nat) ^ 31" using Suc.prems(2) by (rule power_increasing) simp
  then have l: "(2 ^ k :: u32) < cap" using Suc unat_pow2[of k] by (simp add: word_less_nat_alt)
  have p: "push_bit 1 (2 ^ k :: u32) = 2 ^ (k + 1)" by (simp add: push_bit_eq_mult)
  show ?case
  proof (cases "k = 31")
    case True
    then have "push_bit 1 (2 ^ k :: u32) = 0" by simp
    moreover have "0 < cap" using Suc.prems(1) by (simp add: unat_gt_0 word_neq_0_conv[symmetric]) auto
    ultimately show ?thesis using grow_step(1)[OF l, of n] grow_zero by simp
  next
    case False
    then show ?thesis using grow_step(1)[OF l, of n] p Suc.IH[of "k + 1"] Suc.prems by (simp only: p)
  qed
qed

text \<open>C32.  The loop that sizes the bucket array ends after at most 21 doublings with a power of two that
  covers the capacity, if the capacity is at most \<open>2 ^ 31\<close>; for a larger capacity it never ends.\<close>

theorem bucket_sizing:
  "(unat cap \<le> 2 ^ 31 \<longrightarrow> (\<exists>m. 10 \<le> m \<and> m \<le> 31 \<and> grow_buckets 21 1024 cap = Some (2 ^ m) \<and> unat cap \<le> 2 ^ m))
   \<and> (unat cap > 2 ^ 31 \<longrightarrow> (\<forall>fuel. grow_buckets fuel 1024 cap = None))"
  using grow_buckets_Some[of cap 10 21] grow_buckets_None[of cap 10] by simp

theorem bucket_sizing_witness: "\<exists>m. 10 \<le> m \<and> m \<le> 31 \<and> grow_buckets 21 1024 3000 = Some (2 ^ m) \<and> 3000 \<le> (2 :: nat) ^ m"
  using bucket_sizing[of 3000] by simp

section \<open>Representation\<close>

fun is_chain :: "nos_kv_table_t \<Rightarrow> u32 \<Rightarrow> nat list \<Rightarrow> bool" where
  "is_chain t i [] \<longleftrightarrow> i = KV_INVALID_IDX"
| "is_chain t i (x # xs) \<longleftrightarrow> i = of_nat x \<and> x < length (pool_mem t) \<and> is_chain t (next_idx (pool_mem t ! x)) xs"

definition kv_free :: "nos_kv_table_t \<Rightarrow> nat list" where
  "kv_free t = stack_items (kv_free_stack t) (kv_free_top t)"

definition used_idx :: "nos_kv_table_t \<Rightarrow> (nat \<Rightarrow> nat list) \<Rightarrow> nat set" where
  "used_idx t ch = (\<Union>b < unat (bucket_count t). set (ch b))"

text \<open>The sizes of a table never change.\<close>

definition kv_shape :: "nos_kv_table_t \<Rightarrow> bool" where
  "kv_shape t \<longleftrightarrow> length (pool_mem t) = unat (kv_capacity t) \<and> length (kv_buckets t) = unat (bucket_count t)
     \<and> 0 < bucket_count t \<and> length (kv_free_stack t) = unat (kv_capacity t)
     \<and> stack_ok (kv_free_stack t) (kv_free_top t)
     \<and> (\<forall>i < length (pool_mem t). length (kv_data (pool_mem t ! i)) = unat (key_size t) + unat (max_val_size t)
          \<and> val_len (pool_mem t ! i) \<le> max_val_size t)"

text \<open>\<open>ch\<close> lists the chain of every bucket: the chains and the free stack partition the pool, an
  entry is in the chain of its key's bucket, and no two entries have the same key.\<close>

definition kv_rep :: "nos_kv_table_t \<Rightarrow> (nat \<Rightarrow> nat list) \<Rightarrow> bool" where
  "kv_rep t ch \<longleftrightarrow> kv_shape t
     \<and> (\<forall>b < unat (bucket_count t). is_chain t (first_idx (kv_buckets t ! b)) (ch b) \<and> distinct (ch b)
          \<and> (\<forall>x \<in> set (ch b). bucket_of t (entry_key t x) = b))
     \<and> distinct (kv_free t) \<and> set (kv_free t) \<inter> used_idx t ch = {} \<and> set (kv_free t) \<union> used_idx t ch = {..<unat (kv_capacity t)}
     \<and> inj_on (entry_key t) (used_idx t ch) \<and> unat (kv_used_count t) = card (used_idx t ch)"

definition kv_ok :: "nos_kv_table_t \<Rightarrow> bool" where
  "kv_ok t \<longleftrightarrow> (\<exists>ch. kv_rep t ch)"

definition kv_view :: "nos_kv_table_t \<Rightarrow> u8 list \<Rightarrow> u8 list option" where
  "kv_view t k =
    (if length k = unat (key_size t) then
       (case kv_find t k of Found prev i \<Rightarrow> Some (entry_val t i) | _ \<Rightarrow> None)
     else None)"

lemma bucket_of_less: "kv_shape t \<Longrightarrow> bucket_of t k < unat (bucket_count t)"
  by (auto simp: bucket_of_def kv_shape_def word_less_nat_alt unat_mod_distrib)

lemma idx_not_invalid: "x < unat (kv_capacity t) \<Longrightarrow> (of_nat x :: u32) \<noteq> KV_INVALID_IDX \<and> unat (of_nat x :: u32) = x"
proof -
  assume "x < unat (kv_capacity t)"
  then have x: "x < 2 ^ 32 - 1" using unat_lt_2_32[of "kv_capacity t"] by linarith
  then have u: "unat (of_nat x :: u32) = x" by (simp add: unat_of_nat take_bit_nat_eq_self)
  moreover have "unat KV_INVALID_IDX = 2 ^ 32 - 1" by (simp add: KV_INVALID_IDX_def)
  ultimately show ?thesis using x by (metis less_irrefl)
qed

lemma kv_walk_spec:
  assumes "is_chain t cur xs" "length (pool_mem t) = unat (kv_capacity t)" "length xs \<le> fuel"
  shows "(if \<exists>x \<in> set xs. entry_key t x = take (unat (key_size t)) key
      then \<exists>ys x zs. xs = ys @ x # zs \<and> entry_key t x = take (unat (key_size t)) key
        \<and> (\<forall>y \<in> set ys. entry_key t y \<noteq> take (unat (key_size t)) key)
        \<and> kv_walk t key prev cur fuel = Found (if ys = [] then prev else of_nat (last ys)) x
      else kv_walk t key prev cur fuel = Missing)"
  using assms
proof (induction xs arbitrary: prev cur fuel)
  case Nil
  then show ?case by (simp add: kv_walk.simps)
next
  case (Cons x xs)
  have x: "cur = of_nat x" "x < unat (kv_capacity t)" "is_chain t (next_idx (pool_mem t ! x)) xs"
    using Cons.prems(1,2) by auto
  obtain n where n: "fuel = Suc n" "length xs \<le> n" using Cons.prems(3) by (cases fuel) auto
  note u = idx_not_invalid[OF x(2)]
  show ?case
  proof (cases "entry_key t x = take (unat (key_size t)) key")
    case True
    then have "kv_walk t key prev cur fuel = Found prev x" using u x(1) n(1) by (simp add: kv_walk.simps[of t key prev])
    then show ?thesis using True by (intro if_P[THEN iffD2] ) (auto intro!: exI[of _ "[]"])
  next
    case False
    then have w: "kv_walk t key prev cur fuel = kv_walk t key cur (next_idx (pool_mem t ! x)) n"
      using u x(1) n(1) by (simp add: kv_walk.simps[of t key prev] get_kv_entry_def)
    note IH = Cons.IH[OF x(3) Cons.prems(2) n(2), of cur]
    show ?thesis
    proof (cases "\<exists>y \<in> set xs. entry_key t y = take (unat (key_size t)) key")
      case ex: True
      then obtain ys y zs where y: "xs = ys @ y # zs" "entry_key t y = take (unat (key_size t)) key"
        "\<forall>z \<in> set ys. entry_key t z \<noteq> take (unat (key_size t)) key"
        "kv_walk t key cur (next_idx (pool_mem t ! x)) n = Found (if ys = [] then cur else of_nat (last ys)) y"
        using IH by auto
      have "xs = ys @ y # zs \<Longrightarrow> x # xs = (x # ys) @ y # zs" by simp
      then have "\<exists>ys' y zs. x # xs = ys' @ y # zs \<and> entry_key t y = take (unat (key_size t)) key
          \<and> (\<forall>z \<in> set ys'. entry_key t z \<noteq> take (unat (key_size t)) key)
          \<and> kv_walk t key prev cur fuel = Found (if ys' = [] then prev else of_nat (last ys')) y"
        using y False w x(1) by (intro exI[of _ "x # ys"] exI[of _ y] exI[of _ zs]) auto
      then show ?thesis using ex by auto
    next
      case none: False
      then show ?thesis using IH False w by simp
    qed
  qed
qed

lemma kv_repD:
  assumes "kv_rep t ch"
  shows "kv_shape t" "distinct (kv_free t)" "set (kv_free t) \<inter> used_idx t ch = {}"
    "set (kv_free t) \<union> used_idx t ch = {..<unat (kv_capacity t)}" "inj_on (entry_key t) (used_idx t ch)"
    "unat (kv_used_count t) = card (used_idx t ch)"
    "\<And>b. b < unat (bucket_count t) \<Longrightarrow> is_chain t (first_idx (kv_buckets t ! b)) (ch b)"
    "\<And>b. b < unat (bucket_count t) \<Longrightarrow> distinct (ch b)"
    "\<And>b x. b < unat (bucket_count t) \<Longrightarrow> x \<in> set (ch b) \<Longrightarrow> bucket_of t (entry_key t x) = b"
  using assms by (auto simp: kv_rep_def)

lemma used_bucket: "kv_rep t ch \<Longrightarrow> x \<in> used_idx t ch \<Longrightarrow> x \<in> set (ch (bucket_of t (entry_key t x)))"
  using kv_repD(9)[of t ch] by (auto simp: used_idx_def)

lemma chain_used: "b < unat (bucket_count t) \<Longrightarrow> x \<in> set (ch b) \<Longrightarrow> x \<in> used_idx t ch"
  by (auto simp: used_idx_def)

lemma used_less: "kv_rep t ch \<Longrightarrow> x \<in> used_idx t ch \<Longrightarrow> x < unat (kv_capacity t)"
  using kv_repD(4)[of t ch] by blast

lemma entry_key_length: "kv_shape t \<Longrightarrow> x < unat (kv_capacity t) \<Longrightarrow> length (entry_key t x) = unat (key_size t)"
  by (simp add: kv_shape_def entry_key_def)

lemma kv_find_spec:
  assumes "kv_rep t ch" "length k = unat (key_size t)"
  shows "(\<exists>ys x zs. ch (bucket_of t k) = ys @ x # zs \<and> entry_key t x = k \<and> x \<in> used_idx t ch
        \<and> kv_find t k = Found (if ys = [] then KV_INVALID_IDX else of_nat (last ys)) x)
      \<or> kv_find t k = Missing \<and> (\<forall>x \<in> used_idx t ch. entry_key t x \<noteq> k)"
proof -
  let ?b = "bucket_of t k"
  have b: "?b < unat (bucket_count t)" using bucket_of_less kv_repD(1)[OF assms(1)] by blast
  have l: "length (pool_mem t) = unat (kv_capacity t)" using kv_repD(1)[OF assms(1)] by (simp add: kv_shape_def)
  have "set (ch ?b) \<subseteq> {..<unat (kv_capacity t)}" using used_less[OF assms(1)] chain_used[OF b] by blast
  then have "length (ch ?b) \<le> unat (kv_capacity t)"
    using card_mono[of "{..<unat (kv_capacity t)}" "set (ch ?b)"] distinct_card[OF kv_repD(8)[OF assms(1) b]] by simp
  note w = kv_walk_spec[OF kv_repD(7)[OF assms(1) b] l this[folded l], of k KV_INVALID_IDX]
  have k: "take (unat (key_size t)) k = k" using assms(2) by simp
  show ?thesis
  proof (cases "\<exists>x \<in> set (ch ?b). entry_key t x = k")
    case True
    then obtain ys x zs where x: "ch ?b = ys @ x # zs" "entry_key t x = k"
      "kv_walk t k KV_INVALID_IDX (first_idx (kv_buckets t ! ?b)) (length (pool_mem t)) = Found (if ys = [] then KV_INVALID_IDX else of_nat (last ys)) x"
      using w k by auto
    moreover have "x \<in> used_idx t ch" using x(1) by (intro chain_used[OF b]) simp
    ultimately show ?thesis unfolding kv_find_def by blast
  next
    case False
    then have "entry_key t x \<noteq> k" if "x \<in> used_idx t ch" for x
      using used_bucket[OF assms(1) that] by auto
    moreover have "kv_find t k = Missing" using w k False by (simp add: kv_find_def)
    ultimately show ?thesis by blast
  qed
qed

lemma kv_view_iff:
  assumes "kv_rep t ch"
  shows "kv_view t k = Some v \<longleftrightarrow> (\<exists>x \<in> used_idx t ch. entry_key t x = k \<and> entry_val t x = v)"
proof (cases "length k = unat (key_size t)")
  case True
  consider (hit) ys x where "kv_find t k = Found (if ys = [] then KV_INVALID_IDX else of_nat (last ys)) x" "entry_key t x = k" "x \<in> used_idx t ch"
    | (miss) "kv_find t k = Missing" "\<forall>x \<in> used_idx t ch. entry_key t x \<noteq> k"
    using kv_find_spec[OF assms True] by blast
  then show ?thesis
  proof cases
    case hit
    then have "y = x" if "y \<in> used_idx t ch" "entry_key t y = k" for y
      using inj_onD[OF kv_repD(5)[OF assms], of y x] that by simp
    then have "(\<exists>y \<in> used_idx t ch. entry_key t y = k \<and> entry_val t y = v) \<longleftrightarrow> entry_val t x = v"
      using hit(2,3) by blast
    moreover have "kv_view t k = Some (entry_val t x)" using hit(1) True by (simp add: kv_view_def)
    ultimately show ?thesis by simp
  next
    case miss
    then have "kv_view t k = None" using True by (simp add: kv_view_def)
    then show ?thesis using miss(2) by simp
  qed
next
  case False
  then have "entry_key t x \<noteq> k" if "x \<in> used_idx t ch" for x
    using entry_key_length[OF kv_repD(1)[OF assms] used_less[OF assms that]] by auto
  then show ?thesis using False by (auto simp: kv_view_def)
qed

lemma kv_view_eqI:
  assumes "kv_rep t ch" "\<And>x. x \<in> used_idx t ch \<Longrightarrow> m (entry_key t x) = Some (entry_val t x)"
    and "\<And>k v. m k = Some v \<Longrightarrow> \<exists>x \<in> used_idx t ch. entry_key t x = k"
  shows "kv_view t = m"
proof
  fix k
  show "kv_view t k = m k"
  proof (cases "m k")
    case None
    then have "kv_view t k \<noteq> Some v" for v using kv_view_iff[OF assms(1), of k v] assms(2) by auto
    then show ?thesis using None by (metis not_Some_eq)
  next
    case (Some v)
    then obtain x where "x \<in> used_idx t ch" "entry_key t x = k" using assms(3) by blast
    then show ?thesis using kv_view_iff[OF assms(1), of k v] assms(2)[of x] Some by auto
  qed
qed

lemma kv_dom: "kv_rep t ch \<Longrightarrow> dom (kv_view t) = entry_key t ` used_idx t ch"
  using kv_view_iff[of t ch] by (fastforce simp: dom_def)

lemma kv_card: "kv_rep t ch \<Longrightarrow> card (dom (kv_view t)) = unat (kv_used_count t) \<and> finite (dom (kv_view t))"
  using kv_repD(5,6)[of t ch] kv_dom[of t ch] by (simp add: card_image used_idx_def)

lemma kv_free_card: "kv_rep t ch \<Longrightarrow> length (kv_free t) + unat (kv_used_count t) = unat (kv_capacity t)"
proof -
  assume r: "kv_rep t ch"
  have "card (set (kv_free t) \<union> used_idx t ch) = card (set (kv_free t)) + card (used_idx t ch)"
    using kv_repD(3)[OF r] by (intro card_Un_disjoint) (auto simp: used_idx_def)
  then show ?thesis using kv_repD(4,6)[OF r] distinct_card[OF kv_repD(2)[OF r]] by simp
qed

section \<open>Effect of the operations on the representation\<close>

lemma is_chain_cong:
  assumes "length (pool_mem t') = length (pool_mem t)" "\<And>x. x \<in> set xs \<Longrightarrow> next_idx (pool_mem t' ! x) = next_idx (pool_mem t ! x)"
  shows "is_chain t' i xs = is_chain t i xs"
  using assms(2) by (induction xs arbitrary: i) (simp_all add: assms(1))

lemma upd_kv_simps [simp]:
  "key_size (upd_kv i f t) = key_size t" "max_val_size (upd_kv i f t) = max_val_size t" "kv_capacity (upd_kv i f t) = kv_capacity t"
  "kv_buckets (upd_kv i f t) = kv_buckets t" "bucket_count (upd_kv i f t) = bucket_count t" "kv_free (upd_kv i f t) = kv_free t"
  "kv_free_stack (upd_kv i f t) = kv_free_stack t" "kv_free_top (upd_kv i f t) = kv_free_top t"
  "kv_used_count (upd_kv i f t) = kv_used_count t" "length (pool_mem (upd_kv i f t)) = length (pool_mem t)"
  "bucket_of (upd_kv i f t) = bucket_of t"
  by (auto simp: upd_kv_def kv_free_def bucket_of_def fun_eq_iff)

lemma upd_kv_nth: "i < length (pool_mem t) \<Longrightarrow> pool_mem (upd_kv i f t) ! x = (if x = i then f (pool_mem t ! i) else pool_mem t ! x)"
  by (simp add: upd_kv_def nth_list_update)

text \<open>Rewriting an entry without touching its key and its link.\<close>

lemma kv_rep_upd:
  assumes r: "kv_rep t ch" and i: "i < length (pool_mem t)"
    and f: "next_idx (f (pool_mem t ! i)) = next_idx (pool_mem t ! i)"
      "take (unat (key_size t)) (kv_data (f (pool_mem t ! i))) = entry_key t i"
      "length (kv_data (f (pool_mem t ! i))) = length (kv_data (pool_mem t ! i))" "val_len (f (pool_mem t ! i)) \<le> max_val_size t"
  shows "kv_rep (upd_kv i f t) ch" "entry_key (upd_kv i f t) = entry_key t"
    "\<And>x. x \<noteq> i \<Longrightarrow> entry_val (upd_kv i f t) x = entry_val t x"
proof -
  let ?t = "upd_kv i f t"
  show k: "entry_key ?t = entry_key t" using i f(2) by (auto simp: entry_key_def upd_kv_nth fun_eq_iff)
  show "entry_val ?t x = entry_val t x" if "x \<noteq> i" for x using i that by (simp add: entry_val_def upd_kv_nth)
  have sh: "kv_shape ?t" using kv_repD(1)[OF r] i f(3,4) by (auto simp: kv_shape_def upd_kv_nth)
  have ch: "is_chain ?t j (ch b) = is_chain t j (ch b)" for j b using i f(1) by (intro is_chain_cong) (auto simp: upd_kv_nth)
  have us: "used_idx ?t ch = used_idx t ch" by (simp add: used_idx_def)
  show "kv_rep ?t ch"
    using r sh unfolding kv_rep_def k us upd_kv_simps ch by (elim conjE) (intro conjI; assumption)
qed

lemma kv_view_upd:
  assumes r: "kv_rep t ch" and i: "i \<in> used_idx t ch"
    and f: "next_idx (f (pool_mem t ! i)) = next_idx (pool_mem t ! i)"
      "take (unat (key_size t)) (kv_data (f (pool_mem t ! i))) = entry_key t i"
      "length (kv_data (f (pool_mem t ! i))) = length (kv_data (pool_mem t ! i))" "val_len (f (pool_mem t ! i)) \<le> max_val_size t"
  shows "kv_rep (upd_kv i f t) ch"
    "kv_view (upd_kv i f t) = (kv_view t)(entry_key t i \<mapsto> entry_val (upd_kv i f t) i)"
proof -
  have l: "i < length (pool_mem t)" using used_less[OF r i] kv_repD(1)[OF r] by (simp add: kv_shape_def)
  note u = kv_rep_upd[where f = f, OF r l f]
  show rep: "kv_rep (upd_kv i f t) ch" by (rule u(1))
  have us: "used_idx (upd_kv i f t) ch = used_idx t ch" by (simp add: used_idx_def)
  show "kv_view (upd_kv i f t) = (kv_view t)(entry_key t i \<mapsto> entry_val (upd_kv i f t) i)"
  proof (rule kv_view_eqI[OF rep])
    fix x assume x: "x \<in> used_idx (upd_kv i f t) ch"
    show "((kv_view t)(entry_key t i \<mapsto> entry_val (upd_kv i f t) i)) (entry_key (upd_kv i f t) x) = Some (entry_val (upd_kv i f t) x)"
    proof (cases "x = i")
      case False
      then have "entry_key t x \<noteq> entry_key t i" using inj_onD[OF kv_repD(5)[OF r], of x i] x i us by auto
      moreover have "kv_view t (entry_key t x) = Some (entry_val t x)" using kv_view_iff[OF r] x us by blast
      ultimately show ?thesis using u(2) u(3)[OF False] by simp
    qed (simp add: u(2))
  next
    fix k v assume kv: "((kv_view t)(entry_key t i \<mapsto> entry_val (upd_kv i f t) i)) k = Some v"
    show "\<exists>x \<in> used_idx (upd_kv i f t) ch. entry_key (upd_kv i f t) x = k"
    proof (cases "k = entry_key t i")
      case True
      then show ?thesis unfolding us u(2) using i by blast
    next
      case False
      then have "kv_view t k = Some v" using kv by simp
      then show ?thesis unfolding us u(2) using kv_view_iff[OF r] by blast
    qed
  qed
qed

lemma take_write_beyond: "n \<le> off \<Longrightarrow> take n (write_bytes bs off vs) = take n bs"
  by (rule nth_equalityI) (auto simp: write_bytes_def)

lemma take_write_exact:
  "off + length vs \<le> length bs \<Longrightarrow> take (length vs) (drop off (write_bytes bs off vs)) = vs"
  by (rule nth_equalityI) (auto simp: write_bytes_def)

lemma write_val_ok:
  assumes "kv_shape t" "i < length (pool_mem t)" "len \<le> max_val_size t" "\<forall>v. val = Some v \<longrightarrow> unat len \<le> length v"
  defines "f \<equiv> write_val (key_size t) val len"
  shows "next_idx (f (pool_mem t ! i)) = next_idx (pool_mem t ! i)"
    "take (unat (key_size t)) (kv_data (f (pool_mem t ! i))) = entry_key t i"
    "length (kv_data (f (pool_mem t ! i))) = length (kv_data (pool_mem t ! i))" "val_len (f (pool_mem t ! i)) \<le> max_val_size t"
    "val = Some v \<Longrightarrow> entry_val (upd_kv i f t) i = take (unat len) v"
proof -
  have len: "unat len \<le> unat (max_val_size t)" using assms(3) by (simp add: word_le_nat_alt)
  show "next_idx (f (pool_mem t ! i)) = next_idx (pool_mem t ! i)" "val_len (f (pool_mem t ! i)) \<le> max_val_size t"
    "take (unat (key_size t)) (kv_data (f (pool_mem t ! i))) = entry_key t i"
    "length (kv_data (f (pool_mem t ! i))) = length (kv_data (pool_mem t ! i))"
    using assms(3) by (simp_all add: f_def write_val_def entry_key_def take_write_beyond split: option.splits)
  assume v: "val = Some v"
  have "unat (key_size t) + length (take (unat len) v) \<le> length (kv_data (pool_mem t ! i))"
    using assms(1,2) len assms(4)[rule_format, OF v] by (simp add: kv_shape_def)
  from take_write_exact[OF this] show "entry_val (upd_kv i f t) i = take (unat len) v"
    using assms(4)[rule_format, OF v] assms(2) v by (simp add: entry_val_def upd_kv_nth f_def write_val_def min_absorb2)
qed

subsection \<open>The free stack is an index pool\<close>

definition kv_free_ok :: "nat \<Rightarrow> nos_kv_table_t \<Rightarrow> bool" where
  "kv_free_ok n t \<longleftrightarrow> length (kv_free_stack t) = n \<and> stack_ok (kv_free_stack t) (kv_free_top t)
     \<and> distinct (kv_free t) \<and> set (kv_free t) \<subseteq> {..<n}"

lemma kv_pop_some:
  assumes "kv_free_ok n t" "kv_free t \<noteq> []"
  shows "\<exists>i. kv_pop t = Some (i, t\<lparr>kv_free_top := kv_free_top t - 1\<rparr>)
    \<and> kv_free_ok n (t\<lparr>kv_free_top := kv_free_top t - 1\<rparr>) \<and> kv_free t = kv_free (t\<lparr>kv_free_top := kv_free_top t - 1\<rparr>) @ [i]"
proof -
  have ok: "stack_ok (kv_free_stack t) (kv_free_top t)" using assms(1) by (simp add: kv_free_ok_def)
  have top: "0 \<le> kv_free_top t" using assms(2) stack_items_empty_iff[OF ok] by (simp add: kv_free_def)
  note p = stack_pop[OF ok top]
  have f: "kv_free t = kv_free (t\<lparr>kv_free_top := kv_free_top t - 1\<rparr>) @ [kv_free_stack t ! nat (kv_free_top t)]"
    using p(1) by (simp add: kv_free_def)
  have "kv_free_ok n (t\<lparr>kv_free_top := kv_free_top t - 1\<rparr>)"
    using assms(1) p(2) f unfolding kv_free_ok_def by simp
  then show ?thesis using f top by (simp add: kv_pop_def)
qed

lemma kv_push_ok:
  assumes "kv_free_ok n t" "i < n" "i \<notin> set (kv_free t)"
  shows "kv_free_ok n (kv_push i t) \<and> kv_free (kv_push i t) = kv_free t @ [i]"
proof -
  have ok: "stack_ok (kv_free_stack t) (kv_free_top t)" "length (kv_free_stack t) = n" using assms(1) by (auto simp: kv_free_ok_def)
  have "card (set (kv_free t)) < n"
    using psubset_card_mono[of "{..<n}" "set (kv_free t)"] assms by (auto simp: kv_free_ok_def)
  then have "length (kv_free t) < n" using assms(1) by (simp add: kv_free_ok_def distinct_card)
  then have "kv_free_top t + 1 < int (length (kv_free_stack t))"
    using length_stack_items[OF ok(1)] ok(2) by (simp add: kv_free_def)
  note q = stack_push[OF ok(1) this, of i]
  show ?thesis using assms q by (auto simp: kv_free_ok_def kv_push_def kv_free_def)
qed

interpretation kv_pool: index_pool n "kv_free_ok n" kv_free kv_pop kv_push for n
proof unfold_locales
  fix t :: nos_kv_table_t and i
  assume ok: "kv_free_ok n t"
  then show "distinct (kv_free t) \<and> set (kv_free t) \<subseteq> {..<n}" by (simp add: kv_free_ok_def)
  show "kv_free t = [] \<Longrightarrow> kv_pop t = None"
    using ok stack_items_empty_iff[of "kv_free_stack t" "kv_free_top t"] by (simp add: kv_free_ok_def kv_free_def kv_pop_def)
  show "kv_free t \<noteq> [] \<Longrightarrow> \<exists>i t'. kv_pop t = Some (i, t') \<and> kv_free_ok n t' \<and> kv_free t = kv_free t' @ [i]"
    using kv_pop_some[OF ok] by blast
  show "i < n \<Longrightarrow> i \<notin> set (kv_free t) \<Longrightarrow> kv_free_ok n (kv_push i t) \<and> kv_free (kv_push i t) = kv_free t @ [i]"
    using kv_push_ok[OF ok] by blast
qed

lemma kv_rep_free_ok: "kv_rep t ch \<Longrightarrow> kv_free_ok (unat (kv_capacity t)) t"
  using kv_repD(1,2,4)[of t ch] by (auto simp: kv_free_ok_def kv_shape_def)

subsection \<open>Insertion\<close>

lemma kv_insert_facts:
  assumes "i < length (pool_mem t)" "b < length (kv_buckets t)"
  shows "pool_mem (kv_insert b k val len i t) ! x = (if x = i then
        (write_val (key_size t) val len ((pool_mem t ! i)\<lparr>kv_data := write_bytes (kv_data (pool_mem t ! i)) 0 (take (unat (key_size t)) k)\<rparr>))
          \<lparr>sub_list := [], next_idx := first_idx (kv_buckets t ! b)\<rparr> else pool_mem t ! x)"
    "first_idx (kv_buckets (kv_insert b k val len i t) ! c) = (if c = b then of_nat i else first_idx (kv_buckets t ! c))"
    "key_size (kv_insert b k val len i t) = key_size t" "max_val_size (kv_insert b k val len i t) = max_val_size t"
    "kv_capacity (kv_insert b k val len i t) = kv_capacity t" "bucket_count (kv_insert b k val len i t) = bucket_count t"
    "length (pool_mem (kv_insert b k val len i t)) = length (pool_mem t)" "length (kv_buckets (kv_insert b k val len i t)) = length (kv_buckets t)"
    "kv_free_stack (kv_insert b k val len i t) = kv_free_stack t" "kv_free_top (kv_insert b k val len i t) = kv_free_top t"
    "kv_used_count (kv_insert b k val len i t) = kv_used_count t + 1"
  using assms by (simp_all add: kv_insert_def Let_def upd_kv_def upd_bucket_def nth_list_update)

lemma kv_insert_rep:
  assumes r: "kv_rep t ch" and k: "length k = unat (key_size t)" and new: "\<And>x. x \<in> used_idx t ch \<Longrightarrow> entry_key t x \<noteq> k"
    and pop: "kv_pop t = Some (i, t1)" and len: "len \<le> max_val_size t" and v: "unat len \<le> length v"
  defines "b \<equiv> bucket_of t k"
  shows "kv_rep (kv_insert b k (Some v) len i t1) (ch(b := i # ch b))"
    "kv_view (kv_insert b k (Some v) len i t1) = (kv_view t)(k \<mapsto> take (unat len) v)"
    "kv_capacity (kv_insert b k (Some v) len i t1) = kv_capacity t" "key_size (kv_insert b k (Some v) len i t1) = key_size t"
    "max_val_size (kv_insert b k (Some v) len i t1) = max_val_size t"
proof -
  let ?t = "kv_insert b k (Some v) len i t1" and ?ch = "ch(b := i # ch b)"
  have ne: "kv_free t \<noteq> []"
    using pop stack_items_empty_iff[of "kv_free_stack t" "kv_free_top t"] kv_repD(1)[OF r]
    by (auto simp: kv_free_def kv_pop_def kv_shape_def split: if_splits)
  have t1: "t1 = t\<lparr>kv_free_top := kv_free_top t - 1\<rparr>" "kv_free t = kv_free t1 @ [i]" "kv_free_ok (unat (kv_capacity t)) t1"
    using kv_pop_some[OF kv_rep_free_ok[OF r] ne] pop by auto
  have sh: "length (pool_mem t) = unat (kv_capacity t)" "length (kv_buckets t) = unat (bucket_count t)" using kv_repD(1)[OF r] by (auto simp: kv_shape_def)
  have b: "b < unat (bucket_count t)" using bucket_of_less[OF kv_repD(1)[OF r]] by (simp add: b_def)
  have i: "i < length (pool_mem t)" "i \<notin> used_idx t ch" "i \<notin> set (kv_free t1)"
    using kv_repD(2,3,4)[OF r] t1(2) sh(1) by auto
  have i1: "i < length (pool_mem t1)" "b < length (kv_buckets t1)" using i b sh t1(1) by simp_all
  have tt: "pool_mem t1 = pool_mem t" "key_size t1 = key_size t" "max_val_size t1 = max_val_size t" "kv_capacity t1 = kv_capacity t"
    "bucket_count t1 = bucket_count t" "kv_buckets t1 = kv_buckets t" "kv_free_stack t1 = kv_free_stack t" "kv_used_count t1 = kv_used_count t"
    using t1(1) by simp_all
  note f = kv_insert_facts[OF i1, of k "Some v" len, unfolded tt]
  let ?e = "write_val (key_size t) (Some v) len ((pool_mem t ! i)\<lparr>kv_data := write_bytes (kv_data (pool_mem t ! i)) 0 (take (unat (key_size t)) k)\<rparr>)"
  have dl: "length (kv_data (pool_mem t ! i)) = unat (key_size t) + unat (max_val_size t)" using kv_repD(1)[OF r] i(1) by (simp add: kv_shape_def)
  have ln: "unat len \<le> unat (max_val_size t)" using len by (simp add: word_le_nat_alt)
  have kd: "take (unat (key_size t)) (kv_data ?e) = k"
    using take_write_exact[of 0 k "kv_data (pool_mem t ! i)"] dl k by (simp add: write_val_def take_write_beyond)
  have vd: "take (unat len) (drop (unat (key_size t)) (kv_data ?e)) = take (unat len) v"
    using take_write_exact[of "unat (key_size t)" "take (unat len) v" "write_bytes (kv_data (pool_mem t ! i)) 0 (take (unat (key_size t)) k)"] dl ln v
    by (simp add: write_val_def min_absorb2)
  have key: "entry_key ?t x = (if x = i then k else entry_key t x)" for x
    using f(1)[of x] f(3) kd by (simp add: entry_key_def)
  have val: "entry_val ?t x = (if x = i then take (unat len) v else entry_val t x)" for x
    using f(1)[of x] f(3) vd by (simp add: entry_val_def write_val_def)
  have bo: "bucket_of ?t = bucket_of t" using f(3,6) by (simp add: bucket_of_def fun_eq_iff)
  have us: "used_idx ?t ?ch = insert i (used_idx t ch)" using b f(6) by (auto simp: used_idx_def split: if_splits)
  have old: "x \<noteq> i" if "x \<in> used_idx t ch" for x using that i(2) by blast
  have chain: "is_chain ?t j (ch c) = is_chain t j (ch c)" if "c < unat (bucket_count t)" for c j
    using f(1,7) old chain_used[OF that] by (intro is_chain_cong) auto
  have shape: "kv_shape ?t"
    using kv_repD(1)[OF r] t1(3) tt(7) len f dl unfolding kv_shape_def kv_free_ok_def by (auto simp: write_val_def)
  have fr: "kv_free ?t = kv_free t1" using f(9,10) t1(1) by (simp add: kv_free_def)
  have cnt: "unat (kv_used_count t + 1) = unat (kv_used_count t) + 1"
  proof -
    have "unat (kv_used_count t) < unat (kv_capacity t)" using kv_free_card[OF r] t1(2) by simp
    then show ?thesis by (rule unat_inc)
  qed
  have fin: "finite (used_idx t ch)" by (simp add: used_idx_def)
  have ni: "(of_nat i :: u32) = of_nat i \<and> i < length (pool_mem ?t)" using i(1) f(7) by simp
  show rep: "kv_rep ?t ?ch"
    unfolding kv_rep_def
  proof (intro conjI allI impI)
    show "kv_shape ?t" by (fact shape)
    fix c assume "c < unat (bucket_count ?t)"
    then have c: "c < unat (bucket_count t)" using f(6) by simp
    show "is_chain ?t (first_idx (kv_buckets ?t ! c)) (?ch c)"
      using f(1)[of i] f(2)[of c] f(7) kv_repD(7)[OF r c] chain[OF c] i(1) by auto
    show "distinct (?ch c)" using kv_repD(8)[OF r c] i(2) chain_used[OF c] by auto
    show "\<forall>x \<in> set (?ch c). bucket_of ?t (entry_key ?t x) = c"
      using kv_repD(9)[OF r c] key old chain_used[OF c] bo by (auto simp: b_def)
  next
    show "distinct (kv_free ?t)" using fr kv_repD(2)[OF r] t1(2) by simp
    show "set (kv_free ?t) \<inter> used_idx ?t ?ch = {}" using fr us i(3) kv_repD(3)[OF r] t1(2) by auto
    show "set (kv_free ?t) \<union> used_idx ?t ?ch = {..<unat (kv_capacity ?t)}" using fr us f(5) kv_repD(4)[OF r] t1(2) by auto
    show "inj_on (entry_key ?t) (used_idx ?t ?ch)"
      unfolding us
    proof (rule inj_onI)
      fix x y assume xy: "x \<in> insert i (used_idx t ch)" "y \<in> insert i (used_idx t ch)" "entry_key ?t x = entry_key ?t y"
      then show "x = y" using new inj_onD[OF kv_repD(5)[OF r], of x y] by (auto simp: key split: if_splits dest: new)
    qed
    show "unat (kv_used_count ?t) = card (used_idx ?t ?ch)"
      using f(11) cnt us kv_repD(6)[OF r] fin i(2) t1(1) by simp
  qed
  show "kv_capacity ?t = kv_capacity t" "key_size ?t = key_size t" "max_val_size ?t = max_val_size t" using f by simp_all
  show "kv_view ?t = (kv_view t)(k \<mapsto> take (unat len) v)"
  proof (rule kv_view_eqI[OF rep])
    fix x assume "x \<in> used_idx ?t ?ch"
    then consider "x = i" | "x \<in> used_idx t ch" "x \<noteq> i" using us by auto
    then show "((kv_view t)(k \<mapsto> take (unat len) v)) (entry_key ?t x) = Some (entry_val ?t x)"
    proof cases
      case 2
      then have "kv_view t (entry_key t x) = Some (entry_val t x)" using kv_view_iff[OF r] by blast
      then show ?thesis using 2 new key val by simp
    qed (simp add: key val)
  next
    fix k' v' assume kv: "((kv_view t)(k \<mapsto> take (unat len) v)) k' = Some v'"
    show "\<exists>x \<in> used_idx ?t ?ch. entry_key ?t x = k'"
    proof (cases "k' = k")
      case True
      then show ?thesis using us key by (intro bexI[of _ i]) auto
    next
      case False
      then have "kv_view t k' = Some v'" using kv by simp
      then obtain x where "x \<in> used_idx t ch" "entry_key t x = k'" using kv_view_iff[OF r] by blast
      then show ?thesis using us key old by (intro bexI[of _ x]) auto
    qed
  qed
qed

subsection \<open>Deletion\<close>

lemma is_chain_last:
  "is_chain t j (ys @ x # zs) \<Longrightarrow> (if ys = [] then j = of_nat x else next_idx (pool_mem t ! last ys) = of_nat x)
     \<and> x < length (pool_mem t) \<and> is_chain t (next_idx (pool_mem t ! x)) zs"
proof (induction ys arbitrary: j)
  case (Cons y ys)
  have c: "is_chain t (next_idx (pool_mem t ! y)) (ys @ x # zs)" using Cons.prems by simp
  note IH = Cons.IH[OF c]
  show ?case
  proof (cases "ys = []")
    case True
    then show ?thesis using IH by simp
  next
    case False
    then show ?thesis using IH by simp
  qed
qed simp

lemma is_chain_less: "is_chain t j xs \<Longrightarrow> z \<in> set xs \<Longrightarrow> z < length (pool_mem t)"
proof (induction xs arbitrary: j)
  case (Cons x xs)
  then show ?case using Cons.IH[of "next_idx (pool_mem t ! x)"] by (cases "z = x") simp_all
qed simp

lemma chain_unlink:
  assumes "is_chain t j (ys @ x # zs)" "distinct (ys @ x # zs)" "ys \<noteq> []"
  shows "is_chain (upd_kv (last ys) (\<lambda>e. e\<lparr>next_idx := next_idx (pool_mem t ! x)\<rparr>) t) j (ys @ zs)"
  using assms
proof (induction ys arbitrary: j)
  case (Cons y ys)
  let ?t = "\<lambda>l. upd_kv l (\<lambda>e. e\<lparr>next_idx := next_idx (pool_mem t ! x)\<rparr>) t"
  have y: "j = of_nat y" "y < length (pool_mem t)" "is_chain t (next_idx (pool_mem t ! y)) (ys @ x # zs)" using Cons.prems(1) by auto
  show ?case
  proof (cases "ys = []")
    case True
    then have "is_chain t (next_idx (pool_mem t ! x)) zs" using y(3) by simp
    moreover have "is_chain (?t y) (next_idx (pool_mem t ! x)) zs = is_chain t (next_idx (pool_mem t ! x)) zs"
      using Cons.prems(2) y(2) by (intro is_chain_cong) (auto simp: upd_kv_nth)
    ultimately show ?thesis using True y by (simp add: upd_kv_nth)
  next
    case False
    have l: "last ys \<noteq> y" "last ys < length (pool_mem t)"
    proof -
      show "last ys \<noteq> y" using Cons.prems(2) False last_in_set[OF False] by auto
      show "last ys < length (pool_mem t)" using is_chain_less[OF y(3)] last_in_set[OF False] by simp
    qed
    then show ?thesis using Cons.IH[OF y(3)] Cons.prems(2) False y by (simp add: upd_kv_nth)
  qed
qed simp

definition del_result :: "nat \<Rightarrow> u32 \<Rightarrow> nat \<Rightarrow> nos_kv_table_t \<Rightarrow> nos_kv_table_t" where
  "del_result b prev i t =
    (let t2 = kv_push i (upd_kv i (\<lambda>e. e\<lparr>sub_list := []\<rparr>) (kv_unlink b prev i t))
     in t2\<lparr>kv_used_count := kv_used_count t2 - 1\<rparr>)"

lemma kv_unlink_simps [simp]:
  "key_size (kv_unlink b p i t) = key_size t" "max_val_size (kv_unlink b p i t) = max_val_size t"
  "kv_capacity (kv_unlink b p i t) = kv_capacity t" "bucket_count (kv_unlink b p i t) = bucket_count t"
  "length (pool_mem (kv_unlink b p i t)) = length (pool_mem t)" "length (kv_buckets (kv_unlink b p i t)) = length (kv_buckets t)"
  "kv_free_stack (kv_unlink b p i t) = kv_free_stack t" "kv_free_top (kv_unlink b p i t) = kv_free_top t"
  "kv_used_count (kv_unlink b p i t) = kv_used_count t"
  by (simp_all add: kv_unlink_def Let_def upd_bucket_def)

lemma kv_push_simps [simp]:
  "key_size (kv_push i t) = key_size t" "max_val_size (kv_push i t) = max_val_size t" "kv_capacity (kv_push i t) = kv_capacity t"
  "bucket_count (kv_push i t) = bucket_count t" "pool_mem (kv_push i t) = pool_mem t" "kv_buckets (kv_push i t) = kv_buckets t"
  "kv_used_count (kv_push i t) = kv_used_count t"
  by (simp_all add: kv_push_def)

lemma kv_unlink_nth:
  assumes "p \<noteq> KV_INVALID_IDX \<longrightarrow> unat p < length (pool_mem t)" "b < length (kv_buckets t)"
  shows "next_idx (pool_mem (kv_unlink b p i t) ! x) =
      (if p \<noteq> KV_INVALID_IDX \<and> x = unat p then next_idx (pool_mem t ! i) else next_idx (pool_mem t ! x))"
    "kv_data (pool_mem (kv_unlink b p i t) ! x) = kv_data (pool_mem t ! x)"
    "val_len (pool_mem (kv_unlink b p i t) ! x) = val_len (pool_mem t ! x)"
    "first_idx (kv_buckets (kv_unlink b p i t) ! c) =
      (if p = KV_INVALID_IDX \<and> c = b then next_idx (pool_mem t ! i) else first_idx (kv_buckets t ! c))"
  using assms by (auto simp: kv_unlink_def Let_def upd_bucket_def upd_kv_nth get_kv_entry_def nth_list_update)

lemma del_result_nth:
  assumes "i < length (pool_mem t)"
  shows "next_idx (pool_mem (del_result b p i t) ! x) = next_idx (pool_mem (kv_unlink b p i t) ! x)"
    "kv_data (pool_mem (del_result b p i t) ! x) = kv_data (pool_mem (kv_unlink b p i t) ! x)"
    "val_len (pool_mem (del_result b p i t) ! x) = val_len (pool_mem (kv_unlink b p i t) ! x)"
    "kv_buckets (del_result b p i t) = kv_buckets (kv_unlink b p i t)"
  using assms by (simp_all add: del_result_def Let_def upd_kv_nth)

lemma del_result_facts:
  assumes "p \<noteq> KV_INVALID_IDX \<longrightarrow> unat p < length (pool_mem t)" "b < length (kv_buckets t)" "i < length (pool_mem t)"
  shows "next_idx (pool_mem (del_result b p i t) ! x) =
      (if p \<noteq> KV_INVALID_IDX \<and> x = unat p then next_idx (pool_mem t ! i) else next_idx (pool_mem t ! x))"
    "kv_data (pool_mem (del_result b p i t) ! x) = kv_data (pool_mem t ! x)"
    "val_len (pool_mem (del_result b p i t) ! x) = val_len (pool_mem t ! x)"
    "first_idx (kv_buckets (del_result b p i t) ! c) =
      (if p = KV_INVALID_IDX \<and> c = b then next_idx (pool_mem t ! i) else first_idx (kv_buckets t ! c))"
    "key_size (del_result b p i t) = key_size t" "max_val_size (del_result b p i t) = max_val_size t"
    "kv_capacity (del_result b p i t) = kv_capacity t" "bucket_count (del_result b p i t) = bucket_count t"
    "length (pool_mem (del_result b p i t)) = length (pool_mem t)" "length (kv_buckets (del_result b p i t)) = length (kv_buckets t)"
    "kv_used_count (del_result b p i t) = kv_used_count t - 1"
    "kv_free_stack (del_result b p i t) = kv_free_stack (kv_push i t)" "kv_free_top (del_result b p i t) = kv_free_top (kv_push i t)"
  by (simp_all only: del_result_nth[OF assms(3)] kv_unlink_nth[OF assms(1,2)])
    (simp_all add: del_result_def Let_def kv_push_def)

lemma kv_delete_rep:
  assumes r: "kv_rep t ch" and b: "b < unat (bucket_count t)" and c: "ch b = ys @ i # zs"
  defines "p \<equiv> if ys = [] then KV_INVALID_IDX else of_nat (last ys)"
  shows "kv_rep (del_result b p i t) (ch(b := ys @ zs))"
    "kv_view (del_result b p i t) = (kv_view t)(entry_key t i := None)"
    "kv_capacity (del_result b p i t) = kv_capacity t" "key_size (del_result b p i t) = key_size t"
    "max_val_size (del_result b p i t) = max_val_size t"
proof -
  let ?t = "del_result b p i t" and ?ch = "ch(b := ys @ zs)"
  have sh: "length (pool_mem t) = unat (kv_capacity t)" "length (kv_buckets t) = unat (bucket_count t)"
    using kv_repD(1)[OF r] by (auto simp: kv_shape_def)
  have i: "i \<in> used_idx t ch" using c by (intro chain_used[OF b]) simp
  have il: "i < length (pool_mem t)" using used_less[OF r i] sh(1) by simp
  have d: "distinct (ys @ i # zs)" using kv_repD(8)[OF r b] c by simp
  have ll: "last ys < unat (kv_capacity t)" if "ys \<noteq> []"
  proof -
    have "last ys \<in> set (ch b)" using last_in_set[OF that] c by simp
    then show ?thesis using used_less[OF r chain_used[OF b]] by blast
  qed
  have p: "p \<noteq> KV_INVALID_IDX \<longleftrightarrow> ys \<noteq> []" "ys \<noteq> [] \<Longrightarrow> unat p = last ys"
    using idx_not_invalid[OF ll] by (auto simp: p_def)
  have pl: "p \<noteq> KV_INVALID_IDX \<longrightarrow> unat p < length (pool_mem t)" using p ll sh(1) by simp
  note f = del_result_facts[OF pl b[folded sh(2)] il]
  have key: "entry_key ?t = entry_key t" "entry_val ?t = entry_val t" using f(2,3,5) by (auto simp: entry_key_def entry_val_def fun_eq_iff)
  have bo: "bucket_of ?t = bucket_of t" using f(5,8) by (simp add: bucket_of_def fun_eq_iff)
  have dis: "x \<notin> set (ch b)" if "c < unat (bucket_count t)" "c \<noteq> b" "x \<in> set (ch c)" for c x
    using kv_repD(9)[OF r that(1,3)] kv_repD(9)[OF r b, of x] that(2) by auto
  have us: "used_idx ?t ?ch = used_idx t ch - {i}"
  proof -
    have "i \<notin> set (ch cc)" if "cc < unat (bucket_count t)" "cc \<noteq> b" for cc using dis[OF that, of i] c by auto
    then have "set (?ch cc) = set (ch cc) - {i}" if "cc < unat (bucket_count t)" for cc using that c d by (cases "cc = b") auto
    then show ?thesis using f(8) unfolding used_idx_def by simp
  qed
  have nfree: "i \<notin> set (kv_free t)" using kv_repD(3)[OF r] i by blast
  have push: "kv_free_ok (unat (kv_capacity t)) (kv_push i t)" "kv_free (kv_push i t) = kv_free t @ [i]"
    using kv_push_ok[OF kv_rep_free_ok[OF r] _ nfree] used_less[OF r i] by auto
  have fr: "kv_free ?t = kv_free t @ [i]" using push(2) f(12,13) by (simp add: kv_free_def)
  have other: "is_chain ?t j (ch cc) = is_chain t j (ch cc)" if "cc < unat (bucket_count t)" "cc \<noteq> b" for cc j
  proof (rule is_chain_cong[OF f(9)])
    fix x assume "x \<in> set (ch cc)"
    then have "x \<notin> set (ch b)" using dis[OF that] by blast
    then have "ys \<noteq> [] \<Longrightarrow> x \<noteq> last ys" using c last_in_set[of ys] by auto
    then show "next_idx (pool_mem ?t ! x) = next_idx (pool_mem t ! x)" using f(1)[of x] p by auto
  qed
  have "is_chain ?t (first_idx (kv_buckets ?t ! b)) (ys @ zs)"
  proof (cases "ys = []")
    case True
    have "is_chain t (next_idx (pool_mem t ! i)) zs" using is_chain_last[of t _ ys i zs] kv_repD(7)[OF r b] c by auto
    moreover have "is_chain ?t j zs = is_chain t j zs" for j using True p f(1) by (intro is_chain_cong[OF f(9)]) simp
    ultimately show ?thesis using True f(4)[of b] p by simp
  next
    case False
    have "is_chain (upd_kv (last ys) (\<lambda>e. e\<lparr>next_idx := next_idx (pool_mem t ! i)\<rparr>) t) (first_idx (kv_buckets t ! b)) (ys @ zs)"
      using kv_repD(7)[OF r b] c d False by (intro chain_unlink) simp_all
    moreover have "is_chain ?t j (ys @ zs) = is_chain (upd_kv (last ys) (\<lambda>e. e\<lparr>next_idx := next_idx (pool_mem t ! i)\<rparr>) t) j (ys @ zs)" for j
      using False p f(1,9) ll sh(1) by (intro is_chain_cong) (auto simp: upd_kv_nth)
    ultimately show ?thesis using False f(4)[of b] p by simp
  qed
  note chain_b = this
  have shape: "kv_shape ?t"
    using kv_repD(1)[OF r] push(1) f unfolding kv_shape_def kv_free_ok_def by simp
  have fin: "finite (used_idx t ch)" by (simp add: used_idx_def)
  have cnt: "unat (kv_used_count t - 1) = unat (kv_used_count t) - 1"
    using kv_repD(6)[OF r] i fin by (intro unat_dec) (simp add: card_gt_0_iff, blast)
  show rep: "kv_rep ?t ?ch"
    unfolding kv_rep_def
  proof (intro conjI allI impI)
    show "kv_shape ?t" by (fact shape)
    fix cc assume "cc < unat (bucket_count ?t)"
    then have cc: "cc < unat (bucket_count t)" using f(8) by simp
    show "is_chain ?t (first_idx (kv_buckets ?t ! cc)) (?ch cc)"
      using chain_b other[OF cc] f(4)[of cc] kv_repD(7)[OF r cc] by auto
    show "distinct (?ch cc)" using kv_repD(8)[OF r cc] d by auto
    show "\<forall>x \<in> set (?ch cc). bucket_of ?t (entry_key ?t x) = cc"
      using kv_repD(9)[OF r cc] c bo key by auto
  next
    show "distinct (kv_free ?t)" using fr kv_repD(2)[OF r] nfree by simp
    show "set (kv_free ?t) \<inter> used_idx ?t ?ch = {}" using fr us kv_repD(3)[OF r] by auto
    show "set (kv_free ?t) \<union> used_idx ?t ?ch = {..<unat (kv_capacity ?t)}" using fr us f(7) kv_repD(4)[OF r] i by auto
    show "inj_on (entry_key ?t) (used_idx ?t ?ch)" unfolding us key using inj_on_subset[OF kv_repD(5)[OF r]] by blast
    show "unat (kv_used_count ?t) = card (used_idx ?t ?ch)" using f(11) cnt us kv_repD(6)[OF r] fin i by simp
  qed
  show "kv_capacity ?t = kv_capacity t" "key_size ?t = key_size t" "max_val_size ?t = max_val_size t" using f by simp_all
  show "kv_view ?t = (kv_view t)(entry_key t i := None)"
  proof (rule kv_view_eqI[OF rep])
    fix x assume "x \<in> used_idx ?t ?ch"
    then have x: "x \<in> used_idx t ch" "x \<noteq> i" using us by auto
    then have "entry_key t x \<noteq> entry_key t i" using inj_onD[OF kv_repD(5)[OF r], of x i] i by blast
    moreover have "kv_view t (entry_key t x) = Some (entry_val t x)" using kv_view_iff[OF r] x(1) by blast
    ultimately show "((kv_view t)(entry_key t i := None)) (entry_key ?t x) = Some (entry_val ?t x)" by (simp add: key)
  next
    fix k v assume kv: "((kv_view t)(entry_key t i := None)) k = Some v"
    then have "kv_view t k = Some v" "k \<noteq> entry_key t i" by (auto split: if_splits)
    then obtain x where "x \<in> used_idx t ch" "entry_key t x = k" using kv_view_iff[OF r] by blast
    then show "\<exists>x \<in> used_idx ?t ?ch. entry_key ?t x = k"
      using \<open>k \<noteq> entry_key t i\<close> us key by (intro bexI[of _ x]) auto
  qed
qed

subsection \<open>The table is a bounded map\<close>

definition kv_inv :: "u32 \<Rightarrow> u32 \<Rightarrow> u32 \<Rightarrow> nos_kv_table_t \<Rightarrow> bool" where
  "kv_inv ks mv cap t \<longleftrightarrow> kv_ok t \<and> key_size t = ks \<and> max_val_size t = mv \<and> kv_capacity t = cap"

definition kv_put_op :: "u8 list \<Rightarrow> u8 list \<Rightarrow> nos_kv_table_t \<Rightarrow> bool \<times> nos_kv_table_t" where
  "kv_put_op k v t = (case nos_kv_put (Some k) (Some v) (of_nat (length v)) t of (r, calls, t') \<Rightarrow> (r = NOS_OK, t'))"

definition kv_del_op :: "u8 list \<Rightarrow> nos_kv_table_t \<Rightarrow> bool \<times> nos_kv_table_t" where
  "kv_del_op k t = (case nos_kv_del (Some k) t of (r, t') \<Rightarrow> (r = NOS_OK, t'))"

lemma kv_put_hit:
  assumes "kv_rep t ch" "i \<in> used_idx t ch" "entry_key t i = k" "kv_find t k = Found p i" "len \<le> max_val_size t" "unat len \<le> length v"
  shows "nos_kv_put (Some k) (Some v) len t = (NOS_OK, map (\<lambda>(f, a). (f, a, k, Some v, len)) (sub_list (pool_mem t ! i)),
      upd_kv i (write_val (key_size t) (Some v) len) t)"
    "kv_rep (upd_kv i (write_val (key_size t) (Some v) len) t) ch"
    "kv_view (upd_kv i (write_val (key_size t) (Some v) len) t) = (kv_view t)(k \<mapsto> take (unat len) v)"
proof -
  have l: "i < length (pool_mem t)" using used_less[OF assms(1,2)] kv_repD(1)[OF assms(1)] by (simp add: kv_shape_def)
  have lv: "\<forall>u. Some v = Some u \<longrightarrow> unat len \<le> length u" using assms(6) by simp
  note w = write_val_ok[OF kv_repD(1)[OF assms(1)] l assms(5) lv]
  note u = kv_view_upd[where f = "write_val (key_size t) (Some v) len", OF assms(1,2) w(1-4)]
  show "kv_rep (upd_kv i (write_val (key_size t) (Some v) len) t) ch" by (rule u(1))
  show "kv_view (upd_kv i (write_val (key_size t) (Some v) len) t) = (kv_view t)(k \<mapsto> take (unat len) v)"
    using u(2) w(5)[OF refl] assms(3) by simp
  show "nos_kv_put (Some k) (Some v) len t = (NOS_OK, map (\<lambda>(f, a). (f, a, k, Some v, len)) (sub_list (pool_mem t ! i)),
      upd_kv i (write_val (key_size t) (Some v) len) t)"
    using assms(4,5) by (simp add: nos_kv_put_def get_kv_entry_def)
qed

lemma kv_view_None: "kv_rep t ch \<Longrightarrow> length k = unat (key_size t) \<Longrightarrow> kv_view t k = None \<longleftrightarrow> kv_find t k = Missing"
  using kv_find_spec[of t ch k] by (auto simp: kv_view_def)

lemma kv_free_empty: "kv_rep t ch \<Longrightarrow> kv_free t = [] \<longleftrightarrow> kv_free_top t < 0"
  using stack_items_empty_iff[of "kv_free_stack t" "kv_free_top t"] kv_repD(1)[of t ch] by (simp add: kv_free_def kv_shape_def)

lemma kv_free_room: "kv_rep t ch \<Longrightarrow> kv_free t = [] \<longleftrightarrow> card (dom (kv_view t)) = unat (kv_capacity t)"
  using kv_free_card[of t ch] kv_card[of t ch] by auto

lemma kv_put_room:
  assumes "kv_rep t ch" "length k = unat (key_size t)" "len \<le> max_val_size t" "unat len \<le> length v"
    and "kv_view t k \<noteq> None \<or> card (dom (kv_view t)) < unat (kv_capacity t)"
  shows "\<exists>calls t'. nos_kv_put (Some k) (Some v) len t = (NOS_OK, calls, t') \<and> kv_inv (key_size t) (max_val_size t) (kv_capacity t) t'
    \<and> kv_view t' = (kv_view t)(k \<mapsto> take (unat len) v)"
  using kv_find_spec[OF assms(1,2)]
proof (elim disjE exE conjE)
  fix ys x zs
  assume x: "entry_key t x = k" "x \<in> used_idx t ch" "kv_find t k = Found (if ys = [] then KV_INVALID_IDX else of_nat (last ys)) x"
  note h = kv_put_hit[OF assms(1) x(2,1,3) assms(3,4)]
  then show ?thesis by (auto simp: kv_inv_def kv_ok_def)
next
  assume m: "kv_find t k = Missing" "\<forall>x \<in> used_idx t ch. entry_key t x \<noteq> k"
  then have ne: "kv_free t \<noteq> []" using assms(5) kv_free_room[OF assms(1)] kv_view_None[OF assms(1,2)] by auto
  obtain i t1 where pop: "kv_pop t = Some (i, t1)" using kv_pop_some[OF kv_rep_free_ok[OF assms(1)] ne] by blast
  have new: "\<And>x. x \<in> used_idx t ch \<Longrightarrow> entry_key t x \<noteq> k" using m(2) by blast
  note r = kv_insert_rep[OF assms(1,2) new pop assms(3,4)]
  have "nos_kv_put (Some k) (Some v) len t = (NOS_OK, [], kv_insert (bucket_of t k) k (Some v) len i t1)"
    using assms(3) m(1) pop by (simp add: nos_kv_put_def)
  then show ?thesis using r by (auto simp: kv_inv_def kv_ok_def)
qed

lemma kv_put_full:
  assumes "kv_rep t ch" "length k = unat (key_size t)" "len \<le> max_val_size t"
    and "kv_view t k = None" "card (dom (kv_view t)) = unat (kv_capacity t)"
  shows "nos_kv_put (Some k) val len t = (NOS_ERR_BUSY, [], t)"
  using assms(3) kv_view_None[OF assms(1,2)] assms(4) kv_free_room[OF assms(1)] assms(5) kv_free_empty[OF assms(1)]
  by (simp add: nos_kv_put_def kv_pop_def)

lemma kv_del_law:
  assumes "kv_rep t ch" "length k = unat (key_size t)"
  shows "\<exists>t'. nos_kv_del (Some k) t = (if kv_view t k = None then NOS_ERR else NOS_OK, t')
    \<and> kv_inv (key_size t) (max_val_size t) (kv_capacity t) t' \<and> kv_view t' = (kv_view t)(k := None)"
  using kv_find_spec[OF assms]
proof (elim disjE exE conjE)
  fix ys x zs
  assume x: "ch (bucket_of t k) = ys @ x # zs" "entry_key t x = k"
    "kv_find t k = Found (if ys = [] then KV_INVALID_IDX else of_nat (last ys)) x"
  note d = kv_delete_rep[OF assms(1) bucket_of_less[OF kv_repD(1)[OF assms(1)]] x(1)]
  have "nos_kv_del (Some k) t = (NOS_OK, del_result (bucket_of t k) (if ys = [] then KV_INVALID_IDX else of_nat (last ys)) x t)"
    using x(3) by (simp add: nos_kv_del_def del_result_def Let_def)
  moreover have "kv_view t k \<noteq> None" using x(3) assms kv_view_None by auto
  ultimately show ?thesis using d x(2) by (auto simp: kv_inv_def kv_ok_def)
next
  assume m: "kv_find t k = Missing"
  then have "kv_view t k = None" using kv_view_None[OF assms] by simp
  then show ?thesis using m assms(1) by (auto simp: nos_kv_del_def kv_inv_def kv_ok_def)
qed

interpretation kv_map: bounded_map "unat cap" "\<lambda>k. length k = unat ks" "\<lambda>v. length v \<le> unat mv" "kv_inv ks mv cap" kv_view kv_put_op kv_del_op
  for ks mv cap :: u32
proof unfold_locales
  fix t :: nos_kv_table_t and k v :: "u8 list"
  assume inv: "kv_inv ks mv cap t"
  then obtain ch where r: "kv_rep t ch" and g: "key_size t = ks" "max_val_size t = mv" "kv_capacity t = cap"
    by (auto simp: kv_inv_def kv_ok_def)
  show "finite (dom (kv_view t)) \<and> card (dom (kv_view t)) \<le> unat cap"
    using kv_card[OF r] kv_free_card[OF r] g(3) by simp
  assume k: "length k = unat ks"
  then have k': "length k = unat (key_size t)" using g by simp
  show "\<exists>t'. kv_del_op k t = (kv_view t k \<noteq> None, t') \<and> kv_inv ks mv cap t' \<and> kv_view t' = (kv_view t)(k := None)"
    using kv_del_law[OF r k'] g by (auto simp: kv_del_op_def)
  assume v: "length v \<le> unat mv"
  then have "length v < 2 ^ 32" using unat_lt_2_32[of mv] by linarith
  then have u: "unat (of_nat (length v) :: u32) = length v" by (simp add: unat_of_nat take_bit_nat_eq_self)
  have l: "(of_nat (length v) :: u32) \<le> max_val_size t" using v g(2) u by (simp add: word_le_nat_alt)
  show "\<exists>t'. kv_put_op k v t = (True, t') \<and> kv_inv ks mv cap t' \<and> kv_view t' = (kv_view t)(k \<mapsto> v)"
    if "kv_view t k \<noteq> None \<or> card (dom (kv_view t)) < unat cap"
    using kv_put_room[OF r k' l, of v] that u g by (auto simp: kv_put_op_def)
  show "\<exists>t'. kv_put_op k v t = (False, t') \<and> kv_inv ks mv cap t' \<and> kv_view t' = kv_view t"
    if "kv_view t k = None" "card (dom (kv_view t)) = unat cap"
    using kv_put_full[OF r k' l that(1)] that(2) g inv by (auto simp: kv_put_op_def)
qed

section \<open>Properties\<close>

lemma grow_buckets_pos: "grow_buckets fuel bc cap = Some bc' \<Longrightarrow> 0 < bc \<Longrightarrow> 0 < cap \<Longrightarrow> 0 < bc'"
proof (induction fuel arbitrary: bc)
  case 0
  then show ?case by (cases "bc < cap") (simp_all add: grow_step)
next
  case (Suc n)
  show ?case
  proof (cases "bc < cap")
    case True
    then have g: "grow_buckets n (push_bit 1 bc) cap = Some bc'" using Suc.prems(1) by (simp add: grow_step)
    then have "push_bit 1 bc \<noteq> 0" using grow_zero[OF Suc.prems(3), of n] by auto
    then have "0 < push_bit 1 bc" by (rule word_greater_zero_iff[THEN iffD2])
    then show ?thesis by (rule Suc.IH[OF g _ Suc.prems(3)])
  next
    case False
    then show ?thesis using Suc.prems by (simp add: grow_step)
  qed
qed

lemma new_table_rep:
  assumes "0 < bc"
  shows "kv_rep (new_table nm ks mv cap bc) (\<lambda>_. [])"
proof -
  let ?t = "new_table nm ks mv cap bc"
  have "- 1 < uint cap" using uint_ge_0[of cap] by linarith
  then have ok: "stack_ok (kv_free_stack ?t) (kv_free_top ?t)" by (simp add: new_table_def stack_ok_def)
  have fr: "kv_free ?t = [0..<unat cap]" by (simp add: kv_free_def new_table_def stack_items_def)
  have us: "used_idx ?t (\<lambda>_. []) = {}" by (simp add: used_idx_def)
  have sh: "kv_shape ?t" using ok assms by (simp add: kv_shape_def new_table_def empty_entry_def)
  have ch: "b < unat (bucket_count ?t) \<Longrightarrow> is_chain ?t (first_idx (kv_buckets ?t ! b)) []" for b by (simp add: new_table_def)
  show ?thesis unfolding kv_rep_def us fr using sh ch by (auto simp: new_table_def)
qed

lemma new_table_inv: "0 < bc \<Longrightarrow> kv_inv ks mv cap (new_table nm ks mv cap bc)" "0 < bc \<Longrightarrow> kv_view (new_table nm ks mv cap bc) = Map.empty"
proof -
  assume bc: "0 < bc"
  note r = new_table_rep[OF bc, of nm ks mv cap]
  then show "kv_inv ks mv cap (new_table nm ks mv cap bc)" by (auto simp: kv_inv_def kv_ok_def new_table_def)
  show "kv_view (new_table nm ks mv cap bc) = Map.empty"
    by (rule kv_view_eqI[OF r]) (simp_all add: used_idx_def)
qed



lemma kv_find_entry:
  assumes "kv_rep t ch" "x \<in> used_idx t ch" "entry_key t x = k"
  shows "\<exists>p. kv_find t k = Found p x"
proof -
  have l: "length k = unat (key_size t)" using entry_key_length[OF kv_repD(1)[OF assms(1)] used_less[OF assms(1,2)]] assms(3) by simp
  obtain p y where y: "kv_find t k = Found p y" "y \<in> used_idx t ch" "entry_key t y = k"
    using kv_find_spec[OF assms(1) l] assms(2,3) by auto
  then show ?thesis using inj_onD[OF kv_repD(5)[OF assms(1)], of x y] assms(2,3) by auto
qed

lemma kv_view_SomeE:
  assumes "kv_rep t ch" "kv_view t k = Some v"
  obtains p i where "kv_find t k = Found p i" "i \<in> used_idx t ch" "entry_key t i = k" "entry_val t i = v" "i < length (pool_mem t)"
proof -
  obtain i where i: "i \<in> used_idx t ch" "entry_key t i = k" "entry_val t i = v" using kv_view_iff[OF assms(1)] assms(2) by auto
  have l: "i < length (pool_mem t)" using used_less[OF assms(1) i(1)] kv_repD(1)[OF assms(1)] by (simp add: kv_shape_def)
  obtain p where "kv_find t k = Found p i" using kv_find_entry[OF assms(1) i(1,2)] by blast
  then show ?thesis using that i l by blast
qed

lemma entry_val_length: "kv_shape t \<Longrightarrow> i < length (pool_mem t) \<Longrightarrow> length (entry_val t i) = unat (val_len (pool_mem t ! i))"
  by (simp add: kv_shape_def entry_val_def word_le_nat_alt min_absorb2)

lemma kv_get_spec:
  assumes "kv_ok t" "length k = unat (key_size t)"
  shows "nos_kv_get (Some k) True (Some l) t =
    (case kv_view t k of None \<Rightarrow> (NOS_ERR, [], Some l) | Some v \<Rightarrow> (NOS_OK, take (unat l) v, Some (of_nat (length v))))"
proof -
  obtain ch where r: "kv_rep t ch" using assms(1) by (auto simp: kv_ok_def)
  show ?thesis
  proof (cases "kv_view t k")
    case None
    then show ?thesis using kv_view_None[OF r assms(2)] by (simp add: nos_kv_get_def)
  next
    case (Some v)
    obtain p i where i: "kv_find t k = Found p i" "entry_val t i = v" "i < length (pool_mem t)" by (rule kv_view_SomeE[OF r Some])
    have lv: "length v = unat (val_len (pool_mem t ! i))" using entry_val_length[OF kv_repD(1)[OF r] i(3)] i(2) by simp
    have "take (unat (if l < val_len (pool_mem t ! i) then l else val_len (pool_mem t ! i))) (drop (unat (key_size t)) (kv_data (pool_mem t ! i)))
        = take (unat l) v"
      using i(2) by (auto simp: entry_val_def word_less_nat_alt min_def)
    then show ?thesis using Some i(1) lv by (simp add: nos_kv_get_def get_kv_entry_def Let_def)
  qed
qed

text \<open>A lookup copies as much of the stored value as the caller's buffer takes and reports the full
  length of the value; without an entry it fails and leaves the caller's length as it was.\<close>

theorem kv_get_correct:
  assumes "kv_ok t" "length k = unat (key_size t)"
  shows "nos_kv_get (Some k) True (Some l) t =
    (case kv_view t k of None \<Rightarrow> (NOS_ERR, [], Some l) | Some v \<Rightarrow> (NOS_OK, take (unat l) v, Some (of_nat (length v))))"
  using kv_get_spec[OF assms] .

theorem kv_get_correct_witness:
  "nos_kv_get (Some [1, 2]) True (Some 1) (new_table ''t'' 2 8 2 1024) = (NOS_ERR, [], Some 1)"
proof -
  have "kv_ok (new_table ''t'' 2 8 2 1024)" using new_table_rep[of 1024 "''t''" 2 8 2] by (auto simp: kv_ok_def)
  then show ?thesis using kv_get_correct[of "new_table ''t'' 2 8 2 1024" "[1, 2]" 1] new_table_inv(2)[of 1024 "''t''" 2 8 2]
    by (simp add: new_table_def)
qed

subsection \<open>Subscriptions\<close>

definition kv_subs :: "nos_kv_table_t \<Rightarrow> u8 list \<Rightarrow> (nat \<times> nat option) list" where
  "kv_subs t k = (case kv_find t k of Found p i \<Rightarrow> sub_list (pool_mem t ! i) | _ \<Rightarrow> [])"

lemma kv_subs_used: "kv_rep t ch \<Longrightarrow> x \<in> used_idx t ch \<Longrightarrow> entry_key t x = k \<Longrightarrow> kv_subs t k = sub_list (pool_mem t ! x)"
  using kv_find_entry[of t ch x k] by (auto simp: kv_subs_def)

lemma kv_subs_missing: "kv_rep t ch \<Longrightarrow> length k = unat (key_size t) \<Longrightarrow> kv_view t k = None \<Longrightarrow> kv_subs t k = []"
  using kv_view_None[of t ch k] by (simp add: kv_subs_def)

lemma kv_sub_upd:
  assumes r: "kv_rep t ch" and i: "i \<in> used_idx t ch" and t': "t' = upd_kv i (\<lambda>e. e\<lparr>sub_list := g (sub_list e)\<rparr>) t"
  shows "kv_rep t' ch" "kv_view t' = kv_view t" "kv_subs t' (entry_key t i) = g (kv_subs t (entry_key t i))"
    "\<And>k. length k = unat (key_size t) \<Longrightarrow> k \<noteq> entry_key t i \<Longrightarrow> kv_subs t' k = kv_subs t k"
proof -
  let ?f = "\<lambda>e. e\<lparr>sub_list := g (sub_list e)\<rparr>"
  have l: "i < length (pool_mem t)" using used_less[OF r i] kv_repD(1)[OF r] by (simp add: kv_shape_def)
  have v: "val_len (?f (pool_mem t ! i)) \<le> max_val_size t" using kv_repD(1)[OF r] l by (simp add: kv_shape_def)
  note u = kv_rep_upd[where f = ?f, OF r l _ _ _ v] and w = kv_view_upd[where f = ?f, OF r i _ _ _ v]
  have key: "entry_key t' = entry_key t" unfolding t' by (rule u(2)) (simp_all add: entry_key_def)
  show rep: "kv_rep t' ch" unfolding t' by (rule u(1)) (simp_all add: entry_key_def)
  have us: "used_idx t' ch = used_idx t ch" unfolding t' by (simp add: used_idx_def)
  have "kv_view t' = (kv_view t)(entry_key t i \<mapsto> entry_val t' i)" unfolding t' by (rule w(2)) (simp_all add: entry_key_def)
  moreover have "entry_val t' i = entry_val t i" using l by (simp add: t' entry_val_def upd_kv_nth)
  moreover have "kv_view t (entry_key t i) = Some (entry_val t i)" using kv_view_iff[OF r] i by blast
  ultimately show view: "kv_view t' = kv_view t" by (simp add: fun_upd_idem)
  have nth: "sub_list (pool_mem t' ! x) = (if x = i then g (sub_list (pool_mem t ! i)) else sub_list (pool_mem t ! x))" for x
    using l by (simp add: t' upd_kv_nth)
  show "kv_subs t' (entry_key t i) = g (kv_subs t (entry_key t i))"
    using kv_subs_used[OF rep, of i] kv_subs_used[OF r i] i us key nth[of i] by simp
  show "kv_subs t' k = kv_subs t k" if k: "length k = unat (key_size t)" "k \<noteq> entry_key t i" for k
  proof (cases "\<exists>x \<in> used_idx t ch. entry_key t x = k")
    case True
    then obtain x where x: "x \<in> used_idx t ch" "entry_key t x = k" by blast
    then show ?thesis using kv_subs_used[OF rep, of x k] kv_subs_used[OF r x] us key nth[of x] k(2) by auto
  next
    case False
    have "kv_view t k = None"
    proof (cases "kv_view t k")
      case (Some v)
      then show ?thesis using False kv_view_iff[OF r] by blast
    qed
    moreover have "key_size t' = key_size t" by (simp add: t')
    ultimately show ?thesis using kv_subs_missing[OF r k(1)] kv_subs_missing[OF rep, of k] view k(1) by simp
  qed
qed

text \<open>Subscribing to a stored key changes nothing but the subscriber list of that key, which gains
  the subscriber at its head unless it is there already; unsubscribing a new subscriber gives the
  table back exactly.  Subscribing to a key that is not stored fails.\<close>

theorem kv_subscribe_correct:
  assumes "kv_ok t" "length k = unat (key_size t)"
  shows "(kv_view t k = None \<longrightarrow> nos_kv_subscribe (Some k) (Some f) a t = (NOS_ERR, t))
    \<and> (kv_view t k \<noteq> None \<longrightarrow> (\<exists>t'. nos_kv_subscribe (Some k) (Some f) a t = (NOS_OK, t') \<and> kv_ok t' \<and> kv_view t' = kv_view t
         \<and> kv_subs t' k = (if (f, a) \<in> set (kv_subs t k) then kv_subs t k else (f, a) # kv_subs t k)
         \<and> (\<forall>k'. length k' = unat (key_size t) \<and> k' \<noteq> k \<longrightarrow> kv_subs t' k' = kv_subs t k')
         \<and> ((f, a) \<notin> set (kv_subs t k) \<longrightarrow> nos_kv_unsubscribe (Some k) (Some f) a t' = (NOS_OK, t))))"
proof (intro conjI impI)
  obtain ch where r: "kv_rep t ch" using assms(1) by (auto simp: kv_ok_def)
  show "nos_kv_subscribe (Some k) (Some f) a t = (NOS_ERR, t)" if "kv_view t k = None"
    using that kv_view_None[OF r assms(2)] by (simp add: nos_kv_subscribe_def)
  assume "kv_view t k \<noteq> None"
  then obtain v where "kv_view t k = Some v" by blast
  then obtain p i where i: "kv_find t k = Found p i" "i \<in> used_idx t ch" "entry_key t i = k" "i < length (pool_mem t)"
    by (rule kv_view_SomeE[OF r])
  have sub: "kv_subs t k = sub_list (pool_mem t ! i)" using i(1) by (simp add: kv_subs_def)
  show "\<exists>t'. nos_kv_subscribe (Some k) (Some f) a t = (NOS_OK, t') \<and> kv_ok t' \<and> kv_view t' = kv_view t
      \<and> kv_subs t' k = (if (f, a) \<in> set (kv_subs t k) then kv_subs t k else (f, a) # kv_subs t k)
      \<and> (\<forall>k'. length k' = unat (key_size t) \<and> k' \<noteq> k \<longrightarrow> kv_subs t' k' = kv_subs t k')
      \<and> ((f, a) \<notin> set (kv_subs t k) \<longrightarrow> nos_kv_unsubscribe (Some k) (Some f) a t' = (NOS_OK, t))"
  proof (cases "(f, a) \<in> set (kv_subs t k)")
    case True
    then show ?thesis using i(1) assms(1) by (simp add: nos_kv_subscribe_def get_kv_entry_def sub)
  next
    case False
    let ?t = "upd_kv i (\<lambda>e. e\<lparr>sub_list := (f, a) # sub_list e\<rparr>) t"
    note u = kv_sub_upd[where g = "(#) (f, a)", OF r i(2) refl]
    have us: "used_idx ?t ch = used_idx t ch" by (simp add: used_idx_def)
    have key: "entry_key ?t i = k" using i(3,4) by (simp add: entry_key_def upd_kv_nth)
    obtain q where q: "kv_find ?t k = Found q i" using kv_find_entry[OF u(1) _ key] i(2) us by auto
    have "upd_kv i (\<lambda>e. e\<lparr>sub_list := remove1 (f, a) (sub_list e)\<rparr>) ?t = t"
      using i(4) by (simp add: upd_kv_def nth_list_update)
    then have un: "nos_kv_unsubscribe (Some k) (Some f) a ?t = (NOS_OK, t)"
      using q i(4) by (simp add: nos_kv_unsubscribe_def get_kv_entry_def upd_kv_nth)
    have "nos_kv_subscribe (Some k) (Some f) a t = (NOS_OK, ?t)"
      using i(1) False by (simp add: nos_kv_subscribe_def get_kv_entry_def sub)
    then show ?thesis using u un i(3) False by (auto simp: kv_ok_def)
  qed
qed

lemma kv_put_new_subs:
  assumes r: "kv_rep t ch" and "length k = unat (key_size t)" "len \<le> max_val_size t" "nos_kv_put (Some k) val len t = (NOS_OK, calls, t')"
    and None: "kv_view t k = None"
  shows "calls = [] \<and> kv_subs t' k = []"
proof -
  have m: "kv_find t k = Missing" using kv_view_None[OF r assms(2)] None by simp
  then have ne: "kv_free t \<noteq> []" using kv_put_full[OF r assms(2,3) None, of val] kv_free_room[OF r] assms(4) by auto
  obtain i t1 where pop: "kv_pop t = Some (i, t1)" and t1: "t1 = t\<lparr>kv_free_top := kv_free_top t - 1\<rparr>" and fr: "kv_free t = kv_free t1 @ [i]"
    using kv_pop_some[OF kv_rep_free_ok[OF r] ne] by blast
  have "nos_kv_put (Some k) val len t = (NOS_OK, [], kv_insert (bucket_of t k) k val len i t1)"
    using assms(3) m pop by (simp add: nos_kv_put_def)
  then have t': "calls = []" "t' = kv_insert (bucket_of t k) k val len i t1" using assms(4) by simp_all
  have sh: "length (pool_mem t) = unat (kv_capacity t)" "length (kv_buckets t) = unat (bucket_count t)" using kv_repD(1)[OF r] by (auto simp: kv_shape_def)
  have "i < unat (kv_capacity t)" using kv_repD(4)[OF r] fr by auto
  then have i: "i < length (pool_mem t1)" "(of_nat i :: u32) \<noteq> KV_INVALID_IDX" "unat (of_nat i :: u32) = i"
    using sh(1) idx_not_invalid[of i t] by (simp_all add: t1)
  have b: "bucket_of t k < length (kv_buckets t1)" using bucket_of_less[OF kv_repD(1)[OF r]] sh(2) by (simp add: t1)
  note f = kv_insert_facts[OF i(1) b, of k val len]
  have dl: "length (kv_data (pool_mem t ! i)) = unat (key_size t) + unat (max_val_size t)" using kv_repD(1)[OF r] i(1) by (simp add: kv_shape_def t1)
  have key: "entry_key t' i = take (unat (key_size t')) k"
    using take_write_exact[of 0 k "kv_data (pool_mem t ! i)"] dl assms(2) f(1)[of i] f(3)
    by (simp add: t' entry_key_def write_val_def t1 take_write_beyond split: option.splits)
  have ks: "bucket_of t' k = bucket_of t k" using f(3,6) by (simp add: t' bucket_of_def t1)
  obtain n where n: "length (pool_mem t') = Suc n" using i(1) f(7) by (cases "length (pool_mem t')") (auto simp: t')
  have "kv_find t' k = Found KV_INVALID_IDX i"
    using key i(2,3) f(2)[of "bucket_of t k"] n by (simp add: kv_find_def ks kv_walk.simps[of t' k]) (simp add: t')
  then have "kv_subs t' k = []" using f(1)[of i] by (simp add: kv_subs_def t')
  then show ?thesis using t'(1) by simp
qed

text \<open>Storing a value for a key calls exactly the subscribers of that key, in list order, with the key
  and the new value, and a new key has none.\<close>

theorem kv_put_notifies:
  assumes "kv_ok t" "length k = unat (key_size t)" "len \<le> max_val_size t"
    and "nos_kv_put (Some k) val len t = (NOS_OK, calls, t')"
  shows "calls = map (\<lambda>(f, a). (f, a, k, val, len)) (kv_subs t k) \<and> kv_subs t' k = kv_subs t k"
proof -
  obtain ch where r: "kv_rep t ch" using assms(1) by (auto simp: kv_ok_def)
  show ?thesis
  proof (cases "kv_view t k")
    case None
    then show ?thesis using kv_put_new_subs[OF r assms(2-4)] kv_subs_missing[OF r assms(2)] by simp
  next
    case (Some v)
    obtain p i where i: "kv_find t k = Found p i" "i \<in> used_idx t ch" "entry_key t i = k" "i < length (pool_mem t)"
      by (rule kv_view_SomeE[OF r Some])
    have "nos_kv_put (Some k) val len t = (NOS_OK, map (\<lambda>(f, a). (f, a, k, val, len)) (sub_list (pool_mem t ! i)),
        upd_kv i (write_val (key_size t) val len) t)"
      using assms(3) i(1) by (simp add: nos_kv_put_def get_kv_entry_def)
    then have t': "calls = map (\<lambda>(f, a). (f, a, k, val, len)) (sub_list (pool_mem t ! i))" "t' = upd_kv i (write_val (key_size t) val len) t"
      using assms(4) by simp_all
    let ?f = "write_val (key_size t) val len"
    have w: "next_idx (?f (pool_mem t ! i)) = next_idx (pool_mem t ! i)" "val_len (?f (pool_mem t ! i)) \<le> max_val_size t"
      "take (unat (key_size t)) (kv_data (?f (pool_mem t ! i))) = entry_key t i" "length (kv_data (?f (pool_mem t ! i))) = length (kv_data (pool_mem t ! i))"
      using assms(3) by (simp_all add: write_val_def entry_key_def take_write_beyond split: option.splits)
    note u = kv_rep_upd[where f = ?f, OF r i(4) w(1,3,4,2)]
    have us: "used_idx t' ch = used_idx t ch" by (simp add: t' used_idx_def)
    have "kv_subs t' k = sub_list (pool_mem t' ! i)" using kv_subs_used[of t' ch i k] u(1,2) us i(2,3) by (simp add: t'(2))
    also have "\<dots> = kv_subs t k" using i(1,4) by (simp add: t'(2) upd_kv_nth write_val_def kv_subs_def)
    finally show ?thesis using t'(1) i(1) by (simp add: kv_subs_def)
  qed
qed

text \<open>A table with one entry, and with one subscriber on it.\<close>

definition demo_kv :: nos_kv_table_t where
  "demo_kv = snd (snd (nos_kv_put (Some [1, 2]) (Some [5, 6, 7]) 3 (new_table ''t'' 2 8 2 16)))"

lemma demo_kv_ok: "kv_ok demo_kv" "key_size demo_kv = 2" "max_val_size demo_kv = 8" "kv_view demo_kv = [[1, 2] \<mapsto> [5, 6, 7]]"
proof -
  let ?n = "new_table ''t'' 2 8 2 16"
  have r: "kv_rep ?n (\<lambda>_. [])" by (rule new_table_rep) simp
  have v: "kv_view ?n = Map.empty" by (rule new_table_inv(2)) simp
  have "\<exists>calls t'. nos_kv_put (Some [1, 2]) (Some [5, 6, 7]) 3 ?n = (NOS_OK, calls, t') \<and> kv_inv (key_size ?n) (max_val_size ?n) (kv_capacity ?n) t'
    \<and> kv_view t' = (kv_view ?n)([1, 2] \<mapsto> take (unat (3 :: u32)) [5, 6, 7])"
    by (rule kv_put_room[OF r]) (simp_all only: v dom_empty, simp_all add: new_table_def)
  then obtain calls t' where p: "nos_kv_put (Some [1, 2]) (Some [5, 6, 7]) 3 ?n = (NOS_OK, calls, t')"
      "kv_inv (key_size ?n) (max_val_size ?n) (kv_capacity ?n) t'" "kv_view t' = (kv_view ?n)([1, 2] \<mapsto> take (unat (3 :: u32)) [5, 6, 7])"
    by blast
  have d: "demo_kv = t'" using p(1) by (simp add: demo_kv_def)
  show "kv_ok demo_kv" "key_size demo_kv = 2" "max_val_size demo_kv = 8" using p(2) by (auto simp: d kv_inv_def new_table_def)
  show "kv_view demo_kv = [[1, 2] \<mapsto> [5, 6, 7]]" unfolding d p(3) v by simp
qed

theorem kv_subscribe_correct_witness:
  "\<exists>t'. nos_kv_subscribe (Some [1, 2]) (Some 40) None demo_kv = (NOS_OK, t') \<and> kv_view t' = [[1, 2] \<mapsto> [5, 6, 7]]"
  using kv_subscribe_correct[of demo_kv "[1, 2]" 40 None] demo_kv_ok by auto

theorem kv_put_notifies_witness:
  "fst (snd (nos_kv_put (Some [1, 2]) None 2 demo_kv)) = map (\<lambda>(f, a). (f, a, [1, 2], None, 2)) (kv_subs demo_kv [1, 2])"
proof -
  obtain ch where "kv_rep demo_kv ch" using demo_kv_ok(1) by (auto simp: kv_ok_def)
  then have "\<exists>p i. kv_find demo_kv [1, 2] = Found p i" using kv_view_SomeE[of demo_kv ch "[1, 2]" "[5, 6, 7]"] demo_kv_ok(4) by simp blast
  then obtain calls t' where "nos_kv_put (Some [1, 2]) None 2 demo_kv = (NOS_OK, calls, t')"
    using demo_kv_ok(3) by (auto simp: nos_kv_put_def)
  then show ?thesis using kv_put_notifies[of demo_kv "[1, 2]" 2 None calls t'] demo_kv_ok by simp
qed

subsection \<open>Read locks handed out with pointers\<close>



subsection \<open>The memory of the entries\<close>

text \<open>\<^verbatim>\<open>get_entry\<close> computes the byte offset of an entry in 32 bits.\<close>

definition entry_offset :: "nos_kv_table_t \<Rightarrow> nat \<Rightarrow> u32" where
  "entry_offset t i = of_nat i * entry_size t"

text \<open>When the pool of a table has less than \<open>2 ^ 32\<close> bytes, every entry lies in the pool, the key and
  the value fit the entry, and two entries do not overlap.\<close>

theorem kv_entry_regions:
  assumes "t = new_table nm ks mv cap bc" "16 + unat ks + unat mv < 2 ^ 32"
    and "unat cap * unat (entry_size t) < 2 ^ 32" "i < j" "j < unat cap"
  shows "unat (entry_size t) = 16 + unat ks + unat mv
    \<and> unat (entry_offset t i) + unat (entry_size t) \<le> unat (entry_offset t j)
    \<and> unat (entry_offset t j) + unat (entry_size t) \<le> unat cap * unat (entry_size t)"
proof -
  let ?e = "unat (entry_size t)"
  have "unat (16 + ks + mv) = 16 + unat ks + unat mv"
  proof -
    have "unat (16 + ks) = 16 + unat ks" using assms(2) by (simp add: unat_add_lem[THEN iffD1])
    then show ?thesis using assms(2) unat_add_lem[of "16 + ks" mv] by simp
  qed
  then have e: "?e = 16 + unat ks + unat mv" by (simp add: assms(1) new_table_def)
  have off: "unat (entry_offset t x) = x * ?e" if "x < unat cap" for x
  proof -
    have "x * ?e \<le> unat cap * ?e" using that by simp
    then have p: "x * ?e < 2 ^ 32" using assms(3) by linarith
    have "x \<le> x * ?e" using e by simp
    then have "x < 2 ^ 32" using p by linarith
    then have "unat (of_nat x :: u32) = x" by (simp add: unat_of_nat take_bit_nat_eq_self)
    then show ?thesis using p by (simp add: entry_offset_def unat_mult_lem[THEN iffD1])
  qed
  have "(i + 1) * ?e \<le> j * ?e" "(j + 1) * ?e \<le> unat cap * ?e" using assms(4,5) by (intro mult_le_mono1; simp)+
  then show ?thesis using off[of i] off[of j] assms(4,5) e by (simp add: algebra_simps)
qed

theorem kv_entry_regions_witness:
  "unat (entry_offset (new_table ''t'' 2 8 2 1024) 1) + 26 \<le> 52"
  using kv_entry_regions[OF refl, of 2 8 2 "''t''" 1024 0 1] by (simp add: new_table_def)

text \<open>Without that bound entries share memory: in a table of 65537 entries of 65536 bytes the last
  entry has the offset of the first.\<close>

theorem kv_entry_offset_overflow:
  "entry_size (new_table ''t'' 16 65504 65537 131072) = 65536
   \<and> entry_offset (new_table ''t'' 16 65504 65537 131072) 65536 = entry_offset (new_table ''t'' 16 65504 65537 131072) 0"
  by (simp add: entry_offset_def new_table_def)

text \<open>A name of more than 31 characters is stored cut off, so that looking it up again does not find the
  table: the second creation adds a second table.\<close>

theorem kv_long_name_duplicates:
  assumes "length nm > 31" "ks \<noteq> 0" "cap \<noteq> 0" "unat cap \<le> 2 ^ 31"
  shows "\<exists>a b. nos_kv_table_create 21 True (Some nm) ks mv cap [] = Some (Some 0, [a])
    \<and> nos_kv_table_create 21 True (Some nm) ks mv cap [a] = Some (Some 1, [a, b])"
proof -
  obtain bc where bc: "grow_buckets 21 1024 cap = Some bc" using grow_buckets_Some[of cap 10 21] assms(4) by auto
  let ?n = "new_table nm ks mv cap bc"
  have "kv_name ?n \<noteq> nm" using c_strncpy_long_neq[OF assms(1)] by (simp add: new_table_def)
  then have "find_idx (\<lambda>t :: nos_kv_table_t. kv_name t = nm) [] 0 = None" "find_idx (\<lambda>t. kv_name t = nm) [?n] (Suc 0) = None"
    by (simp_all add: find_idx_None)
  then have "nos_kv_table_create 21 True (Some nm) ks mv cap [] = Some (Some 0, [?n])
      \<and> nos_kv_table_create 21 True (Some nm) ks mv cap [?n] = Some (Some 1, [?n, ?n])"
    using bc assms(2,3) by (simp add: nos_kv_table_create_def MAX_TABLES_def)
  then show ?thesis by blast
qed

theorem kv_long_name_duplicates_witness:
  "\<exists>a b. nos_kv_table_create 21 True (Some (replicate 40 CHR ''x'')) 4 4 8 [] = Some (Some 0, [a])
    \<and> nos_kv_table_create 21 True (Some (replicate 40 CHR ''x'')) 4 4 8 [a] = Some (Some 1, [a, b])"
  by (rule kv_long_name_duplicates) simp_all

end
