(* ===== verification/Nos_Api.thy ===== *)
theory Nos_Api
  imports Nos_Timer Nos_Kv Nos_Service
begin

text \<open>
  The interfaces through which a component uses the timers and the database, \<^verbatim>\<open>include/nos_api.h\<close>: the operation
  tables \<^verbatim>\<open>g_timer_ops\<close> of \<^verbatim>\<open>src/infra/timer/nos_timer.c\<close> and \<^verbatim>\<open>g_kv_ops\<close> of \<^verbatim>\<open>src/infra/db/nos_kv.c\<close>, which are registered as
  embedded services, the cached lookup of a table, and the calls through it.  The address of a table is a
  number; the repository registers one table under each name, so that a call through the pointer is a call of
  an operation of that table.
\<close>

section \<open>The operation tables\<close>

text \<open>The function types carry what the operations of the model need besides the C arguments: the memory that
  \<^verbatim>\<open>calloc\<close> gives, the function that frees the argument of a timer, the fuel of the loop that sizes a table.\<close>

record 's nos_timer_ops_t =
  tmo_create :: "nat option \<Rightarrow> nat option \<Rightarrow> nat option \<Rightarrow> nat option \<Rightarrow> 's \<Rightarrow> nat option \<times> 's"
  tmo_start :: "nat option \<Rightarrow> nat option \<Rightarrow> u32 \<Rightarrow> bool \<Rightarrow> 's \<Rightarrow> nos_status_t \<times> 's"
  tmo_stop :: "nat option \<Rightarrow> nat option \<Rightarrow> 's \<Rightarrow> nos_status_t \<times> 's"
  tmo_delete :: "(nat \<Rightarrow> nat option \<Rightarrow> 's \<Rightarrow> 's) \<Rightarrow> nat option \<Rightarrow> 's \<Rightarrow> 's"

definition g_timer_ops :: "'z sched_state_scheme nos_timer_ops_t" where
  "g_timer_ops = \<lparr>tmo_create = nos_timer_create, tmo_start = nos_timer_start, tmo_stop = nos_timer_stop, tmo_delete = nos_timer_delete\<rparr>"

record nos_kv_ops_t =
  kvo_table_create :: "nat \<Rightarrow> bool \<Rightarrow> string option \<Rightarrow> u32 \<Rightarrow> u32 \<Rightarrow> u32 \<Rightarrow> nos_kv_table_t list \<Rightarrow> (nat option \<times> nos_kv_table_t list) option"
  kvo_put :: "u8 list option \<Rightarrow> u8 list option \<Rightarrow> u32 \<Rightarrow> nos_kv_table_t \<Rightarrow> nos_status_t \<times> kv_call list \<times> nos_kv_table_t"
  kvo_get :: "u8 list option \<Rightarrow> bool \<Rightarrow> u32 option \<Rightarrow> nos_kv_table_t \<Rightarrow> nos_status_t \<times> u8 list \<times> u32 option"
  kvo_get_ptr :: "u8 list option \<Rightarrow> bool \<Rightarrow> nos_kv_table_t \<Rightarrow> nos_status_t \<times> (nat \<times> u32 \<times> nat) option \<times> nos_kv_table_t"
  kvo_release_ptr :: "nat option \<Rightarrow> nos_kv_table_t \<Rightarrow> nos_kv_table_t"
  kvo_del :: "u8 list option \<Rightarrow> nos_kv_table_t \<Rightarrow> nos_status_t \<times> nos_kv_table_t"
  kvo_subscribe :: "u8 list option \<Rightarrow> nat option \<Rightarrow> nat option \<Rightarrow> nos_kv_table_t \<Rightarrow> nos_status_t \<times> nos_kv_table_t"
  kvo_unsubscribe :: "u8 list option \<Rightarrow> nat option \<Rightarrow> nat option \<Rightarrow> nos_kv_table_t \<Rightarrow> nos_status_t \<times> nos_kv_table_t"

definition g_kv_ops :: nos_kv_ops_t where
  "g_kv_ops = \<lparr>kvo_table_create = nos_kv_table_create, kvo_put = nos_kv_put, kvo_get = nos_kv_get, kvo_get_ptr = nos_kv_get_ptr,
     kvo_release_ptr = nos_kv_release_ptr, kvo_del = nos_kv_del, kvo_subscribe = nos_kv_subscribe, kvo_unsubscribe = nos_kv_unsubscribe\<rparr>"

definition nos_kv_db_init :: "nat \<Rightarrow> 'z svc_state_scheme \<Rightarrow> 'z svc_state_scheme" where
  "nos_kv_db_init kv_ops s = snd (nos_embedded_service_register ''SVC_KV_DB'' kv_ops s)"

section \<open>The cached lookup\<close>

text \<open>The caches are those of the compilation unit of a component.  \<open>kv_notified\<close> collects the calls of subscribers.\<close>

record api_state = sched_state +
  embedded :: svc_state
  timer_ops_cache :: "nat option"
  kv_ops_cache :: "nat option"
  g_tables :: "nos_kv_table_t list"
  kv_notified :: "kv_call list"

definition nos_get_timer_ops :: "'z api_state_scheme \<Rightarrow> nat option \<times> 'z api_state_scheme" where
  "nos_get_timer_ops s =
    (case timer_ops_cache s of
       Some p \<Rightarrow> (Some p, s)
     | None \<Rightarrow> (case nos_embedded_service_get ''SVC_TIMER'' (embedded s) of
         None \<Rightarrow> (None, s)
       | Some p \<Rightarrow> (Some p, s\<lparr>timer_ops_cache := Some p\<rparr>)))"

definition nos_get_kv_ops :: "'z api_state_scheme \<Rightarrow> nat option \<times> 'z api_state_scheme" where
  "nos_get_kv_ops s =
    (case kv_ops_cache s of
       Some p \<Rightarrow> (Some p, s)
     | None \<Rightarrow> (case nos_embedded_service_get ''SVC_KV_DB'' (embedded s) of
         None \<Rightarrow> (None, s)
       | Some p \<Rightarrow> (Some p, s\<lparr>kv_ops_cache := Some p\<rparr>)))"

section \<open>Calls through the tables\<close>

definition nos_timer_create_auto :: "nat option \<Rightarrow> nat option \<Rightarrow> nat option \<Rightarrow> nat option \<Rightarrow> 'z api_state_scheme \<Rightarrow> nat option \<times> 'z api_state_scheme" where
  "nos_timer_create_auto calloc_result cb arg free_cb s =
    (case nos_get_timer_ops s of (None, s1) \<Rightarrow> (None, s1) | (Some p, s1) \<Rightarrow> tmo_create g_timer_ops calloc_result cb arg free_cb s1)"

definition nos_timer_start_auto :: "nat \<Rightarrow> nat option \<Rightarrow> u32 \<Rightarrow> bool \<Rightarrow> 'z api_state_scheme \<Rightarrow> nos_status_t \<times> 'z api_state_scheme" where
  "nos_timer_start_auto c timer interval periodic s =
    (case nos_get_timer_ops s of (None, s1) \<Rightarrow> (NOS_ERR, s1) | (Some p, s1) \<Rightarrow> tmo_start g_timer_ops (Some c) timer interval periodic s1)"

definition nos_timer_stop_auto :: "nat \<Rightarrow> nat option \<Rightarrow> 'z api_state_scheme \<Rightarrow> nos_status_t \<times> 'z api_state_scheme" where
  "nos_timer_stop_auto c timer s =
    (case nos_get_timer_ops s of (None, s1) \<Rightarrow> (NOS_ERR, s1) | (Some p, s1) \<Rightarrow> tmo_stop g_timer_ops (Some c) timer s1)"

definition nos_timer_delete_auto :: "(nat \<Rightarrow> nat option \<Rightarrow> 'z api_state_scheme \<Rightarrow> 'z api_state_scheme) \<Rightarrow> nat option \<Rightarrow> 'z api_state_scheme \<Rightarrow> 'z api_state_scheme" where
  "nos_timer_delete_auto run_free timer s =
    (case nos_get_timer_ops s of (None, s1) \<Rightarrow> s1 | (Some p, s1) \<Rightarrow> tmo_delete g_timer_ops run_free timer s1)"

text \<open>The outer \<open>None\<close> of the creation stands for a sizing loop that has not ended after 21 rounds, as for a capacity above \<open>2 ^ 31\<close>.\<close>

definition nos_kv_table_create_auto :: "bool \<Rightarrow> string \<Rightarrow> u32 \<Rightarrow> u32 \<Rightarrow> u32 \<Rightarrow> 'z api_state_scheme \<Rightarrow> (nat option \<times> 'z api_state_scheme) option" where
  "nos_kv_table_create_auto calloc_ok name ks vs cap s =
    (case nos_get_kv_ops s of
       (None, s1) \<Rightarrow> Some (None, s1)
     | (Some p, s1) \<Rightarrow> map_option (\<lambda>(t, ts). (t, s1\<lparr>g_tables := ts\<rparr>)) (kvo_table_create g_kv_ops 21 calloc_ok (Some name) ks vs cap (g_tables s1)))"

definition nos_kv_put_auto :: "nat \<Rightarrow> u8 list \<Rightarrow> u8 list \<Rightarrow> 'z api_state_scheme \<Rightarrow> nos_status_t \<times> 'z api_state_scheme" where
  "nos_kv_put_auto t key val s =
    (case nos_get_kv_ops s of
       (None, s1) \<Rightarrow> (NOS_ERR, s1)
     | (Some p, s1) \<Rightarrow> (case kvo_put g_kv_ops (Some key) (Some val) (of_nat (length val)) (g_tables s1 ! t) of
         (r, calls, tab) \<Rightarrow> (r, s1\<lparr>g_tables := (g_tables s1)[t := tab], kv_notified := kv_notified s1 @ calls\<rparr>)))"

definition nos_kv_get_auto :: "nat \<Rightarrow> u8 list \<Rightarrow> u32 \<Rightarrow> 'z api_state_scheme \<Rightarrow> (nos_status_t \<times> u8 list) \<times> 'z api_state_scheme" where
  "nos_kv_get_auto t key room s =
    (case nos_get_kv_ops s of
       (None, s1) \<Rightarrow> ((NOS_ERR, []), s1)
     | (Some p, s1) \<Rightarrow> (case kvo_get g_kv_ops (Some key) True (Some room) (g_tables s1 ! t) of (r, bs, _) \<Rightarrow> ((r, bs), s1)))"

definition nos_kv_subscribe_auto :: "nat \<Rightarrow> u8 list \<Rightarrow> nat \<Rightarrow> nat \<Rightarrow> 'z api_state_scheme \<Rightarrow> nos_status_t \<times> 'z api_state_scheme" where
  "nos_kv_subscribe_auto t key cb arg s =
    (case nos_get_kv_ops s of
       (None, s1) \<Rightarrow> (NOS_ERR, s1)
     | (Some p, s1) \<Rightarrow> (case kvo_subscribe g_kv_ops (Some key) (Some cb) (Some arg) (g_tables s1 ! t) of (r, tab) \<Rightarrow> (r, s1\<lparr>g_tables := (g_tables s1)[t := tab]\<rparr>)))"

definition nos_kv_unsubscribe_auto :: "nat \<Rightarrow> u8 list \<Rightarrow> nat \<Rightarrow> nat \<Rightarrow> 'z api_state_scheme \<Rightarrow> nos_status_t \<times> 'z api_state_scheme" where
  "nos_kv_unsubscribe_auto t key cb arg s =
    (case nos_get_kv_ops s of
       (None, s1) \<Rightarrow> (NOS_ERR, s1)
     | (Some p, s1) \<Rightarrow> (case kvo_unsubscribe g_kv_ops (Some key) (Some cb) (Some arg) (g_tables s1 ! t) of (r, tab) \<Rightarrow> (r, s1\<lparr>g_tables := (g_tables s1)[t := tab]\<rparr>)))"

section \<open>The interfaces do what the tables hold\<close>

interpretation timer_lookup: cached_lookup timer_ops_cache "\<lambda>s. nos_embedded_service_get ''SVC_TIMER'' (embedded s)" nos_get_timer_ops
  by unfold_locales (simp_all add: nos_get_timer_ops_def)

interpretation kv_lookup: cached_lookup kv_ops_cache "\<lambda>s. nos_embedded_service_get ''SVC_KV_DB'' (embedded s)" nos_get_kv_ops
  by unfold_locales (simp_all add: nos_get_kv_ops_def)

lemma get_timer_eq:
  "nos_get_timer_ops s = (case (case timer_ops_cache s of Some p \<Rightarrow> Some p | None \<Rightarrow> nos_embedded_service_get ''SVC_TIMER'' (embedded s)) of
     None \<Rightarrow> (None, s) | Some p \<Rightarrow> (Some p, s\<lparr>timer_ops_cache := Some p\<rparr>))"
proof (cases "timer_ops_cache s")
  case (Some p)
  have "s\<lparr>timer_ops_cache := Some p\<rparr> = s" unfolding Some[symmetric] by simp
  then show ?thesis unfolding nos_get_timer_ops_def Some option.case by (simp only:)
qed (simp add: nos_get_timer_ops_def)

lemma get_timer_cases:
  obtains "nos_get_timer_ops s = (None, s)" | p where "nos_get_timer_ops s = (Some p, s\<lparr>timer_ops_cache := Some p\<rparr>)"
  proof (cases "case timer_ops_cache s of Some p \<Rightarrow> Some p | None \<Rightarrow> nos_embedded_service_get ''SVC_TIMER'' (embedded s)")
  case None
  show ?thesis by (rule that(1)) (simp only: get_timer_eq None option.case)
next
  case (Some p)
  show ?thesis by (rule that(2)[of p]) (simp only: get_timer_eq Some option.case)
qed

lemma get_kv_eq:
  "nos_get_kv_ops s = (case (case kv_ops_cache s of Some p \<Rightarrow> Some p | None \<Rightarrow> nos_embedded_service_get ''SVC_KV_DB'' (embedded s)) of
     None \<Rightarrow> (None, s) | Some p \<Rightarrow> (Some p, s\<lparr>kv_ops_cache := Some p\<rparr>))"
proof (cases "kv_ops_cache s")
  case (Some p)
  have "s\<lparr>kv_ops_cache := Some p\<rparr> = s" unfolding Some[symmetric] by simp
  then show ?thesis unfolding nos_get_kv_ops_def Some option.case by (simp only:)
qed (simp add: nos_get_kv_ops_def)

lemma get_kv_cases:
  obtains "nos_get_kv_ops s = (None, s)" | p where "nos_get_kv_ops s = (Some p, s\<lparr>kv_ops_cache := Some p\<rparr>)"
  proof (cases "case kv_ops_cache s of Some p \<Rightarrow> Some p | None \<Rightarrow> nos_embedded_service_get ''SVC_KV_DB'' (embedded s)")
  case None
  show ?thesis by (rule that(1)) (simp only: get_kv_eq None option.case)
next
  case (Some p)
  show ?thesis by (rule that(2)[of p]) (simp only: get_kv_eq Some option.case)
qed

text \<open>The services are up: the lookups give a table.\<close>

definition timer_up :: "'z api_state_scheme \<Rightarrow> bool" where
  "timer_up s \<longleftrightarrow> fst (nos_get_timer_ops s) \<noteq> None"

definition kv_up :: "'z api_state_scheme \<Rightarrow> bool" where
  "kv_up s \<longleftrightarrow> fst (nos_get_kv_ops s) \<noteq> None"

lemma kv_upE:
  assumes "kv_up s"
  obtains p where "nos_get_kv_ops s = (Some p, s\<lparr>kv_ops_cache := Some p\<rparr>)"
  using assms by (cases rule: get_kv_cases[of s]) (auto simp: kv_up_def)

lemma timer_upE:
  assumes "timer_up s"
  obtains p where "nos_get_timer_ops s = (Some p, s\<lparr>timer_ops_cache := Some p\<rparr>)"
  using assms by (cases rule: get_timer_cases[of s]) (auto simp: timer_up_def)

lemma kv_up_cong: "embedded s' = embedded s \<Longrightarrow> kv_ops_cache s' = kv_ops_cache s \<Longrightarrow> kv_up s' = kv_up s"
  by (simp add: kv_up_def get_kv_eq split: option.split)

lemma kv_up_cached [simp]: "kv_ops_cache s = Some p \<Longrightarrow> kv_up s"
  by (simp add: kv_up_def nos_get_kv_ops_def)

text \<open>The creation of a table returns for every capacity up to \<open>2 ^ 31\<close>.\<close>

lemma kv_create_returns:
  assumes "cap \<le> 2 ^ 31"
  shows "\<exists>t ts'. nos_kv_table_create 21 ok nm ks mv cap ts = Some (t, ts')"
proof -
  have "unat cap \<le> 2 ^ 31" using assms by (simp add: word_le_nat_alt)
  then obtain m where "grow_buckets 21 (2 ^ 10) cap = Some (2 ^ m)" using grow_buckets_Some[of cap 10 21] by auto
  then show ?thesis by (simp add: nos_kv_table_create_def split: option.split)
qed

text \<open>
  From the start of the node on both interfaces work: once the two tables are registered, in a registry with room for them and with no other table
  of that name, a call through the interface is the operation of the scheduler or of the database itself; as long as they
  are not registered, the calls fail and change nothing.
\<close>

theorem api_calls_direct:
  assumes "embedded_ok e" "length (embedded_list e) \<le> 30" "\<not> timer_initialized e"
    and "nos_embedded_service_get ''SVC_TIMER'' e = None" "nos_embedded_service_get ''SVC_KV_DB'' e = None"
    and "timer_ops_cache s = None" "kv_ops_cache s = None" "embedded s = e"
    and "s' = s\<lparr>embedded := nos_kv_db_init kp (nos_timer_init tp e)\<rparr>"
  shows "nos_timer_start_auto c tm n per s = (NOS_ERR, s) \<and> nos_timer_stop_auto c tm s = (NOS_ERR, s) \<and> nos_kv_put_auto t key v s = (NOS_ERR, s)
    \<and> nos_kv_table_create_auto ok nm ks vs cap s = Some (None, s)
    \<and> nos_timer_start_auto c tm n per s' = nos_timer_start (Some c) tm n per (s'\<lparr>timer_ops_cache := Some tp\<rparr>)
    \<and> nos_timer_stop_auto c tm s' = nos_timer_stop (Some c) tm (s'\<lparr>timer_ops_cache := Some tp\<rparr>)
    \<and> fst (nos_kv_put_auto t key v s') = fst (nos_kv_put (Some key) (Some v) (of_nat (length v)) (g_tables s ! t))
    \<and> g_tables (snd (nos_kv_put_auto t key v s')) = (g_tables s)[t := snd (snd (nos_kv_put (Some key) (Some v) (of_nat (length v)) (g_tables s ! t)))]
    \<and> fst (nos_kv_get_auto t key room s') = (fst (nos_kv_get (Some key) True (Some room) (g_tables s ! t)), fst (snd (nos_kv_get (Some key) True (Some room) (g_tables s ! t))))"
proof -
  have room: "length (embedded_list e) < 32" using assms(2) by simp
  let ?e1 = "snd (nos_embedded_service_register ''SVC_TIMER'' tp e)"
  note t = embedded_register_new[OF assms(1,4) room, where q = tp]
  have ok1: "embedded_ok ?e1" using embedded_register_list(1)[OF assms(1) prod.collapse[symmetric]] by simp
  have e1: "nos_timer_init tp e = ?e1\<lparr>timer_initialized := True\<rparr>" using assms(3) by (simp add: nos_timer_init_def)
  let ?e2 = "?e1\<lparr>timer_initialized := True\<rparr>"
  have same: "nos_embedded_service_get nm ?e2 = nos_embedded_service_get nm ?e1" "embedded_ok ?e2 = embedded_ok ?e1" "embedded_list ?e2 = embedded_list ?e1" for nm
    by (simp_all add: nos_embedded_service_get_def embedded_ok_def embedded_list_def)
  have k0: "nos_embedded_service_get ''SVC_KV_DB'' ?e2 = None" using same(1) t(3)[of "''SVC_KV_DB''"] assms(5) by simp
  have room2: "length (embedded_list ?e2) < 32" using same(3) t(2) assms(2) by simp
  have ok2: "embedded_ok ?e2" using same(2) ok1 by simp
  note k = embedded_register_new[OF ok2 k0 room2, where q = kp]
  have tm: "nos_embedded_service_get ''SVC_TIMER'' ?e2 = Some tp" using same(1) t(1) by simp
  have got: "nos_embedded_service_get ''SVC_KV_DB'' (embedded s') = Some kp" "nos_embedded_service_get ''SVC_TIMER'' (embedded s') = Some tp"
    using assms(9) e1 k(1) embedded_register_keeps(1)[OF ok2 tm, of "''SVC_KV_DB''" kp] by (simp_all add: nos_kv_db_init_def)
  have c: "timer_ops_cache s' = None" "kv_ops_cache s' = None" "g_tables s' = g_tables s" using assms(6,7,9) by simp_all
  have up: "nos_get_timer_ops s' = (Some tp, s'\<lparr>timer_ops_cache := Some tp\<rparr>)" "nos_get_kv_ops s' = (Some kp, s'\<lparr>kv_ops_cache := Some kp\<rparr>)"
    using got c by (simp_all add: nos_get_timer_ops_def nos_get_kv_ops_def)
  have down: "nos_get_timer_ops s = (None, s)" "nos_get_kv_ops s = (None, s)"
    using assms(4-8) by (simp_all add: nos_get_timer_ops_def nos_get_kv_ops_def)
  show ?thesis using c(3)
    by (simp add: nos_timer_start_auto_def nos_timer_stop_auto_def nos_kv_put_auto_def nos_kv_get_auto_def nos_kv_table_create_auto_def up down g_timer_ops_def g_kv_ops_def
        case_prod_beta)
qed

end
