(* ===== verification/Nos_Components.thy ===== *)
theory Nos_Components
  imports Nos_Dispatch Nos_Api Nos_Log
begin

text \<open>
  The components that come with the platform, \<^verbatim>\<open>src/components\<close>: the measurement pairs of \<^verbatim>\<open>perf\<close> and the
  models 1 to 5.  Each is a set of callbacks over the operations of the scheduler, the buffer
  pool and the key-value database, with a private context that \<^verbatim>\<open>self->priv\<close> points to.
  A callback gives \<open>None\<close> when it follows the null pointer of a context that could not be allocated.

  The IPC transport is the argument \<open>ipc\<close>, the identifiers of services, which the build generates, are the
  arguments \<open>svc_mgmt\<close> and \<open>svc_routing\<close>, and \<open>now\<close> is the monotonic clock in nanoseconds.  What the
  callbacks log on the way is left out, except for model 3, whose work it is.
\<close>

type_synonym 's ipc_send = "string \<Rightarrow> string \<Rightarrow> bufp \<Rightarrow> 's \<Rightarrow> nos_status_t \<times> 's"
type_synonym 's ipc_reply = "nat option \<Rightarrow> u32 \<Rightarrow> bufp \<Rightarrow> 's \<Rightarrow> nos_status_t \<times> 's"

record ping_ctx_t =
  start_time_ns :: u64
  target_count :: u32
  current_count :: u32

record rping_ctx_t = ping_ctx_t +
  payload_size :: u32
  sweep_count :: u32
  sweep_index :: u32
  sweep_sizes :: "u32 list"

record m1_ctx_t =
  heartbeat_timer :: "nat option"
  comp2_state_table :: "nat option"

record m2_ctx_t =
  state_table :: "nat option"
  test_table :: "nat option"
  local_counter :: u32

record comps_state = api_state +
  ping_priv :: "nat \<rightharpoonup> ping_ctx_t"
  rping_priv :: "nat \<rightharpoonup> rping_ctx_t"
  m1_priv :: "nat \<rightharpoonup> m1_ctx_t"
  m2_priv :: "nat \<rightharpoonup> m2_ctx_t"
  counter_priv :: "nat \<rightharpoonup> u32"

section \<open>Sending a new message\<close>

definition put_payload :: "bufp \<Rightarrow> u8 list \<Rightarrow> 'z buf_state_scheme \<Rightarrow> 'z buf_state_scheme" where
  "put_payload p bs = upd_buf p (\<lambda>b. b\<lparr>chunk := write_bytes (chunk b) (nat (data b - raw_data b) + sizeof_msg) bs\<rparr>)"

definition get_payload_u32 :: "'z buf_state_scheme \<Rightarrow> bufp \<Rightarrow> nat \<Rightarrow> u32" where
  "get_payload_u32 s p k = (let b = get_buf s p in get_u32 (chunk b) (nat (data b - raw_data b) + sizeof_msg + 4 * k))"

text \<open>
  What all senders have in common: a buffer is allocated, some fields of its envelope are assigned (the others keep
  what the chunk held), the payload is written, the message is sent and the reference given back.
\<close>

definition post_msg :: "'z sched_state_scheme ipc_send \<Rightarrow> u32 \<Rightarrow> (nos_service_msg_t \<Rightarrow> nos_service_msg_t) \<Rightarrow> u8 list \<Rightarrow> bool \<Rightarrow> 'z sched_state_scheme \<Rightarrow> 'z sched_state_scheme" where
  "post_msg ipc sz fill payload release s =
    (case nos_buffer_alloc sz 0 s of
       (None, s1) \<Rightarrow> s1
     | (Some p, s1) \<Rightarrow>
         (let s2 = put_payload p payload (set_header p fill s1);
              s3 = snd (nos_service_msg_send ipc (Some p) s2)
          in if release then nos_buffer_release (Some p) s3 else s3))"

definition self_id :: "nat \<Rightarrow> 'z sched_state_scheme \<Rightarrow> u32" where
  "self_id c s = comp_id (get_comp s c)"

section \<open>ping.c and pong.c\<close>

definition ping_fields :: "u32 \<Rightarrow> nos_service_msg_t \<Rightarrow> nos_service_msg_t" where
  "ping_fields i h = h\<lparr>magic := NOS_IPC_MAGIC, dst_service := 112, src_component := i, msg_code := 2001, payload_len := 0\<rparr>"

definition send_ping :: "'z comps_state_scheme ipc_send \<Rightarrow> nat \<Rightarrow> 'z comps_state_scheme \<Rightarrow> 'z comps_state_scheme" where
  "send_ping ipc c s = post_msg ipc 32 (ping_fields (self_id c s)) [] True s"

definition set_ping :: "nat \<Rightarrow> ping_ctx_t \<Rightarrow> 'z comps_state_scheme \<Rightarrow> 'z comps_state_scheme" where
  "set_ping c x s = s\<lparr>ping_priv := (ping_priv s)(c \<mapsto> x)\<rparr>"

definition ping_on_msg :: "'z comps_state_scheme ipc_send \<Rightarrow> u64 \<Rightarrow> nat \<Rightarrow> bufp \<Rightarrow> 'z comps_state_scheme \<Rightarrow> 'z comps_state_scheme option" where
  "ping_on_msg ipc now c p s =
    (let h = msg_header s p in
     if msg_code h = 3001 then
       (case ping_priv s c of
          None \<Rightarrow> None
        | Some x \<Rightarrow> Some (send_ping ipc c (set_ping c (x\<lparr>target_count := (if payload_len h \<ge> 4 then get_payload_u32 s p 0 else 100000),
             current_count := 0, start_time_ns := now\<rparr>) s)))
     else if msg_code h = 2002 then
       (case ping_priv s c of
          None \<Rightarrow> None
        | Some x \<Rightarrow>
            let y = x\<lparr>current_count := current_count x + 1\<rparr>; s1 = set_ping c y s in
            Some (if current_count y < target_count y then send_ping ipc c s1 else s1))
     else Some s)"

definition ping_init :: "bool \<Rightarrow> nat \<Rightarrow> 'z comps_state_scheme \<Rightarrow> nos_status_t \<times> 'z comps_state_scheme" where
  "ping_init calloc_ok c s =
    (NOS_OK, s\<lparr>ping_priv := (ping_priv s)(c := if calloc_ok then Some \<lparr>start_time_ns = 0, target_count = 0, current_count = 0\<rparr> else None)\<rparr>)"

definition pong_fields :: "u32 \<Rightarrow> nos_service_msg_t \<Rightarrow> nos_service_msg_t" where
  "pong_fields i h = h\<lparr>magic := NOS_IPC_MAGIC, dst_service := 111, src_component := i, msg_code := 2002, payload_len := 0\<rparr>"

definition pong_on_msg :: "'z sched_state_scheme ipc_send \<Rightarrow> nat \<Rightarrow> bufp \<Rightarrow> 'z sched_state_scheme \<Rightarrow> 'z sched_state_scheme" where
  "pong_on_msg ipc c p s = (if msg_code (msg_header s p) = 2001 then post_msg ipc 32 (pong_fields (self_id c s)) [] True s else s)"

section \<open>remote_ping.c and remote_pong.c\<close>

definition rping_fields :: "u32 \<Rightarrow> rping_ctx_t \<Rightarrow> nos_service_msg_t \<Rightarrow> nos_service_msg_t" where
  "rping_fields i x h = h\<lparr>magic := NOS_IPC_MAGIC, version := NOS_IPC_VERSION, dst_service := 114, src_component := i, msg_code := 2001,
     seq := current_count x + 1, flags := NOS_MSG_F_NEED_REPLY, payload_len := payload_size x\<rparr>"

text \<open>\<^verbatim>\<open>sizeof(nos_service_msg_t) + payload_size\<close> is converted to 32 bits.\<close>

definition rping_send :: "'z comps_state_scheme ipc_send \<Rightarrow> nat \<Rightarrow> rping_ctx_t \<Rightarrow> 'z comps_state_scheme \<Rightarrow> 'z comps_state_scheme" where
  "rping_send ipc c x s = post_msg ipc (32 + payload_size x) (rping_fields (self_id c s) x) (replicate (unat (payload_size x)) 0xA5) True s"

definition set_rping :: "nat \<Rightarrow> rping_ctx_t \<Rightarrow> 'z comps_state_scheme \<Rightarrow> 'z comps_state_scheme" where
  "set_rping c x s = s\<lparr>rping_priv := (rping_priv s)(c \<mapsto> x)\<rparr>"

definition test_ctx :: "u64 \<Rightarrow> u32 \<Rightarrow> rping_ctx_t \<Rightarrow> rping_ctx_t" where
  "test_ctx now sz x = x\<lparr>payload_size := sz, current_count := 0, start_time_ns := now\<rparr>"

definition start_one_test :: "'z comps_state_scheme ipc_send \<Rightarrow> u64 \<Rightarrow> nat \<Rightarrow> rping_ctx_t \<Rightarrow> u32 \<Rightarrow> 'z comps_state_scheme \<Rightarrow> 'z comps_state_scheme" where
  "start_one_test ipc now c x sz s = (let y = test_ctx now sz x in rping_send ipc c y (set_rping c y s))"

definition sweep_defaults :: "u32 list" where
  "sweep_defaults = [32, 64, 128, 256, 512, 1024, 2048, 4096]"

definition rping_start :: "'z comps_state_scheme ipc_send \<Rightarrow> u64 \<Rightarrow> nat \<Rightarrow> u32 \<Rightarrow> u32 \<Rightarrow> rping_ctx_t \<Rightarrow> 'z comps_state_scheme \<Rightarrow> 'z comps_state_scheme" where
  "rping_start ipc now c n requested x s =
    (let x1 = x\<lparr>target_count := n, sweep_count := 0, sweep_index := 0\<rparr> in
     if requested = 0xFFFFFFFF then
       let x2 = x1\<lparr>sweep_count := 8, sweep_sizes := sweep_defaults\<rparr> in start_one_test ipc now c x2 (sweep_sizes x2 ! unat (sweep_index x2)) s
     else start_one_test ipc now c x1 requested s)"

definition rping_pong :: "'z comps_state_scheme ipc_send \<Rightarrow> u64 \<Rightarrow> nat \<Rightarrow> rping_ctx_t \<Rightarrow> 'z comps_state_scheme \<Rightarrow> 'z comps_state_scheme" where
  "rping_pong ipc now c x s =
    (let y = x\<lparr>current_count := current_count x + 1\<rparr> in
     if current_count y < target_count y then rping_send ipc c y (set_rping c y s)
     else if sweep_count y > 0 then
       let z = y\<lparr>sweep_index := sweep_index y + 1\<rparr> in
       if sweep_index z < sweep_count z then start_one_test ipc now c z (sweep_sizes z ! unat (sweep_index z)) s
       else set_rping c (z\<lparr>sweep_count := 0, sweep_index := 0\<rparr>) s
     else set_rping c (y\<lparr>sweep_count := 0, sweep_index := 0\<rparr>) s)"

definition rping_on_msg :: "'z comps_state_scheme ipc_send \<Rightarrow> u64 \<Rightarrow> nat \<Rightarrow> bufp \<Rightarrow> 'z comps_state_scheme \<Rightarrow> 'z comps_state_scheme option" where
  "rping_on_msg ipc now c p s =
    (let h = msg_header s p in
     if msg_code h = 3001 then
       map_option (\<lambda>x. rping_start ipc now c (if payload_len h \<ge> 4 then get_payload_u32 s p 0 else 100000) (if payload_len h \<ge> 8 then get_payload_u32 s p 1 else 0) x s) (rping_priv s c)
     else if msg_code h = 2002 then map_option (\<lambda>x. rping_pong ipc now c x s) (rping_priv s c)
     else Some s)"

definition rping_init :: "bool \<Rightarrow> nat \<Rightarrow> 'z comps_state_scheme \<Rightarrow> nos_status_t \<times> 'z comps_state_scheme" where
  "rping_init calloc_ok c s =
    (NOS_OK, s\<lparr>rping_priv := (rping_priv s)(c := if calloc_ok then Some \<lparr>start_time_ns = 0, target_count = 0, current_count = 0, payload_size = 0, sweep_count = 0,
       sweep_index = 0, sweep_sizes = replicate 8 0\<rparr> else None)\<rparr>)"

definition nos_service_get_reply_ctx :: "bufp option \<Rightarrow> 'z buf_state_scheme \<Rightarrow> nat option" where
  "nos_service_get_reply_ctx buf s = (case buf of None \<Rightarrow> None | Some p \<Rightarrow> reply_ctx (get_buf s p))"

definition rpong_fields :: "u32 \<Rightarrow> nos_service_msg_t \<Rightarrow> nos_service_msg_t \<Rightarrow> nos_service_msg_t" where
  "rpong_fields i req h = h\<lparr>magic := NOS_IPC_MAGIC, version := NOS_IPC_VERSION, dst_service := 0, src_component := i, msg_code := 2002, seq := seq req, flags := 0,
     payload_len := payload_len req\<rparr>"

definition payload_bytes :: "'z buf_state_scheme \<Rightarrow> bufp \<Rightarrow> nat \<Rightarrow> u8 list" where
  "payload_bytes s p n = (let b = get_buf s p in map (get_byte (chunk b)) [nat (data b - raw_data b) + sizeof_msg..<nat (data b - raw_data b) + sizeof_msg + n])"

definition rpong_on_msg :: "'z sched_state_scheme ipc_reply \<Rightarrow> nat \<Rightarrow> bufp \<Rightarrow> 'z sched_state_scheme \<Rightarrow> 'z sched_state_scheme" where
  "rpong_on_msg reply c req s =
    (let h = msg_header s req in
     if msg_code h \<noteq> 2001 then s
     else (case nos_buffer_alloc (32 + payload_len h) 0 s of
         (None, s1) \<Rightarrow> s1
       | (Some p, s1) \<Rightarrow>
           let s2 = set_header p (rpong_fields (self_id c s) h) s1;
               s3 = put_payload p (payload_bytes s2 req (unat (payload_len h))) s2;
               s4 = snd (nos_service_reply reply (nos_service_get_reply_ctx (Some req) s3) (Some p) s3)
           in nos_buffer_release (Some p) s4))"

section \<open>Model 1: heartbeats and a subscription\<close>

text \<open>A name as a key of 32 bytes.\<close>

definition name_key :: "string \<Rightarrow> u8 list" where
  "name_key name = map (\<lambda>c. of_nat (of_char c)) (take 31 name) @ replicate (32 - length (take 31 name)) 0"

definition heartbeat_fields :: "u32 \<Rightarrow> u32 \<Rightarrow> nos_service_msg_t \<Rightarrow> nos_service_msg_t" where
  "heartbeat_fields svc_routing i h = h\<lparr>magic := NOS_IPC_MAGIC, dst_service := svc_routing, src_component := i, msg_code := 1001, payload_len := 0\<rparr>"

definition heartbeat_callback :: "'z sched_state_scheme ipc_send \<Rightarrow> u32 \<Rightarrow> nat \<Rightarrow> 'z sched_state_scheme \<Rightarrow> 'z sched_state_scheme" where
  "heartbeat_callback ipc svc_routing c s = post_msg ipc 32 (heartbeat_fields svc_routing (self_id c s)) [] True s"

definition answer_fields :: "u32 \<Rightarrow> u32 \<Rightarrow> nos_service_msg_t \<Rightarrow> nos_service_msg_t" where
  "answer_fields svc_mgmt i h = h\<lparr>magic := NOS_IPC_MAGIC, dst_service := svc_mgmt, src_component := i, msg_code := 1002\<rparr>"

definition m1_on_msg :: "'z sched_state_scheme ipc_send \<Rightarrow> u32 \<Rightarrow> nat \<Rightarrow> bufp \<Rightarrow> 'z sched_state_scheme \<Rightarrow> 'z sched_state_scheme" where
  "m1_on_msg ipc svc_mgmt c p s = (if msg_code (msg_header s p) = 1001 then post_msg ipc 64 (answer_fields svc_mgmt (self_id c s)) [] True s else s)"

definition m1_init :: "bool \<Rightarrow> nat \<Rightarrow> 'z comps_state_scheme \<Rightarrow> nos_status_t \<times> 'z comps_state_scheme" where
  "m1_init calloc_ok c s =
    (if calloc_ok then (NOS_OK, s\<lparr>m1_priv := (m1_priv s)(c \<mapsto> \<lparr>heartbeat_timer = None, comp2_state_table = None\<rparr>)\<rparr>) else (NOS_ERR, s\<lparr>m1_priv := (m1_priv s)(c := None)\<rparr>))"

text \<open>\<open>heartbeat\<close> and \<open>on_change\<close> are the addresses of the callbacks.\<close>

definition m1_start :: "nat option \<Rightarrow> bool \<Rightarrow> nat \<Rightarrow> nat \<Rightarrow> nat \<Rightarrow> 'z comps_state_scheme \<Rightarrow> (nos_status_t \<times> 'z comps_state_scheme) option" where
  "m1_start timer_mem table_mem heartbeat on_change c s =
    (case m1_priv s c of
       None \<Rightarrow> None
     | Some x \<Rightarrow>
         (case nos_timer_create_auto timer_mem (Some heartbeat) (Some c) None s of (tm, s1) \<Rightarrow>
            let s2 = (if tm = None then s1 else snd (nos_timer_start_auto c tm 10000 True s1)) in
            (case nos_kv_table_create_auto table_mem ''CompStates'' 32 4 128 s2 of
               None \<Rightarrow> None
             | Some (tab, s3) \<Rightarrow>
               let s4 = (case tab of None \<Rightarrow> s3 | Some t \<Rightarrow> snd (nos_kv_subscribe_auto t (name_key ''Comp-2'') on_change c s3)) in
               Some (NOS_OK, s4\<lparr>m1_priv := (m1_priv s4)(c \<mapsto> x\<lparr>heartbeat_timer := tm, comp2_state_table := tab\<rparr>)\<rparr>))))"

definition m1_stop :: "nat \<Rightarrow> nat \<Rightarrow> 'z comps_state_scheme \<Rightarrow> 'z comps_state_scheme" where
  "m1_stop on_change c s =
    (case m1_priv s c of
       None \<Rightarrow> s
     | Some x \<Rightarrow>
         (let s1 = (if heartbeat_timer x = None then s else nos_timer_delete_auto (\<lambda>_ _ s. s) (heartbeat_timer x) s);
              s2 = (case comp2_state_table x of None \<Rightarrow> s1 | Some t \<Rightarrow> snd (nos_kv_unsubscribe_auto t (name_key ''Comp-2'') on_change c s1))
          in s2\<lparr>m1_priv := (m1_priv s2)(c := None)\<rparr>))"

section \<open>Model 2: a counter in the database\<close>

definition m2_save :: "nat \<Rightarrow> m2_ctx_t \<Rightarrow> 'z comps_state_scheme \<Rightarrow> 'z comps_state_scheme" where
  "m2_save c x s =
    (let v = bytes_u32 (local_counter x);
         s1 = (case state_table x of None \<Rightarrow> s | Some t \<Rightarrow> snd (nos_kv_put_auto t (name_key (comp_name (get_comp s c))) v s))
     in (case test_table x of None \<Rightarrow> s1 | Some t \<Rightarrow> snd (nos_kv_put_auto t v v s1)))"

definition m2_on_msg :: "nat \<Rightarrow> bufp \<Rightarrow> 'z comps_state_scheme \<Rightarrow> 'z comps_state_scheme" where
  "m2_on_msg c p s =
    (case m2_priv s c of
       None \<Rightarrow> s
     | Some x \<Rightarrow> let y = x\<lparr>local_counter := local_counter x + 1\<rparr> in m2_save c y (s\<lparr>m2_priv := (m2_priv s)(c \<mapsto> y)\<rparr>))"

text \<open>The value that is read overwrites the first bytes of the counter.\<close>

definition m2_recover :: "nat \<Rightarrow> nat \<Rightarrow> 'z comps_state_scheme \<Rightarrow> u32 \<times> 'z comps_state_scheme" where
  "m2_recover c t s =
    (let key = name_key (comp_name (get_comp s c)) in
     case nos_kv_get_auto t key 4 s of ((r, bs), s1) \<Rightarrow>
       if r = NOS_OK then (get_u32 (write_bytes (bytes_u32 0) 0 bs) 0, s1)
       else (0, snd (nos_kv_put_auto t key (bytes_u32 0) s1)))"

text \<open>\<open>None\<close> would be a sizing loop that does not end.\<close>

definition m2_init :: "bool \<Rightarrow> bool \<Rightarrow> bool \<Rightarrow> nat \<Rightarrow> 'z comps_state_scheme \<Rightarrow> (nos_status_t \<times> 'z comps_state_scheme) option" where
  "m2_init calloc_ok mem1 mem2 c s =
    (if \<not> calloc_ok then Some (NOS_ERR, s)
     else (case nos_kv_table_create_auto mem1 ''CompStates'' 32 4 128 s of
         None \<Rightarrow> None
       | Some (t1, s1) \<Rightarrow>
       (case nos_kv_table_create_auto mem2 ''TestData'' 4 4 1024 s1 of
         None \<Rightarrow> None
       | Some (t2, s2) \<Rightarrow>
         (case (case t1 of None \<Rightarrow> (0, s2) | Some t \<Rightarrow> m2_recover c t s2) of (n, s3) \<Rightarrow>
            Some (NOS_OK, s3\<lparr>m2_priv := (m2_priv s3)(c \<mapsto> \<lparr>state_table = t1, test_table = t2, local_counter = n\<rparr>)\<rparr>)))))"

definition m2_stop :: "nat \<Rightarrow> 'z comps_state_scheme \<Rightarrow> 'z comps_state_scheme" where
  "m2_stop c s = s\<lparr>m2_priv := (m2_priv s)(c := None)\<rparr>"

section \<open>Models 4 and 5: counters\<close>

definition m4_on_msg :: "'z comps_state_scheme ipc_send \<Rightarrow> u32 \<Rightarrow> nat \<Rightarrow> bufp \<Rightarrow> 'z comps_state_scheme \<Rightarrow> 'z comps_state_scheme option" where
  "m4_on_msg ipc svc_mgmt c p s =
    (case counter_priv s c of
       None \<Rightarrow> None
     | Some n \<Rightarrow>
         let s1 = s\<lparr>counter_priv := (counter_priv s)(c \<mapsto> n + 1)\<rparr> in
         Some (if msg_code (msg_header s p) = 1001 then post_msg ipc 64 (answer_fields svc_mgmt (self_id c s)) [] False s1 else s1))"

definition m5_on_msg :: "nat \<Rightarrow> bufp \<Rightarrow> 'z comps_state_scheme \<Rightarrow> 'z comps_state_scheme option" where
  "m5_on_msg c p s = map_option (\<lambda>n. s\<lparr>counter_priv := (counter_priv s)(c \<mapsto> n + 1)\<rparr>) (counter_priv s c)"

definition counter_init :: "bool \<Rightarrow> nat \<Rightarrow> 'z comps_state_scheme \<Rightarrow> nos_status_t \<times> 'z comps_state_scheme" where
  "counter_init calloc_ok c s = (NOS_OK, s\<lparr>counter_priv := (counter_priv s)(c := if calloc_ok then Some 0 else None)\<rparr>)"

section \<open>Model 3: log lines\<close>

text \<open>\<^verbatim>\<open>nos_log_raw\<close> of \<^verbatim>\<open>include/nos_log_api.h\<close>; \<open>dec\<close> is the text of a number, \<open>time\<close> that of the time.\<close>

definition nos_log_raw :: "nos_log_level_t \<Rightarrow> u32 \<Rightarrow> string \<Rightarrow> string \<Rightarrow> 'z log_state_scheme \<Rightarrow> 'z log_state_scheme" where
  "nos_log_raw level i time text l = (case nos_get_log_ops l of (None, l1) \<Rightarrow> l1 | (Some p, l1) \<Rightarrow> nos_log_impl level i time text l1)"

definition m3_spam :: "(nat \<Rightarrow> string) \<Rightarrow> string \<Rightarrow> u32 \<Rightarrow> u32 \<Rightarrow> 'z log_state_scheme \<Rightarrow> 'z log_state_scheme" where
  "m3_spam dec time i n l =
    (let l1 = nos_log_raw NOS_LOG_LEVEL_INFO i time (''Starting Spam Logging: '' @ dec (unat n) @ '' messages'') l;
         l2 = fold (\<lambda>k. nos_log_raw NOS_LOG_LEVEL_DEBUG i time (''Spam message #'' @ dec k @ '' for stress testing'')) [0..<unat n] l1
     in nos_log_raw NOS_LOG_LEVEL_INFO i time ''Spam Logging Complete'' l2)"

definition m3_on_msg :: "(nat \<Rightarrow> string) \<Rightarrow> string \<Rightarrow> nat \<Rightarrow> bufp \<Rightarrow> 's sched_state_scheme \<Rightarrow> 'z log_state_scheme \<Rightarrow> 'z log_state_scheme" where
  "m3_on_msg dec time c p s l =
    (let h = msg_header s p in
     if msg_code h = 3002 then m3_spam dec time (self_id c s) (if payload_len h \<ge> 4 then get_payload_u32 s p 0 else 2000) l else l)"

definition m3_init :: "string \<Rightarrow> nat \<Rightarrow> 's sched_state_scheme \<Rightarrow> 'z log_state_scheme \<Rightarrow> nos_status_t \<times> 'z log_state_scheme" where
  "m3_init time c s l = (NOS_OK, nos_log_raw NOS_LOG_LEVEL_DEBUG (self_id c s) time ''Model 3 (Infrastructure Helper) initialized'' l)"

section \<open>Installing the callbacks\<close>

text \<open>The functions \<^verbatim>\<open>nos_export_component\<close>; the arguments are the addresses of the callbacks.\<close>

definition ping_export :: "nat \<Rightarrow> nat \<Rightarrow> nat \<Rightarrow> nos_component_t \<Rightarrow> nos_status_t \<times> nos_component_t" where
  "ping_export on_msg init stop x = (NOS_OK, x\<lparr>comp_on_msg := Some on_msg, comp_init := Some init, comp_stop := Some stop\<rparr>)"

definition pong_export :: "nat \<Rightarrow> nos_component_t \<Rightarrow> nos_status_t \<times> nos_component_t" where
  "pong_export on_msg x = (NOS_OK, x\<lparr>comp_on_msg := Some on_msg\<rparr>)"

definition rping_export :: "nat \<Rightarrow> nat \<Rightarrow> nat \<Rightarrow> nos_component_t \<Rightarrow> nos_status_t \<times> nos_component_t" where
  "rping_export on_msg init stop x = (NOS_OK, x\<lparr>comp_on_msg := Some on_msg, comp_init := Some init, comp_stop := Some stop\<rparr>)"

definition rpong_export :: "nat \<Rightarrow> nos_component_t \<Rightarrow> nos_status_t \<times> nos_component_t" where
  "rpong_export on_msg x = (NOS_OK, x\<lparr>comp_on_msg := Some on_msg\<rparr>)"

definition m1_export :: "nat \<Rightarrow> nat \<Rightarrow> nat \<Rightarrow> nat \<Rightarrow> nos_component_t option \<Rightarrow> nos_status_t \<times> nos_component_t option" where
  "m1_export on_msg init start stop cmp =
    (case cmp of None \<Rightarrow> (NOS_ERR, None) | Some x \<Rightarrow> (NOS_OK, Some (x\<lparr>comp_on_msg := Some on_msg, comp_init := Some init, comp_start := Some start, comp_stop := Some stop\<rparr>)))"

definition m2_export :: "nat \<Rightarrow> nat \<Rightarrow> nat \<Rightarrow> nat \<Rightarrow> nos_component_t option \<Rightarrow> nos_status_t \<times> nos_component_t option" where
  "m2_export on_msg init start stop cmp =
    (case cmp of None \<Rightarrow> (NOS_ERR, None) | Some x \<Rightarrow> (NOS_OK, Some (x\<lparr>comp_on_msg := Some on_msg, comp_init := Some init, comp_start := Some start, comp_stop := Some stop\<rparr>)))"

definition m3_export :: "nat \<Rightarrow> nat \<Rightarrow> nos_component_t option \<Rightarrow> nos_status_t \<times> nos_component_t option" where
  "m3_export on_msg init cmp = (case cmp of None \<Rightarrow> (NOS_ERR, None) | Some x \<Rightarrow> (NOS_OK, Some (x\<lparr>comp_on_msg := Some on_msg, comp_init := Some init\<rparr>)))"

definition m4_export :: "nat \<Rightarrow> nat \<Rightarrow> nat \<Rightarrow> nos_component_t option \<Rightarrow> nos_status_t \<times> nos_component_t option" where
  "m4_export on_msg init start cmp =
    (case cmp of None \<Rightarrow> (NOS_ERR, None) | Some x \<Rightarrow> (NOS_OK, Some (x\<lparr>comp_on_msg := Some on_msg, comp_init := Some init, comp_start := Some start\<rparr>)))"

definition m5_export :: "nat \<Rightarrow> nat \<Rightarrow> nat \<Rightarrow> nos_component_t option \<Rightarrow> nos_status_t \<times> nos_component_t option" where
  "m5_export on_msg init start cmp =
    (case cmp of None \<Rightarrow> (NOS_ERR, None) | Some x \<Rightarrow> (NOS_OK, Some (x\<lparr>comp_on_msg := Some on_msg, comp_init := Some init, comp_start := Some start\<rparr>)))"

text \<open>The remaining callbacks.  Stopping \<^verbatim>\<open>ping\<close> and \<^verbatim>\<open>remote_ping\<close> frees the context and leaves the pointer; the object is
  freed next.\<close>

definition ping_stop :: "nat \<Rightarrow> 'z comps_state_scheme \<Rightarrow> 'z comps_state_scheme" where
  "ping_stop c s = s\<lparr>ping_priv := (ping_priv s)(c := None)\<rparr>"

definition rping_stop :: "nat \<Rightarrow> 'z comps_state_scheme \<Rightarrow> 'z comps_state_scheme" where
  "rping_stop c s = s\<lparr>rping_priv := (rping_priv s)(c := None)\<rparr>"

definition trivial_start :: "nat \<Rightarrow> 'z comps_state_scheme \<Rightarrow> nos_status_t \<times> 'z comps_state_scheme" where
  "trivial_start c s = (NOS_OK, s)"

section \<open>The message that is sent\<close>

lemma header_posted:
  assumes "valid_buf s p" "nat (data (get_buf s p) - raw_data (get_buf s p)) + sizeof_msg \<le> length (chunk (get_buf s p))"
  shows "msg_header (put_payload p bs (set_header p f s)) p = f (msg_header s p)"
  using assms by (simp add: msg_header_def put_payload_def set_header_def get_buf_upd_buf Let_def decode_write_disjoint decode_write_encode)

lemma posted_buf:
  assumes "valid_buf s p"
  shows "ref_cnt (get_buf (put_payload p bs (set_header p f s)) p) = ref_cnt (get_buf s p)" "valid_buf (put_payload p bs (set_header p f s)) q = valid_buf s q"
    "q \<noteq> p \<Longrightarrow> get_buf (put_payload p bs (set_header p f s)) q = get_buf s q"
  using assms by (simp_all add: put_payload_def set_header_def get_buf_upd_buf Let_def)

lemma posted_frame [simp]:
  "g_service_registry (put_payload p bs (set_header p f s)) = g_service_registry s" "g_service_count (put_payload p bs (set_header p f s)) = g_service_count s"
  "g_threads (put_payload p bs (set_header p f s)) = g_threads s" "loaded_info (put_payload p bs (set_header p f s)) = loaded_info s"
  "loaded_count (put_payload p bs (set_header p f s)) = loaded_count s" "g_comps (put_payload p bs (set_header p f s)) = g_comps s"
  by (simp_all add: put_payload_def set_header_def)

text \<open>The header the allocator leaves in a chunk of its last use.\<close>

lemma alloc_header_room:
  assumes "nos_buffer_alloc sz 0 s = (Some p, s1)" "pool_ok s" "bufs_ok s" "32 \<le> sz"
  shows "valid_buf s1 p" "nat (data (get_buf s1 p) - raw_data (get_buf s1 p)) + sizeof_msg \<le> length (chunk (get_buf s1 p))" "ref_cnt (get_buf s1 p) = 1"
    "msg_header s1 p = decode_msg (chunk (get_buf s p)) 0"
proof -
  note f = alloc_frame[OF assms(1,2)]
  have b: "data (get_buf s1 p) = raw_data (get_buf s1 p)" "chunk (get_buf s1 p) = chunk (get_buf s p)" "ref_cnt (get_buf s1 p) = 1" by (simp_all add: f(3) alloc_reset_def)
  have "length (chunk (get_buf s p)) = unat (capacity (get_buf s p))" using bufs_okD[OF assms(3) f(1)] by (simp add: buf_ok_def)
  moreover have "32 \<le> unat sz" using assms(4) by (simp add: word_le_nat_alt)
  ultimately show "nat (data (get_buf s1 p) - raw_data (get_buf s1 p)) + sizeof_msg \<le> length (chunk (get_buf s1 p))" using f(6) b by (simp add: sizeof_msg_def)
  show "valid_buf s1 p" "ref_cnt (get_buf s1 p) = 1" "msg_header s1 p = decode_msg (chunk (get_buf s p)) 0" using f b by (simp_all add: msg_header_def)
qed

lemma pool_ok_posted:
  assumes "nos_buffer_alloc sz 0 s = (Some p, s1)" "pool_ok s"
  shows "pool_ok (put_payload p bs (set_header p f s1))"
proof -
  have v: "valid_buf s1 p" using alloc_frame(1,5)[OF assms] by simp
  have "pool_ok s1" using pool_ok_alloc assms by blast
  then have "pool_ok (set_header p f s1)" using v unfolding set_header_def by (intro pool_ok_upd_buf) (simp_all add: Let_def)
  then show ?thesis using v unfolding put_payload_def by (intro pool_ok_upd_buf) (simp_all add: set_header_def)
qed

text \<open>
  The senders of \<^verbatim>\<open>ping.c\<close>, \<^verbatim>\<open>pong.c\<close> and models 1 and 4 assign neither \<open>flags\<close> nor \<open>dst_component\<close>.  When the chunk they get was last
  used for a reply, the new message is taken for a reply as well: whatever service it is addressed to, it goes to the component of the old
  reply, or is refused when that component is not loaded.
\<close>

theorem unset_flags_misroute:
  assumes "pool_ok s" "bufs_ok s" "32 \<le> sz" "nos_buffer_alloc sz 0 s = (Some p, s1)" "is_reply_msg (decode_msg (chunk (get_buf s p)) 0)"
    and "fill \<in> {ping_fields i, pong_fields i, heartbeat_fields v i, answer_fields v i}"
    and "s2 = put_payload p bs (set_header p fill s1)"
  shows "nos_service_msg_send ipc (Some p) s2 =
    (case find_loaded_component_info s2 (dst_component (decode_msg (chunk (get_buf s p)) 0)) of
       Some k \<Rightarrow> nos_transport_local_send p (li_owner_thread (loaded_info s2 ! k)) s2
     | None \<Rightarrow> (NOS_ERR, s2))"
proof -
  note a = alloc_header_room[OF assms(4,1,2,3)]
  have h: "msg_header s2 p = fill (decode_msg (chunk (get_buf s p)) 0)" using header_posted[OF a(1,2)] a(4) assms(7) by simp
  have k: "flags (fill x) = flags x \<and> dst_component (fill x) = dst_component x" for x
    using assms(6) by (auto simp: ping_fields_def pong_fields_def heartbeat_fields_def answer_fields_def)
  then have "is_reply_msg (msg_header s2 p)" "dst_component (msg_header s2 p) = dst_component (decode_msg (chunk (get_buf s p)) 0)"
    using assms(5) unfolding h by (simp_all add: is_reply_msg_def)
  then show ?thesis by (simp add: nos_service_msg_send_def Let_def)
qed

text \<open>A message to a service of the node reaches the queue of its thread with the assigned fields.\<close>

definition local_route :: "'z sched_state_scheme \<Rightarrow> u32 \<Rightarrow> nat \<Rightarrow> bool" where
  "local_route s svc t \<longleftrightarrow> (\<exists>k. find_service_entry s svc = Some k \<and> \<not> is_remote (get_entry s k) \<and> local_thread (get_entry s k) = Some t)
     \<and> t < length (g_threads s) \<and> queue_ok (get_thread s t) \<and> length (queue_items (get_thread s t)) < 1023"

lemma local_route_cong:
  assumes "g_service_registry s' = g_service_registry s" "g_service_count s' = g_service_count s" "g_threads s' = g_threads s"
  shows "local_route s' svc t = local_route s svc t"
  using assms by (simp add: local_route_def find_service_entry_def get_entry_def )

lemma alloc_sched_frame:
  assumes "nos_buffer_alloc sz 0 s = (Some p, s1)" "pool_ok s"
  shows "g_service_registry s1 = g_service_registry s" "g_service_count s1 = g_service_count s" "g_threads s1 = g_threads s" "loaded_info s1 = loaded_info s"
    "loaded_count s1 = loaded_count s" "g_comps s1 = g_comps s"
proof -
  obtain bs where "s1 = s\<lparr>g_bins := bs\<rparr>" using nos_buffer_alloc_Some[OF assms] by blast
  then show "g_service_registry s1 = g_service_registry s" "g_service_count s1 = g_service_count s" "g_threads s1 = g_threads s" "loaded_info s1 = loaded_info s"
    "loaded_count s1 = loaded_count s" "g_comps s1 = g_comps s" by simp_all
qed

lemma post_msg_local:
  assumes "pool_ok s" "bufs_ok s" "32 \<le> sz" "nos_buffer_alloc sz 0 s = (Some p, s1)"
    and "\<not> is_reply_msg (fill (decode_msg (chunk (get_buf s p)) 0))" "local_route s (dst_service (fill (decode_msg (chunk (get_buf s p)) 0))) t"
  shows "\<exists>s3. post_msg ipc sz fill bs release s = (if release then nos_buffer_release (Some p) s3 else s3) \<and> pool_ok s3 \<and> valid_buf s3 p \<and> ref_cnt (get_buf s3 p) = 2
    \<and> queue_items (get_thread s3 t) = queue_items (get_thread s t) @ [Some p] \<and> msg_header s3 p = fill (decode_msg (chunk (get_buf s p)) 0)
    \<and> (\<forall>u. u \<noteq> t \<longrightarrow> get_thread s3 u = get_thread s u) \<and> get_buf s3 p = (get_buf (put_payload p bs (set_header p fill s1)) p)\<lparr>ref_cnt := 2\<rparr>"
proof -
  note a = alloc_header_room[OF assms(4,1,2,3)]
  define s2 where "s2 = put_payload p bs (set_header p fill s1)"
  have h: "msg_header s2 p = fill (decode_msg (chunk (get_buf s p)) 0)" using header_posted[OF a(1,2)] a(4) by (simp add: s2_def)
  have "local_route s2 (dst_service (msg_header s2 p)) t"
    using assms(6) alloc_sched_frame[OF assms(4,1)] local_route_cong[of s2 s] h by (simp add: s2_def)
  then obtain k where k: "find_service_entry s2 (dst_service (msg_header s2 p)) = Some k" "\<not> is_remote (get_entry s2 k)" "local_thread (get_entry s2 k) = Some t"
    and t: "t < length (g_threads s2)" "queue_ok (get_thread s2 t)" "length (queue_items (get_thread s2 t)) < 1023" by (auto simp: local_route_def)
  have v: "valid_buf s2 p" "ref_cnt (get_buf s2 p) = 1" using posted_buf[OF a(1)] a(1,3) by (simp_all add: s2_def)
  have th: "get_thread s2 = get_thread s" using alloc_sched_frame(3)[OF assms(4,1)] by (simp add: s2_def fun_eq_iff)
  obtain s3 where s3: "nos_transport_local_send p (Some t) s2 = (NOS_OK, s3)" "queue_items (get_thread s3 t) = queue_items (get_thread s2 t) @ [Some p]"
      "\<forall>u. u \<noteq> t \<longrightarrow> get_thread s3 u = get_thread s2 u"
      and bufs: "\<forall>q. get_buf s3 q = (if q = p then (get_buf s2 p)\<lparr>ref_cnt := ref_cnt (get_buf s2 p) + 1\<rparr> else get_buf s2 q)"
    using local_send_OK[OF t(1,2) v(1) t(3)] by blast
  obtain th where "s3 = upd_thread t (\<lambda>_. th) (nos_buffer_retain (Some p) s2) \<or> s3 = notify t (upd_thread t (\<lambda>_. th) (nos_buffer_retain (Some p) s2))"
    using s3(1) by (auto simp: nos_transport_local_send_def Let_def split: option.splits if_splits)
  then have g: "g_bins s3 = g_bins (nos_buffer_retain (Some p) s2)" by (auto simp: notify_def upd_thread_def)
  have "pool_ok (nos_buffer_retain (Some p) s2)" using pool_ok_retain[OF _ v(1)] v(2) pool_ok_posted[OF assms(4,1)] by (simp add: s2_def)
  then have ok: "pool_ok s3" using pool_ok_cong[OF g] by simp
  have vb: "valid_buf s3 p" using bins_cong[OF g, of p] v(1) by (simp add: nos_buffer_retain_def)
  have bp: "get_buf s3 p = (get_buf s2 p)\<lparr>ref_cnt := 2\<rparr>" using spec[OF bufs, of p] v(2) by simp
  have hd: "msg_header s3 p = msg_header s2 p" unfolding msg_header_def bp by (simp add: Let_def)
  have "nos_service_msg_send ipc (Some p) s2 = (NOS_OK, s3)" using k s3(1) assms(5) h by (simp add: nos_service_msg_send_def Let_def)
  then have "post_msg ipc sz fill bs release s = (if release then nos_buffer_release (Some p) s3 else s3)" using assms(4) by (simp add: post_msg_def s2_def[symmetric] Let_def)
  then show ?thesis using ok vb bp hd h s3(2,3) th s2_def by auto
qed

text \<open>The words of the payload, as the receiver reads them.\<close>

lemma get_u32_bytes: "get_u32 (bytes_u32 a @ r) 0 = a" "get_u32 (bytes_u32 a @ bytes_u32 b @ r) 4 = b"
  by (simp_all add: get_u32_def get_byte_def bytes_u32_def join_u32)

lemma release_shared_buf:
  assumes "pool_ok s" "valid_buf s p" "ref_cnt (get_buf s p) = 2"
  shows "get_buf (nos_buffer_release (Some p) s) p = (get_buf s p)\<lparr>ref_cnt := 1\<rparr>"
  using assms by (simp add: get_buf_def release_bins valid_buf_def release_result_def Let_def)

lemma post_msg_received:
  assumes "pool_ok s" "bufs_ok s" "32 + length bs \<le> unat sz" "nos_buffer_alloc sz 0 s = (Some p, s1)"
    and "\<not> is_reply_msg (fill (decode_msg (chunk (get_buf s p)) 0))" "local_route s (dst_service (fill (decode_msg (chunk (get_buf s p)) 0))) t"
    and "s' = post_msg ipc sz fill bs True s"
  shows "queue_items (get_thread s' t) = queue_items (get_thread s t) @ [Some p]" "msg_header s' p = fill (decode_msg (chunk (get_buf s p)) 0)"
    "ref_cnt (get_buf s' p) = 1" "\<And>k. 4 * k + 4 \<le> length bs \<Longrightarrow> get_payload_u32 s' p k = get_u32 bs (4 * k)"
proof -
  have sz: "32 \<le> sz" using assms(3) by (simp add: word_le_nat_alt)
  note a = alloc_header_room[OF assms(4,1,2) sz]
  note f = alloc_frame[OF assms(4,1)]
  obtain s3 where s3: "s' = nos_buffer_release (Some p) s3" "pool_ok s3" "valid_buf s3 p" "ref_cnt (get_buf s3 p) = 2"
      "queue_items (get_thread s3 t) = queue_items (get_thread s t) @ [Some p]" "msg_header s3 p = fill (decode_msg (chunk (get_buf s p)) 0)"
      and b3: "get_buf s3 p = (get_buf (put_payload p bs (set_header p fill s1)) p)\<lparr>ref_cnt := 2\<rparr>"
    using post_msg_local[where fill = fill and ipc = ipc and bs = bs and release = True, OF assms(1,2) sz assms(4,5,6)] assms(7) by auto
  have b: "get_buf s' p = (get_buf s3 p)\<lparr>ref_cnt := 1\<rparr>" unfolding s3(1) by (rule release_shared_buf[OF s3(2,3,4)])
  show "queue_items (get_thread s' t) = queue_items (get_thread s t) @ [Some p]" using s3(1,5) by simp
  show "msg_header s' p = fill (decode_msg (chunk (get_buf s p)) 0)" "ref_cnt (get_buf s' p) = 1" using s3(6) b by (simp_all add: msg_header_def Let_def)
  have off: "data (get_buf s1 p) = raw_data (get_buf s1 p)" by (simp add: f(3) alloc_reset_def)
  have "length (chunk (get_buf s p)) = unat (capacity (get_buf s p))" using bufs_okD[OF assms(2) f(1)] by (simp add: buf_ok_def)
  then have l: "32 + length bs \<le> length (chunk (get_buf s1 p))" using f(3,6) assms(3) by (simp add: alloc_reset_def)
  show "get_payload_u32 s' p k = get_u32 bs (4 * k)" if "4 * k + 4 \<le> length bs" for k
    using that l off a(1) unfolding get_payload_u32_def b b3
    by (simp add: put_payload_def set_header_def get_buf_upd_buf Let_def get_u32_write sizeof_msg_def)
qed

text \<open>
  The reply of model 1 and of model 4 to a message with code 1001 is queued at the thread of the management service with two references.  Model 1 gives its own
  back, so that the buffer returns to the pool when the receiver has released it.  Model 4 does not: after the release of the receiver the
  buffer is still held, by nobody, and every such message takes one buffer out of the pool for good.
\<close>

theorem m4_reply_leaks:
  assumes "pool_ok s" "bufs_ok s" "counter_priv s c = Some n" "msg_code (msg_header s b) = 1001" "nos_buffer_alloc 64 0 s = (Some p, s1)"
    and "\<not> is_reply_msg (decode_msg (chunk (get_buf s p)) 0)" "local_route s svc_mgmt t"
  shows "(\<exists>s'. m4_on_msg ipc svc_mgmt c b s = Some s' \<and> queue_items (get_thread s' t) = queue_items (get_thread s t) @ [Some p]
      \<and> snd p \<notin> set (bin_avail (g_bins (nos_buffer_release (Some p) s') ! fst p)))
    \<and> queue_items (get_thread (m1_on_msg ipc svc_mgmt c b s) t) = queue_items (get_thread s t) @ [Some p]
    \<and> snd p \<in> set (bin_avail (g_bins (nos_buffer_release (Some p) (m1_on_msg ipc svc_mgmt c b s)) ! fst p))"
proof -
  let ?f = "answer_fields svc_mgmt (self_id c s)"
  have f: "\<not> is_reply_msg (?f (decode_msg (chunk (get_buf s p)) 0))" "local_route s (dst_service (?f (decode_msg (chunk (get_buf s p)) 0))) t"
    using assms(6,7) by (simp_all add: answer_fields_def is_reply_msg_def)
  have sz: "32 \<le> (64 :: u32)" by simp
  define s0 where "s0 = s\<lparr>counter_priv := (counter_priv s)(c \<mapsto> n + 1)\<rparr>"
  have g0: "g_bins s0 = g_bins s" by (simp add: s0_def)
  have al0: "nos_buffer_alloc 64 0 s0 = (Some p, s1\<lparr>counter_priv := (counter_priv s)(c \<mapsto> n + 1)\<rparr>)"
    using assms(5) by (auto simp: nos_buffer_alloc_def s0_def Let_def upd_bin_def upd_buf_def split: option.splits)
  have ok0: "pool_ok s0" "bufs_ok s0" using pool_ok_cong[OF g0] bins_cong[OF g0] assms(1,2) by (simp_all add: bufs_ok_def)
  have r0: "local_route s0 (dst_service (?f (decode_msg (chunk (get_buf s0 p)) 0))) t" "\<not> is_reply_msg (?f (decode_msg (chunk (get_buf s0 p)) 0))"
    using f bins_cong[OF g0, of p] local_route_cong[of s0 s] by (simp_all add: s0_def)
  obtain s3 where s3: "post_msg ipc 64 ?f [] False s0 = s3" "pool_ok s3" "valid_buf s3 p" "ref_cnt (get_buf s3 p) = 2"
      "queue_items (get_thread s3 t) = queue_items (get_thread s0 t) @ [Some p]"
    using post_msg_local[where fill = ?f and ipc = ipc and bs = "[]" and release = False, OF ok0 sz al0 r0(2,1)] by auto
  obtain s4 where s4: "post_msg ipc 64 ?f [] True s = nos_buffer_release (Some p) s4" "pool_ok s4" "valid_buf s4 p" "ref_cnt (get_buf s4 p) = 2"
      "queue_items (get_thread s4 t) = queue_items (get_thread s t) @ [Some p]"
    using post_msg_local[where fill = ?f and ipc = ipc and bs = "[]" and release = True, OF assms(1,2) sz assms(5) f] by auto
  have avail: "snd p \<in> set (bin_avail (g_bins (nos_buffer_release (Some p) u) ! fst p)) \<longleftrightarrow> ref_cnt (get_buf u p) \<le> 1" if "pool_ok u" "valid_buf u p" for u :: "'a comps_state_scheme"
    using avail_iff_ref[OF pool_ok_release[OF that], of p] release_frame(1,2)[OF that] that(2) by simp
  have m1: "m1_on_msg ipc svc_mgmt c b s = nos_buffer_release (Some p) s4" using assms(4) s4(1) by (simp add: m1_on_msg_def)
  have m4: "m4_on_msg ipc svc_mgmt c b s = Some s3" using assms(3,4) s3(1) by (simp add: m4_on_msg_def s0_def Let_def)
  have "get_thread (nos_buffer_release (Some p) s4) t = get_thread s4 t" by simp
  moreover have "snd p \<in> set (bin_avail (g_bins (nos_buffer_release (Some p) (nos_buffer_release (Some p) s4)) ! fst p))"
    using avail[OF pool_ok_release[OF s4(2,3)]] release_frame(1,2)[OF s4(2,3)] s4(3,4) by simp
  moreover have "get_thread s0 t = get_thread s t" by (simp add: s0_def )
  ultimately show ?thesis using m1 m4 s3 s4(5) avail[OF s3(2,3)] by simp
qed

section \<open>The sweep over payload sizes\<close>

definition sweep_rounds :: "u32 \<Rightarrow> nat" where
  "sweep_rounds n = max 1 (unat n)"

text \<open>The context after \<open>k\<close> answers of a sweep with \<open>n\<close> iterations per size.\<close>

definition at_sweep :: "u32 \<Rightarrow> nat \<Rightarrow> rping_ctx_t \<Rightarrow> bool" where
  "at_sweep n k x \<longleftrightarrow> target_count x = n \<and> sweep_count x = 8 \<and> sweep_sizes x = sweep_defaults \<and> sweep_index x = of_nat (k div sweep_rounds n)
     \<and> current_count x = of_nat (k mod sweep_rounds n) \<and> payload_size x = sweep_defaults ! (k div sweep_rounds n)"

lemma sweep_rounds_bounds: "0 < sweep_rounds n" "sweep_rounds n < 2 ^ 32"
  using unat_lt_2_32[of n] by (simp_all add: sweep_rounds_def)

lemma next_round:
  fixes R k :: nat
  assumes "0 < R"
  shows "k mod R + 1 < R \<Longrightarrow> (k + 1) div R = k div R \<and> (k + 1) mod R = k mod R + 1"
    and "\<not> k mod R + 1 < R \<Longrightarrow> (k + 1) div R = k div R + 1 \<and> (k + 1) mod R = 0"
proof -
  have d: "k + 1 = k div R * R + (k mod R + 1)" by simp
  show "(k + 1) div R = k div R \<and> (k + 1) mod R = k mod R + 1" if "k mod R + 1 < R" using that assms unfolding d by (simp add: mod_Suc div_Suc)
  assume "\<not> k mod R + 1 < R"
  then have "k mod R + 1 = R" using mod_less_divisor[OF assms, of k] by linarith
  then show "(k + 1) div R = k div R + 1 \<and> (k + 1) mod R = 0" using assms by (simp add: mod_Suc div_Suc)
qed

lemma unat_small_nat: "k < 2 ^ 32 \<Longrightarrow> unat (of_nat k :: u32) = k"
  by (simp add: unat_of_nat take_bit_nat_eq_self)

lemma sweep_more:
  assumes "at_sweep n k x"
  shows "current_count x + 1 < target_count x \<longleftrightarrow> k mod sweep_rounds n + 1 < sweep_rounds n"
proof -
  let ?R = "sweep_rounds n"
  have "k mod ?R + 1 < 2 ^ 32" using mod_less_divisor[OF sweep_rounds_bounds(1)[of n], of k] sweep_rounds_bounds(2)[of n] by linarith
  then have "unat (of_nat (k mod ?R + 1) :: u32) = k mod ?R + 1" by (rule unat_small_nat)
  then have "unat (current_count x + 1) = k mod ?R + 1" using assms by (simp add: at_sweep_def add.commute)
  then show ?thesis using assms by (auto simp: word_less_nat_alt at_sweep_def sweep_rounds_def max_def split: if_splits)
qed

lemma sweep_step:
  assumes x: "at_sweep n k x" and k: "k < 8 * sweep_rounds n"
  shows "if k + 1 < 8 * sweep_rounds n then \<exists>y. at_sweep n (k + 1) y \<and> rping_pong ipc now c x s = rping_send ipc c y (set_rping c y s)
    else \<exists>y. sweep_count y = 0 \<and> rping_pong ipc now c x s = set_rping c y s"
proof -
  let ?R = "sweep_rounds n" and ?y = "x\<lparr>current_count := current_count x + 1\<rparr>"
  note R = sweep_rounds_bounds(1)[of n]
  have d8: "k div ?R < 8" using k by (simp add: less_mult_imp_div_less)
  show ?thesis
  proof (cases "k mod ?R + 1 < ?R")
    case True
    note nr = next_round(1)[OF R True]
    have "(k + 1) div ?R < 8" using d8 nr by simp
    then have "k + 1 < 8 * ?R" using R by (metis div_less_iff_less_mult)
    moreover have "at_sweep n (k + 1) ?y" using x nr by (simp add: at_sweep_def add.commute)
    moreover have "rping_pong ipc now c x s = rping_send ipc c ?y (set_rping c ?y s)" using sweep_more[OF x] True by (simp add: rping_pong_def Let_def)
    ultimately show ?thesis by auto
  next
    case False
    note nr = next_round(2)[OF R False]
    let ?z = "?y\<lparr>sweep_index := sweep_index x + 1\<rparr>"
    have i: "sweep_index x + 1 = of_nat (k div ?R + 1)" using x by (simp add: at_sweep_def add.commute)
    have u: "unat (sweep_index x + 1) = k div ?R + 1" unfolding i using d8 by (intro unat_small_nat) simp
    then have l: "sweep_index x + 1 < 8 \<longleftrightarrow> k + 1 < 8 * ?R" using div_less_iff_less_mult[OF R, of "k + 1" 8] nr by (simp add: word_less_nat_alt)
    have more: "\<not> current_count ?y < target_count ?y" "sweep_count ?y > 0" using sweep_more[OF x] False x by (simp_all add: at_sweep_def)
    show ?thesis
    proof (cases "k + 1 < 8 * ?R")
      case True
      let ?w = "test_ctx now (sweep_sizes ?z ! unat (sweep_index ?z)) ?z"
      have "at_sweep n (k + 1) ?w" using x nr u i by (simp add: at_sweep_def test_ctx_def)
      moreover have "rping_pong ipc now c x s = rping_send ipc c ?w (set_rping c ?w s)"
        using more l True x by (simp add: rping_pong_def Let_def start_one_test_def at_sweep_def)
      ultimately show ?thesis using True by auto
    next
      case False
      then have "rping_pong ipc now c x s = set_rping c (?z\<lparr>sweep_count := 0, sweep_index := 0\<rparr>) s" using more l x by (simp add: rping_pong_def Let_def at_sweep_def)
      then show ?thesis using False by (auto intro!: exI[of _ "?z\<lparr>sweep_count := 0, sweep_index := 0\<rparr>"])
    qed
  qed
qed

lemma sweep_start: "\<exists>y. at_sweep n 0 y \<and> rping_start ipc now c n 0xFFFFFFFF x s = rping_send ipc c y (set_rping c y s)"
proof -
  let ?x = "x\<lparr>target_count := n, sweep_count := 8, sweep_index := 0, sweep_sizes := sweep_defaults\<rparr>"
  have "rping_start ipc now c n 0xFFFFFFFF x s = start_one_test ipc now c ?x (sweep_defaults ! 0) s" by (cases x) (simp add: rping_start_def Let_def)
  moreover have "at_sweep n 0 (test_ctx now (sweep_defaults ! 0) ?x)" by (simp add: at_sweep_def test_ctx_def)
  ultimately show ?thesis by (metis start_one_test_def)
qed

text \<open>Sending leaves the private contexts alone, as long as the transport does.\<close>

definition keeps_more :: "'z sched_state_scheme ipc_send \<Rightarrow> bool" where
  "keeps_more ipc \<longleftrightarrow> (\<forall>n u p s. sched_state.more (snd (ipc n u p s)) = sched_state.more s)"

lemma more_bins [simp]: "sched_state.more (upd_bin i f s) = sched_state.more s" "sched_state.more (upd_buf p g s) = sched_state.more s"
  "sched_state.more (upd_thread t h s) = sched_state.more s" "sched_state.more (notify t s) = sched_state.more s"
  by (simp_all add: upd_bin_def upd_buf_def upd_thread_def notify_def)

lemma more_release [simp]: "sched_state.more (nos_buffer_release b s) = sched_state.more s" "sched_state.more (nos_buffer_retain b s) = sched_state.more s"
  by (simp_all add: nos_buffer_release_def nos_buffer_retain_def nos_reply_ctx_release_def Let_def split: option.split)

lemma more_local_send [simp]: "sched_state.more (snd (nos_transport_local_send p t s)) = sched_state.more s"
  by (simp add: nos_transport_local_send_def Let_def split: option.split)

lemma more_msg_send: "keeps_more ipc \<Longrightarrow> sched_state.more (snd (nos_service_msg_send ipc b s)) = sched_state.more s"
  by (simp add: nos_service_msg_send_def keeps_more_def Let_def split: option.split)

lemma more_post: "keeps_more ipc \<Longrightarrow> sched_state.more (post_msg ipc sz f bs r s) = sched_state.more s"
  by (simp add: post_msg_def more_msg_send put_payload_def set_header_def nos_buffer_alloc_def Let_def split: option.split prod.split)

lemma rping_priv_more: "sched_state.more s' = sched_state.more s \<Longrightarrow> rping_priv s' = rping_priv s"
  by (cases s; cases s') simp

lemma rping_priv_send: "keeps_more ipc \<Longrightarrow> rping_priv (rping_send ipc c y s) = rping_priv s"
  unfolding rping_send_def by (intro rping_priv_more more_post)

text \<open>\<open>k\<close> answers, the next one arriving at time \<open>now k\<close>.\<close>

primrec rping_answers :: "'z comps_state_scheme ipc_send \<Rightarrow> (nat \<Rightarrow> u64) \<Rightarrow> nat \<Rightarrow> nat \<Rightarrow> 'z comps_state_scheme \<Rightarrow> 'z comps_state_scheme option" where
  "rping_answers ipc now c 0 s = Some s"
| "rping_answers ipc now c (Suc k) s =
    (case rping_answers ipc now c k s of None \<Rightarrow> None | Some s1 \<Rightarrow> map_option (\<lambda>x. rping_pong ipc (now k) c x s1) (rping_priv s1 c))"


section \<open>Model 2 keeps its state in the database\<close>

lemma kv_name_put: "kv_name (snd (snd (nos_kv_put k v l t))) = kv_name t"
  by (simp add: nos_kv_put_def kv_insert_def kv_pop_def upd_kv_def upd_bucket_def Let_def split: option.split walk.split)

lemma kv_up_m2 [simp]: "kv_up (s\<lparr>m2_priv := x\<rparr>) = kv_up s"
  by (rule kv_up_cong) simp_all

lemma put_auto_tables:
  assumes "kv_up s" "nos_kv_put_auto t k v s = (r, s')"
  shows "g_tables s' = (g_tables s)[t := snd (kv_put_op k v (g_tables s ! t))]" "kv_up s'" "m2_priv s' = m2_priv s" "g_comps s' = g_comps s"
proof -
  obtain p where p: "nos_get_kv_ops s = (Some p, s\<lparr>kv_ops_cache := Some p\<rparr>)" using assms(1) by (rule kv_upE)
  show "g_tables s' = (g_tables s)[t := snd (kv_put_op k v (g_tables s ! t))]" "kv_up s'" "m2_priv s' = m2_priv s" "g_comps s' = g_comps s"
    using assms(2) by (auto simp: nos_kv_put_auto_def p g_kv_ops_def kv_put_op_def split: prod.splits)
qed

lemma put_op_name: "kv_name (snd (kv_put_op k v t)) = kv_name t"
  using kv_name_put[of "Some k" "Some v" "of_nat (length v)" t] by (simp add: kv_put_op_def case_prod_beta)

lemma length_name_key: "length (name_key name) = 32"
  by (simp add: name_key_def)

lemma counter_bytes: "get_u32 (write_bytes (bytes_u32 0) 0 (bytes_u32 n)) 0 = n"
  using get_u32_write[of 0 "bytes_u32 0" 0 "bytes_u32 n"] by (simp add: get_u32_def get_byte_def bytes_u32_def join_u32)

text \<open>The tables of the two names, found where the context of the component says.\<close>

definition m2_tables :: "'z comps_state_scheme \<Rightarrow> nat \<Rightarrow> nat \<Rightarrow> bool" where
  "m2_tables s t1 t2 \<longleftrightarrow> kv_up s \<and> t1 \<noteq> t2 \<and> find_idx (\<lambda>t. kv_name t = ''CompStates'') (g_tables s) (length (g_tables s)) = Some t1
     \<and> find_idx (\<lambda>t. kv_name t = ''TestData'') (g_tables s) (length (g_tables s)) = Some t2 \<and> kv_inv 32 4 128 (g_tables s ! t1)"

lemma find_idx_names:
  assumes "map kv_name ts' = map kv_name ts"
  shows "find_idx (\<lambda>t. kv_name t = nm) ts' (length ts') = find_idx (\<lambda>t. kv_name t = nm) ts (length ts)"
proof -
  have l: "length ts' = length ts" using assms by (metis length_map)
  have n: "kv_name (ts' ! j) = kv_name (ts ! j)" if "j < length ts" for j using assms that l by (metis nth_map)
  show ?thesis unfolding l using n by (intro find_idx_cong) simp
qed

lemma names_put: "map kv_name (ts[t := snd (kv_put_op k v (ts ! t))]) = map kv_name ts"
  by (cases "t < length ts") (simp_all add: map_update put_op_name list_update_same_conv list_update_beyond)

lemma create_existing:
  assumes "kv_up s" "find_idx (\<lambda>t. kv_name t = nm) (g_tables s) (length (g_tables s)) = Some t" "ks \<noteq> 0" "cap \<noteq> 0"
  shows "\<exists>p. nos_kv_table_create_auto mem nm ks mv cap s = Some (Some t, s\<lparr>kv_ops_cache := Some p\<rparr>)"
proof -
  obtain p where p: "nos_get_kv_ops s = (Some p, s\<lparr>kv_ops_cache := Some p\<rparr>)" using assms(1) by (rule kv_upE)
  show ?thesis using assms(2-4) by (intro exI[of _ p]) (simp add: nos_kv_table_create_auto_def p g_kv_ops_def nos_kv_table_create_def)
qed

lemma m2_save_spec:
  assumes "m2_tables s t1 t2" "state_table x = Some t1" "test_table x = Some t2" "s' = m2_save c x s" "key = name_key (comp_name (get_comp s c))"
    and "kv_view (g_tables s ! t1) key \<noteq> None \<or> card (dom (kv_view (g_tables s ! t1))) < 128"
  shows "m2_tables s' t1 t2" "kv_view (g_tables s' ! t1) key = Some (bytes_u32 (local_counter x))" "g_comps s' = g_comps s" "m2_priv s' = m2_priv s"
proof -
  note m = assms(1)[unfolded m2_tables_def]
  let ?v = "bytes_u32 (local_counter x)"
  obtain r1 s1 where p1: "nos_kv_put_auto t1 key ?v s = (r1, s1)" by (cases "nos_kv_put_auto t1 key ?v s")
  obtain r2 s2 where p2: "nos_kv_put_auto t2 ?v ?v s1 = (r2, s2)" by (cases "nos_kv_put_auto t2 ?v ?v s1")
  have s': "s' = s2" using assms(2-5) p1 p2 by (simp add: m2_save_def Let_def)
  have up: "kv_up s" using m by simp
  note q1 = put_auto_tables[OF up p1]
  note q2 = put_auto_tables[OF q1(2) p2]
  have t1: "t1 < length (g_tables s)" using m find_idx_SomeD by blast
  obtain tab where tab: "kv_put_op key ?v (g_tables s ! t1) = (True, tab)" "kv_inv 32 4 128 tab" "kv_view tab = (kv_view (g_tables s ! t1))(key \<mapsto> ?v)"
    using kv_map.put_room[of 32 4 128 "g_tables s ! t1" key ?v] m assms(5,6) length_name_key by auto
  have at: "g_tables s' ! t1 = tab" using q1(1) q2(1) tab(1) t1 m by (simp add: s')
  have names: "map kv_name (g_tables s') = map kv_name (g_tables s)" using q1(1) q2(1) names_put by (metis s')
  show "m2_tables s' t1 t2" using m at tab(2) q2(2) find_idx_names[OF names] by (simp add: m2_tables_def s')
  show "kv_view (g_tables s' ! t1) key = Some ?v" using at tab(3) by simp
  show "g_comps s' = g_comps s" "m2_priv s' = m2_priv s" using q1(3,4) q2(3,4) s' by simp_all
qed

text \<open>
  C23.  Model 2 survives a reload: an instance \<open>c'\<close> with the name of \<open>c\<close> that is initialised after \<open>c\<close> has counted a message starts with the count of \<open>c\<close>,
  whether \<open>c\<close> was stopped before or not, as long as the table had an entry for the name or room for one.
\<close>

theorem m2_state_recovered:
  assumes "m2_tables s t1 t2" "m2_priv s c = Some x" "state_table x = Some t1" "test_table x = Some t2"
    and "kv_view (g_tables s ! t1) (name_key (comp_name (get_comp s c))) \<noteq> None \<or> card (dom (kv_view (g_tables s ! t1))) < 128"
    and "comp_name (get_comp s c') = comp_name (get_comp s c)" "s' \<in> {m2_on_msg c p s, m2_stop c (m2_on_msg c p s)}"
  shows "\<exists>t. m2_init True mem1 mem2 c' s' = Some (NOS_OK, t) \<and> m2_priv t c' = Some \<lparr>state_table = Some t1, test_table = Some t2, local_counter = local_counter x + 1\<rparr>"
proof -
  let ?y = "x\<lparr>local_counter := local_counter x + 1\<rparr>" and ?key = "name_key (comp_name (get_comp s c))"
  define s0 where "s0 = s\<lparr>m2_priv := (m2_priv s)(c \<mapsto> ?y)\<rparr>"
  have m0: "m2_tables s0 t1 t2" "g_tables s0 = g_tables s" "get_comp s0 = get_comp s" using assms(1) by (simp_all add: s0_def m2_tables_def get_comp_def fun_eq_iff)
  have e: "m2_on_msg c p s = m2_save c ?y s0" using assms(2) by (simp add: m2_on_msg_def Let_def s0_def)
  have y: "state_table ?y = Some t1" "test_table ?y = Some t2" using assms(3,4) by simp_all
  note sv = m2_save_spec[OF m0(1) y e, of ?key, unfolded m0(2,3), OF refl assms(5)]
  have s': "m2_tables s' t1 t2" "kv_view (g_tables s' ! t1) ?key = Some (bytes_u32 (local_counter x + 1))" "get_comp s' = get_comp s"
    using assms(7) sv by (auto simp: m2_stop_def m2_tables_def get_comp_def s0_def fun_eq_iff)
  note m = s'(1)[unfolded m2_tables_def]
  obtain p1 where c1: "nos_kv_table_create_auto mem1 ''CompStates'' 32 4 128 s' = Some (Some t1, s'\<lparr>kv_ops_cache := Some p1\<rparr>)"
    using create_existing[of s' "''CompStates''" t1 32 128 mem1 4] m by auto
  let ?s1 = "s'\<lparr>kv_ops_cache := Some p1\<rparr>"
  obtain p2 where c2: "nos_kv_table_create_auto mem2 ''TestData'' 4 4 1024 ?s1 = Some (Some t2, ?s1\<lparr>kv_ops_cache := Some p2\<rparr>)"
    using create_existing[of ?s1 "''TestData''" t2 4 1024 mem2 4] m by auto
  let ?s2 = "?s1\<lparr>kv_ops_cache := Some p2\<rparr>"
  have "kv_ok (g_tables s' ! t1)" "key_size (g_tables s' ! t1) = 32" using m by (simp_all add: kv_inv_def)
  then have "nos_kv_get (Some ?key) True (Some 4) (g_tables s' ! t1) = (NOS_OK, bytes_u32 (local_counter x + 1), Some 4)"
    using kv_get_spec[of "g_tables s' ! t1" ?key 4] length_name_key s'(2) by simp
  moreover have "nos_get_kv_ops ?s2 = (Some p2, ?s2)" by (simp add: nos_get_kv_ops_def)
  moreover have "get_comp ?s2 = get_comp s" using s'(3) by (simp add: get_comp_def fun_eq_iff)
  ultimately have "m2_recover c' t1 ?s2 = (local_counter x + 1, ?s2)"
    using assms(6) by (simp add: m2_recover_def nos_kv_get_auto_def g_kv_ops_def Let_def counter_bytes)
  then show ?thesis using c1 c2 by (simp add: m2_init_def)
qed

section \<open>Spam logging\<close>

lemma full_covers:
  assumes "log_gap 0 LOG_BUFFER_SIZE l"
  shows "le_ready (log_ring l ! slot_of w) \<noteq> 0"
proof -
  let ?r = "unat (read_idx l)"
  define k where "k = (unat w + LOG_BUFFER_SIZE - ?r mod LOG_BUFFER_SIZE) mod LOG_BUFFER_SIZE"
  have k: "k < LOG_BUFFER_SIZE" by (simp add: k_def LOG_BUFFER_SIZE_def)
  have le: "?r mod LOG_BUFFER_SIZE \<le> unat w + LOG_BUFFER_SIZE" by (rule order_trans[OF less_imp_le[OF mod_less_divisor]]) (simp_all add: LOG_BUFFER_SIZE_def)
  have "(?r + k) mod LOG_BUFFER_SIZE = (?r mod LOG_BUFFER_SIZE + (unat w + LOG_BUFFER_SIZE - ?r mod LOG_BUFFER_SIZE)) mod LOG_BUFFER_SIZE"
    unfolding k_def by (simp only: mod_add_left_eq mod_add_right_eq)
  also have "\<dots> = slot_of w" using le by (simp only: le_add_diff_inverse mod_add_self2 slot_of_def)
  finally have "(?r + k) mod LOG_BUFFER_SIZE = slot_of w" .
  moreover have "le_ready (ring_at l k) = 2" using assms k by (simp add: log_gap_def)
  ultimately show ?thesis by (simp add: ring_at_def)
qed

text \<open>From an empty ring in step, with nobody reading: the entries beyond the 1024 slots are dropped and counted.\<close>

lemma log_writes_drop:
  assumes "log_gap 0 0 l"
  shows "(length es \<le> LOG_BUFFER_SIZE \<longrightarrow> log_gap 0 (length es) (fold log_write es l) \<and> dropped_count (fold log_write es l) = dropped_count l)
    \<and> (LOG_BUFFER_SIZE \<le> length es \<longrightarrow> (\<forall>w. le_ready (log_ring (fold log_write es l) ! slot_of w) \<noteq> 0) \<and> dropped_count (fold log_write es l) = dropped_count l + of_nat (length es - LOG_BUFFER_SIZE))"
proof (induction es rule: rev_induct)
  case Nil
  then show ?case using assms by (simp add: LOG_BUFFER_SIZE_def)
next
  case (snoc e es)
  let ?u = "fold log_write es l"
  show ?case
  proof (cases "length es < LOG_BUFFER_SIZE")
    case True
    then have g: "log_gap 0 (Suc (length es)) (log_write e ?u)" "dropped_count (log_write e ?u) = dropped_count l"
      using snoc log_gap_write[of 0 "length es" ?u e] by auto
    then show ?thesis using True full_covers[of "log_write e ?u"] by (auto simp: le_Suc_eq)
  next
    case False
    then have f: "\<forall>w. le_ready (log_ring ?u ! slot_of w) \<noteq> 0" "dropped_count ?u = dropped_count l + of_nat (length es - LOG_BUFFER_SIZE)" using snoc by auto
    have "log_write e ?u = ?u\<lparr>write_idx := write_idx ?u + 1, dropped_count := dropped_count ?u + 1\<rparr>" using f(1) by (simp add: log_write_def Let_def)
    then show ?thesis using f False by (simp add: Suc_diff_le)
  qed
qed

lemma log_raw_passes:
  assumes "log_ops_cache l = Some q" "filter_level_of i l = NOS_LOG_LEVEL_DEBUG"
  shows "nos_log_raw level i time text l = log_write (new_entry level i time text) l"
proof -
  have "\<not> level < NOS_LOG_LEVEL_DEBUG" by (cases level) (simp_all add: less_nos_log_level_t_def level_num_def)
  then show ?thesis using assms by (simp add: nos_log_raw_def nos_get_log_ops_def nos_log_impl_def)
qed

lemma log_write_config [simp]: "log_ops_cache (log_write e l) = log_ops_cache l" "filter_level_of i (log_write e l) = filter_level_of i l"
proof -
  show "log_ops_cache (log_write e l) = log_ops_cache l" by (simp add: log_write_def Let_def)
  show "filter_level_of i (log_write e l) = filter_level_of i l" unfolding filter_level_of_def registered_comp_def log_write_frame by (rule refl)
qed

lemma spam_writes:
  assumes "log_ops_cache l = Some q" "filter_level_of i l = NOS_LOG_LEVEL_DEBUG"
  shows "\<exists>es. m3_spam dec time i n l = fold log_write es l \<and> length es = unat n + 2"
proof -
  have run: "log_ops_cache u = Some q \<Longrightarrow> filter_level_of i u = NOS_LOG_LEVEL_DEBUG \<Longrightarrow>
      fold (\<lambda>k. nos_log_raw level i time (f k)) ks u = fold log_write (map (\<lambda>k. new_entry level i time (f k)) ks) u
        \<and> log_ops_cache (fold log_write (map (\<lambda>k. new_entry level i time (f k)) ks) u) = Some q
        \<and> filter_level_of i (fold log_write (map (\<lambda>k. new_entry level i time (f k)) ks) u) = NOS_LOG_LEVEL_DEBUG" for ks level f and u :: "'a log_state_scheme"
    by (induction ks arbitrary: u) (simp_all add: log_raw_passes)
  let ?a = "new_entry NOS_LOG_LEVEL_INFO i time (''Starting Spam Logging: '' @ dec (unat n) @ '' messages'')"
  let ?f = "\<lambda>k. ''Spam message #'' @ dec k @ '' for stress testing''"
  let ?b = "map (\<lambda>k. new_entry NOS_LOG_LEVEL_DEBUG i time (?f k)) [0..<unat n]"
  let ?c = "new_entry NOS_LOG_LEVEL_INFO i time ''Spam Logging Complete''"
  have a: "nos_log_raw NOS_LOG_LEVEL_INFO i time (''Starting Spam Logging: '' @ dec (unat n) @ '' messages'') l = log_write ?a l" by (rule log_raw_passes[OF assms])
  have w: "log_ops_cache (log_write ?a l) = Some q" "filter_level_of i (log_write ?a l) = NOS_LOG_LEVEL_DEBUG" using assms by simp_all
  note r = run[OF w, of NOS_LOG_LEVEL_DEBUG ?f "[0..<unat n]"]
  have "m3_spam dec time i n l = log_write ?c (fold log_write ?b (log_write ?a l))"
    unfolding m3_spam_def Let_def a using r log_raw_passes[of "fold log_write ?b (log_write ?a l)" q i] by simp
  then have "m3_spam dec time i n l = fold log_write (?a # ?b @ [?c]) l" by simp
  moreover have "length (?a # ?b @ [?c]) = unat n + 2" by simp
  ultimately show ?thesis by blast
qed

text \<open>A request for \<open>n\<close> log lines on an empty ring writes \<open>n + 2\<close> lines.  As long as the consumer does not run meanwhile, exactly those beyond the 1024
  slots are dropped and counted; for the 2000 lines of a request without a number these are 978.  None is dropped up to 1022.\<close>

theorem spam_drops_excess:
  assumes "log_gap 0 0 l" "log_ops_cache l = Some q" "filter_level_of (self_id c s) l = NOS_LOG_LEVEL_DEBUG" "msg_code (msg_header s p) = 3002"
    and "n = (if payload_len (msg_header s p) \<ge> 4 then get_payload_u32 s p 0 else 2000)"
  shows "nos_log_get_dropped_count (m3_on_msg dec time c p s l) = nos_log_get_dropped_count l + of_nat (unat n + 2 - LOG_BUFFER_SIZE)
    \<and> (unat n + 2 \<le> LOG_BUFFER_SIZE \<longrightarrow> log_gap 0 (unat n + 2) (m3_on_msg dec time c p s l))"
proof -
  obtain es where es: "m3_spam dec time (self_id c s) n l = fold log_write es l" "length es = unat n + 2" using spam_writes[OF assms(2,3)] by blast
  have "m3_on_msg dec time c p s l = fold log_write es l" using es(1) assms(4,5) by (simp add: m3_on_msg_def Let_def)
  then show ?thesis using log_writes_drop[OF assms(1), of es] es(2) by (cases "unat n + 2 \<le> LOG_BUFFER_SIZE") (auto simp: nos_log_get_dropped_count_def)
qed

section \<open>Concrete instances\<close>

definition demo_comps :: "nos_buffer_bin_t list \<Rightarrow> comps_state" where
  "demo_comps bins = api_state.extend (sched_state.extend (boot_state\<lparr>g_bins := bins,
      g_comps := [5 \<mapsto> null_component\<lparr>comp_id := 5, comp_name := ''Comp-2'', comp_status := NOS_COMP_ST_ACTIVE\<rparr>],
      g_threads := [null_thread\<lparr>msg_queue := replicate MAX_QUEUE_SIZE None\<rparr>],
      g_service_registry := (replicate 64 null_entry)[0 := null_entry\<lparr>service_id := 101, local_thread := Some 0\<rparr>], g_service_count := 1\<rparr>)
    \<lparr>embedded = nos_kv_db_init 2 (nos_timer_init 3 demo_svc), timer_ops_cache = None, kv_ops_cache = None,
     g_tables = [new_table ''CompStates'' 32 4 128 1024, new_table ''TestData'' 4 4 1024 1024], kv_notified = []\<rparr>)
    \<lparr>ping_priv = Map.empty, rping_priv = [5 \<mapsto> \<lparr>start_time_ns = 0, target_count = 0, current_count = 0, payload_size = 0, sweep_count = 0, sweep_index = 0, sweep_sizes = replicate 8 0\<rparr>],
     m1_priv = Map.empty, m2_priv = [5 \<mapsto> \<lparr>state_table = Some 0, test_table = Some 1, local_counter = 7\<rparr>], counter_priv = [5 \<mapsto> 0]\<rparr>"

lemmas demo_comps_defs = demo_comps_def sched_state.defs api_state.defs boot_state_def

lemma demo_kv_found: "nos_embedded_service_get ''SVC_KV_DB'' (nos_kv_db_init 2 (nos_timer_init 3 demo_svc)) = Some 2"
  by code_simp

text \<open>A pool whose next buffer was last used for a reply to component 7, or to a message with code 1001.\<close>

definition stale_pool :: "nos_service_msg_t \<Rightarrow> buf_state" where
  "stale_pool h = upd_buf (0, 1) (\<lambda>b. b\<lparr>chunk := write_bytes (chunk b) 0 (encode_msg h)\<rparr>) demo_pool"

definition plain_msg :: nos_service_msg_t where
  "plain_msg = \<lparr>magic = NOS_IPC_MAGIC, version = 1, dst_service = 101, src_component = 1, dst_component = 7, msg_code = 1001, seq = 0, flags = 0, payload_len = 0\<rparr>"

definition reply_msg :: nos_service_msg_t where
  "reply_msg = plain_msg\<lparr>flags := NOS_MSG_F_REPLY\<rparr>"

lemma demo_comps_simps [simp]:
  "g_bins (demo_comps bins) = bins" "counter_priv (demo_comps bins) 5 = Some 0" "loaded_count (demo_comps bins) = 0"
  by (simp_all add: demo_comps_defs)

lemma stale_ok: "pool_ok (demo_comps (g_bins (stale_pool h)))" "bufs_ok (demo_comps (g_bins (stale_pool reply_msg)))" "bufs_ok (demo_comps (g_bins (stale_pool plain_msg)))"
proof -
  have v: "valid_buf demo_pool (0, 1)" by code_simp
  have "pool_ok (stale_pool h)" unfolding stale_pool_def by (rule pool_ok_upd_buf[OF demo_pool_ok v]) simp_all
  then show "pool_ok (demo_comps (g_bins (stale_pool h)))" by (simp add: pool_ok_def)
  show "bufs_ok (demo_comps (g_bins (stale_pool reply_msg)))" unfolding bufs_ok_iff demo_comps_simps by code_simp
  show "bufs_ok (demo_comps (g_bins (stale_pool plain_msg)))" unfolding bufs_ok_iff demo_comps_simps by code_simp
qed

lemma alloc_fst_bins: "g_bins s = g_bins s' \<Longrightarrow> fst (nos_buffer_alloc sz hr s) = fst (nos_buffer_alloc sz hr s')"
  by (simp add: nos_buffer_alloc_def Let_def split: option.split)

lemma stale_alloc: "fst (nos_buffer_alloc 32 0 (demo_comps (g_bins (stale_pool reply_msg)))) = Some (0, 1)" "fst (nos_buffer_alloc 64 0 (demo_comps (g_bins (stale_pool plain_msg)))) = Some (0, 1)"
proof -
  have "fst (nos_buffer_alloc 32 0 (stale_pool reply_msg)) = Some (0, 1)" "fst (nos_buffer_alloc 64 0 (stale_pool plain_msg)) = Some (0, 1)" by code_simp+
  then show "fst (nos_buffer_alloc 32 0 (demo_comps (g_bins (stale_pool reply_msg)))) = Some (0, 1)" "fst (nos_buffer_alloc 64 0 (demo_comps (g_bins (stale_pool plain_msg)))) = Some (0, 1)"
    using alloc_fst_bins[of "demo_comps (g_bins (stale_pool reply_msg))" "stale_pool reply_msg"] alloc_fst_bins[of "demo_comps (g_bins (stale_pool plain_msg))" "stale_pool plain_msg"] by simp_all
qed

lemma stale_header: "get_buf (demo_comps (g_bins x)) p = get_buf x p"
  by (simp add: get_buf_def)

theorem unset_flags_misroute_witness:
  "let s = demo_comps (g_bins (stale_pool reply_msg)); s1 = snd (nos_buffer_alloc 32 0 s); s2 = put_payload (0, 1) [] (set_header (0, 1) (ping_fields 5) s1)
   in fst (nos_service_msg_send (\<lambda>_ _ _ s. (NOS_OK, s)) (Some (0, 1)) s2) = NOS_ERR"
proof -
  let ?s = "demo_comps (g_bins (stale_pool reply_msg))"
  have a: "nos_buffer_alloc 32 0 ?s = (Some (0, 1), snd (nos_buffer_alloc 32 0 ?s))" using stale_alloc(1) by (simp add: prod_eq_iff)
  have r: "is_reply_msg (decode_msg (chunk (get_buf ?s (0, 1))) 0)" unfolding stale_header by code_simp
  have f: "ping_fields 5 \<in> {ping_fields 5, pong_fields 5, heartbeat_fields 0 5, answer_fields 0 5}" by simp
  have lc: "loaded_count (put_payload (0, 1) [] (set_header (0, 1) (ping_fields 5) (snd (nos_buffer_alloc 32 0 ?s)))) = 0"
    using alloc_sched_frame(5)[OF a stale_ok(1)] by simp
  then have "find_loaded_component_info (put_payload (0, 1) [] (set_header (0, 1) (ping_fields 5) (snd (nos_buffer_alloc 32 0 ?s)))) d = None" for d
    by (simp add: find_loaded_component_info_def find_idx_def)
  then show ?thesis using unset_flags_misroute[where bs = "[]" and ipc = "\<lambda>_ _ _ s. (NOS_OK, s)", OF stale_ok(1,2) _ a r f refl] by (simp add: Let_def)
qed

theorem m4_reply_leaks_witness:
  "\<exists>s'. m4_on_msg (\<lambda>_ _ _ s. (NOS_OK, s)) 101 5 (0, 1) (demo_comps (g_bins (stale_pool plain_msg))) = Some s' \<and> queue_items (get_thread s' 0) = [Some (0, 1)]
    \<and> 1 \<notin> set (bin_avail (g_bins (nos_buffer_release (Some (0, 1)) s') ! 0))"
proof -
  let ?s = "demo_comps (g_bins (stale_pool plain_msg))"
  have a: "nos_buffer_alloc 64 0 ?s = (Some (0, 1), snd (nos_buffer_alloc 64 0 ?s))" using stale_alloc(2) by (simp add: prod_eq_iff)
  have m: "msg_code (msg_header ?s (0, 1)) = 1001" unfolding msg_header_def stale_header by code_simp
  have r: "\<not> is_reply_msg (decode_msg (chunk (get_buf ?s (0, 1))) 0)" unfolding stale_header by code_simp
  have q: "queue_ok (get_thread ?s 0)" "queue_items (get_thread ?s 0) = []"
    by (simp_all add: demo_comps_defs queue_ok_def ring_ok_def queue_items_def null_thread_def MAX_QUEUE_SIZE_def)
  have l: "local_route ?s 101 0"
    using q by (simp add: local_route_def) (simp add: demo_comps_defs find_service_entry_def find_idx_def get_entry_def null_entry_def)
  show ?thesis using m4_reply_leaks[where ipc = "\<lambda>_ _ _ s. (NOS_OK, s)", OF stale_ok(1,3) _ m a r l] q(2) by auto
qed


theorem m2_state_recovered_witness:
  "\<exists>t. m2_init True True True 5 (m2_on_msg 5 (0, 0) (demo_comps [])) = Some (NOS_OK, t) \<and> m2_priv t 5 = Some \<lparr>state_table = Some 0, test_table = Some 1, local_counter = 8\<rparr>"
proof -
  have t: "kv_inv 32 4 128 (new_table ''CompStates'' 32 4 128 1024)" "kv_view (new_table ''CompStates'' 32 4 128 1024) = Map.empty" using new_table_inv by simp_all
  have g: "g_tables (demo_comps []) = [new_table ''CompStates'' 32 4 128 1024, new_table ''TestData'' 4 4 1024 1024]" "kv_up (demo_comps [])"
    "m2_priv (demo_comps []) 5 = Some \<lparr>state_table = Some 0, test_table = Some 1, local_counter = 7\<rparr>"
    by (simp_all add: demo_comps_defs kv_up_def nos_get_kv_ops_def demo_kv_found)
  have m: "m2_tables (demo_comps []) 0 1" using t(1) g by (simp add: m2_tables_def find_idx_def new_table_def c_strncpy_def numeral_2_eq_2)
  show ?thesis using m2_state_recovered[OF m g(3), of 5 "m2_on_msg 5 (0, 0) (demo_comps [])" "(0, 0)" True True] t(2) g(1) by simp
qed

theorem spam_drops_excess_witness:
  "nos_log_get_dropped_count (m3_on_msg (\<lambda>_. []) [] 5 (0, 1) (demo_comps (g_bins (stale_pool (plain_msg\<lparr>msg_code := 3002\<rparr>)))) (log_boot\<lparr>log_ops_cache := Some 1\<rparr>)) = 978"
proof -
  let ?l = "log_boot\<lparr>log_ops_cache := Some 1\<rparr>" and ?s = "demo_comps (g_bins (stale_pool (plain_msg\<lparr>msg_code := 3002\<rparr>)))"
  have g: "log_gap 0 0 ?l" by (simp add: log_gap_def log_boot_def ring_at_def LOG_BUFFER_SIZE_def empty_log_entry_def)
  have f: "filter_level_of (self_id 5 ?s) ?l = NOS_LOG_LEVEL_DEBUG" "log_ops_cache ?l = Some 1" "nos_log_get_dropped_count ?l = 0"
    by (simp_all add: filter_level_of_def registered_comp_def log_boot_def self_id_def get_comp_def demo_comps_defs nos_log_get_dropped_count_def MAX_COMP_ID_def)
  have h: "msg_code (msg_header ?s (0, 1)) = 3002" "payload_len (msg_header ?s (0, 1)) = 0" unfolding msg_header_def stale_header by code_simp+
  show ?thesis using spam_drops_excess[OF g f(2,1) h(1) refl, of "\<lambda>_. []" "[]"] h(2) f(3) by (simp add: LOG_BUFFER_SIZE_def)
qed

end
