(* ===== verification/Nos_Cli.thy ===== *)
theory Nos_Cli
  imports Nos_Line Nos_Node Nos_Loop Nos_Ipc Nos_Stats Nos_Log Nos_Components
begin

text \<open>
  The command line of a node, \<^verbatim>\<open>src/core/nos_cli.c\<close>: the handlers of the commands, the search for the handler of a line and the
  loop of the thread.  The state joins the parts of the node that the commands touch: the node itself, the logger, the
  statistics, the tables of the database, and the history and line buffer of the command line.  A handler gets the place of its
  argument in the line buffer, as the code does, and gives \<open>None\<close> when it reads or writes outside of an array.
  What is printed is \<open>cl_out\<close>, as rows without their layout.
\<close>

section \<open>Numbers in strings\<close>

text \<open>\<^verbatim>\<open>atoi\<close> is \<^verbatim>\<open>(int)strtol(str, NULL, 10)\<close>, and \<^verbatim>\<open>%u\<close> converts with \<^verbatim>\<open>strtoul\<close>; both saturate at 64 bits
  and are then cut to 32.\<close>

definition signed_digits :: "string \<Rightarrow> bool \<times> string \<times> string" where
  "signed_digits str =
    (let body = dropWhile is_space str;
         rest = (if body \<noteq> [] \<and> (hd body = CHR ''-'' \<or> hd body = CHR ''+'') then tl body else body)
     in (body \<noteq> [] \<and> hd body = CHR ''-'', takeWhile is_digit rest, dropWhile is_digit rest))"

definition c_atoi :: "string \<Rightarrow> u32" where
  "c_atoi str = (case signed_digits str of (neg, ds, _) \<Rightarrow>
     let v = int (digits_val 0 ds) in word_of_int (if neg then max (- (2 ^ 63)) (- v) else min (2 ^ 63 - 1) v))"

definition scan_u :: "string \<Rightarrow> (u32 \<times> string) option" where
  "scan_u str = (case signed_digits str of (neg, ds, rest) \<Rightarrow>
     if ds = [] then None
     else let v = digits_val 0 ds in Some (if v \<ge> 2 ^ 64 then 0xFFFFFFFF else if neg then - of_nat v else of_nat v, rest))"

text \<open>\<^verbatim>\<open>%s\<close>: the next word.\<close>

definition scan_word :: "string \<Rightarrow> (string \<times> string) option" where
  "scan_word str =
    (let body = dropWhile is_space str in if body = [] then None else Some (takeWhile (\<lambda>c. \<not> is_space c) body, dropWhile (\<lambda>c. \<not> is_space c) body))"

section \<open>State\<close>

datatype cli_msg = HelpRow string string | CompRow string u32 string string string | SvcRow string u32 string u32 string
  | NoTables | TableRow string u32 u32 u32 u32 | ConnRows "conn_row list" "(string \<times> u64 list) list" | StatRows "(string \<times> string \<times> string \<times> u64) list"
  | MemRow string u64 string | MemTotal u64 | DroppedRow u64 | LogUsage | LevelUsage | NoLogService | SpamNote u32 | PerfNote u32 | RemoteNote u32 bool u32 | UnknownLine string

record 'z cli_state = hist_t +
  cl_node :: "'z node_state_scheme"
  cl_log :: log_state
  cl_stats :: stats_state
  cl_tables :: "nos_kv_table_t list"
  cl_buf :: string
  cl_out :: "cli_msg list"

text \<open>What the commands use besides: the dynamic loader, the transport (sending and its table of connections), the memory
  of the counters, the text of a number and of the time.\<close>

record 'z cli_env =
  env_loader :: "'z node_state_scheme loader"
  env_send :: "'z node_state_scheme ipc_send"
  env_ipc_dump :: "'z node_state_scheme \<Rightarrow> (conn_row list \<times> (string \<times> u64 list) list) \<times> 'z node_state_scheme"
  env_mem :: "nat \<Rightarrow> u64"
  env_dec :: "u32 \<Rightarrow> string"
  env_time :: string

definition cli_print :: "cli_msg list \<Rightarrow> 'z cli_state \<Rightarrow> 'z cli_state" where
  "cli_print ms s = s\<lparr>cl_out := cl_out s @ ms\<rparr>"

text \<open>The functions of \<^verbatim>\<open>nos_node_main.c\<close> that read a gauge, at the addresses 0, 1 and 2.\<close>

definition stats_read :: "'z cli_state \<Rightarrow> nat \<Rightarrow> nat option \<Rightarrow> u64" where
  "stats_read s f arg =
    (if f = 0 then nos_log_get_dropped_count (cl_log s)
     else if f = 1 then nos_buffer_get_total_mem_usage (cl_node s)
     else nos_scheduler_get_total_mem_usage (cl_node s))"

section \<open>Showing\<close>

definition comp_status_str :: "nos_comp_status_t \<Rightarrow> string" where
  "comp_status_str st = (case st of NOS_COMP_ST_LOADED \<Rightarrow> ''Loaded'' | NOS_COMP_ST_INITED \<Rightarrow> ''Inited'' | NOS_COMP_ST_ACTIVE \<Rightarrow> ''Active''
     | NOS_COMP_ST_STOPPED \<Rightarrow> ''Stopped'' | NOS_COMP_ST_ERROR \<Rightarrow> ''Error'')"

definition loaded_infos :: "'z cli_state \<Rightarrow> loaded_comp_info_t list" where
  "loaded_infos s = take (loaded_count (cl_node s)) (loaded_info (cl_node s))"

definition do_help :: "'z cli_state \<Rightarrow> 'z cli_state" where
  "do_help = cli_print (map (\<lambda>c. HelpRow (cmd_name c) (cmd_help c)) g_cli_cmds)"

definition do_quit :: "'z cli_state \<Rightarrow> 'z cli_state" where
  "do_quit s = s\<lparr>cl_node := (cl_node s)\<lparr>keep_running := False\<rparr>\<rparr>"

definition comp_row :: "'z node_state_scheme \<Rightarrow> loaded_comp_info_t \<Rightarrow> cli_msg" where
  "comp_row n info = CompRow (comp_name (info_comp n info)) (comp_id (info_comp n info)) (comp_status_str (comp_status (info_comp n info))) (li_lib_name info)
     (thread_name (get_thread n (the (li_owner_thread info))))"

definition do_show_components :: "'z cli_state \<Rightarrow> 'z cli_state" where
  "do_show_components s = cli_print (map (comp_row (cl_node s)) (loaded_infos s)) s"

definition svc_location :: "nos_node_def_t \<Rightarrow> nos_service_def_t \<Rightarrow> string" where
  "svc_location nd svc = (if svc_node_name svc = ''Platform'' then ''Embedded'' else if svc_node_name svc = node_name nd then ''Local'' else ''Remote'')"

definition do_show_services :: "'z cli_state \<Rightarrow> 'z cli_state option" where
  "do_show_services s =
    (case node_def (cl_node s) of
       None \<Rightarrow> None
     | Some nd \<Rightarrow> Some (cli_print (map (\<lambda>v. SvcRow (svc_name v) (svc_service_id v) (svc_node_name v) (svc_provider_comp_id v) (svc_location nd v)) (node_services nd)) s))"

definition nos_kv_dump_all :: "nos_kv_table_t list \<Rightarrow> cli_msg list" where
  "nos_kv_dump_all ts = (if ts = [] then [NoTables] else map (\<lambda>t. TableRow (kv_name t) (key_size t) (max_val_size t) (kv_capacity t) (kv_used_count t)) ts)"

definition do_show_db :: "'z cli_state \<Rightarrow> 'z cli_state" where
  "do_show_db s = cli_print (nos_kv_dump_all (cl_tables s)) s"

definition do_show_ipc :: "'z cli_env \<Rightarrow> 'z cli_state \<Rightarrow> 'z cli_state" where
  "do_show_ipc env s = (case env_ipc_dump env (cl_node s) of ((cs, ts), n) \<Rightarrow> cli_print [ConnRows cs ts] (s\<lparr>cl_node := n\<rparr>))"

definition do_show_stats :: "'z cli_env \<Rightarrow> nat option \<Rightarrow> 'z cli_state \<Rightarrow> 'z cli_state option" where
  "do_show_stats env args s =
    (case args of
       None \<Rightarrow> Some (cli_print [StatRows (snd (nos_stats_dump_all (env_mem env) (stats_read s) (cl_stats s)))] s)
     | Some off \<Rightarrow>
         (case c_string (cl_buf s) off of
            None \<Rightarrow> None
          | Some a \<Rightarrow> Some (cli_print [StatRows (snd (if a \<noteq> [] then nos_stats_dump_module (env_mem env) (stats_read s) (Some a) (cl_stats s)
              else nos_stats_dump_all (env_mem env) (stats_read s) (cl_stats s)))] s)))"

text \<open>\<^verbatim>\<open>sizeof\<close> on x86-64: \<^verbatim>\<open>nos_log_context_t\<close> 301096, \<^verbatim>\<open>nos_component_t\<close> 72.\<close>

definition nos_log_get_mem_usage :: u64 where
  "nos_log_get_mem_usage = 301096"

definition c_strstr :: "string \<Rightarrow> string \<Rightarrow> bool" where
  "c_strstr hay needle \<longleftrightarrow> list_ex (\<lambda>i. c_starts needle (drop i hay)) [0..<Suc (length hay)]"

definition comp_mem :: "loaded_comp_info_t \<Rightarrow> u64" where
  "comp_mem info = 72 + (if c_strstr (li_lib_name info) ''libcomp-1.so'' then 16 else if c_strstr (li_lib_name info) ''libcomp-2.so'' then 32 else 0)"

definition do_show_memory :: "'z cli_state \<Rightarrow> 'z cli_state" where
  "do_show_memory s =
    (let kv = nos_kv_get_total_mem_usage (cl_tables s); bf = nos_buffer_get_total_mem_usage (cl_node s); sch = nos_scheduler_get_total_mem_usage (cl_node s);
         comps = fold (\<lambda>info acc. acc + comp_mem info) (loaded_infos s) 0
     in cli_print ([MemRow ''SVC_LOG'' nos_log_get_mem_usage ''Embedded Service'', MemRow ''SVC_KV_DB'' kv ''Embedded Service'', MemRow ''Buffer Pool'' bf ''Infrastructure'',
          MemRow ''Scheduler/Threads'' sch ''Infrastructure''] @ map (\<lambda>info. MemRow (comp_name (info_comp (cl_node s) info)) (comp_mem info) ''Component'') (loaded_infos s)
          @ [MemTotal (nos_log_get_mem_usage + kv + bf + sch + comps)]) s)"

section \<open>Logging\<close>

definition lower :: "char \<Rightarrow> char" where
  "lower c = (if 65 \<le> (of_char c :: nat) \<and> (of_char c :: nat) \<le> 90 then char_of (of_char c + 32 :: nat) else c)"

definition strcaseeq :: "string \<Rightarrow> string \<Rightarrow> bool" where
  "strcaseeq a b \<longleftrightarrow> map lower a = map lower b"

definition str_to_level :: "string \<Rightarrow> nos_log_level_t" where
  "str_to_level str = (if strcaseeq str ''debug'' then NOS_LOG_LEVEL_DEBUG else if strcaseeq str ''info'' then NOS_LOG_LEVEL_INFO
     else if strcaseeq str ''warn'' then NOS_LOG_LEVEL_WARN else if strcaseeq str ''error'' then NOS_LOG_LEVEL_ERROR else NOS_LOG_LEVEL_INFO)"

definition spam_fields :: "nos_service_msg_t \<Rightarrow> nos_service_msg_t" where
  "spam_fields h = h\<lparr>magic := NOS_IPC_MAGIC, dst_service := 110, msg_code := 3002, payload_len := 4\<rparr>"

text \<open>The notes of the commands that send a message are printed only when a buffer could be had.\<close>

definition cli_post :: "'z cli_env \<Rightarrow> u32 \<Rightarrow> (nos_service_msg_t \<Rightarrow> nos_service_msg_t) \<Rightarrow> u8 list \<Rightarrow> cli_msg \<Rightarrow> 'z cli_state \<Rightarrow> 'z cli_state" where
  "cli_post env sz fill payload note s =
    (if fst (nos_buffer_alloc sz 0 (cl_node s)) = None then s\<lparr>cl_node := snd (nos_buffer_alloc sz 0 (cl_node s))\<rparr>
     else cli_print [note] (s\<lparr>cl_node := post_msg (env_send env) sz fill payload True (cl_node s)\<rparr>))"

text \<open>The arrays \<^verbatim>\<open>sub\<close> and \<^verbatim>\<open>val\<close> have 64 elements.\<close>

definition scan_words :: "string \<Rightarrow> string list" where
  "scan_words str = (case scan_word str of None \<Rightarrow> [] | Some (a, rest) \<Rightarrow> (case scan_word rest of None \<Rightarrow> [a] | Some (b, _) \<Rightarrow> [a, b]))"

definition log_level :: "'z cli_env \<Rightarrow> nat \<Rightarrow> 'z cli_state \<Rightarrow> 'z cli_state option" where
  "log_level env off s =
    (case c_string (cl_buf s) off of
       None \<Rightarrow> None
     | Some a \<Rightarrow>
         (let ws = scan_words a in
          if list_ex (\<lambda>w. length w \<ge> 64) ws then None
          else if nos_embedded_service_get ''SVC_LOG'' (cl_log s) = None then Some (cli_print [NoLogService] s)
          else (case ws of
              [x] \<Rightarrow> Some (s\<lparr>cl_log := nos_set_level_impl (env_time env) (str_to_level x) (cl_log s)\<rparr>)
            | [x, y] \<Rightarrow> Some (s\<lparr>cl_log := nos_set_comp_level_impl (env_dec env) (env_time env) (c_atoi x) (str_to_level y) (cl_log s)\<rparr>)
            | _ \<Rightarrow> Some (cli_print [LevelUsage] s))))"

definition do_log :: "'z cli_env \<Rightarrow> nat option \<Rightarrow> 'z cli_state \<Rightarrow> 'z cli_state option" where
  "do_log env args s =
    (case args of
       None \<Rightarrow> Some (cli_print [LogUsage] s)
     | Some off \<Rightarrow>
         (case c_string (cl_buf s) off of
            None \<Rightarrow> None
          | Some a \<Rightarrow>
              if c_starts ''stats'' a then Some (cli_print [DroppedRow (nos_log_get_dropped_count (cl_log s))] s)
              else if c_starts ''spam'' a then
                let n = (if length a > 4 then c_atoi (drop 5 a) else 2000) in Some (cli_post env 36 spam_fields (bytes_u32 n) (SpamNote n) s)
              else if c_starts ''level'' a then log_level env (off + 6) s
              else Some s))"

section \<open>Measurements\<close>

definition perf_fields :: "nos_service_msg_t \<Rightarrow> nos_service_msg_t" where
  "perf_fields h = h\<lparr>magic := NOS_IPC_MAGIC, dst_service := 111, msg_code := 3001, payload_len := 4\<rparr>"

definition or_default :: "u32 \<Rightarrow> u32" where
  "or_default n = (if n = 0 then 10000 else n)"

definition do_perf_start :: "'z cli_env \<Rightarrow> nat option \<Rightarrow> 'z cli_state \<Rightarrow> 'z cli_state option" where
  "do_perf_start env args s =
    map_option (\<lambda>n. cli_post env 36 perf_fields (bytes_u32 n) (PerfNote n) s)
      (case args of None \<Rightarrow> Some (or_default 10000) | Some off \<Rightarrow> map_option (\<lambda>a. or_default (c_atoi a)) (c_string (cl_buf s) off))"

definition remote_fields :: "nos_service_msg_t \<Rightarrow> nos_service_msg_t" where
  "remote_fields h = h\<lparr>magic := NOS_IPC_MAGIC, dst_service := 113, msg_code := 3001, payload_len := 8\<rparr>"

text \<open>The number of exchanges, the size of the payload and whether it is a sweep.\<close>

definition remote_args :: "string \<Rightarrow> u32 \<times> u32 \<times> bool" where
  "remote_args a =
    (if a = [] then (10000, 0, False)
     else if c_starts ''sweep'' a then (case scan_u (drop 5 a) of None \<Rightarrow> (10000, 0xFFFFFFFF, True) | Some (n, _) \<Rightarrow> (or_default n, 0xFFFFFFFF, True))
     else (case scan_u a of
         None \<Rightarrow> (10000, 0, False)
       | Some (n, rest) \<Rightarrow> (or_default n, (case scan_u rest of None \<Rightarrow> 0 | Some (p, _) \<Rightarrow> p), False)))"

definition remote_payload :: "u32 \<Rightarrow> u32 \<Rightarrow> u8 list" where
  "remote_payload n p = bytes_u32 n @ bytes_u32 p"

definition do_perf_remote_start :: "'z cli_env \<Rightarrow> nat option \<Rightarrow> 'z cli_state \<Rightarrow> 'z cli_state option" where
  "do_perf_remote_start env args s =
    map_option (\<lambda>(n, p, sweep). cli_post env 40 remote_fields (remote_payload n p) (RemoteNote n sweep (if sweep then 32 else p)) s)
      (case args of None \<Rightarrow> Some (10000, 0, False) | Some off \<Rightarrow> map_option remote_args (c_string (cl_buf s) off))"

section \<open>Loading\<close>

definition with_name :: "('z node_state_scheme \<Rightarrow> string \<Rightarrow> 'z node_state_scheme) \<Rightarrow> nat option \<Rightarrow> 'z cli_state \<Rightarrow> 'z cli_state option" where
  "with_name f args s = (case args of None \<Rightarrow> Some s | Some off \<Rightarrow> map_option (\<lambda>a. s\<lparr>cl_node := f (cl_node s) a\<rparr>) (c_string (cl_buf s) off))"

definition do_load :: "'z cli_env \<Rightarrow> nat option \<Rightarrow> 'z cli_state \<Rightarrow> 'z cli_state option" where
  "do_load env = with_name (\<lambda>n a. snd (node_reload_component (env_loader env) a n))"

definition do_reload :: "'z cli_env \<Rightarrow> nat option \<Rightarrow> 'z cli_state \<Rightarrow> 'z cli_state option" where
  "do_reload env = with_name (\<lambda>n a. snd (node_reload_component (env_loader env) a n))"

definition do_unload :: "'z cli_env \<Rightarrow> nat option \<Rightarrow> 'z cli_state \<Rightarrow> 'z cli_state option" where
  "do_unload env = with_name (\<lambda>n a. snd (node_unload_component (env_loader env) a n))"

section \<open>The thread\<close>

definition run_handler :: "'z cli_env \<Rightarrow> cli_handler \<Rightarrow> nat option \<Rightarrow> 'z cli_state \<Rightarrow> 'z cli_state option" where
  "run_handler env h args s =
    (case h of
       H_help \<Rightarrow> Some (do_help s)
     | H_show_components \<Rightarrow> Some (do_show_components s)
     | H_show_services \<Rightarrow> do_show_services s
     | H_show_db \<Rightarrow> Some (do_show_db s)
     | H_show_memory \<Rightarrow> Some (do_show_memory s)
     | H_show_ipc \<Rightarrow> Some (do_show_ipc env s)
     | H_show_stats \<Rightarrow> do_show_stats env args s
     | H_log \<Rightarrow> do_log env args s
     | H_perf_start \<Rightarrow> do_perf_start env args s
     | H_perf_remote_start \<Rightarrow> do_perf_remote_start env args s
     | H_load \<Rightarrow> do_load env args s
     | H_unload \<Rightarrow> do_unload env args s
     | H_reload \<Rightarrow> do_reload env args s
     | H_quit \<Rightarrow> Some (do_quit s))"

definition cmd_matches :: "string \<Rightarrow> nos_cli_cmd_t \<Rightarrow> bool" where
  "cmd_matches w c \<longleftrightarrow> w = cmd_name c \<or> (c_starts (cmd_name c) w \<and> take 1 (drop (length (cmd_name c)) w) = '' '')"

definition cmd_args :: "string \<Rightarrow> nos_cli_cmd_t \<Rightarrow> nat option" where
  "cmd_args w c = (if take 1 (drop (length (cmd_name c)) w) = '' '' then Some (length (cmd_name c) + 1) else None)"

definition run_line :: "'z cli_env \<Rightarrow> bool \<Rightarrow> 'z cli_state \<Rightarrow> 'z cli_state option" where
  "run_line env is_tty s =
    (case c_string (cl_buf s) 0 of
       None \<Rightarrow> None
     | Some w \<Rightarrow>
         (let s1 = history_add (Some w) s in
          case find (cmd_matches w) g_cli_cmds of
            None \<Rightarrow> Some (if is_tty then cli_print [UnknownLine w] s1 else s1)
          | Some c \<Rightarrow> run_handler env (cmd_handler c) (cmd_args w c) s1))"

text \<open>\<^verbatim>\<open>fgets\<close> with a buffer of 256 bytes: at most 255 characters, up to the end of a line.\<close>

definition fgets_chars :: "string \<Rightarrow> string" where
  "fgets_chars input = take 255 (let v = takeWhile (\<lambda>c. c \<noteq> CHR 0x0A) input in if length v < length input then v @ [CHR 0x0A] else v)"

definition c_fgets :: "string \<Rightarrow> string \<Rightarrow> (int \<times> string \<times> string) option" where
  "c_fgets input buf =
    (if input = [] then Some (-1, buf, [])
     else let v = fgets_chars input in
       (case write_mem 0 (v @ [NUL]) buf of
          None \<Rightarrow> None
        | Some m \<Rightarrow> map_option (\<lambda>w. (int (length w), m, drop (length v) input)) (c_string m 0)))"

text \<open>\<^verbatim>\<open>buf[strcspn(buf, "\n")] = 0\<close>.\<close>

definition strip_newline :: "string \<Rightarrow> string" where
  "strip_newline buf = buf[length (takeWhile (\<lambda>c. c \<noteq> NUL \<and> c \<noteq> CHR 0x0A) buf) := NUL]"

definition cli_names :: "'z cli_state \<Rightarrow> string list" where
  "cli_names s = map (\<lambda>info. comp_name (info_comp (cl_node s) info)) (loaded_infos s)"

definition read_line :: "bool \<Rightarrow> string \<Rightarrow> 'z cli_state \<Rightarrow> (int \<times> string \<times> string) option" where
  "read_line is_tty input s =
    (if is_tty then map_option (\<lambda>(n, l, rest). (n, lbuf l, rest)) (advanced_get_line (cli_names s) s input (cl_buf s))
     else c_fgets input (cl_buf s))"

lemma fgets_chars_pos: "input \<noteq> [] \<Longrightarrow> 0 < length (fgets_chars input)"
  by (cases input) (auto simp: fgets_chars_def Let_def)

lemma read_line_consumes:
  assumes "read_line is_tty input s = Some (n, buf, rest)" "0 \<le> n"
  shows "length rest < length input"
proof (cases is_tty)
  case True
  then show ?thesis using assms by (auto simp: read_line_def advanced_get_line_def dest!: get_line_consumes)
next
  case False
  then have "c_fgets input (cl_buf s) = Some (n, buf, rest)" using assms(1) by (simp add: read_line_def)
  then have i: "input \<noteq> []" "rest = drop (length (fgets_chars input)) input" using assms(2) by (auto simp: c_fgets_def Let_def split: if_splits option.splits)
  show ?thesis using fgets_chars_pos[OF i(1)] i by (cases input) auto
qed

text \<open>Each round reads at least one character, so that the loop ends with the input at the latest.  In between, other threads can
  clear \<^verbatim>\<open>keep_running\<close>; here only \<^verbatim>\<open>quit\<close> does.\<close>

function node_cli_thread_entry :: "'z cli_env \<Rightarrow> bool \<Rightarrow> string \<Rightarrow> 'z cli_state \<Rightarrow> ('z cli_state \<times> string) option" where
  "node_cli_thread_entry env is_tty input s =
    (if \<not> keep_running (cl_node s) then Some (s, input)
     else (case read_line is_tty input s of
         None \<Rightarrow> None
       | Some (k, buf, rest) \<Rightarrow>
           if k < 0 then Some (s\<lparr>cl_buf := buf\<rparr>, rest)
           else if k = 0 then node_cli_thread_entry env is_tty rest (s\<lparr>cl_buf := buf\<rparr>)
           else (case run_line env is_tty (s\<lparr>cl_buf := (if is_tty then buf else strip_newline buf)\<rparr>) of
               None \<Rightarrow> None
             | Some s' \<Rightarrow> node_cli_thread_entry env is_tty rest s')))"
  by pat_completeness auto

termination
  by (relation "measure (\<lambda>(env, is_tty, input, s). length input)") (auto dest: read_line_consumes)

declare node_cli_thread_entry.simps [simp del]

section \<open>Finding the handler\<close>

lemma c_starts_iff: "c_starts u w \<longleftrightarrow> (\<exists>r. w = u @ r)"
  by (auto simp: c_starts_def) (metis append_take_drop_id)

lemma cmd_matches_iff: "cmd_matches w c \<longleftrightarrow> w = cmd_name c \<or> c_starts (cmd_name c @ '' '') w"
proof -
  have "take (length (cmd_name c) + 1) w = take (length (cmd_name c)) w @ take 1 (drop (length (cmd_name c)) w)" by (rule take_add)
  then show ?thesis by (auto simp: cmd_matches_def c_starts_def append_eq_append_conv dest: arg_cong[of _ _ length])
qed

lemma cmd_names_separate: "\<forall>a \<in> set g_cli_cmds. \<forall>b \<in> set g_cli_cmds. a = b \<or> (cmd_name a \<noteq> cmd_name b \<and> \<not> c_starts (cmd_name a @ '' '') (cmd_name b))"
  by code_simp

lemma c_starts_shorter: "c_starts u w \<Longrightarrow> c_starts v w \<Longrightarrow> length u < length v \<Longrightarrow> c_starts u (butlast v)"
  by (auto simp: c_starts_def butlast_conv_take) (metis less_imp_le min.absorb1 take_take)

lemma cmd_matches_unique:
  assumes "a \<in> set g_cli_cmds" "b \<in> set g_cli_cmds" "cmd_matches w a" "cmd_matches w b"
  shows "a = b"
proof (rule ccontr)
  assume "a \<noteq> b"
  then have n: "cmd_name a \<noteq> cmd_name b" "\<not> c_starts (cmd_name a @ '' '') (cmd_name b)" "\<not> c_starts (cmd_name b @ '' '') (cmd_name a)"
    using cmd_names_separate assms(1,2) by (metis)+
  then have p: "c_starts (cmd_name a @ '' '') w" "c_starts (cmd_name b @ '' '') w" using assms(3,4) by (auto simp: cmd_matches_iff)
  consider "length (cmd_name a) < length (cmd_name b)" | "length (cmd_name b) < length (cmd_name a)" | "length (cmd_name a) = length (cmd_name b)" by linarith
  then show False
  proof cases
    case 3
    then show False using p n(1) by (auto simp: c_starts_def)
  qed (use c_starts_shorter[OF p] c_starts_shorter[OF p(2,1)] n(2,3) in auto)
qed

lemma find_command: "c \<in> set g_cli_cmds \<Longrightarrow> cmd_matches w c \<Longrightarrow> find (cmd_matches w) g_cli_cmds = Some c"
  using cmd_matches_unique by (metis find_None_iff find_Some_iff nth_mem option.exhaust)

text \<open>C28.  A line that is the name of a command, or the name followed by a blank and anything else, runs the handler of that
  command, whatever its place in the table, with the text behind the blank; any other line runs no handler.\<close>

theorem cli_dispatch_correct:
  assumes "c_string (cl_buf s) 0 = Some w"
  shows "(\<forall>c \<in> set g_cli_cmds. w = cmd_name c \<longrightarrow> run_line env is_tty s = run_handler env (cmd_handler c) None (history_add (Some w) s))
    \<and> (\<forall>c \<in> set g_cli_cmds. \<forall>args. w = cmd_name c @ '' '' @ args \<longrightarrow>
         run_line env is_tty s = run_handler env (cmd_handler c) (Some (length (cmd_name c) + 1)) (history_add (Some w) s) \<and> c_string (cl_buf s) (length (cmd_name c) + 1) = Some args)
    \<and> ((\<forall>c \<in> set g_cli_cmds. \<forall>args. w \<noteq> cmd_name c \<and> w \<noteq> cmd_name c @ '' '' @ args) \<longrightarrow>
         run_line env is_tty s = Some (if is_tty then cli_print [UnknownLine w] (history_add (Some w) s) else history_add (Some w) s))"
proof (intro conjI ballI allI impI)
  fix c assume "c \<in> set g_cli_cmds" "w = cmd_name c"
  then show "run_line env is_tty s = run_handler env (cmd_handler c) None (history_add (Some w) s)"
    using find_command[of c w] assms by (simp add: run_line_def Let_def cmd_matches_iff cmd_args_def)
next
  fix c args assume c: "c \<in> set g_cli_cmds" "w = cmd_name c @ '' '' @ args"
  show "run_line env is_tty s = run_handler env (cmd_handler c) (Some (length (cmd_name c) + 1)) (history_add (Some w) s)"
    using find_command[of c w] assms c by (simp add: run_line_def Let_def cmd_matches_iff c_starts_def cmd_args_def)
  show "c_string (cl_buf s) (length (cmd_name c) + 1) = Some args"
    using c_string_tail[OF assms, of "length (cmd_name c) + 1"] c(2) by simp
next
  assume n: "\<forall>c \<in> set g_cli_cmds. \<forall>args. w \<noteq> cmd_name c \<and> w \<noteq> cmd_name c @ '' '' @ args"
  have "\<not> cmd_matches w c" if "c \<in> set g_cli_cmds" for c
    using n that by (auto simp: cmd_matches_iff c_starts_iff)
  then have "find (cmd_matches w) g_cli_cmds = None" by (simp add: find_None_iff)
  then show "run_line env is_tty s = Some (if is_tty then cli_print [UnknownLine w] (history_add (Some w) s) else history_add (Some w) s)"
    using assms by (simp add: run_line_def Let_def)
qed

section \<open>Arguments\<close>

lemma run_log_level:
  assumes "c_string (cl_buf s) 0 = Some (''log level'' @ y)"
  shows "run_line env is_tty s = log_level env 10 (history_add (Some (''log level'' @ y)) s)"
proof -
  let ?c = "\<lparr>cmd_name = ''log'', cmd_help = ''Manage logging (stats, level)'', cmd_handler = H_log\<rparr>"
  have f: "find (cmd_matches (''log level'' @ y)) g_cli_cmds = Some ?c"
    by (rule find_command) (simp_all add: g_cli_cmds_def cmd_matches_iff c_starts_def)
  have g: "cmd_args (''log level'' @ y) ?c = Some 4" by (simp add: cmd_args_def)
  have a: "c_string (cl_buf s) 4 = Some (''level'' @ y)" using c_string_tail[OF assms, of 4] by simp
  have h: "cl_buf (history_add x s) = cl_buf s" for x by (simp add: history_add_def Let_def split: option.split)
  have "run_line env is_tty s = do_log env (Some 4) (history_add (Some (''log level'' @ y)) s)"
    using assms f g by (simp only: run_line_def Let_def option.case nos_cli_cmd_t.select_convs run_handler_def cli_handler.case)
  also have "\<dots> = log_level env 10 (history_add (Some (''log level'' @ y)) s)" using a by (simp add: do_log_def h c_starts_def)
  finally show ?thesis .
qed

lemma history_add_frame [simp]: "cl_buf (history_add x s) = cl_buf s" "cl_log (history_add x s) = cl_log s" "cl_node (history_add x s) = cl_node s"
  by (simp_all add: history_add_def Let_def split: option.split)

text \<open>The handler of \<^verbatim>\<open>log level\<close> skips a blank that need not be there.  For a line that is just \<^verbatim>\<open>log level\<close> it reads
  behind the terminator, where an earlier line may have left a word, and sets the filter from it.\<close>

theorem log_level_stale_argument:
  assumes "c_string (cl_buf s) 0 = Some ''log level''" "c_string (cl_buf s) 10 = Some x" "scan_words x = [x]" "length x < 64"
    and "nos_embedded_service_get ''SVC_LOG'' (cl_log s) \<noteq> None"
  shows "\<exists>s'. run_line env is_tty s = Some s' \<and> global_filter_level (cl_log s') = str_to_level x"
  using assms run_log_level[of s "[]" env is_tty]
  by (auto simp: log_level_def Let_def nos_set_level_impl_def nos_log_impl_def log_write_def)

text \<open>A word of 64 characters or more is written behind the array that \<^verbatim>\<open>sscanf\<close> gets.\<close>

theorem log_level_word_overflow:
  assumes "c_string (cl_buf s) 0 = Some (''log level '' @ x)" "\<exists>w \<in> set (scan_words x). 64 \<le> length w"
  shows "run_line env is_tty s = None"
proof -
  have "c_string (cl_buf s) 10 = Some x" using c_string_tail[OF assms(1), of 10] by simp
  then show ?thesis using run_log_level[of s "CHR '' '' # x" env is_tty] assms by (simp add: log_level_def Let_def list_ex_iff)
qed

text \<open>The help says that \<^verbatim>\<open>load\<close> loads a component by name.  It calls the operation that reloads a component: for one that is not
  loaded, in particular one that was unloaded before, nothing happens.\<close>

theorem load_needs_loaded:
  assumes "c_string (cl_buf s) off = Some name" "find_loaded_by_name name (cl_node s) = None"
  shows "do_load env (Some off) s = Some s"
  using assms by (simp add: do_load_def with_name_def node_reload_component_def)

section \<open>Starting a measurement\<close>

lemma scan_digits:
  assumes "ds \<noteq> []" "list_all is_digit ds" "r = [] \<or> \<not> is_digit (hd r)"
  shows "signed_digits (ds @ r) = (False, ds, r)" "signed_digits (CHR '' '' # ds @ r) = (False, ds, r)"
proof -
  obtain c cs where ds: "ds = c # cs" using assms(1) by (cases ds) auto
  have c: "\<not> is_space c" "c \<noteq> CHR ''-''" "c \<noteq> CHR ''+''" using digit_not_special[of c] assms(2) ds by auto
  have all: "x \<in> set ds \<Longrightarrow> is_digit x" for x using assms(2) by (simp add: list_all_iff)
  have "takeWhile is_digit (ds @ r) = ds" "dropWhile is_digit (ds @ r) = r"
    using all assms(3) by (cases r; auto simp: takeWhile_append dropWhile_append takeWhile_eq_all_conv dropWhile_eq_Nil_conv)+
  then show "signed_digits (ds @ r) = (False, ds, r)" "signed_digits (CHR '' '' # ds @ r) = (False, ds, r)"
    using c ds by (auto simp: signed_digits_def Let_def is_space_def)
qed

text \<open>Decimal numbers that are typed behind \<^verbatim>\<open>perf remote\<close> arrive as typed: \<^verbatim>\<open>sweep N\<close> asks for a sweep with \<open>N\<close> exchanges per size,
  \<^verbatim>\<open>N P\<close> for one test of \<open>N\<close> exchanges with \<open>P\<close> bytes, \<^verbatim>\<open>N\<close> alone for one without payload; \<open>0\<close> and no number mean 10000 exchanges.\<close>

theorem remote_args_decimal:
  assumes "ns \<noteq> []" "list_all is_digit ns" "digits_val 0 ns < 2 ^ 32" "ps \<noteq> []" "list_all is_digit ps" "digits_val 0 ps < 2 ^ 32"
  shows "remote_args (''sweep '' @ ns) = (or_default (of_nat (digits_val 0 ns)), 0xFFFFFFFF, True)
    \<and> remote_args (ns @ '' '' @ ps) = (or_default (of_nat (digits_val 0 ns)), of_nat (digits_val 0 ps), False)
    \<and> remote_args ns = (or_default (of_nat (digits_val 0 ns)), 0, False)
    \<and> remote_args ''sweep'' = (10000, 0xFFFFFFFF, True) \<and> remote_args [] = (10000, 0, False)"
proof -
  obtain c cs where ns: "ns = c # cs" using assms(1) by (cases ns) auto
  have "c \<noteq> CHR ''s''" using assms(2) ns by (auto simp: is_digit_def)
  then have n: "\<not> c_starts ''sweep'' (ns @ r)" "\<not> c_starts ''sweep'' ns" for r using ns by (simp_all add: c_starts_def)
  have b: "\<not> is_digit (CHR '' '')" by (simp add: is_digit_def)
  have s1: "scan_u (CHR '' '' # ns) = Some (of_nat (digits_val 0 ns), [])" "scan_u ns = Some (of_nat (digits_val 0 ns), [])"
    using scan_digits[OF assms(1,2), of "[]"] assms(1,3) by (auto simp: scan_u_def Let_def)
  have s2: "scan_u (ns @ CHR '' '' # ps) = Some (of_nat (digits_val 0 ns), CHR '' '' # ps)" "scan_u (CHR '' '' # ps) = Some (of_nat (digits_val 0 ps), [])"
    using scan_digits(1)[OF assms(1,2), of "CHR '' '' # ps"] scan_digits(2)[OF assms(4,5), of "[]"] b assms(1,3,4,6) by (auto simp: scan_u_def Let_def)
  have e: "scan_u [] = None" by (simp add: scan_u_def signed_digits_def Let_def)
  show ?thesis using s1 s2 n e assms(1) by (auto simp: remote_args_def c_starts_def)
qed

lemma remote_not_reply [simp]: "is_reply_msg (remote_fields h) = is_reply_msg h" "dst_service (remote_fields h) = 113" "msg_code (remote_fields h) = 3001"
  "payload_len (remote_fields h) = 8" "dst_component (remote_fields h) = dst_component h"
  by (simp_all add: remote_fields_def is_reply_msg_def)

lemma remote_posted:
  assumes "pool_ok s" "bufs_ok s" "nos_buffer_alloc 40 0 s = (Some p, s1)" "\<not> is_reply_msg (decode_msg (chunk (get_buf s p)) 0)" "local_route s 113 t"
    and "s' = post_msg ipc 40 remote_fields (remote_payload n k) True s"
  shows "queue_items (get_thread s' t) = queue_items (get_thread s t) @ [Some p]" "ref_cnt (get_buf s' p) = 1" "msg_code (msg_header s' p) = 3001"
    "payload_len (msg_header s' p) = 8" "get_payload_u32 s' p 0 = n" "get_payload_u32 s' p 1 = k"
proof -
  have f: "\<not> is_reply_msg (remote_fields (decode_msg (chunk (get_buf s p)) 0))" "local_route s (dst_service (remote_fields (decode_msg (chunk (get_buf s p)) 0))) t"
    using assms(4,5) by simp_all
  have l: "32 + length (remote_payload n k) \<le> unat (40 :: u32)" by (simp add: remote_payload_def)
  note r = post_msg_received[where fill = remote_fields, OF assms(1,2) l assms(3) f assms(6)]
  show "queue_items (get_thread s' t) = queue_items (get_thread s t) @ [Some p]" "ref_cnt (get_buf s' p) = 1" "msg_code (msg_header s' p) = 3001"
    "payload_len (msg_header s' p) = 8" using r by simp_all
  show "get_payload_u32 s' p 0 = n" "get_payload_u32 s' p 1 = k"
    using r(4)[of 0] r(4)[of 1] get_u32_bytes(1)[of n "bytes_u32 k"] get_u32_bytes(2)[of n k "[]"] by (simp_all add: remote_payload_def)
qed

text \<open>The command \<^verbatim>\<open>perf remote\<close> for a provider in this node: the queue of its thread gets one message, with the code that starts a
  test and the two numbers of the command line as its payload, and holds the only reference to it.\<close>

theorem perf_remote_correct:
  assumes "c_string (cl_buf s) off = Some a" "remote_args a = (n, k, sweep)" "pool_ok (cl_node s)" "bufs_ok (cl_node s)" "nos_buffer_alloc 40 0 (cl_node s) = (Some p, s1)"
    and "\<not> is_reply_msg (decode_msg (chunk (get_buf (cl_node s) p)) 0)" "local_route (cl_node s) 113 t"
  shows "\<exists>s'. do_perf_remote_start env (Some off) s = Some s' \<and> queue_items (get_thread (cl_node s') t) = queue_items (get_thread (cl_node s) t) @ [Some p]
    \<and> ref_cnt (get_buf (cl_node s') p) = 1 \<and> msg_code (msg_header (cl_node s') p) = 3001 \<and> payload_len (msg_header (cl_node s') p) = 8
    \<and> get_payload_u32 (cl_node s') p 0 = n \<and> get_payload_u32 (cl_node s') p 1 = k \<and> cl_out s' = cl_out s @ [RemoteNote n sweep (if sweep then 32 else k)]"
proof -
  let ?n = "post_msg (env_send env) 40 remote_fields (remote_payload n k) True (cl_node s)"
  have "do_perf_remote_start env (Some off) s = Some (cli_print [RemoteNote n sweep (if sweep then 32 else k)] (s\<lparr>cl_node := ?n\<rparr>))"
    using assms(1,2,5) by (simp add: do_perf_remote_start_def cli_post_def)
  then show ?thesis using remote_posted[OF assms(3-7), of ?n "env_send env" n k] by (simp add: cli_print_def)
qed

section \<open>Concrete instances\<close>

definition demo_env :: "unit cli_env" where
  "demo_env = \<lparr>env_loader = demo_loader, env_send = \<lambda>_ _ _ s. (NOS_ERR, s), env_ipc_dump = \<lambda>s. (([], []), s), env_mem = \<lambda>_. 0, env_dec = \<lambda>_. ''1'', env_time = ''12:00:00''\<rparr>"

definition demo_cli_node :: node_state where
  "demo_cli_node = demo_ns\<lparr>g_bins := g_bins (stale_pool plain_msg), g_threads := [null_thread\<lparr>msg_queue := replicate MAX_QUEUE_SIZE None\<rparr>],
     g_service_registry := (replicate 64 null_entry)[0 := null_entry\<lparr>service_id := 113, local_thread := Some 0\<rparr>], g_service_count := 1\<rparr>"

definition demo_cli :: "string \<Rightarrow> unit cli_state" where
  "demo_cli buf = \<lparr>g_history = replicate 3 [], g_history_count = 0, cl_node = demo_cli_node, cl_log = nos_log_init 1 log_boot,
     cl_stats = \<lparr>g_stats = [], g_stats_count = 0\<rparr>, cl_tables = [], cl_buf = buf, cl_out = []\<rparr>"

lemma demo_cli_simps [simp]: "cl_buf (demo_cli buf) = buf" "cl_node (demo_cli buf) = demo_cli_node" "cl_log (demo_cli buf) = nos_log_init 1 log_boot" "cl_out (demo_cli buf) = []"
  "g_bins demo_cli_node = g_bins (stale_pool plain_msg)"
  by (simp_all add: demo_cli_def demo_cli_node_def)

lemma demo_cli_log: "nos_embedded_service_get ''SVC_LOG'' (nos_log_init 1 log_boot) = Some 1"
  by code_simp

theorem cli_dispatch_correct_witness:
  "run_line demo_env True (demo_cli (''show statsx'' @ [NUL])) = Some (cli_print [UnknownLine ''show statsx''] (history_add (Some ''show statsx'') (demo_cli (''show statsx'' @ [NUL]))))
   \<and> run_line demo_env True (demo_cli (''log stats'' @ [NUL])) = run_handler demo_env H_log (Some 4) (history_add (Some ''log stats'') (demo_cli (''log stats'' @ [NUL])))"
proof -
  let ?c = "\<lparr>cmd_name = ''log'', cmd_help = ''Manage logging (stats, level)'', cmd_handler = H_log\<rparr>"
  have a: "c_string (cl_buf (demo_cli (''show statsx'' @ [NUL]))) 0 = Some ''show statsx''" by (simp add: c_string_def)
  have b: "c_string (cl_buf (demo_cli (''log stats'' @ [NUL]))) 0 = Some ''log stats''" by (simp add: c_string_def)
  have c: "?c \<in> set g_cli_cmds" by (simp add: g_cli_cmds_def)
  have n: "\<forall>c \<in> set g_cli_cmds. \<forall>args. ''show statsx'' \<noteq> cmd_name c \<and> ''show statsx'' \<noteq> cmd_name c @ '' '' @ args" by (simp add: g_cli_cmds_def)
  note d = bspec[OF conjunct1[OF conjunct2[OF cli_dispatch_correct[OF b, of demo_env True]]] c]
  have "run_line demo_env True (demo_cli (''log stats'' @ [NUL])) = run_handler demo_env H_log (Some 4) (history_add (Some ''log stats'') (demo_cli (''log stats'' @ [NUL])))"
    using d[THEN spec[of _ "''stats''"]] by (simp add: eval_nat_numeral)
  then show ?thesis using conjunct2[OF conjunct2[OF cli_dispatch_correct[OF a, of demo_env True]]] n by simp
qed

theorem log_level_stale_argument_witness:
  "\<exists>s'. run_line demo_env True (demo_cli (''log level'' @ [NUL] @ ''ERROR'' @ [NUL])) = Some s' \<and> global_filter_level (cl_log s') = NOS_LOG_LEVEL_ERROR"
proof -
  let ?s = "demo_cli (''log level'' @ [NUL] @ ''ERROR'' @ [NUL])"
  have c: "c_string (cl_buf ?s) 0 = Some ''log level''" "c_string (cl_buf ?s) 10 = Some ''ERROR''" by (simp_all add: c_string_def)
  have w: "scan_words ''ERROR'' = [''ERROR'']" "str_to_level ''ERROR'' = NOS_LOG_LEVEL_ERROR" by code_simp+
  show ?thesis using log_level_stale_argument[OF c w(1), of demo_env True] demo_cli_log w(2) by simp
qed

theorem log_level_word_overflow_witness:
  "run_line demo_env True (demo_cli (''log level '' @ replicate 64 CHR ''x'' @ [NUL])) = None"
proof -
  have w: "scan_words (replicate 64 CHR ''x'') = [replicate 64 CHR ''x'']" by code_simp
  have n: "NUL \<notin> set (''log level '' @ replicate 64 CHR ''x'')" by simp
  have c: "c_string (cl_buf (demo_cli (''log level '' @ replicate 64 CHR ''x'' @ [NUL]))) 0 = Some (''log level '' @ replicate 64 CHR ''x'')"
    using takeWhile_nul[OF n, of "[]"] by (simp only: c_string_def demo_cli_simps) simp
  show ?thesis by (rule log_level_word_overflow[OF c]) (simp add: w)
qed

theorem load_needs_loaded_witness: "do_load demo_env (Some 5) (demo_cli (''load Comp-9'' @ [NUL])) = Some (demo_cli (''load Comp-9'' @ [NUL]))"
proof -
  have n: "find_loaded_by_name ''Comp-9'' demo_cli_node = None" by code_simp
  show ?thesis by (rule load_needs_loaded[where name = "''Comp-9''"]) (simp_all add: c_string_def n)
qed

theorem remote_args_decimal_witness: "remote_args ''sweep 500'' = (500, 0xFFFFFFFF, True) \<and> remote_args ''500 64'' = (500, 64, False)"
  using remote_args_decimal[of "''500''" "''64''"] by (simp add: is_digit_def or_default_def)

lemma demo_cli_node_ok: "pool_ok demo_cli_node" "bufs_ok demo_cli_node" "\<exists>x. nos_buffer_alloc 40 0 demo_cli_node = (Some (0, 1), x)"
  "\<not> is_reply_msg (decode_msg (chunk (get_buf demo_cli_node (0, 1))) 0)" "local_route demo_cli_node 113 0" "queue_items (get_thread demo_cli_node 0) = []"
proof -
  have g: "g_bins demo_cli_node = g_bins (demo_comps (g_bins (stale_pool plain_msg)))" by simp
  show "pool_ok demo_cli_node" "bufs_ok demo_cli_node" using stale_ok(1,3) pool_ok_cong[OF g] bins_cong[OF g] by (simp_all add: bufs_ok_def)
  have "fst (nos_buffer_alloc 40 0 (stale_pool plain_msg)) = Some (0, 1)" by code_simp
  then have "fst (nos_buffer_alloc 40 0 demo_cli_node) = Some (0, 1)" using alloc_fst_bins[of demo_cli_node "stale_pool plain_msg"] by simp
  then show "\<exists>x. nos_buffer_alloc 40 0 demo_cli_node = (Some (0, 1), x)" by (metis prod.collapse)
  have "get_buf demo_cli_node (0, 1) = get_buf (stale_pool plain_msg) (0, 1)" by (simp add: get_buf_def)
  moreover have "\<not> is_reply_msg (decode_msg (chunk (get_buf (stale_pool plain_msg) (0, 1))) 0)" by code_simp
  ultimately show "\<not> is_reply_msg (decode_msg (chunk (get_buf demo_cli_node (0, 1))) 0)" by simp
  have q: "queue_ok (get_thread demo_cli_node 0)" "queue_items (get_thread demo_cli_node 0) = []"
    by (simp_all add: demo_cli_node_def queue_ok_def ring_ok_def queue_items_def null_thread_def MAX_QUEUE_SIZE_def)
  then show "local_route demo_cli_node 113 0" "queue_items (get_thread demo_cli_node 0) = []"
    by (simp_all add: local_route_def) (simp add: demo_cli_node_def find_service_entry_def find_idx_def get_entry_def null_entry_def)
qed

theorem perf_remote_correct_witness:
  "\<exists>s'. do_perf_remote_start demo_env (Some 12) (demo_cli (''perf remote 500 64'' @ [NUL])) = Some s' \<and> queue_items (get_thread (cl_node s') 0) = [Some (0, 1)]
    \<and> get_payload_u32 (cl_node s') (0, 1) 0 = 500 \<and> get_payload_u32 (cl_node s') (0, 1) 1 = 64"
proof -
  have c: "c_string (cl_buf (demo_cli (''perf remote 500 64'' @ [NUL]))) 12 = Some ''500 64''" by (simp add: c_string_def)
  have r: "remote_args ''500 64'' = (500, 64, False)" by (simp add: remote_args_def c_starts_def scan_u_def signed_digits_def is_digit_def is_space_def or_default_def Let_def)
  let ?s = "demo_cli (''perf remote 500 64'' @ [NUL])"
  have n: "cl_node ?s = demo_cli_node" by (rule demo_cli_simps)
  obtain x where x: "nos_buffer_alloc 40 0 (cl_node ?s) = (Some (0, 1), x)" unfolding n using demo_cli_node_ok(3) by blast
  have "\<exists>s'. do_perf_remote_start demo_env (Some 12) ?s = Some s' \<and> queue_items (get_thread (cl_node s') 0) = queue_items (get_thread (cl_node ?s) 0) @ [Some (0, 1)]
      \<and> ref_cnt (get_buf (cl_node s') (0, 1)) = 1 \<and> msg_code (msg_header (cl_node s') (0, 1)) = 3001 \<and> payload_len (msg_header (cl_node s') (0, 1)) = 8
      \<and> get_payload_u32 (cl_node s') (0, 1) 0 = 500 \<and> get_payload_u32 (cl_node s') (0, 1) 1 = 64 \<and> cl_out s' = cl_out ?s @ [RemoteNote 500 False (if False then 32 else 64)]"
    by (rule perf_remote_correct[OF c r _ _ x]) (unfold n, (rule demo_cli_node_ok)+)
  then show ?thesis unfolding n demo_cli_node_ok(6) append_Nil by blast
qed

end
