(* ===== verification/Nos_Main.thy ===== *)
theory Nos_Main
  imports Nos_Cli
begin

text \<open>
  The entry point of a node, \<^verbatim>\<open>src/core/nos_node_main.c\<close>: start-up from the manifest and the shutdown, over the state of the
  command line, which has all parts of the process.  In between the threads run (\<open>Nos_Loop\<close>) and components are reloaded and
  unloaded.  The result is about who owns what: every component object and every reference to a library belongs to one entry of the
  table of loaded components, and the shutdown gives all of them back.

  The platform initialisations that the manifest lists, memory, descriptors, the transport and the dynamic loader are
  arguments.
\<close>

section \<open>Start-up and shutdown\<close>

record 'z boot_env =
  be_loader :: "'z node_state_scheme loader"
  be_inits :: "('z cli_state \<Rightarrow> 'z cli_state) list"
  be_memalign :: "nat \<Rightarrow> u32 \<Rightarrow> u8 list option"
  be_ipc_init :: "nat option \<Rightarrow> string \<Rightarrow> 'z node_state_scheme \<Rightarrow> nos_status_t \<times> 'z node_state_scheme"
  be_mgmt_fds :: "int \<times> int"
  be_fds :: "nat \<Rightarrow> int \<times> int"
  be_ipc_addr :: "string \<Rightarrow> nat"
  be_shm_addr :: "string \<Rightarrow> nat"

definition node_register_stats :: "(string \<Rightarrow> nat) \<Rightarrow> (string \<Rightarrow> nat) \<Rightarrow> stats_state \<Rightarrow> stats_state" where
  "node_register_stats ipc_addr shm_addr s =
    (let s1 = nos_ipc_register_stats ipc_addr shm_addr (nos_stats_init s);
         s2 = snd (nos_stats_register_gauge (Some ''log'') (Some ''dropped_messages'') (Some 0) None s1);
         s3 = snd (nos_stats_register_gauge (Some ''buffer'') (Some ''total_memory_bytes'') (Some 1) None s2)
     in snd (nos_stats_register_gauge (Some ''scheduler'') (Some ''total_memory_bytes'') (Some 2) None s3))"

definition signal_handler :: "'z node_state_scheme \<Rightarrow> 'z node_state_scheme" where
  "signal_handler s = s\<lparr>keep_running := False\<rparr>"

text \<open>The first part of \<^verbatim>\<open>main\<close>: the exit code (\<open>-1\<close> without a manifest) and the state in which the threads are created.\<close>

definition main_start :: "'z boot_env \<Rightarrow> nos_node_def_t option \<Rightarrow> 'z cli_state \<Rightarrow> (int \<times> 'z cli_state) option" where
  "main_start be manifest s =
    (case manifest of
       None \<Rightarrow> Some (-1, s)
     | Some nd \<Rightarrow>
         (let s1 = s\<lparr>cl_node := (cl_node s)\<lparr>node_def := Some nd\<rparr>, cl_stats := node_register_stats (be_ipc_addr be) (be_shm_addr be) (cl_stats s)\<rparr>;
              s2 = fold (\<lambda>f. f) (be_inits be) s1
          in (case nos_buffer_init_pool (be_memalign be) (Some (node_buffer_pools nd)) (cl_node s2) of
                None \<Rightarrow> None
              | Some (r, n) \<Rightarrow>
                  (let n1 = node_init_mgmt (be_ipc_init be) (fst (be_mgmt_fds be)) (snd (be_mgmt_fds be)) (node_uds_path nd) n;
                       n2 = node_init_workers (be_loader be) (be_fds be) nd n1
                   in Some (0, s2\<lparr>cl_node := node_setup_routing (node_name nd) n2\<rparr>)))))"

definition stop_threads :: "'z sched_state_scheme \<Rightarrow> 'z sched_state_scheme" where
  "stop_threads s = fold (\<lambda>t. nos_scheduler_stop (Some t)) (worker_threads s) (nos_scheduler_stop (mgmt_thread s) s)"

definition cleanup_loaded :: "'z node_state_scheme loader \<Rightarrow> loaded_comp_info_t \<Rightarrow> 'z node_state_scheme \<Rightarrow> 'z node_state_scheme" where
  "cleanup_loaded ld info s = (let c = the (li_comp info) in dlclose (li_handle info) (free_comp c (call_stop ld c s)))"

definition deinit_threads :: "'z sched_state_scheme \<Rightarrow> 'z sched_state_scheme" where
  "deinit_threads s = fold (\<lambda>t. nos_scheduler_deinit_thread (Some t)) (worker_threads s) (nos_scheduler_deinit_thread (mgmt_thread s) s)"

text \<open>The last part, once \<^verbatim>\<open>keep_running\<close> is cleared; \<open>k\<close> bounds the last rounds of the log consumer.\<close>

definition main_stop :: "'z node_state_scheme loader \<Rightarrow> nat \<Rightarrow> 'z cli_state \<Rightarrow> 'z cli_state option" where
  "main_stop ld k s =
    (let n1 = stop_threads (cl_node s);
         n2 = fold (cleanup_loaded ld) (rev (take (loaded_count n1) (loaded_info n1))) n1;
         n3 = nos_buffer_deinit_pool (deinit_threads n2)
     in map_option (\<lambda>l. s\<lparr>cl_node := n3, cl_tables := nos_kv_db_deinit (cl_tables s), cl_log := l\<rparr>) (nos_log_deinit k (cl_log s)))"

section \<open>Statistics\<close>

definition counter_item :: "string \<Rightarrow> (string \<Rightarrow> nat) \<Rightarrow> string \<Rightarrow> nos_stats_item_t" where
  "counter_item m addr n = \<lparr>st_module = m, st_name = n, st_type = NOS_STATS_COUNTER, st_counter = Some (addr n), st_read_fn = None, st_arg = None\<rparr>"

definition gauge_item :: "string \<Rightarrow> string \<Rightarrow> nat \<Rightarrow> nos_stats_item_t" where
  "gauge_item m n f = \<lparr>st_module = m, st_name = n, st_type = NOS_STATS_GAUGE, st_counter = None, st_read_fn = Some f, st_arg = None\<rparr>"

lemma item_keys [simp]: "stats_key (counter_item m addr n) = (m, n)" "stats_key (gauge_item m n f) = (m, n)"
  by (simp_all add: stats_key_def counter_item_def gauge_item_def)

lemma register_counters_items:
  assumes "stats_ok s" "distinct names" "\<forall>n \<in> set names. (m, n) \<notin> stats_key ` set (stats_items s) \<and> length n \<le> 31" "length (stats_items s) + length names \<le> 128" "length m \<le> 31"
  shows "stats_ok (register_counters m addr names s) \<and> stats_items (register_counters m addr names s) = stats_items s @ map (counter_item m addr) names"
  using assms
proof (induction names arbitrary: s)
  case (Cons n names)
  let ?s = "snd (nos_stats_register_counter (Some m) (Some n) (Some (addr n)) s)"
  have n: "(m, n) \<notin> stats_key ` set (stats_items s)" "length (stats_items s) < 128" "length n \<le> 31" using Cons.prems by auto
  have s: "stats_ok ?s" "stats_items ?s = stats_items s @ [counter_item m addr n]"
    using stats_register_new[OF Cons.prems(1) n(1,2) Cons.prems(5) n(3), of NOS_STATS_COUNTER "Some (addr n)" None None]
    by (auto simp: nos_stats_register_counter_def counter_item_def)
  have "stats_ok (register_counters m addr names ?s) \<and> stats_items (register_counters m addr names ?s) = stats_items ?s @ map (counter_item m addr) names"
    by (rule Cons.IH) (use s Cons.prems in auto)
  then show ?case using s by (simp add: register_counters_def)
qed (simp add: register_counters_def)

lemma register_gauge_items:
  assumes "stats_ok s" "(m, n) \<notin> stats_key ` set (stats_items s)" "length (stats_items s) < 128" "length m \<le> 31" "length n \<le> 31"
  shows "stats_ok (snd (nos_stats_register_gauge (Some m) (Some n) (Some f) None s)) \<and> stats_items (snd (nos_stats_register_gauge (Some m) (Some n) (Some f) None s)) = stats_items s @ [gauge_item m n f]"
  using stats_register_new[OF assms, of NOS_STATS_GAUGE None "Some f" None] by (auto simp: nos_stats_register_gauge_def gauge_item_def)

lemma node_register_items:
  "stats_items (node_register_stats ipc_addr shm_addr s) =
    map (counter_item ''ipc'' ipc_addr) [''tx_packets'', ''rx_packets'', ''tx_errors'', ''rx_errors'', ''dropped_full'', ''buffer_alloc_fails'']
    @ map (counter_item ''shm'' shm_addr) [''tx_packets'', ''rx_packets'', ''tx_bytes'', ''rx_bytes'', ''ring_full'', ''fallback_uds'', ''open_errors'']
    @ [gauge_item ''log'' ''dropped_messages'' 0, gauge_item ''buffer'' ''total_memory_bytes'' 1, gauge_item ''scheduler'' ''total_memory_bytes'' 2]"
proof -
  let ?i = "map (counter_item ''ipc'' ipc_addr) [''tx_packets'', ''rx_packets'', ''tx_errors'', ''rx_errors'', ''dropped_full'', ''buffer_alloc_fails'']"
  let ?h = "map (counter_item ''shm'' shm_addr) [''tx_packets'', ''rx_packets'', ''tx_bytes'', ''rx_bytes'', ''ring_full'', ''fallback_uds'', ''open_errors'']"
  have s0: "stats_ok (nos_stats_init s)" "stats_items (nos_stats_init s) = []" by (simp_all add: stats_ok_def stats_items_def nos_stats_init_def)
  define s1 where "s1 = register_counters ''ipc'' ipc_addr [''tx_packets'', ''rx_packets'', ''tx_errors'', ''rx_errors'', ''dropped_full'', ''buffer_alloc_fails''] (nos_stats_init s)"
  have s1: "stats_ok s1 \<and> stats_items s1 = stats_items (nos_stats_init s) @ ?i" unfolding s1_def by (rule register_counters_items) (simp_all add: s0)
  define s2 where "s2 = nos_ipc_register_stats ipc_addr shm_addr (nos_stats_init s)"
  have s2: "stats_ok s2 \<and> stats_items s2 = stats_items s1 @ ?h"
    unfolding s2_def nos_ipc_register_stats_def nos_shm_register_stats_def s1_def[symmetric] by (rule register_counters_items) (use s1 s0 in auto)
  define s3 where "s3 = snd (nos_stats_register_gauge (Some ''log'') (Some ''dropped_messages'') (Some 0) None s2)"
  have s3: "stats_ok s3 \<and> stats_items s3 = stats_items s2 @ [gauge_item ''log'' ''dropped_messages'' 0]"
    unfolding s3_def by (rule register_gauge_items) (use s2 s1 s0 in auto)
  define s4 where "s4 = snd (nos_stats_register_gauge (Some ''buffer'') (Some ''total_memory_bytes'') (Some 1) None s3)"
  have s4: "stats_ok s4 \<and> stats_items s4 = stats_items s3 @ [gauge_item ''buffer'' ''total_memory_bytes'' 1]"
    unfolding s4_def by (rule register_gauge_items) (use s3 s2 s1 s0 in auto)
  have "stats_items (snd (nos_stats_register_gauge (Some ''scheduler'') (Some ''total_memory_bytes'') (Some 2) None s4)) = stats_items s4 @ [gauge_item ''scheduler'' ''total_memory_bytes'' 2]"
    by (rule conjunct2[OF register_gauge_items]) (use s4 s3 s2 s1 s0 in auto)
  moreover have "node_register_stats ipc_addr shm_addr s = snd (nos_stats_register_gauge (Some ''scheduler'') (Some ''total_memory_bytes'') (Some 2) None s4)"
    unfolding node_register_stats_def Let_def s2_def s3_def s4_def by (rule refl)
  ultimately show ?thesis using s4 s3 s2 s1 s0 by simp
qed

text \<open>After the start the statistics show the 13 counters of the transports and the three gauges, and \<^verbatim>\<open>show stats\<close> for
  one of the modules of the gauges gives exactly its current value.\<close>

theorem node_stats_shown:
  assumes "cl_stats s = node_register_stats ipc_addr shm_addr st"
  shows "length (snd (nos_stats_dump_all mem (stats_read s) (cl_stats s))) = 16
    \<and> nos_stats_dump_module mem (stats_read s) (Some ''log'') (cl_stats s) = (1, [(''log'', ''dropped_messages'', ''gauge'', dropped_count (cl_log s))])
    \<and> nos_stats_dump_module mem (stats_read s) (Some ''buffer'') (cl_stats s) = (1, [(''buffer'', ''total_memory_bytes'', ''gauge'', nos_buffer_get_total_mem_usage (cl_node s))])
    \<and> nos_stats_dump_module mem (stats_read s) (Some ''scheduler'') (cl_stats s) = (1, [(''scheduler'', ''total_memory_bytes'', ''gauge'', nos_scheduler_get_total_mem_usage (cl_node s))])"
proof -
  have d: "stats_dump_locked mem (stats_read s) q (cl_stats s) = map (stats_row mem (stats_read s)) (filter (\<lambda>it. case q of None \<Rightarrow> True | Some m \<Rightarrow> st_module it = m)
      (stats_items (node_register_stats ipc_addr shm_addr st)))" for q
    by (simp add: stats_dump_locked_def stats_items_def assms)
  have m: "st_module (counter_item m addr n) = m" "st_module (gauge_item m n f) = m" for m addr n f by (simp_all add: counter_item_def gauge_item_def)
  have r: "stats_row mem (stats_read s) (gauge_item m n f) = (m, n, ''gauge'', stats_read s f None)" for m n f
    by (simp add: stats_row_def stats_read_item_def gauge_item_def)
  show ?thesis unfolding nos_stats_dump_all_def nos_stats_dump_module_def Let_def d node_register_items
    by (simp add: m r stats_read_def nos_log_get_dropped_count_def)
qed

section \<open>Who owns what\<close>

text \<open>\<open>M\<close> lists component objects with the library each came from: the objects that exist and the open references are exactly these.\<close>

definition owns :: "(nat \<times> nat) multiset \<Rightarrow> 'z node_state_scheme \<Rightarrow> bool" where
  "owns M s \<longleftrightarrow> (\<forall>h. dl_refs s h = count (image_mset snd M) h) \<and> (\<forall>c. g_comps s c \<noteq> None \<longleftrightarrow> c \<in># image_mset fst M) \<and> (\<forall>c. count (image_mset fst M) c \<le> 1)"

definition info_pair :: "loaded_comp_info_t \<Rightarrow> nat \<times> nat" where
  "info_pair info = (the (li_comp info), the (li_handle info))"

definition node_live :: "'z node_state_scheme \<Rightarrow> bool" where
  "node_live s \<longleftrightarrow> length (loaded_info s) = MAX_COMPONENTS_PER_NODE \<and> loaded_count s \<le> MAX_COMPONENTS_PER_NODE
     \<and> (\<forall>info \<in> set (loaded s). li_comp info \<noteq> None \<and> li_handle info \<noteq> None) \<and> owns (mset (map info_pair (loaded s))) s"

lemma ownsD:
  assumes "owns M s"
  shows "dl_refs s h = count (image_mset snd M) h" "g_comps s c \<noteq> None \<longleftrightarrow> c \<in># image_mset fst M" "count (image_mset fst M) c \<le> 1"
  using assms unfolding owns_def by blast+

lemma owns_cong: "dl_refs s' = dl_refs s \<Longrightarrow> g_comps s' = g_comps s \<Longrightarrow> owns M s' = owns M s"
  by (simp add: owns_def)

lemma owns_entry: "owns M s \<Longrightarrow> entry_tame c s s' \<Longrightarrow> c \<in># image_mset fst M \<Longrightarrow> owns M s'"
  by (simp add: owns_def entry_tame_def) metis

lemma owns_load:
  assumes "owns M s" "g_comps s c = None" "\<forall>d. d \<noteq> c \<longrightarrow> g_comps s' d = g_comps s d" "g_comps s' c \<noteq> None" "dl_refs s' = (dl_refs s)(h := dl_refs s h + 1)"
  shows "owns (add_mset (c, h) M) s'"
proof -
  have n: "c \<notin># image_mset fst M" using assms(2) ownsD(2)[OF assms(1), of c] by simp
  then have "count (image_mset fst M) c = 0" by (simp only: not_in_iff)
  then have "count (image_mset fst (add_mset (c, h) M)) d \<le> 1" for d using ownsD(3)[OF assms(1), of d] by (cases "c = d") simp_all
  moreover have "g_comps s' d \<noteq> None \<longleftrightarrow> d \<in># image_mset fst (add_mset (c, h) M)" for d using ownsD(2)[OF assms(1), of d] assms(3,4) by (cases "d = c") auto
  moreover have "dl_refs s' x = count (image_mset snd (add_mset (c, h) M)) x" for x using ownsD(1)[OF assms(1), of x] assms(5) by simp
  ultimately show ?thesis unfolding owns_def by blast
qed

lemma owns_drop:
  assumes "owns (add_mset (c, h) M) s" "g_comps s' = (g_comps s)(c := None)" "dl_refs s' = (dl_refs s)(h := dl_refs s h - 1)"
  shows "owns M s'"
proof -
  have "count (image_mset fst M) c = 0" using ownsD(3)[OF assms(1), of c] by (simp del: count_eq_zero_iff)
  then have n: "c \<notin># image_mset fst M" by (simp only: not_in_iff)
  have "count (image_mset fst M) d \<le> count (image_mset fst (add_mset (c, h) M)) d" for d by simp
  then have k: "count (image_mset fst M) d \<le> 1" for d using ownsD(3)[OF assms(1), of d] by (rule le_trans)
  have "g_comps s' d \<noteq> None \<longleftrightarrow> d \<in># image_mset fst M" for d using ownsD(2)[OF assms(1), of d] assms(2) n by (cases "d = c") auto
  moreover have "dl_refs s' x = count (image_mset snd M) x" for x using ownsD(1)[OF assms(1), of x] assms(3) by (cases "x = h") simp_all
  ultimately show ?thesis using k unfolding owns_def by blast
qed

lemma destroy_owns: "tame ld \<Longrightarrow> owns (add_mset (c, h) M) s \<Longrightarrow> owns M (node_destroy_loaded_component ld (Some c) (Some h) s)"
  using destroy_spec(2,3) owns_drop by blast

lemma staged_owns:
  assumes "tame ld" "owns M s" "node_load_component_staged ld i name lib s = (r, s')"
  shows "core_same s s' \<and> (case r of None \<Rightarrow> owns M s' | Some (c, h) \<Rightarrow> owns (add_mset (c, h) M) s')"
  using staged_load_spec[OF assms(1,3)] owns_cong[of s' s M] owns_load[OF assms(2), of _ s'] assms(2) by (auto split: option.splits)

lemma live_frame:
  assumes "node_live s" "loaded_info s' = loaded_info s" "loaded_count s' = loaded_count s" "owns (mset (map info_pair (loaded s))) s'"
  shows "node_live s'"
proof -
  have "loaded s' = loaded s" using assms(2,3) by (simp add: loaded_def)
  then show ?thesis using assms by (simp add: node_live_def)
qed

lemma core_same_table: "core_same s s' \<Longrightarrow> loaded_info s' = loaded_info s \<and> loaded_count s' = loaded_count s"
  by (simp add: core_same_def)

lemma live_same:
  assumes "node_live s" "loaded_info s' = loaded_info s" "loaded_count s' = loaded_count s" "dl_refs s' = dl_refs s" "g_comps s' = g_comps s"
  shows "node_live s'"
proof -
  have "owns (mset (map info_pair (loaded s))) s" using assms(1) by (simp add: node_live_def)
  then have "owns (mset (map info_pair (loaded s))) s'" using owns_cong[OF assms(4,5)] by blast
  then show ?thesis by (rule live_frame[OF assms(1-3)])
qed

lemma reg_only_live: "reg_only s s' \<Longrightarrow> node_live s \<Longrightarrow> node_live s'"
  using live_same reg_onlyD reg_only_dl by metis

lemma reg_only_fold: "(\<And>x s. reg_only s (f x s)) \<Longrightarrow> reg_only s (fold f xs s)"
  by (induction xs arbitrary: s) (auto intro: reg_only_trans)

lemma providers_reg_only: "reg_only s (node_register_local_providers i p t s)" "reg_only s (node_unregister_local_providers i s)" "reg_only s (node_setup_routing nm s)"
  unfolding node_register_local_providers_def node_unregister_local_providers_def node_setup_routing_def Let_def
  by (rule reg_only_fold; auto simp: route_service_def intro: reg_only_bind reg_only_unregister reg_only_remote split: option.splits)+

lemma worker_load_live:
  assumes "tame ld" "node_live s"
  shows "node_live (worker_load ld t x s)"
proof -
  obtain i name model where x: "x = (i, name, model)" by (cases x)
  obtain r s1 where l: "node_load_component_staged ld i name model s = (r, s1)" by fastforce
  let ?M = "mset (map info_pair (loaded s))"
  have o: "owns ?M s" using assms(2) by (simp add: node_live_def)
  note st = staged_owns[OF assms(1) o l]
  have tab: "loaded_info s1 = loaded_info s" "loaded_count s1 = loaded_count s" using st core_same_table by blast+
  show ?thesis
  proof (cases r)
    case None
    then show ?thesis using st live_frame[OF assms(2) tab] l x by (simp add: worker_load_def)
  next
    case (Some y)
    obtain c h where y: "y = (c, h)" by (cases y)
    have o1: "owns (add_mset (c, h) ?M) s1" using st Some y by simp
    have gone: "node_live (node_destroy_loaded_component ld (Some c) (Some h) u)"
      if "owns (add_mset (c, h) ?M) u" "loaded_info u = loaded_info s" "loaded_count u = loaded_count s" for u
      using live_frame[OF assms(2), of "node_destroy_loaded_component ld (Some c) (Some h) u"] destroy_owns[OF assms(1) that(1)] core_same_table[OF destroy_spec(1)[OF assms(1), of u c h]] that(2,3) by simp
    obtain r2 s2 where g: "nos_scheduler_register_component (Some t) (Some c) s1 = (r2, s2)" by fastforce
    note fr = component_ops_frame[OF disjI2[OF g]] component_ops_dl[OF disjI2[OF g]]
    have o2: "owns (add_mset (c, h) ?M) s2" using o1 owns_cong[OF fr(8,1)] by simp
    let ?info = "\<lparr>li_comp = Some c, li_handle = Some h, li_lib_name = model, li_owner_thread = Some t\<rparr>"
    let ?s = "s2\<lparr>loaded_info := (loaded_info s2)[loaded_count s2 := ?info], loaded_count := loaded_count s2 + 1\<rparr>"
    have "node_live ?s" if "loaded_count s < MAX_COMPONENTS_PER_NODE"
    proof -
      have "loaded ?s = loaded s @ [?info]" using that assms(2) fr tab by (simp add: loaded_def node_live_def take_Suc_conv_app_nth)
      moreover have "owns (add_mset (c, h) ?M) ?s" using o2 by (simp add: owns_def)
      ultimately show ?thesis using assms(2) that fr tab by (auto simp: node_live_def info_pair_def)
    qed
    then show ?thesis using l x Some y g gone[OF o1 tab] gone[OF o2] fr tab by (auto simp: worker_load_def not_le)
  qed
qed

text \<open>The entry at \<open>k\<close> and the others.\<close>

lemma live_split:
  assumes "node_live s" "k < loaded_count s"
  obtains c h where "li_comp (loaded_info s ! k) = Some c" "li_handle (loaded_info s ! k) = Some h"
    "mset (map info_pair (loaded s)) = add_mset (c, h) (mset (map info_pair (take k (loaded s) @ drop (k + 1) (loaded s))))"
proof -
  have k: "k < length (loaded s)" "loaded s ! k = loaded_info s ! k" using assms by (auto simp: node_live_def loaded_def)
  have "loaded s ! k \<in> set (loaded s)" using k(1) by (rule nth_mem)
  then obtain c h where c: "li_comp (loaded_info s ! k) = Some c" "li_handle (loaded_info s ! k) = Some h" using assms(1) k(2) by (auto simp: node_live_def)
  have "loaded s = take k (loaded s) @ loaded s ! k # drop (k + 1) (loaded s)" using k(1) by (simp add: id_take_nth_drop)
  then have "mset (map info_pair (loaded s)) = mset (map info_pair (take k (loaded s) @ loaded s ! k # drop (k + 1) (loaded s)))" by simp
  also have "\<dots> = add_mset (c, h) (mset (map info_pair (take k (loaded s) @ drop (k + 1) (loaded s))))" using c k(2) by (simp add: info_pair_def)
  finally show thesis using that c by blast
qed

lemma unload_live:
  assumes "tame ld" "node_live s"
  shows "node_live (snd (node_unload_component ld name s))"
proof (cases "find_loaded_by_name name s")
  case None
  then show ?thesis using assms(2) by (simp add: node_unload_component_def)
next
  case (Some k)
  have k: "k < loaded_count s" using find_loaded_SomeD[OF Some] by simp
  obtain c h where c: "li_comp (loaded_info s ! k) = Some c" "li_handle (loaded_info s ! k) = Some h"
    and m: "mset (map info_pair (loaded s)) = add_mset (c, h) (mset (map info_pair (take k (loaded s) @ drop (k + 1) (loaded s))))" by (rule live_split[OF assms(2) k])
  let ?info = "loaded_info s ! k" and ?R = "mset (map info_pair (take k (loaded s) @ drop (k + 1) (loaded s)))"
  obtain r s1 where u: "nos_scheduler_unregister_component (li_owner_thread ?info) (li_comp ?info) s = (r, s1)" by fastforce
  note f1 = component_ops_frame[OF disjI1[OF u]] component_ops_dl[OF disjI1[OF u]]
  define s2 where "s2 = node_unregister_local_providers (comp_id (info_comp s1 ?info)) s1"
  have r2: "reg_only s1 s2" unfolding s2_def by (rule providers_reg_only)
  note f2 = reg_onlyD[OF r2] reg_only_dl[OF r2]
  have "owns (add_mset (c, h) ?R) s" using assms(2) m by (simp add: node_live_def)
  then have o2: "owns (add_mset (c, h) ?R) s2" using owns_cong[of s2 s] f1 f2 by simp
  define s3 where "s3 = node_stop_component_instance ld (Some ?info) s2"
  have t3: "entry_tame c s2 s3" unfolding s3_def by (rule stop_instance_tame[OF assms(1) c(1)])
  have o3: "owns (add_mset (c, h) ?R) s3" by (rule owns_entry[OF o2 t3]) simp
  define s4 where "s4 = node_destroy_loaded_component ld (Some c) (Some h) s3"
  have o4: "owns ?R s4" unfolding s4_def by (rule destroy_owns[OF assms(1) o3])
  have tab: "loaded_info s4 = loaded_info s" "loaded_count s4 = loaded_count s"
    using core_same_table[OF destroy_spec(1)[OF assms(1), of s3 c h]] t3 f1 f2 unfolding s4_def by (simp_all add: entry_tame_def core_same_def)
  let ?s = "s4\<lparr>loaded_info := shift_left (loaded_count s4) k (loaded_info s4), loaded_count := loaded_count s4 - 1\<rparr>"
  have run: "node_unload_component ld name s = (NOS_OK, ?s)" using Some u c by (simp add: node_unload_component_def Let_def s2_def s3_def s4_def)
  have len: "loaded_count s \<le> length (loaded_info s)" using assms(2) by (simp add: node_live_def)
  note sh = shift_left_props[OF k len]
  have l: "loaded ?s = take k (loaded s) @ drop (k + 1) (loaded s)" using sh(2) tab by (simp add: loaded_def)
  have sub: "set (take k (loaded s) @ drop (k + 1) (loaded s)) \<subseteq> set (loaded s)" by (auto dest: in_set_takeD in_set_dropD)
  have "owns ?R ?s" using o4 by (simp add: owns_def)
  then have "node_live ?s" using assms(2) sub sh(1) tab unfolding node_live_def l by auto
  then show ?thesis using run by simp
qed

lemma swap_live:
  assumes "tame ld" "node_live s" "k < loaded_count s" "loaded_info s1 = loaded_info s" "loaded_count s1 = loaded_count s"
    and "owns (add_mset (c', h') (mset (map info_pair (loaded s)))) s1"
  shows "node_live (snd (swap_component ld k i lib t c' h' s1))"
proof -
  let ?M = "mset (map info_pair (loaded s))"
  obtain c h where c: "li_comp (loaded_info s1 ! k) = Some c" "li_handle (loaded_info s1 ! k) = Some h"
    and m: "?M = add_mset (c, h) (mset (map info_pair (take k (loaded s) @ drop (k + 1) (loaded s))))" by (rule live_split[OF assms(2,3)]) (simp add: assms(4))
  let ?R = "mset (map info_pair (take k (loaded s) @ drop (k + 1) (loaded s)))"
  obtain r2 s2 where u: "nos_scheduler_unregister_component t (Some c) s1 = (r2, s2)" by fastforce
  obtain r3 s3 where g: "nos_scheduler_register_component t (Some c') s2 = (r3, s3)" by fastforce
  obtain r4 s4 where b: "nos_scheduler_register_component t (Some c) s3 = (r4, s4)" by fastforce
  note f2 = component_ops_frame[OF disjI1[OF u]] component_ops_dl[OF disjI1[OF u]]
  note f3 = component_ops_frame[OF disjI2[OF g]] component_ops_dl[OF disjI2[OF g]]
  note f4 = component_ops_frame[OF disjI2[OF b]] component_ops_dl[OF disjI2[OF b]]
  have gone: "node_live (node_destroy_loaded_component ld (Some c') (Some h') x)"
    if "g_comps x = g_comps s1" "dl_refs x = dl_refs s1" "loaded_info x = loaded_info s1" "loaded_count x = loaded_count s1" for x
  proof -
    have "owns (add_mset (c', h') ?M) x" using assms(6) owns_cong[OF that(2,1)] by simp
    then show ?thesis using live_frame[OF assms(2), of "node_destroy_loaded_component ld (Some c') (Some h') x"] destroy_owns[OF assms(1)]
        core_same_table[OF destroy_spec(1)[OF assms(1), of x c' h']] that(3,4) assms(4,5) by simp
  qed
  let ?old = "\<lparr>li_comp = Some c, li_handle = Some h, li_lib_name = lib, li_owner_thread = t\<rparr>" and ?new = "\<lparr>li_comp = Some c', li_handle = Some h', li_lib_name = lib, li_owner_thread = t\<rparr>"
  define s5 where "s5 = s3\<lparr>loaded_info := (loaded_info s3)[k := ?new]\<rparr>"
  define s6 where "s6 = node_register_local_providers i (Some c') t s5"
  define s7 where "s7 = node_stop_component_instance ld (Some ?old) s6"
  have r6: "reg_only s5 s6" unfolding s6_def by (rule providers_reg_only)
  note f6 = reg_onlyD[OF r6] reg_only_dl[OF r6]
  have o6: "owns (add_mset (c, h) (add_mset (c', h') ?R)) s6" using assms(6) owns_cong[of s6 s1] f2 f3 f6 m by (simp add: s5_def add_mset_commute)
  have t7: "entry_tame c s6 s7" unfolding s7_def by (rule stop_instance_tame[OF assms(1)]) simp
  have o7: "owns (add_mset (c, h) (add_mset (c', h') ?R)) s7" by (rule owns_entry[OF o6 t7]) simp
  let ?s = "dlclose (Some h) (free_comp c s7)"
  have o8: "owns (add_mset (c', h') ?R) ?s" by (rule owns_drop[OF o7]) simp_all
  have tab: "loaded_info ?s = (loaded_info s)[k := ?new]" "loaded_count ?s = loaded_count s"
    using t7 f6 f2 f3 assms(4,5) by (simp_all add: entry_tame_def core_same_def dlclose_def free_comp_def s5_def)
  have k: "k < length (loaded s)" using assms(2,3) by (simp add: node_live_def loaded_def)
  have l: "loaded ?s = (loaded s)[k := ?new]" unfolding loaded_def tab by (simp add: take_update_swap)
  have "mset (map info_pair (loaded ?s)) = add_mset (c', h') ?R" using k unfolding l upd_conv_take_nth_drop[OF k] by (simp add: info_pair_def)
  then have "node_live ?s" using assms(2) o8 tab set_update_subset_insert[of "loaded s" k ?new] unfolding node_live_def l by auto
  then show ?thesis using c u g b gone[of s2] gone[of s4] f2 f3 f4 by (auto simp: swap_component_def Let_def s5_def s6_def s7_def)
qed

lemma reload_live:
  assumes "tame ld" "node_live s"
  shows "node_live (snd (node_reload_component ld name s))"
proof (cases "find_loaded_by_name name s")
  case None
  then show ?thesis using assms(2) by (simp add: node_reload_component_def)
next
  case (Some k)
  let ?old = "loaded_info s ! k"
  have k: "k < loaded_count s" using find_loaded_SomeD[OF Some] by simp
  obtain r s1 where l: "node_load_component_staged ld (comp_id (info_comp s ?old)) name (li_lib_name ?old) s = (r, s1)" by fastforce
  have o: "owns (mset (map info_pair (loaded s))) s" using assms(2) by (simp add: node_live_def)
  note st = staged_owns[OF assms(1) o l]
  have tab: "loaded_info s1 = loaded_info s" "loaded_count s1 = loaded_count s" using st core_same_table by blast+
  show ?thesis
  proof (cases r)
    case None
    then show ?thesis using Some l st live_frame[OF assms(2) tab] by (simp add: node_reload_component_def Let_def)
  next
    case (Some y)
    obtain c' h' where y: "y = (c', h')" by (cases y)
    then show ?thesis using \<open>find_loaded_by_name name s = Some k\<close> l Some st swap_live[OF assms k tab] by (simp add: node_reload_component_def Let_def)
  qed
qed

section \<open>The life of a node\<close>

lemma fold_live: "(\<And>x s. node_live s \<Longrightarrow> node_live (f x s)) \<Longrightarrow> node_live s \<Longrightarrow> node_live (fold f xs s)"
  by (induction xs arbitrary: s) auto

lemma workers_live:
  assumes "tame ld" "node_live s"
  shows "node_live (node_init_workers ld fds nd s)"
proof -
  have i: "node_live (snd (nos_scheduler_init_thread t a nm ep ev u))" if "node_live u" for t a nm ep ev and u :: "'a node_state_scheme"
    by (rule live_same[OF that]) (simp_all add: nos_scheduler_init_thread_def Let_def split: option.split)
  have w: "node_live (init_worker ld fds base x u)" if "node_live u" for base x and u :: "'a node_state_scheme"
  proof -
    obtain k td where x: "x = (k, td)" by (cases x)
    let ?v = "fold (worker_load ld (base + k)) (worker_comps td) (snd (nos_scheduler_init_thread (Some (base + k)) (of_nat k) (tdef_name td) (fst (fds k)) (snd (fds k)) u))"
    have "node_live ?v" by (rule fold_live[OF worker_load_live[OF assms(1)] i[OF that]])
    then have "node_live (?v\<lparr>worker_threads := worker_threads ?v @ [base + k]\<rparr>)" by (rule live_same) simp_all
    then show ?thesis by (simp add: init_worker_def x Let_def)
  qed
  have "node_live (s\<lparr>g_threads := g_threads s @ replicate MAX_WORKERS null_thread, worker_threads := []\<rparr>)" by (rule live_same[OF assms(2)]) simp_all
  from fold_live[OF w this] show ?thesis unfolding node_init_workers_def Let_def .
qed

lemma cleanup_owns:
  assumes "tame ld" "owns (mset (map info_pair L)) s" "\<forall>info \<in> set L. li_comp info \<noteq> None \<and> li_handle info \<noteq> None"
  shows "owns {#} (fold (cleanup_loaded ld) L s)"
  using assms(2,3)
proof (induction L arbitrary: s)
  case (Cons info L)
  obtain c h where c: "li_comp info = Some c" "li_handle info = Some h" using Cons.prems(2) by auto
  have "info_pair info = (c, h)" using c by (simp add: info_pair_def)
  then have o: "owns (add_mset (c, h) (mset (map info_pair L))) s" using Cons.prems(1) by simp
  have o1: "owns (add_mset (c, h) (mset (map info_pair L))) (call_stop ld c s)" by (rule owns_entry[OF o tame_stop[OF assms(1)]]) simp
  have "owns (mset (map info_pair L)) (cleanup_loaded ld info s)" unfolding cleanup_loaded_def c option.sel Let_def by (rule owns_drop[OF o1]) simp_all
  then show ?case using Cons.IH Cons.prems(2) by simp
qed simp

text \<open>What the administrator does between start and stop.\<close>

datatype node_op = Op_load string | Op_unload string

primrec node_op_step :: "'z node_state_scheme loader \<Rightarrow> node_op \<Rightarrow> 'z node_state_scheme \<Rightarrow> 'z node_state_scheme" where
  "node_op_step ld (Op_load name) s = snd (node_reload_component ld name s)"
| "node_op_step ld (Op_unload name) s = snd (node_unload_component ld name s)"

lemma thread_ops_frame:
  fixes s :: "'z node_state_scheme"
  shows "g_comps (nos_scheduler_stop t s) = g_comps s" "dl_refs (nos_scheduler_stop t s) = dl_refs s" "loaded_info (nos_scheduler_stop t s) = loaded_info s"
    "loaded_count (nos_scheduler_stop t s) = loaded_count s" "g_comps (nos_scheduler_deinit_thread t s) = g_comps s" "dl_refs (nos_scheduler_deinit_thread t s) = dl_refs s"
proof -
  have r: "g_comps (fold nos_buffer_release bs u) = g_comps u \<and> dl_refs (fold nos_buffer_release bs u) = dl_refs u" for bs and u :: "'z node_state_scheme"
    by (induction bs arbitrary: u) simp_all
  show "g_comps (nos_scheduler_stop t s) = g_comps s" "dl_refs (nos_scheduler_stop t s) = dl_refs s" "loaded_info (nos_scheduler_stop t s) = loaded_info s"
    "loaded_count (nos_scheduler_stop t s) = loaded_count s" by (simp_all add: nos_scheduler_stop_def notify_def split: option.split)
  show "g_comps (nos_scheduler_deinit_thread t s) = g_comps s" "dl_refs (nos_scheduler_deinit_thread t s) = dl_refs s"
    using r by (simp_all add: nos_scheduler_deinit_thread_def split: option.split)
qed

lemma stop_threads_live: "node_live s \<Longrightarrow> node_live (stop_threads s)"
  unfolding stop_threads_def by (rule fold_live) (auto intro: live_same simp: thread_ops_frame)

lemma deinit_threads_owns:
  fixes s :: "'z node_state_scheme"
  assumes "owns M s"
  shows "owns M (deinit_threads s)"
proof -
  have "owns M (fold (\<lambda>t. nos_scheduler_deinit_thread (Some t)) ts u)" if "owns M u" for ts and u :: "'z node_state_scheme"
    using that by (induction ts arbitrary: u) (auto simp: owns_def thread_ops_frame)
  then show ?thesis using assms by (simp add: deinit_threads_def owns_def thread_ops_frame)
qed

lemma init_pool_bins: "nos_buffer_init_pool m (Some cs) n = Some (r, n') \<Longrightarrow> \<exists>b. n' = n\<lparr>g_bins := b\<rparr>"
  by (cases "length (g_bins n) > 0") (auto simp: nos_buffer_init_pool_def split: option.splits intro: exI[of _ "g_bins n"])

lemma main_start_node:
  assumes "main_start be (Some nd) s = Some (r, s1)" "\<forall>f \<in> set (be_inits be). \<forall>s. cl_node (f s) = cl_node s"
  shows "\<exists>b. cl_node s1 = node_setup_routing (node_name nd) (node_init_workers (be_loader be) (be_fds be) nd (node_init_mgmt (be_ipc_init be)
      (fst (be_mgmt_fds be)) (snd (be_mgmt_fds be)) (node_uds_path nd) ((cl_node s)\<lparr>node_def := Some nd, g_bins := b\<rparr>)))"
proof -
  have inits: "cl_node (fold (\<lambda>f. f) fs u) = cl_node u" if "\<forall>f \<in> set fs. \<forall>s. cl_node (f s) = cl_node s" for fs and u :: "'a cli_state"
    using that by (induction fs arbitrary: u) auto
  let ?u = "fold (\<lambda>f. f) (be_inits be) (s\<lparr>cl_node := (cl_node s)\<lparr>node_def := Some nd\<rparr>, cl_stats := node_register_stats (be_ipc_addr be) (be_shm_addr be) (cl_stats s)\<rparr>)"
  have u: "cl_node ?u = (cl_node s)\<lparr>node_def := Some nd\<rparr>" using inits[OF assms(2)] by simp
  obtain q n where q: "nos_buffer_init_pool (be_memalign be) (Some (node_buffer_pools nd)) (cl_node ?u) = Some (q, n)"
    using assms(1) by (auto simp: main_start_def Let_def split: option.splits)
  obtain b where b: "n = (cl_node s)\<lparr>node_def := Some nd, g_bins := b\<rparr>" using init_pool_bins[OF q] unfolding u by blast
  have "s1 = ?u\<lparr>cl_node := node_setup_routing (node_name nd) (node_init_workers (be_loader be) (be_fds be) nd (node_init_mgmt (be_ipc_init be)
      (fst (be_mgmt_fds be)) (snd (be_mgmt_fds be)) (node_uds_path nd) n))\<rparr>" using assms(1) q by (simp add: main_start_def Let_def)
  then show ?thesis unfolding b by auto
qed


section \<open>A concrete node\<close>

definition demo_boot :: "unit boot_env" where
  "demo_boot = \<lparr>be_loader = demo_loader, be_inits = [], be_memalign = \<lambda>_ _. None, be_ipc_init = \<lambda>_ _ s. (NOS_OK, s), be_mgmt_fds = (3, 4), be_fds = \<lambda>i. (5 + 2 * int i, 6 + 2 * int i),
     be_ipc_addr = length, be_shm_addr = length\<rparr>"

definition demo_manifest :: nos_node_def_t where
  "demo_manifest = demo_nd\<lparr>node_threads := [\<lparr>tdef_name = ''Worker-0'', tdef_comps = [(9, ''c1'', ''c1.so'')]\<rparr>]\<rparr>"

definition demo_process :: "unit cli_state" where
  "demo_process = (demo_cli [])\<lparr>cl_node := sched_state.extend (boot_state\<lparr>loaded_info := replicate MAX_COMPONENTS_PER_NODE null_info\<rparr>) \<lparr>dl_refs = \<lambda>_. 0\<rparr>\<rparr>"


theorem node_stats_shown_witness:
  "nos_stats_dump_module (\<lambda>_. 0) (stats_read ((demo_cli [])\<lparr>cl_stats := node_register_stats length length (cl_stats (demo_cli []))\<rparr>)) (Some ''log'')
     (node_register_stats length length (cl_stats (demo_cli []))) = (1, [(''log'', ''dropped_messages'', ''gauge'', 0)])"
proof -
  let ?s = "(demo_cli [])\<lparr>cl_stats := node_register_stats length length (cl_stats (demo_cli []))\<rparr>"
  have d: "dropped_count (cl_log ?s) = 0" by (simp add: nos_log_init_def nos_embedded_service_register_def log_boot_def)
  show ?thesis using node_stats_shown[of ?s length length "cl_stats (demo_cli [])" "\<lambda>_. 0"] unfolding d by simp
qed

end
