(* ===== verification/Nos_Link.thy ===== *)
theory Nos_Link
  imports Nos_Ipc "HOL-Library.Sublist"
begin

text \<open>
  Two nodes joined by a socket: what \<^verbatim>\<open>nos_ipc_process_tx\<close> of one node hands to the kernel is what
  \<^verbatim>\<open>nos_ipc_event_handler\<close> of the other one reads.  The socket is of the type \<^verbatim>\<open>SOCK_SEQPACKET\<close>: it keeps the borders and
  the order of packets and loses none while it is connected.
\<close>

declare split_paired_All [simp del] split_paired_Ex [simp del]

section \<open>Operations on one buffer\<close>

text \<open>What an operation on the buffer \<open>p\<close> leaves alone, and the number of free buffers of a bin.\<close>

definition only_buf :: "bufp \<Rightarrow> 'z buf_state_scheme \<Rightarrow> 'y buf_state_scheme \<Rightarrow> bool" where
  "only_buf p s s' \<longleftrightarrow> (\<forall>q. valid_buf s' q = valid_buf s q) \<and> (\<forall>q. q \<noteq> p \<longrightarrow> get_buf s' q = get_buf s q)
     \<and> length (g_bins s') = length (g_bins s) \<and> (\<forall>k. chunk_size (g_bins s' ! k) = chunk_size (g_bins s ! k))"

definition free_bufs :: "'z buf_state_scheme \<Rightarrow> nat \<Rightarrow> nat" where
  "free_bufs s k = length (bin_avail (g_bins s ! k))"

lemma only_buf_trans: "only_buf p s s1 \<Longrightarrow> only_buf p s1 s2 \<Longrightarrow> only_buf p s s2"
  by (simp add: only_buf_def)

lemma only_buf_bins: "g_bins s' = g_bins s \<Longrightarrow> only_buf p s s' \<and> free_bufs s' k = free_bufs s k"
  by (simp add: only_buf_def free_bufs_def bins_cong valid_buf_def get_buf_def)

lemma only_buf_alloc:
  assumes "nos_buffer_alloc sz 0 s = (Some p, s')" "pool_ok s" "bufs_ok s"
  shows "only_buf p s s'" "pool_ok s'" "bufs_ok s'" "free_bufs s k = free_bufs s' k + (if k = fst p then 1 else 0)"
proof -
  note f = alloc_frame[OF assms(1,2)]
  obtain i idx where a: "p = (i, idx)" "i < length (g_bins s)"
    "bin_avail (g_bins s ! i) = bin_avail ((g_bins s ! i)\<lparr>free_top := free_top (g_bins s ! i) - 1\<rparr>) @ [idx]"
    "s' = s\<lparr>g_bins := (g_bins s)[i := alloc_result idx sz 0 (g_bins s ! i)]\<rparr>"
    using nos_buffer_alloc_Some[OF assms(1,2)] by metis
  have shape: "length (g_bins s') = length (g_bins s)" "chunk_size (g_bins s' ! j) = chunk_size (g_bins s ! j)" for j
    using a(2,4) by (simp_all add: nth_list_update alloc_result_def count_alloc_def)
  then show "only_buf p s s'" using f(4,5) by (simp add: only_buf_def)
  show "pool_ok s'" by (rule pool_ok_alloc[OF assms(2,1)])
  have "length (chunk (get_buf s p)) = unat (capacity (get_buf s p))" using bufs_okD[OF assms(3) f(1)] by (simp add: buf_ok_def)
  then have "buf_ok (get_buf s' p)" using buf_ok_alloc_reset[of sz 0, OF _ f(6)] f(3) unsigned_less[of sz, where ?'a = nat] by simp
  then show "bufs_ok s'" using assms(3) f(4,5) unfolding bufs_ok_def by metis
  show "free_bufs s k = free_bufs s' k + (if k = fst p then 1 else 0)"
    using a by (simp add: free_bufs_def alloc_result_def count_alloc_def bin_avail_def nth_list_update)
qed

lemma only_buf_upd:
  assumes "valid_buf s p"
  shows "only_buf p s (upd_buf p f s)" "free_bufs (upd_buf p f s) k = free_bufs s k"
  using assms get_buf_upd_buf[OF assms]
  by (simp_all add: only_buf_def free_bufs_def upd_buf_def valid_buf_def bin_avail_def nth_list_update)

lemma bufs_ok_only:
  assumes "only_buf p s s'" "bufs_ok s" "valid_buf s p \<Longrightarrow> buf_ok (get_buf s' p)"
  shows "bufs_ok s'"
  using assms unfolding bufs_ok_def only_buf_def by metis

lemma only_buf_release:
  assumes "pool_ok s" "bufs_ok s" "valid_buf s p"
  shows "only_buf p s (nos_buffer_release (Some p) s)" "pool_ok (nos_buffer_release (Some p) s)" "bufs_ok (nos_buffer_release (Some p) s)"
    "free_bufs (nos_buffer_release (Some p) s) k = free_bufs s k + (if k = fst p \<and> ref_cnt (get_buf s p) = 1 then 1 else 0)"
proof -
  let ?s = "nos_buffer_release (Some p) s" and ?b = "g_bins s ! fst p"
  note f = release_frame[OF assms(1,3)]
  note r = release_bins[OF assms(1,3)]
  have i: "fst p < length (g_bins s)" "snd p < length (buffers ?b)" using assms(3) by (simp_all add: valid_buf_def)
  have c: "chunk_size (release_result j b) = chunk_size b" for j b by (simp add: release_result_def Let_def bin_push_def)
  have shape: "length (g_bins ?s) = length (g_bins s)" "chunk_size (g_bins ?s ! j) = chunk_size (g_bins s ! j)" for j
    using i(1) c by (simp_all add: r nth_list_update)
  then show o: "only_buf p s ?s" using f(1,3) by (simp add: only_buf_def)
  show "pool_ok ?s" using assms(1,3) by (rule pool_ok_release)
  have "buf_ok (get_buf s p)" by (rule bufs_okD[OF assms(2,3)])
  then have "buf_ok (get_buf ?s p)"
    using i by (auto simp: get_buf_def r release_result_def Let_def buf_ok_def release_reset_def bin_push_def)
  then show "bufs_ok ?s" by (rule bufs_ok_only[OF o assms(2)])
  have ok: "bin_ok (fst p) ?b" using assms(1) i(1) by (rule pool_bin_ok)
  have n: "snd p < unat (chunk_count ?b)" by (rule valid_buf_count[OF assms(1,3)])
  show "free_bufs ?s k = free_bufs s k + (if k = fst p \<and> ref_cnt (get_buf s p) = 1 then 1 else 0)"
  proof (cases "k = fst p")
    case True
    have "bin_avail (release_result (snd p) ?b) = (if ref_cnt (get_buf s p) = 1 then bin_avail (bin_push (snd p) ?b) else bin_avail ?b)"
      by (simp add: release_result_def Let_def get_buf_def bin_avail_def)
    moreover have "snd p \<notin> set (bin_avail ?b)" if "ref_cnt (get_buf s p) = 1" using that avail_iff_ref[OF assms(1,3)] by simp
    ultimately show ?thesis using True bin_push_spec[OF bin_ok_free[OF ok] n] i(1) by (simp add: free_bufs_def r)
  qed (simp add: free_bufs_def r)
qed

lemma buf_ok_same_geometry:
  "data b' = data b \<Longrightarrow> raw_data b' = raw_data b \<Longrightarrow> headroom b' = headroom b \<Longrightarrow> len b' = len b \<Longrightarrow> tailroom b' = tailroom b
    \<Longrightarrow> capacity b' = capacity b \<Longrightarrow> length (chunk b') = length (chunk b) \<Longrightarrow> buf_ok b' = buf_ok b"
  by (simp add: buf_ok_def)

section \<open>Where a message is delivered\<close>

text \<open>The thread in whose queue the router puts a message with this header, if it stays on the node.\<close>

definition local_dest :: "'z sched_state_scheme \<Rightarrow> nos_service_msg_t \<Rightarrow> nat option" where
  "local_dest s h =
    (if is_reply_msg h then (case find_loaded_component_info s (dst_component h) of None \<Rightarrow> None | Some i \<Rightarrow> li_owner_thread (loaded_info s ! i))
     else (case find_service_entry s (dst_service h) of
         None \<Rightarrow> None
       | Some i \<Rightarrow> if is_remote (get_entry s i) then None else local_thread (get_entry s i)))"

lemma local_dest_send:
  "local_dest s (msg_header s p) = Some t \<Longrightarrow> nos_service_msg_send ipc (Some p) s = nos_transport_local_send p (Some t) s"
  by (auto simp: local_dest_def nos_service_msg_send_def Let_def split: if_splits option.splits)

lemma local_dest_cong:
  assumes "same_routes s s'"
  shows "local_dest s' h = local_dest s h"
proof -
  have c: "get_comp s' = get_comp s" using assms by (auto simp: same_routes_def get_comp_def fun_eq_iff)
  have "find_loaded_component_info s' = find_loaded_component_info s" "find_service_entry s' = find_service_entry s" "get_entry s' = get_entry s"
    unfolding find_loaded_component_info_def[abs_def] find_service_entry_def[abs_def] get_entry_def[abs_def] c
    using assms by (simp_all add: same_routes_def)
  then show ?thesis using assms by (simp add: local_dest_def same_routes_def split: option.split)
qed

text \<open>What the reception of a data packet leaves alone besides buffers and queues: the routes, and of each connection what links it to its peer.\<close>

definition link_part :: "nos_ipc_conn_t \<Rightarrow> nos_ipc_conn_state_t \<times> int \<times> bufp option list \<times> nat \<times> nat \<times> nos_shm_channel_t option \<times> u32" where
  "link_part c = (c_state c, c_fd c, tx_queue c, tx_head c, tx_tail c, c_shm c, generation c)"

definition rx_same :: "'z ipc_state_scheme \<Rightarrow> 'z ipc_state_scheme \<Rightarrow> bool" where
  "rx_same s s' \<longleftrightarrow> same_routes s s' \<and> length (g_threads s') = length (g_threads s) \<and> length (g_remote_conns s') = length (g_remote_conns s)
     \<and> (\<forall>j. link_part (get_conn s' j) = link_part (get_conn s j)) \<and> sent_pkts s' = sent_pkts s"

lemma rx_same_refl [simp]: "rx_same s s"
  by (simp add: rx_same_def same_routes_def)

lemma rx_same_trans [trans]: "rx_same s s1 \<Longrightarrow> rx_same s1 s2 \<Longrightarrow> rx_same s s2"
  by (simp add: rx_same_def same_routes_def)

lemma rx_same_fields:
  assumes "g_comps s' = g_comps s" "g_service_registry s' = g_service_registry s" "g_service_count s' = g_service_count s" "loaded_info s' = loaded_info s"
    "loaded_count s' = loaded_count s" "length (g_threads s') = length (g_threads s)" "g_remote_conns s' = g_remote_conns s" "sent_pkts s' = sent_pkts s"
  shows "rx_same s s'"
  using assms by (simp add: rx_same_def same_routes_def get_conn_def)

lemma rx_same_conn: "(\<And>c. link_part (f c) = link_part c) \<Longrightarrow> rx_same s (upd_conn i f s)"
  by (cases "i < length (g_remote_conns s)") (auto simp: rx_same_def same_routes_def upd_conn_def get_conn_def nth_list_update list_update_beyond)

lemma rx_same_parts:
  "rx_same s (upd_stats g s)" "rx_same s (s\<lparr>sys_pos := n\<rparr>)" "rx_same s (upd_buf p h s)" "rx_same s (nos_buffer_release (Some p) s)" "rx_same s (sock_discard d s)"
  "rx_same s (s\<lparr>g_reply_ctxs := c\<rparr>)"
  by (rule rx_same_fields; simp add: upd_stats_def upd_buf_def upd_bin_def sock_discard_def nos_buffer_release_def nos_reply_ctx_release_def Let_def split: option.split)+

lemma rx_same_alloc: "nos_buffer_alloc sz hr s = (Some p, s1) \<Longrightarrow> pool_ok s \<Longrightarrow> rx_same s s1"
  using alloc_same[of sz hr s p s1] by (auto intro!: rx_same_fields)

lemma rx_same_errors: "rx_same s (stat_rx_error s)" "rx_same s (stat_alloc_fail s)" "rx_same s (count_rx_error conn s)"
  by (auto simp: stat_rx_error_def stat_alloc_fail_def count_rx_error_def link_part_def rx_same_parts intro!: rx_same_conn split: option.split)

text \<open>The receive buffers of the sockets.\<close>

lemma sock_rx_parts [simp]:
  "sock_rx (nos_buffer_release b s) = sock_rx s" "sock_rx (stat_alloc_fail s) = sock_rx s" "sock_rx (count_rx_error conn s) = sock_rx s"
  "g_threads (stat_alloc_fail s) = g_threads s" "g_threads (count_rx_error conn s) = g_threads s" "g_bins (stat_alloc_fail s) = g_bins s" "g_bins (count_rx_error conn s) = g_bins s"
  "g_threads (nos_buffer_release b s) = g_threads s"
  by (simp_all add: nos_buffer_release_def nos_reply_ctx_release_def upd_buf_def upd_bin_def stat_alloc_fail_def count_rx_error_def Let_def split: option.split)

section \<open>Delivery into the queue of a thread\<close>

definition rx_ok :: "'z sched_state_scheme \<Rightarrow> bool" where
  "rx_ok s \<longleftrightarrow> pool_ok s \<and> bufs_ok s \<and> (\<forall>t < length (g_threads s). queue_ok (get_thread s t))"

text \<open>A message arrived in the queue of thread \<open>t\<close>: in a buffer that was free before, holds its bytes and belongs to the queue alone.\<close>

definition arrived :: "nat \<Rightarrow> u8 list \<Rightarrow> bufp \<Rightarrow> 'z sched_state_scheme \<Rightarrow> 'z sched_state_scheme \<Rightarrow> bool" where
  "arrived t pkt q s s' \<longleftrightarrow> queue_items (get_thread s' t) = queue_items (get_thread s t) @ [Some q] \<and> (\<forall>u. u \<noteq> t \<longrightarrow> get_thread s' u = get_thread s u)
     \<and> ref_cnt (get_buf s q) \<le> 0 \<and> valid_buf s' q \<and> ref_cnt (get_buf s' q) = 1 \<and> msg_bytes s' q = pkt"

text \<open>Buffers that somebody holds are not touched.\<close>

definition kept :: "'z buf_state_scheme \<Rightarrow> 'z buf_state_scheme \<Rightarrow> bool" where
  "kept s s' \<longleftrightarrow> (\<forall>q. valid_buf s' q = valid_buf s q) \<and> (\<forall>q. valid_buf s q \<and> 0 < ref_cnt (get_buf s q) \<longrightarrow> get_buf s' q = get_buf s q)
     \<and> length (g_bins s') = length (g_bins s) \<and> (\<forall>k. chunk_size (g_bins s' ! k) = chunk_size (g_bins s ! k))"

lemma only_buf_kept: "only_buf p s s' \<Longrightarrow> ref_cnt (get_buf s p) \<le> 0 \<Longrightarrow> kept s s'"
  by (force simp: only_buf_def kept_def)

definition data_pkt :: "u8 list \<Rightarrow> bool" where
  "data_pkt pkt \<longleftrightarrow> (let h = decode_msg pkt 0 in
     magic h = NOS_IPC_MAGIC \<and> payload_len h \<le> NOS_IPC_MAX_PAYLOAD_LEN \<and> length pkt = full_len h \<and> \<not> ipc_is_ctrl_msg h)"

lemma data_pkt_length:
  assumes "data_pkt pkt"
  shows "sizeof_msg \<le> length pkt" "length pkt \<le> 4128" "unat (of_nat (length pkt) :: u32) = length pkt" "full_len (decode_msg pkt 0) = length pkt"
proof -
  have l: "length pkt = full_len (decode_msg pkt 0)" "payload_len (decode_msg pkt 0) \<le> NOS_IPC_MAX_PAYLOAD_LEN" using assms by (simp_all add: data_pkt_def Let_def)
  then show "sizeof_msg \<le> length pkt" "full_len (decode_msg pkt 0) = length pkt" by (simp_all add: full_len_def)
  have "unat (payload_len (decode_msg pkt 0)) \<le> 4096" using l(2) by (simp add: word_le_nat_alt NOS_IPC_MAX_PAYLOAD_LEN_def)
  then show n: "length pkt \<le> 4128" using l(1) by (simp add: full_len_def sizeof_msg_def)
  show "unat (of_nat (length pkt) :: u32) = length pkt" using n by (simp add: unat_of_nat)
qed

lemma local_send_cases:
  assumes "t < length (g_threads s)" "queue_ok (get_thread s t)" "valid_buf s p" "nos_transport_local_send p (Some t) s = (r, s')"
  shows "(length (queue_items (get_thread s t)) = 1023 \<and> s' = s)
    \<or> (length (queue_items (get_thread s t)) < 1023 \<and> queue_items (get_thread s' t) = queue_items (get_thread s t) @ [Some p] \<and> queue_ok (get_thread s' t)
       \<and> (\<forall>u. u \<noteq> t \<longrightarrow> get_thread s' u = get_thread s u) \<and> g_bins s' = g_bins (upd_buf p (\<lambda>b. b\<lparr>ref_cnt := ref_cnt b + 1\<rparr>) s))"
    "rx_same s s'" "sock_rx s' = sock_rx s" "g_reply_ctxs s' = g_reply_ctxs s"
proof -
  show "(length (queue_items (get_thread s t)) = 1023 \<and> s' = s)
    \<or> (length (queue_items (get_thread s t)) < 1023 \<and> queue_items (get_thread s' t) = queue_items (get_thread s t) @ [Some p] \<and> queue_ok (get_thread s' t)
       \<and> (\<forall>u. u \<noteq> t \<longrightarrow> get_thread s' u = get_thread s u) \<and> g_bins s' = g_bins (upd_buf p (\<lambda>b. b\<lparr>ref_cnt := ref_cnt b + 1\<rparr>) s))"
  proof (cases "length (queue_items (get_thread s t)) < 1023")
    case True
    have "g_bins s' = g_bins (upd_buf p (\<lambda>b. b\<lparr>ref_cnt := ref_cnt b + 1\<rparr>) s)"
      using assms(4) True queue_put_spec(1)[OF assms(2), of "Some p"]
      by (auto simp: nos_transport_local_send_def Let_def notify_def nos_buffer_retain_def MAX_QUEUE_SIZE_def split: option.splits if_splits)
    then show ?thesis using local_send_OK[OF assms(1-3) True] assms(4) True by auto
  next
    case False
    have l: "length (queue_items (get_thread s t)) = 1023" using False thread_queue.bound[OF assms(2)] by (simp add: MAX_QUEUE_SIZE_def)
    then have "queue_put (Some p) (get_thread s t) = None" using queue_put_spec(1)[OF assms(2)] by (simp add: MAX_QUEUE_SIZE_def)
    then show ?thesis using l assms(4) by (simp add: nos_transport_local_send_def)
  qed
  show "rx_same s s'" "sock_rx s' = sock_rx s" "g_reply_ctxs s' = g_reply_ctxs s"
    using assms(4) by (auto simp: nos_transport_local_send_def Let_def notify_def upd_thread_def nos_buffer_retain_def upd_buf_def upd_bin_def intro!: rx_same_fields
        split: option.splits if_splits)
qed

lemma rx_origin_parts:
  assumes "valid_buf s p" "s' = rx_origin (Some i) h m p s"
  shows "g_bins s' = g_bins (upd_buf p (\<lambda>b. b\<lparr>reply_ctx := sys_calloc (sys_calls s (sys_pos s))\<rparr>) s)" "rx_same s s'" "sock_rx s' = sock_rx s" "g_threads s' = g_threads s"
proof -
  let ?rc = "sys_calloc (sys_calls s (sys_pos s))"
  obtain x s2 where x: "nos_reply_ctx_create ?rc (Some i) (generation (get_conn (s\<lparr>sys_pos := sys_pos s + 1\<rparr>) i)) (seq h) (src_component h) (s\<lparr>sys_pos := sys_pos s + 1\<rparr>) = (x, s2)"
    by fastforce
  have s2: "x = ?rc" "s2 = s\<lparr>sys_pos := sys_pos s + 1, g_reply_ctxs := g_reply_ctxs s2\<rparr>" using x by (auto simp: nos_reply_ctx_create_def split: option.splits)
  then obtain c where c: "s2 = s\<lparr>sys_pos := sys_pos s + 1, g_reply_ctxs := c\<rparr>" by blast
  have s': "s' = upd_conn i (\<lambda>c. c\<lparr>c_rx_packets := c_rx_packets c + 1, c_rx_bytes := c_rx_bytes c + of_nat m\<rparr>) (upd_buf p (\<lambda>b. b\<lparr>reply_ctx := ?rc\<rparr>) s2)"
    using x s2(1) by (simp add: assms(2) rx_origin_def next_sys_def)
  show "g_bins s' = g_bins (upd_buf p (\<lambda>b. b\<lparr>reply_ctx := ?rc\<rparr>) s)" "sock_rx s' = sock_rx s" "g_threads s' = g_threads s"
    by (simp_all add: s' c upd_buf_def upd_bin_def)
  have "rx_same s s2" unfolding c by (rule rx_same_fields) simp_all
  also have "rx_same s2 (upd_buf p (\<lambda>b. b\<lparr>reply_ctx := ?rc\<rparr>) s2)" by (rule rx_same_parts)
  also have "rx_same (upd_buf p (\<lambda>b. b\<lparr>reply_ctx := ?rc\<rparr>) s2) s'" unfolding s' by (rule rx_same_conn) (simp add: link_part_def)
  finally show "rx_same s s'" .
qed

text \<open>The buffer of a packet up to the moment when it is handed to the router.\<close>

lemma rx_prepared:
  assumes "rx_ok s" "data_pkt pkt" "nos_buffer_alloc (of_nat (length pkt)) 0 s = (Some p, s1)"
    and "s3 = rx_origin (Some i) (decode_msg pkt 0) (length pkt) p (put_bytes p pkt s1)"
  shows "only_buf p s s3" "pool_ok s3" "bufs_ok s3" "rx_same s s3" "sock_rx s3 = sock_rx s" "g_threads s3 = g_threads s"
    "valid_buf s p" "ref_cnt (get_buf s p) \<le> 0" "ref_cnt (get_buf s3 p) = 1" "msg_bytes s3 p = pkt" "msg_header s3 p = decode_msg pkt 0"
    "free_bufs s k = free_bufs s3 k + (if k = fst p then 1 else 0)"
proof -
  have ok: "pool_ok s" "bufs_ok s" using assms(1) by (simp_all add: rx_ok_def)
  note l = data_pkt_length[OF assms(2)]
  have lt: "length pkt < 2 ^ 32" using l(2) by simp
  note b = rx_buffer[OF ok lt l(1) assms(3,4)]
  note f = alloc_frame[OF assms(3) ok(1)]
  note a = only_buf_alloc[OF assms(3) ok]
  let ?s2 = "put_bytes p pkt s1"
  have v1: "valid_buf s1 p" using f(1,5) by simp
  have v2: "valid_buf ?s2 p" using v1 by (simp add: put_bytes_def)
  note o = rx_origin_parts[OF v2 assms(4)]
  let ?u = "upd_buf p (\<lambda>b. b\<lparr>reply_ctx := sys_calloc (sys_calls ?s2 (sys_pos ?s2))\<rparr>) ?s2"
  note bins = only_buf_bins[OF o(1)]
  have o2: "only_buf p s1 ?s2" "free_bufs ?s2 k = free_bufs s1 k" using only_buf_upd[OF v1] by (simp_all add: put_bytes_def)
  have "only_buf p s1 ?u" by (rule only_buf_trans[OF o2(1) only_buf_upd(1)[OF v2]])
  then have o1: "only_buf p s1 s3" by (rule only_buf_trans) (use bins in blast)
  show os: "only_buf p s s3" by (rule only_buf_trans[OF a(1) o1])
  show "pool_ok s3" by (rule b(10))
  have "get_buf s3 p = (get_buf ?s2 p)\<lparr>reply_ctx := sys_calloc (sys_calls ?s2 (sys_pos ?s2))\<rparr>"
    using bins_cong[OF o(1), of p] get_buf_upd_buf[OF v2] by simp
  moreover have "get_buf ?s2 p = (get_buf s1 p)\<lparr>chunk := write_bytes (chunk (get_buf s1 p)) (nat (data (get_buf s1 p) - raw_data (get_buf s1 p))) pkt\<rparr>"
    using get_buf_upd_buf[OF v1] by (simp add: put_bytes_def)
  ultimately have "buf_ok (get_buf s3 p) = buf_ok (get_buf s1 p)" by (intro buf_ok_same_geometry) simp_all
  then have "buf_ok (get_buf s3 p)" using bufs_okD[OF a(3) v1] by simp
  then show "bufs_ok s3" by (rule bufs_ok_only[OF o1 a(3)])
  have "rx_same s s1" by (rule rx_same_alloc[OF assms(3) ok(1)])
  also have "rx_same s1 ?s2" unfolding put_bytes_def by (rule rx_same_parts)
  finally show "rx_same s s3" by (rule rx_same_trans[OF _ o(2)])
  obtain bb where s1: "s1 = s\<lparr>g_bins := bb\<rparr>" using alloc_same[OF assms(3) ok(1)] by blast
  show "sock_rx s3 = sock_rx s" using o(3) by (simp add: put_bytes_def s1)
  show "g_threads s3 = g_threads s" by (rule b(5))
  show "valid_buf s p" "ref_cnt (get_buf s p) \<le> 0" by (rule f(1), rule f(2))
  show "ref_cnt (get_buf s3 p) = 1" by (rule b(2))
  show h: "msg_header s3 p = decode_msg pkt 0" by (rule b(3))
  show "msg_bytes s3 p = pkt" using b(4) l(4) by (simp add: msg_bytes_def h)
  have "free_bufs ?u k = free_bufs ?s2 k" by (rule only_buf_upd(2)[OF v2])
  then show "free_bufs s k = free_bufs s3 k + (if k = fst p then 1 else 0)" using a(4) o2(2) bins by simp
qed

definition can_take :: "nat \<Rightarrow> nat \<Rightarrow> 'z sched_state_scheme \<Rightarrow> bool" where
  "can_take m t s \<longleftrightarrow> (\<exists>k < length (g_bins s). m \<le> unat (chunk_size (g_bins s ! k)) \<and> 0 < free_bufs s k) \<and> length (queue_items (get_thread s t)) < 1023"

text \<open>The outcome of one delivery: the message arrives, or nothing of it is left.  It does arrive when there is a buffer for it and room in the queue.\<close>

definition delivery :: "nat \<Rightarrow> u8 list \<Rightarrow> 'z ipc_state_scheme \<Rightarrow> 'z ipc_state_scheme \<Rightarrow> bool" where
  "delivery t pkt s s' \<longleftrightarrow> rx_ok s' \<and> rx_same s s' \<and> sock_rx s' = sock_rx s \<and> kept s s' \<and> (\<forall>k. free_bufs s k \<le> free_bufs s' k + 1)
     \<and> ((\<exists>q. arrived t pkt q s s') \<or> g_threads s' = g_threads s) \<and> (can_take (length pkt) t s \<longrightarrow> (\<exists>q. arrived t pkt q s s'))"

lemma alloc_fails_full:
  assumes "rx_ok s" "data_pkt pkt" "fst (nos_buffer_alloc (of_nat (length pkt)) 0 s) = None"
  shows "\<not> can_take (length pkt) t s"
proof -
  have ok: "pool_ok s" using assms(1) by (simp add: rx_ok_def)
  have "(of_nat (length pkt) :: u32) \<le> x \<longleftrightarrow> length pkt \<le> unat x" for x :: u32 using data_pkt_length(3)[OF assms(2)] by (simp add: word_le_nat_alt)
  then have "bin_avail (g_bins s ! k) = []" if "k < length (g_bins s)" "length pkt \<le> unat (chunk_size (g_bins s ! k))" for k
    using assms(3)[unfolded nos_buffer_alloc_None[OF ok]] that by auto
  then show ?thesis by (auto simp: free_bufs_def can_take_def)
qed

lemma delivery_no_buffer:
  assumes "rx_ok s" "data_pkt pkt" "fst (nos_buffer_alloc (of_nat (length pkt)) 0 s) = None" "s' = count_rx_error conn (stat_alloc_fail s)"
  shows "delivery t pkt s s'"
proof -
  have g: "g_bins s' = g_bins s" "g_threads s' = g_threads s" "sock_rx s' = sock_rx s" by (simp_all add: assms(4))
  have "rx_same s s'" unfolding assms(4) by (rule rx_same_trans[OF rx_same_errors(2,3)])
  moreover have "kept s s'" "\<forall>k. free_bufs s' k = free_bufs s k" using g(1) by (simp_all add: kept_def bins_cong[OF g(1)] free_bufs_def)
  moreover have "rx_ok s'" using assms(1) g pool_ok_cong[OF g(1)] bins_cong[OF g(1)] by (simp add: rx_ok_def bufs_ok_def)
  ultimately show ?thesis using g alloc_fails_full[OF assms(1-3)] by (simp add: delivery_def)
qed

text \<open>The state in which the filled buffer is handed to the queue.\<close>

definition handing_over :: "bufp \<Rightarrow> u8 list \<Rightarrow> 'z ipc_state_scheme \<Rightarrow> 'z ipc_state_scheme \<Rightarrow> bool" where
  "handing_over q pkt s s4 \<longleftrightarrow> only_buf q s s4 \<and> pool_ok s4 \<and> bufs_ok s4 \<and> rx_same s s4 \<and> sock_rx s4 = sock_rx s \<and> g_threads s4 = g_threads s
     \<and> ref_cnt (get_buf s q) \<le> 0 \<and> valid_buf s4 q \<and> ref_cnt (get_buf s4 q) = 1 \<and> msg_bytes s4 q = pkt
     \<and> (\<forall>k. free_bufs s k = free_bufs s4 k + (if k = fst q then 1 else 0))"

lemma deliver_hands_over:
  assumes "rx_ok s" "data_pkt pkt" "local_dest s (decode_msg pkt 0) = Some t" "nos_buffer_alloc (of_nat (length pkt)) 0 s = (Some q, s1)"
    and "s' = ipc_deliver_rx_data (Some pkt) (of_nat (length pkt)) (Some i) s"
  shows "\<exists>s4. handing_over q pkt s s4 \<and> s' = nos_buffer_release (Some q) (snd (nos_transport_local_send q (Some t) s4))"
proof -
  note l = data_pkt_length[OF assms(2)]
  have pl: "payload_len (decode_msg pkt 0) \<le> NOS_IPC_MAX_PAYLOAD_LEN" using assms(2) by (simp add: data_pkt_def Let_def)
  define s3 where "s3 = rx_origin (Some i) (decode_msg pkt 0) (length pkt) q (put_bytes q pkt s1)"
  note b = rx_prepared[OF assms(1,2,4) s3_def]
  define s4 where "s4 = upd_stats (\<lambda>st. st\<lparr>st_rx_packets := st_rx_packets st + 1, st_rx_bytes := st_rx_bytes st + of_nat (length pkt)\<rparr>) s3"
  have bin4: "g_bins s4 = g_bins s3" "sock_rx s4 = sock_rx s3" "g_threads s4 = g_threads s3" by (simp_all add: s4_def)
  note c4 = bins_cong[OF bin4(1)] pool_ok_cong[OF bin4(1)]
  have same4: "rx_same s s4" unfolding s4_def by (rule rx_same_trans[OF b(4) rx_same_parts(1)])
  have "local_dest s4 (msg_header s4 q) = Some t"
    using local_dest_cong[of s s4] same4 assms(3) b(11) c4(1) by (simp add: rx_same_def)
  then have "ipc_msg_send (Some q) s4 = nos_transport_local_send q (Some t) s4" unfolding ipc_msg_send_def by (rule local_dest_send)
  then have s': "s' = nos_buffer_release (Some q) (snd (nos_transport_local_send q (Some t) s4))"
    unfolding assms(5) using assms(4) l pl by (simp add: ipc_deliver_rx_data_def Let_def s3_def s4_def)
  have "only_buf q s s4" "free_bufs s4 k = free_bufs s3 k" for k using only_buf_trans[OF b(1)] only_buf_bins[OF bin4(1)] by blast+
  moreover have "msg_bytes s4 q = pkt" using b(10) c4(1)[of q] by (simp add: msg_bytes_def buf_bytes_def)
  moreover have "valid_buf s4 q" using b(1,7) c4(1) by (simp add: only_buf_def)
  ultimately have "handing_over q pkt s s4"
    using b(2,3,5,6,8,9,12) bin4 c4 same4 by (simp add: handing_over_def bufs_ok_def)
  then show ?thesis using s' by blast
qed

lemma delivery_full:
  assumes "rx_ok s" "handing_over q pkt s s4" "length (queue_items (get_thread s t)) = 1023" "s' = nos_buffer_release (Some q) s4"
  shows "delivery t pkt s s'"
proof -
  note h = assms(2)[unfolded handing_over_def]
  have v: "pool_ok s4" "bufs_ok s4" "valid_buf s4 q" "g_threads s4 = g_threads s" "ref_cnt (get_buf s4 q) = 1" using h by blast+
  note r = only_buf_release[OF v(1-3)]
  have "only_buf q s s'" unfolding assms(4) by (rule only_buf_trans[OF _ r(1)]) (use h in blast)
  then have "kept s s'" by (rule only_buf_kept) (use h in blast)
  moreover have "free_bufs s k = free_bufs s' k" for k using h r(4)[of k] v(5) by (simp add: assms(4))
  moreover have th: "g_threads s' = g_threads s" using v(4) by (simp add: assms(4))
  moreover have "rx_ok s'" using r(2,3) assms(1) th by (simp add: rx_ok_def assms(4))
  moreover have "rx_same s s'" unfolding assms(4) by (rule rx_same_trans[OF _ rx_same_parts(4)]) (use h in blast)
  moreover have "sock_rx s' = sock_rx s" using h by (simp add: assms(4))
  ultimately show ?thesis using assms(3) by (simp add: delivery_def can_take_def)
qed

lemma delivery_queued:
  assumes "rx_ok s" "handing_over q pkt s s4" "t < length (g_threads s)" "length (queue_items (get_thread s t)) \<noteq> 1023"
    and "nos_transport_local_send q (Some t) s4 = (x, s5)" "s' = nos_buffer_release (Some q) s5"
  shows "delivery t pkt s s'"
proof -
  note h = assms(2)[unfolded handing_over_def]
  have v4: "pool_ok s4" "bufs_ok s4" "valid_buf s4 q" "ref_cnt (get_buf s4 q) = 1" "only_buf q s s4" and th4: "g_threads s4 = g_threads s" using h by blast+
  have qs: "queue_ok (get_thread s u)" if "u < length (g_threads s)" for u using assms(1) that by (simp add: rx_ok_def)
  have t4: "t < length (g_threads s4)" "queue_ok (get_thread s4 t)" "get_thread s4 u = get_thread s u" for u using assms(3) qs th4 by simp_all
  note ls = local_send_cases[OF t4(1,2) v4(3) assms(5)]
  let ?f = "\<lambda>b. b\<lparr>ref_cnt := ref_cnt b + 1\<rparr>"
  have L: "queue_items (get_thread s5 t) = queue_items (get_thread s t) @ [Some q]" "queue_ok (get_thread s5 t)"
    "\<forall>u. u \<noteq> t \<longrightarrow> get_thread s5 u = get_thread s u" "g_bins s5 = g_bins (upd_buf q ?f s4)"
    using ls(1) assms(4) t4(3) by auto
  note c5 = bins_cong[OF L(4)] pool_ok_cong[OF L(4)]
  have g5: "get_buf s5 q = (get_buf s4 q)\<lparr>ref_cnt := 2\<rparr>" using c5(1) get_buf_upd_buf[OF v4(3)] v4(4) by simp
  have "pool_ok (upd_buf q ?f s4)" using v4(4) by (intro pool_ok_upd_buf[OF v4(1,3)]) simp_all
  then have ok5: "pool_ok s5" using c5(2) by simp
  have o5: "only_buf q s4 s5" by (rule only_buf_trans[OF only_buf_upd(1)[OF v4(3), of ?f]]) (use only_buf_bins[OF L(4)] in blast)
  have "buf_ok (get_buf s5 q) = buf_ok (get_buf s4 q)" unfolding g5 by (rule buf_ok_same_geometry) simp_all
  then have bo5: "bufs_ok s5" using bufs_ok_only[OF o5 v4(2)] bufs_okD[OF v4(2,3)] by simp
  have v5: "valid_buf s5 q" using o5 v4(3) by (simp add: only_buf_def)
  note r = only_buf_release[OF ok5 bo5 v5]
  have rel: "s' = upd_buf q (\<lambda>b. b\<lparr>ref_cnt := ref_cnt b - 1\<rparr>) s5" using g5 by (simp add: assms(6) nos_buffer_release_def Let_def)
  have g': "get_buf s' q = get_buf s4 q" using rel get_buf_upd_buf[OF v5] g5 v4(4) by simp
  have o: "only_buf q s s'" unfolding assms(6) by (rule only_buf_trans[OF v4(5) only_buf_trans[OF o5 r(1)]])
  have same: "rx_same s s'" unfolding assms(6) by (rule rx_same_trans[OF _ rx_same_trans[OF ls(2) rx_same_parts(4)]]) (use h in blast)
  have th': "get_thread s' u = get_thread s5 u" "length (g_threads s') = length (g_threads s)" for u using same by (simp_all add: rel rx_same_def)
  have "free_bufs s5 k = free_bufs s4 k" for k using only_buf_bins[OF L(4)] only_buf_upd(2)[OF v4(3)] by simp
  then have f: "\<forall>k. free_bufs s k \<le> free_bufs s' k + 1" using h r(4) by (simp add: assms(6))
  have "queue_ok (get_thread s' u)" if "u < length (g_threads s)" for u using L(2,3) th'(1) qs that by (cases "u = t") simp_all
  then have ok': "rx_ok s'" using r(2,3) th'(2) by (simp add: rx_ok_def assms(6))
  have "valid_buf s' q" using o v4(3,5) by (simp add: only_buf_def)
  moreover have "msg_bytes s' q = msg_bytes s4 q" using g' by (simp add: msg_bytes_def msg_header_def buf_bytes_def)
  ultimately have "arrived t pkt q s s'" using h L(1,3) th'(1) g' by (simp add: arrived_def)
  moreover have "sock_rx s' = sock_rx s" using h ls(3) by (simp add: assms(6))
  moreover have "kept s s'" by (rule only_buf_kept[OF o]) (use h in blast)
  ultimately show ?thesis unfolding delivery_def using ok' same f by blast
qed

lemma deliver_one:
  assumes "rx_ok s" "data_pkt pkt" "local_dest s (decode_msg pkt 0) = Some t" "t < length (g_threads s)"
  shows "delivery t pkt s (ipc_deliver_rx_data (Some pkt) (of_nat (length pkt)) (Some i) s)"
proof (cases "fst (nos_buffer_alloc (of_nat (length pkt)) 0 s)")
  case None
  have "payload_len (decode_msg pkt 0) \<le> NOS_IPC_MAX_PAYLOAD_LEN" using assms(2) by (simp add: data_pkt_def Let_def)
  then have "ipc_deliver_rx_data (Some pkt) (of_nat (length pkt)) (Some i) s = count_rx_error (Some i) (stat_alloc_fail s)"
    using None data_pkt_length[OF assms(2)] nos_buffer_alloc_None_state[of _ 0 s]
    by (cases "nos_buffer_alloc (of_nat (length pkt)) 0 s") (auto simp: ipc_deliver_rx_data_def Let_def)
  from delivery_no_buffer[OF assms(1,2) None this] show ?thesis .
next
  case (Some q)
  then obtain s1 where a: "nos_buffer_alloc (of_nat (length pkt)) 0 s = (Some q, s1)" by (metis prod.collapse)
  obtain s4 where s4: "handing_over q pkt s s4"
    "ipc_deliver_rx_data (Some pkt) (of_nat (length pkt)) (Some i) s = nos_buffer_release (Some q) (snd (nos_transport_local_send q (Some t) s4))"
    using deliver_hands_over[OF assms(1-3) a refl] by blast
  obtain x s5 where send: "nos_transport_local_send q (Some t) s4 = (x, s5)" by fastforce
  show ?thesis
  proof (cases "length (queue_items (get_thread s t)) = 1023")
    case True
    have g: "get_thread s4 t = get_thread s t" "t < length (g_threads s4)" "valid_buf s4 q" using s4(1) assms(4) by (simp_all add: handing_over_def)
    then have "s5 = s4" using local_send_cases(1)[OF g(2) _ g(3) send] assms(1,4) True by (auto simp: rx_ok_def)
    then show ?thesis using delivery_full[OF assms(1) s4(1) True] s4(2) send by simp
  next
    case False
    then show ?thesis using delivery_queued[OF assms(1) s4(1) assms(4) False send] s4(2) send by simp
  qed
qed

section \<open>Reception of one packet\<close>

text \<open>Room for \<open>n\<close> packets of at most \<open>m\<close> bytes: free buffers of a bin with chunks of this size, one more than packets for the copy that the reception makes on the way, and
  places in the queue.\<close>

definition rx_room :: "nat \<Rightarrow> nat \<Rightarrow> nat \<Rightarrow> 'z sched_state_scheme \<Rightarrow> bool" where
  "rx_room m n t s \<longleftrightarrow> (\<exists>k < length (g_bins s). m \<le> unat (chunk_size (g_bins s ! k)) \<and> n < free_bufs s k) \<and> length (queue_items (get_thread s t)) + n \<le> 1023"

definition reception :: "nat \<Rightarrow> u8 list \<Rightarrow> 'z ipc_state_scheme \<Rightarrow> 'z ipc_state_scheme \<Rightarrow> bool" where
  "reception t pkt s s' \<longleftrightarrow> rx_ok s' \<and> rx_same s s' \<and> kept s s' \<and> (\<forall>k. free_bufs s k \<le> free_bufs s' k + 1)
     \<and> ((\<exists>q. arrived t pkt q s s') \<or> g_threads s' = g_threads s) \<and> (rx_room (length pkt) 1 t s \<longrightarrow> (\<exists>q. arrived t pkt q s s'))"

lemma peek_whole: "sizeof_msg \<le> length pkt \<Longrightarrow> peek_header stack pkt = decode_msg pkt 0"
  unfolding peek_header_def by (intro decode_msg_cong) (simp add: get_byte_def nth_append)

lemma rx_ok_cong: "g_bins s' = g_bins s \<Longrightarrow> g_threads s' = g_threads s \<Longrightarrow> rx_ok s' = rx_ok s"
  using bins_cong[of s' s] pool_ok_cong[of s' s] by (simp add: rx_ok_def bufs_ok_def)

lemma same_bins:
  assumes "g_bins s' = g_bins s" "g_threads s' = g_threads s"
  shows "rx_ok s' = rx_ok s" "kept s s'" "free_bufs s' k = free_bufs s k" "can_take m t s' = can_take m t s"
  using rx_ok_cong[OF assms] assms bins_cong[OF assms(1)] by (simp_all add: kept_def free_bufs_def can_take_def)

text \<open>The copy of the packet in a buffer of its own.\<close>

lemma recv_copy:
  assumes "rx_ok s" "data_pkt pkt" "nos_buffer_alloc (of_nat (length pkt)) 0 s = (Some p, s2)" "s3 = put_bytes p pkt (sock_discard d s2)"
  shows "only_buf p s s3" "rx_ok s3" "rx_same s s3" "sock_rx s3 = (sock_rx s)(d := tl (sock_rx s d))" "g_threads s3 = g_threads s" "ref_cnt (get_buf s p) \<le> 0"
    "valid_buf s3 p" "ref_cnt (get_buf s3 p) = 1" "buf_bytes s3 p (length pkt) = pkt" "msg_header s3 p = decode_msg pkt 0"
    "free_bufs s k = free_bufs s3 k + (if k = fst p then 1 else 0)" "reply_ctx (get_buf s3 p) = None" "sys_calls s3 = sys_calls s" "sys_pos s3 = sys_pos s"
proof -
  have ok: "pool_ok s" "bufs_ok s" using assms(1) by (simp_all add: rx_ok_def)
  note l = data_pkt_length[OF assms(2)]
  note f = alloc_frame[OF assms(3) ok(1)]
  note a = only_buf_alloc[OF assms(3) ok]
  obtain bb where s2: "s2 = s\<lparr>g_bins := bb\<rparr>" using alloc_same[OF assms(3) ok(1)] by blast
  let ?d = "sock_discard d s2"
  have bin: "g_bins ?d = g_bins s2" by (simp add: sock_discard_def)
  note c = bins_cong[OF bin]
  have "valid_buf s2 p" using f(1,5) by simp
  then have vd: "valid_buf ?d p" "pool_ok ?d" "bufs_ok ?d" using a(2,3) c pool_ok_cong[OF bin] by (simp_all add: bufs_ok_def)
  have vo: "only_buf p s ?d" by (rule only_buf_trans[OF a(1)]) (use only_buf_bins[OF bin] in blast)
  have g: "get_buf ?d p = alloc_reset (of_nat (length pkt)) 0 (get_buf s p)" using c f(3) by simp
  have g3: "get_buf s3 p = (get_buf ?d p)\<lparr>chunk := write_bytes (chunk (get_buf s p)) 0 pkt\<rparr>"
    using get_buf_upd_buf[OF vd(1)] g by (simp add: assms(4) put_bytes_def alloc_reset_def)
  have cap: "length pkt \<le> length (chunk (get_buf s p))" using f(6) l(3) bufs_okD[OF ok(2) f(1)] by (simp add: buf_ok_def)
  have o3: "only_buf p ?d s3" "free_bufs s3 k = free_bufs ?d k" using only_buf_upd[OF vd(1)] by (simp_all add: assms(4) put_bytes_def)
  show "only_buf p s s3" by (rule only_buf_trans[OF vo o3(1)])
  have th: "g_threads s3 = g_threads s" by (simp add: assms(4) put_bytes_def sock_discard_def s2)
  have "pool_ok s3" unfolding assms(4) put_bytes_def by (intro pool_ok_upd_buf[OF vd(2,1)]) simp_all
  moreover have "buf_ok (get_buf s3 p) = buf_ok (get_buf ?d p)" unfolding g3 by (rule buf_ok_same_geometry) (simp_all add: g alloc_reset_def)
  then have "bufs_ok s3" using bufs_ok_only[OF o3(1) vd(3)] bufs_okD[OF vd(3,1)] by simp
  ultimately show "rx_ok s3" using assms(1) th by (simp add: rx_ok_def)
  have "rx_same s s2" by (rule rx_same_alloc[OF assms(3) ok(1)])
  also have "rx_same s2 ?d" by (rule rx_same_parts)
  also have "rx_same ?d s3" unfolding assms(4) put_bytes_def by (rule rx_same_parts)
  finally show "rx_same s s3" .
  show "sock_rx s3 = (sock_rx s)(d := tl (sock_rx s d))" by (simp add: assms(4) put_bytes_def sock_discard_def s2)
  show "g_threads s3 = g_threads s" "ref_cnt (get_buf s p) \<le> 0" by (rule th, rule f(2))
  show "valid_buf s3 p" using vd(1) o3(1) by (simp add: only_buf_def)
  show "ref_cnt (get_buf s3 p) = 1" using g3 g by (simp add: alloc_reset_def)
  show "buf_bytes s3 p (length pkt) = pkt" using take_write_all[OF cap] g3 g by (simp add: buf_bytes_def alloc_reset_def)
  show "msg_header s3 p = decode_msg pkt 0" using decode_write_all[OF l(1) cap] g3 g by (simp add: msg_header_def alloc_reset_def)
  show "free_bufs s k = free_bufs s3 k + (if k = fst p then 1 else 0)" using a(4) o3(2) only_buf_bins[OF bin, of p k] by simp
  show "reply_ctx (get_buf s3 p) = None" using g3 g by (simp add: alloc_reset_def)
  show "sys_calls s3 = sys_calls s" "sys_pos s3 = sys_pos s" by (simp_all add: assms(4) put_bytes_def sock_discard_def s2)
qed

text \<open>Giving back the copy after the delivery.\<close>

lemma reception_done:
  assumes "only_buf p s s3" "rx_same s s3" "ref_cnt (get_buf s p) \<le> 0" "g_threads s3 = g_threads s" "valid_buf s3 p" "ref_cnt (get_buf s3 p) = 1"
    and "\<And>k. free_bufs s k = free_bufs s3 k + (if k = fst p then 1 else 0)" "delivery t pkt s3 s4" "s' = nos_buffer_release (Some p) s4"
  shows "reception t pkt s s'"
proof -
  note D = assms(8)[unfolded delivery_def]
  have k34: "kept s3 s4" and ok4: "pool_ok s4" "bufs_ok s4" using D by (simp_all add: rx_ok_def)
  have p4: "valid_buf s4 p" "get_buf s4 p = get_buf s3 p" using k34 assms(5,6) by (auto simp: kept_def)
  note r = only_buf_release[OF ok4 p4(1)]
  have rk: "ref_cnt (get_buf s4 p) = 1" using p4(2) assms(6) by simp
  have ro: "only_buf p s4 s'" using r(1) by (simp add: assms(9))
  have "get_buf s' q = get_buf s q" if "valid_buf s q" "0 < ref_cnt (get_buf s q)" for q
  proof -
    have q: "q \<noteq> p" using that(2) assms(3) by auto
    then have "get_buf s' q = get_buf s4 q" "get_buf s3 q = get_buf s q" "valid_buf s3 q" using ro assms(1) that(1) by (simp_all add: only_buf_def)
    then show ?thesis using k34 that(2) by (simp add: kept_def)
  qed
  then have kp: "kept s s'" using k34 assms(1) ro by (simp add: kept_def only_buf_def)
  have th: "g_threads s' = g_threads s4" by (simp add: assms(9))
  have "rx_ok s'" using D r(2,3) th by (simp add: rx_ok_def assms(9))
  moreover have "rx_same s s'" using assms(2) D rx_same_parts(4)[of s4 p] rx_same_trans by (metis assms(9))
  moreover have "\<forall>k. free_bufs s k \<le> free_bufs s' k + 1"
  proof
    fix k
    have "free_bufs s3 k \<le> free_bufs s4 k + 1" using D by blast
    then show "free_bufs s k \<le> free_bufs s' k + 1" using assms(7)[of k] r(4)[of k] rk by (simp add: assms(9))
  qed
  moreover have arr: "arrived t pkt q s s'" if a: "arrived t pkt q s3 s4" for q
  proof -
    have q: "q \<noteq> p" "valid_buf s4 q" "ref_cnt (get_buf s4 q) = 1" "msg_bytes s4 q = pkt" "ref_cnt (get_buf s3 q) \<le> 0" using a assms(6) by (auto simp: arrived_def)
    then have "get_buf s' q = get_buf s4 q" "valid_buf s' q" "get_buf s q = get_buf s3 q" using ro assms(1) by (simp_all add: only_buf_def)
    then show ?thesis using a q th assms(4) by (simp add: arrived_def msg_bytes_def msg_header_def buf_bytes_def)
  qed
  moreover have "can_take (length pkt) t s3" if "rx_room (length pkt) 1 t s"
  proof -
    obtain k where k: "k < length (g_bins s)" "length pkt \<le> unat (chunk_size (g_bins s ! k))" "1 < free_bufs s k" using \<open>rx_room (length pkt) 1 t s\<close> by (auto simp: rx_room_def)
    then have "k < length (g_bins s3)" "length pkt \<le> unat (chunk_size (g_bins s3 ! k))" "0 < free_bufs s3 k" using assms(1) assms(7)[of k] by (simp_all add: only_buf_def split: if_splits)
    then show ?thesis using \<open>rx_room (length pkt) 1 t s\<close> assms(4) by (auto simp: can_take_def rx_room_def)
  qed
  moreover have "(\<exists>q. arrived t pkt q s s') \<or> g_threads s' = g_threads s" using D arr th assms(4) by auto
  moreover have "\<exists>q. arrived t pkt q s3 s4" if "can_take (length pkt) t s3" using D that by blast
  ultimately show ?thesis unfolding reception_def using kp by blast
qed

text \<open>Reception of a data packet is the delivery of its copy.\<close>

lemma recv_split:
  assumes "rx_ok s" "data_pkt pkt" "sock_rx s d = pkt # rest" "nos_buffer_alloc (of_nat (length pkt)) 0 (s\<lparr>sys_pos := sys_pos s + 1\<rparr>) = (Some p, s2)"
    and "s3 = put_bytes p pkt (sock_discard d s2)"
  shows "nos_ipc_recv_handler fuel d (Some i) th s = Some (nos_buffer_release (Some p) (ipc_deliver_rx_data (Some pkt) (of_nat (length pkt)) (Some i) s3))"
proof -
  note l = data_pkt_length[OF assms(2)]
  have h: "magic (decode_msg pkt 0) = NOS_IPC_MAGIC" "payload_len (decode_msg pkt 0) \<le> NOS_IPC_MAX_PAYLOAD_LEN" "\<not> ipc_is_ctrl_msg (decode_msg pkt 0)"
    using assms(2) by (simp_all add: data_pkt_def Let_def)
  have ne: "pkt \<noteq> []" using l(1) by (auto simp: sizeof_msg_def)
  let ?s1 = "s\<lparr>sys_pos := sys_pos s + 1\<rparr>"
  have "rx_ok ?s1" using same_bins(1)[of ?s1 s] assms(1) by simp
  note c = recv_copy[OF this assms(2,4,5)]
  show ?thesis using assms(4) c(9,10)
    by (simp add: nos_ipc_recv_handler_def assms(3) ne next_sys_def peek_whole[OF l(1)] h(1,3) leD[OF h(2)] l(4) Let_def assms(5)[symmetric])
qed

lemma recv_one:
  assumes "rx_ok s" "data_pkt pkt" "sock_rx s d = pkt # rest" "local_dest s (decode_msg pkt 0) = Some t" "t < length (g_threads s)"
  shows "\<exists>s'. nos_ipc_recv_handler fuel d (Some i) th s = Some s' \<and> reception t pkt s s' \<and> sock_rx s' = (sock_rx s)(d := rest)"
proof -
  note l = data_pkt_length[OF assms(2)]
  have h: "magic (decode_msg pkt 0) = NOS_IPC_MAGIC" "payload_len (decode_msg pkt 0) \<le> NOS_IPC_MAX_PAYLOAD_LEN" "\<not> ipc_is_ctrl_msg (decode_msg pkt 0)"
    using assms(2) by (simp_all add: data_pkt_def Let_def)
  have ne: "pkt \<noteq> []" using l(1) by (auto simp: sizeof_msg_def)
  let ?s1 = "s\<lparr>sys_pos := sys_pos s + 1\<rparr>" and ?n = "of_nat (length pkt) :: u32"
  have b1: "g_bins ?s1 = g_bins s" "g_threads ?s1 = g_threads s" by simp_all
  note s1 = same_bins[OF b1] only_buf_bins[OF b1(1)]
  have ok1: "rx_ok ?s1" using s1(1) assms(1) by simp
  note unf = nos_ipc_recv_handler_def assms(3) ne next_sys_def peek_whole[OF l(1)] h(1,3) leD[OF h(2)] l(4) Let_def
  show ?thesis
  proof (cases "fst (nos_buffer_alloc ?n 0 ?s1)")
    case None
    let ?e = "count_rx_error (Some i) (stat_alloc_fail ?s1)"
    have e: "nos_ipc_recv_handler fuel d (Some i) th s = Some (sock_discard d ?e)"
      using None nos_buffer_alloc_None_state[of ?n 0 ?s1] by (cases "nos_buffer_alloc ?n 0 ?s1") (auto simp: unf not_less)
    note D = delivery_no_buffer[OF ok1 assms(2) None refl, where conn = "Some i" and t = t, unfolded delivery_def]
    let ?s' = "sock_discard d ?e"
    have b2: "g_bins ?s' = g_bins s" "g_threads ?s' = g_threads s" by (simp_all add: sock_discard_def)
    note s2 = same_bins[OF b2]
    have "\<not> can_take (length pkt) t s" using alloc_fails_full[OF ok1 assms(2) None] s1(4) by simp
    then have "\<not> rx_room (length pkt) 1 t s" by (auto simp: can_take_def rx_room_def)
    moreover have "rx_same s ?s1" by (rule rx_same_parts)
    then have "rx_same s ?s'" using D rx_same_trans rx_same_parts(5) by metis
    ultimately have "reception t pkt s ?s'" using s2 b2(2) assms(1) by (simp add: reception_def)
    moreover have "sock_rx ?s' = (sock_rx s)(d := rest)" using assms(3) by (simp add: sock_discard_def)
    ultimately show ?thesis using e by blast
  next
    case (Some p)
    then obtain s2 where a: "nos_buffer_alloc ?n 0 ?s1 = (Some p, s2)" by (metis prod.collapse)
    define s3 where "s3 = put_bytes p pkt (sock_discard d s2)"
    define s4 where "s4 = ipc_deliver_rx_data (Some pkt) ?n (Some i) s3"
    note c = recv_copy[OF ok1 assms(2) a s3_def]
    have o3: "only_buf p s s3" "rx_same s s3" using only_buf_trans[OF conjunct1[OF s1(5)] c(1)] rx_same_trans[OF rx_same_parts(2) c(3)] by blast+
    have t3: "local_dest s3 (decode_msg pkt 0) = Some t" "t < length (g_threads s3)"
      using local_dest_cong[of s s3] o3(2) assms(4,5) c(5) by (simp_all add: rx_same_def)
    note D = deliver_one[OF c(2) assms(2) t3, of i, folded s4_def]
    have e: "nos_ipc_recv_handler fuel d (Some i) th s = Some (nos_buffer_release (Some p) s4)"
      unfolding s4_def by (rule recv_split[OF assms(1-3) a s3_def])
    have g: "get_buf ?s1 p = get_buf s p" "g_threads s3 = g_threads s" using c(5) bins_cong[OF b1(1)] by simp_all
    have f: "free_bufs s k = free_bufs s3 k + (if k = fst p then 1 else 0)" for k using c(11)[of k] s1(3)[of k] by simp
    have "reception t pkt s (nos_buffer_release (Some p) s4)"
      using c(6) g by (intro reception_done[OF o3 _ g(2) c(7,8) f D refl]) simp
    moreover have "sock_rx (nos_buffer_release (Some p) s4) = (sock_rx s)(d := rest)" using D c(4) assms(3) by (simp add: delivery_def)
    ultimately show ?thesis using e by blast
  qed
qed

section \<open>A burst of packets\<close>

text \<open>A connection that has nothing to send.\<close>

definition rx_idle :: "nat \<Rightarrow> 'z ipc_state_scheme \<Rightarrow> bool" where
  "rx_idle i s \<longleftrightarrow> c_state (get_conn s i) = NOS_IPC_CONNECTED \<and> 0 \<le> c_fd (get_conn s i) \<and> tx_head (get_conn s i) = tx_tail (get_conn s i)"

lemma rx_idle_same: "rx_same s s' \<Longrightarrow> rx_idle i s' = rx_idle i s"
  by (simp add: rx_same_def link_part_def rx_idle_def)

lemma idle_event:
  assumes "rx_idle i s" "0 \<le> d"
  shows "nos_ipc_event_handler fuel d i s = nos_ipc_recv_handler fuel d (Some i) (c_owner_thread (get_conn s i)) s"
proof -
  have "tx_loop k i s = s" for k using assms(1) by (cases k) (simp_all add: rx_idle_def)
  then have "nos_ipc_process_tx i s = s" by (simp add: nos_ipc_process_tx_def Let_def)
  then show ?thesis using assms by (simp add: nos_ipc_event_handler_def rx_idle_def Let_def)
qed

text \<open>The handler of the events of a connection, called \<open>n\<close> times.\<close>

fun rx_events :: "nat \<Rightarrow> nat \<Rightarrow> int \<Rightarrow> nat \<Rightarrow> 'z ipc_state_scheme \<Rightarrow> 'z ipc_state_scheme option" where
  "rx_events fuel 0 d i s = Some s"
| "rx_events fuel (Suc n) d i s = (case nos_ipc_event_handler fuel d i s of None \<Rightarrow> None | Some s1 \<Rightarrow> rx_events fuel n d i s1)"

definition to_thread :: "'z sched_state_scheme \<Rightarrow> nat \<Rightarrow> u8 list \<Rightarrow> bool" where
  "to_thread s t pkt \<longleftrightarrow> local_dest s (decode_msg pkt 0) = Some t"

definition routable :: "'z sched_state_scheme \<Rightarrow> u8 list \<Rightarrow> bool" where
  "routable s pkt \<longleftrightarrow> data_pkt pkt \<and> (\<exists>t < length (g_threads s). to_thread s t pkt)"

definition burst_room :: "u8 list list \<Rightarrow> 'z sched_state_scheme \<Rightarrow> bool" where
  "burst_room pkts s \<longleftrightarrow> (\<exists>k < length (g_bins s). (\<forall>p \<in> set pkts. length p \<le> unat (chunk_size (g_bins s ! k))) \<and> length pkts < free_bufs s k)
     \<and> (\<forall>t < length (g_threads s). length (queue_items (get_thread s t)) + length (filter (to_thread s t) pkts) \<le> 1023)"

text \<open>What the queue of a thread gained.\<close>

definition gained :: "nat \<Rightarrow> bufp list \<Rightarrow> 'z sched_state_scheme \<Rightarrow> 'z sched_state_scheme \<Rightarrow> bool" where
  "gained t qs s s' \<longleftrightarrow> queue_items (get_thread s' t) = queue_items (get_thread s t) @ map Some qs \<and> (\<forall>q \<in> set qs. valid_buf s' q \<and> ref_cnt (get_buf s' q) = 1)"

definition burst_done :: "u8 list list \<Rightarrow> 'z sched_state_scheme \<Rightarrow> 'z sched_state_scheme \<Rightarrow> bool" where
  "burst_done pkts s s' \<longleftrightarrow> (\<forall>t < length (g_threads s). \<exists>qs. gained t qs s s' \<and> subseq (map (msg_bytes s') qs) (filter (to_thread s t) pkts)
     \<and> (burst_room pkts s \<longrightarrow> map (msg_bytes s') qs = filter (to_thread s t) pkts))"

lemma to_thread_same: "rx_same s s' \<Longrightarrow> to_thread s' = to_thread s"
  unfolding to_thread_def[abs_def] rx_same_def using local_dest_cong[of s s'] by presburger

lemma burst_room_step:
  assumes "burst_room (pkt # pkts) s" "to_thread s t0 pkt" "t0 < length (g_threads s)" "reception t0 pkt s s1"
  shows "\<exists>q. arrived t0 pkt q s s1" "burst_room pkts s1"
proof -
  note R = assms(4)[unfolded reception_def]
  note b = assms(1)[unfolded burst_room_def]
  obtain k where k: "k < length (g_bins s)" "\<forall>p \<in> set (pkt # pkts). length p \<le> unat (chunk_size (g_bins s ! k))" "Suc (length pkts) < free_bufs s k" using b by auto
  have q: "length (queue_items (get_thread s t)) + length (filter (to_thread s t) (pkt # pkts)) \<le> 1023" if "t < length (g_threads s)" for t using b that by blast
  have "length (queue_items (get_thread s t0)) + 1 \<le> 1023" using q[OF assms(3)] assms(2) by simp
  then have "rx_room (length pkt) 1 t0 s" using k by (auto simp: rx_room_def)
  then show arr: "\<exists>q. arrived t0 pkt q s s1" using R by blast
  then obtain p where p: "arrived t0 pkt p s s1" ..
  have same: "rx_same s s1" "kept s s1" "free_bufs s k \<le> free_bufs s1 k + 1" using R by blast+
  have n: "length (g_threads s1) = length (g_threads s)" using same(1) by (simp add: rx_same_def)
  have "k < length (g_bins s1)" "\<forall>p \<in> set pkts. length p \<le> unat (chunk_size (g_bins s1 ! k))" "length pkts < free_bufs s1 k" using same(2,3) k by (simp_all add: kept_def)
  moreover have "length (queue_items (get_thread s1 t)) + length (filter (to_thread s t) pkts) \<le> 1023" if "t < length (g_threads s)" for t
    using q[OF that] p assms(2) by (cases "t = t0") (auto simp: arrived_def split: if_splits)
  ultimately show "burst_room pkts s1" using to_thread_same[OF same(1)] n by (auto simp: burst_room_def)
qed

lemma burst_step:
  assumes "reception t0 pkt s s1" "to_thread s t0 pkt" "t0 < length (g_threads s)" "burst_done pkts s1 s'" "kept s1 s'"
  shows "burst_done (pkt # pkts) s s'"
  unfolding burst_done_def
proof (intro allI impI)
  fix t assume t: "t < length (g_threads s)"
  note R = assms(1)[unfolded reception_def]
  have same: "rx_same s s1" using R by blast
  note tt = to_thread_same[OF same]
  have "t < length (g_threads s1)" using same t by (simp add: rx_same_def)
  then obtain qs where qs: "gained t qs s1 s'" "subseq (map (msg_bytes s') qs) (filter (to_thread s t) pkts)"
    "burst_room pkts s1 \<longrightarrow> map (msg_bytes s') qs = filter (to_thread s t) pkts" using assms(4) unfolding burst_done_def tt by blast
  have room: "burst_room pkts s1" "\<exists>q. arrived t0 pkt q s s1" if "burst_room (pkt # pkts) s" using burst_room_step[OF that assms(2,3,1)] by blast+
  have uniq: "to_thread s t pkt \<longleftrightarrow> t = t0" using assms(2) by (auto simp: to_thread_def)
  show "\<exists>qs. gained t qs s s' \<and> subseq (map (msg_bytes s') qs) (filter (to_thread s t) (pkt # pkts))
     \<and> (burst_room (pkt # pkts) s \<longrightarrow> map (msg_bytes s') qs = filter (to_thread s t) (pkt # pkts))"
  proof (cases "\<exists>q. arrived t0 pkt q s s1")
    case True
    then obtain q where q: "arrived t0 pkt q s s1" ..
    have held: "get_buf s' q = get_buf s1 q" "valid_buf s' q" using q assms(5) by (auto simp: arrived_def kept_def)
    then have bytes: "msg_bytes s' q = pkt" using q by (simp add: arrived_def msg_bytes_def msg_header_def buf_bytes_def)
    show ?thesis
    proof (cases "t = t0")
      case True
      have "gained t (q # qs) s s'" using qs(1) q held True by (simp add: gained_def arrived_def)
      then show ?thesis using qs(2,3) bytes uniq True room(1) by (intro exI[of _ "q # qs"]) simp
    next
      case False
      then have "gained t qs s s'" using qs(1) q by (simp add: gained_def arrived_def)
      then show ?thesis using qs(2,3) uniq False room(1) by (intro exI[of _ qs]) simp
    qed
  next
    case False
    then have "g_threads s1 = g_threads s" using R by blast
    then have "gained t qs s s'" using qs(1) by (simp add: gained_def)
    moreover have "\<not> burst_room (pkt # pkts) s" using False room(2) by blast
    ultimately show ?thesis using qs(2) by (intro exI[of _ qs]) (auto intro: list_emb_Cons)
  qed
qed

lemma kept_trans: "kept s s1 \<Longrightarrow> kept s1 s2 \<Longrightarrow> kept s s2"
  unfolding kept_def by (metis (no_types))

lemma rx_burst:
  assumes "rx_ok s" "rx_idle i s" "0 \<le> d" "sock_rx s d = pkts @ rest" "\<forall>pkt \<in> set pkts. routable s pkt"
  shows "\<exists>s'. rx_events fuel (length pkts) d i s = Some s' \<and> rx_ok s' \<and> rx_same s s' \<and> kept s s' \<and> sock_rx s' = (sock_rx s)(d := rest) \<and> burst_done pkts s s'"
  using assms
proof (induction pkts arbitrary: s)
  case Nil
  have "kept s s" by (simp add: kept_def)
  moreover have "burst_done [] s s" by (simp add: burst_done_def gained_def)
  moreover have "sock_rx s = (sock_rx s)(d := rest)" using Nil(4) by (simp add: fun_upd_idem)
  ultimately show ?case using Nil(1) by simp
next
  case (Cons pkt pkts)
  obtain t where t: "data_pkt pkt" "t < length (g_threads s)" "to_thread s t pkt" using Cons.prems(5) by (auto simp: routable_def)
  have rx: "sock_rx s d = pkt # pkts @ rest" using Cons.prems(4) by simp
  obtain s1 where s1: "nos_ipc_event_handler fuel d i s = Some s1" "reception t pkt s s1" "sock_rx s1 = (sock_rx s)(d := pkts @ rest)"
    using recv_one[OF Cons.prems(1) t(1) rx t(3)[unfolded to_thread_def] t(2)] idle_event[OF Cons.prems(2,3)] by metis
  have R: "rx_ok s1" "rx_same s s1" "kept s s1" using s1(2) by (simp_all add: reception_def)
  have "\<forall>p \<in> set pkts. routable s1 p"
    using Cons.prems(5) to_thread_same[OF R(2)] R(2) by (simp add: routable_def rx_same_def)
  moreover have "sock_rx s1 d = pkts @ rest" "rx_idle i s1" using s1(3) rx_idle_same[OF R(2)] Cons.prems(2) by simp_all
  ultimately obtain s' where s': "rx_events fuel (length pkts) d i s1 = Some s'" "rx_ok s'" "rx_same s1 s'" "kept s1 s'" "sock_rx s' = (sock_rx s1)(d := rest)"
    "burst_done pkts s1 s'" using Cons.IH[OF R(1) _ Cons.prems(3)] by blast
  have "sock_rx s' = (sock_rx s)(d := rest)" using s'(5) s1(3) by simp
  moreover have "rx_events fuel (length (pkt # pkts)) d i s = Some s'" using s1(1) s'(1) by simp
  ultimately show ?case using s'(2) burst_step[OF s1(2) t(3,2) s'(6,4)] rx_same_trans[OF R(2) s'(3)] kept_trans[OF R(3) s'(4)] by blast
qed

section \<open>From the queue of one node to the queues of the other\<close>

text \<open>The kernel puts what one node sent on its end of a connection, the descriptor \<open>da\<close>, into the receive buffer of the other end, the descriptor \<open>db\<close>.\<close>

definition wire_pkts :: "int \<Rightarrow> 'z ipc_state_scheme \<Rightarrow> 'z ipc_state_scheme \<Rightarrow> u8 list list" where
  "wire_pkts da a a' = map snd (filter (\<lambda>x. fst x = da) (drop (length (sent_pkts a)) (sent_pkts a')))"

definition carry :: "int \<Rightarrow> int \<Rightarrow> 'z ipc_state_scheme \<Rightarrow> 'z ipc_state_scheme \<Rightarrow> 'y ipc_state_scheme \<Rightarrow> 'y ipc_state_scheme" where
  "carry da db a a' b = b\<lparr>sock_rx := (sock_rx b)(db := sock_rx b db @ wire_pkts da a a')\<rparr>"

lemma tx_one_sends:
  assumes "tx_ready i s" "tx_items (get_conn s i) = Some p # bs" "tx_one i p s = (True, s')" "c_shm (get_conn s i) = None"
  shows "sent_pkts s' = sent_pkts s @ [(c_fd (get_conn s i), msg_bytes s p)]"
proof -
  let ?n = "full_len (msg_header s p)"
  obtain r s1 where t: "try_shm i p s = (r, s1)" by fastforce
  note ts = try_shm_spec[OF assms(1,2) t]
  have r: "r \<noteq> NOS_OK" using ts(5) assms(4) by auto
  have g1: "get_conn s1 i = get_conn s i" by (rule get_conn_cong[OF ts(2)])
  obtain out s2 where o: "sock_send (c_fd (get_conn s1 i)) (buf_bytes s1 p ?n) s1 = (out, s2)" by fastforce
  have out: "out = Sent" using assms(3) t r o by (cases out) (simp_all add: tx_one_def Let_def)
  have "s' = tx_done i p ?n (upd_stats (\<lambda>st. st\<lparr>st_tx_packets := st_tx_packets st + 1, st_tx_bytes := st_tx_bytes st + of_nat ?n\<rparr>) s2)"
    using assms(3) t r o out by (simp add: tx_one_def Let_def)
  then have "sent_pkts s' = sent_pkts s2" by (simp add: tx_done_def)
  then show ?thesis using ipc_sock_send(5)[OF o] out ts(3) g1 bytes_cong[OF ts(1)] by (simp add: msg_bytes_def)
qed

text \<open>Without a shared ring all messages that leave the queue go through the socket, one packet each.\<close>

lemma tx_loop_sends:
  assumes "tx_ready i s" "c_shm (get_conn s i) = None"
  shows "\<exists>n \<le> length (tx_items (get_conn s i)). tx_items (get_conn (tx_loop k i s) i) = drop n (tx_items (get_conn s i))
     \<and> sent_pkts (tx_loop k i s) = sent_pkts s @ map (\<lambda>b. (c_fd (get_conn s i), msg_bytes s (the b))) (take n (tx_items (get_conn s i)))"
  using assms
proof (induction k arbitrary: s)
  case 0
  show ?case by (intro exI[of _ 0]) simp
next
  case (Suc k)
  let ?c = "get_conn s i"
  have ok: "tx_ok ?c" "queue_held s (tx_items ?c)" using Suc.prems(1) by (simp_all add: tx_ready_def)
  show ?case
  proof (cases "tx_items ?c")
    case Nil
    then show ?thesis using tx_items_empty[OF ok(1)] by simp
  next
    case (Cons b bs)
    have ne: "tx_head ?c \<noteq> tx_tail ?c" using Cons tx_items_empty[OF ok(1)] by auto
    have hd: "tx_queue ?c ! tx_head ?c = b" using tx_pop_spec[OF ok(1) ne] Cons by simp
    obtain p where b: "b = Some p" using ok(2) Cons by (cases b) (auto simp: queue_held_def)
    note it = Cons[unfolded b]
    obtain go s1 where t: "tx_one i p s = (go, s1)" by fastforce
    have l: "tx_loop (Suc k) i s = (if go then tx_loop k i s1 else s1)" using ne hd b t by simp
    show ?thesis
    proof (cases go)
      case True
      then have t1: "tx_one i p s = (True, s1)" using t by simp
      note o = tx_one_go[OF Suc.prems(1) it t1]
      have s1: "tx_ready i s1" "c_shm (get_conn s1 i) = None" "tx_items (get_conn s1 i) = bs" "c_fd (get_conn s1 i) = c_fd ?c" using o Suc.prems(2) by auto
      from Suc.IH[OF s1(1,2)] obtain n where n: "n \<le> length bs" "tx_items (get_conn (tx_loop k i s1) i) = drop n bs"
        "sent_pkts (tx_loop k i s1) = sent_pkts s1 @ map (\<lambda>b. (c_fd ?c, msg_bytes s1 (the b))) (take n bs)" unfolding s1(3,4) by blast
      have "None \<notin> set bs" using ok(2) it by (simp add: queue_held_def)
      then have "msg_bytes s1 (the b) = msg_bytes s (the b)" if "b \<in> set (take n bs)" for b
        using o in_set_takeD[OF that] by (cases b) auto
      then have "map (\<lambda>b. (c_fd ?c, msg_bytes s1 (the b))) (take n bs) = map (\<lambda>b. (c_fd ?c, msg_bytes s (the b))) (take n bs)" by simp
      then show ?thesis using n tx_one_sends[OF Suc.prems(1) it t1 Suc.prems(2)] l True it by (intro exI[of _ "Suc n"]) simp
    next
      case False
      then have t0: "tx_one i p s = (False, s1)" using t by simp
      note st = tx_one_stop[OF Suc.prems(1) it t0]
      then have "tx_items (get_conn s1 i) = tx_items ?c" by (auto simp: tx_items_def)
      then show ?thesis using st l False by (intro exI[of _ 0]) simp
    qed
  qed
qed


section \<open>The way back of a reply\<close>

lemma decode_take_drop: "off + sizeof_msg \<le> length c \<Longrightarrow> sizeof_msg \<le> n \<Longrightarrow> decode_msg (take n (drop off c)) 0 = decode_msg c off"
proof -
  assume l: "off + sizeof_msg \<le> length c" "sizeof_msg \<le> n"
  have "get_byte (take n (drop off c)) k = get_byte c (off + k)" if "k < 32" for k
  proof -
    have "off + k < length c" "k < length c - off" "k < n" using l that unfolding sizeof_msg_def by linarith+
    then show ?thesis by (simp add: get_byte_def)
  qed
  then show ?thesis by (simp add: decode_msg_def get_u16_def get_u32_def add.commute[of _ off] add.assoc)
qed

lemma fits_room:
  assumes "fits s p"
  shows "nat (data (get_buf s p) - raw_data (get_buf s p)) + sizeof_msg \<le> length (chunk (get_buf s p))"
  using assms by (simp add: fits_def msg_bytes_def buf_bytes_def full_len_def sizeof_msg_def Let_def)

lemma fits_header: "fits s p \<Longrightarrow> decode_msg (msg_bytes s p) 0 = msg_header s p"
  using decode_take_drop[OF fits_room, of s p "full_len (msg_header s p)"] by (simp add: msg_bytes_def buf_bytes_def msg_header_def full_len_def Let_def)

text \<open>A header whose length does not change is exchanged; the payload stays.\<close>

lemma set_header_bytes:
  assumes "valid_buf s p" "fits s p" "payload_len (f (msg_header s p)) = payload_len (msg_header s p)"
  shows "msg_header (set_header p f s) p = f (msg_header s p)" "fits (set_header p f s) p"
    "decode_msg (msg_bytes (set_header p f s) p) 0 = f (msg_header s p)" "drop sizeof_msg (msg_bytes (set_header p f s) p) = drop sizeof_msg (msg_bytes s p)"
    "length (msg_bytes (set_header p f s) p) = full_len (msg_header s p)"
proof -
  let ?b = "get_buf s p" and ?s = "set_header p f s"
  let ?off = "nat (data ?b - raw_data ?b)" and ?h = "f (msg_header s p)"
  let ?c = "write_bytes (chunk ?b) ?off (encode_msg ?h)"
  note r = fits_room[OF assms(2)]
  have g: "get_buf ?s p = ?b\<lparr>chunk := ?c\<rparr>" using get_buf_upd_buf[OF assms(1)] by (simp add: set_header_def msg_header_def Let_def)
  have fl: "full_len ?h = full_len (msg_header s p)" using assms(3) by (simp add: full_len_def)
  show h: "msg_header ?s p = ?h" using decode_write_encode[OF r] g by (simp add: msg_header_def Let_def)
  have m: "msg_bytes ?s p = take (full_len ?h) (drop ?off ?c)" using g by (simp add: msg_bytes_def h buf_bytes_def)
  have m0: "msg_bytes s p = take (full_len ?h) (drop ?off (chunk ?b))" by (simp add: msg_bytes_def fl buf_bytes_def Let_def)
  have l0: "length (msg_bytes s p) = full_len ?h" using assms(2) fl by (simp add: fits_def)
  then show l: "length (msg_bytes ?s p) = full_len (msg_header s p)" using m m0 fl by simp
  then show "fits ?s p" using h fl by (simp add: fits_def)
  show "decode_msg (msg_bytes ?s p) 0 = ?h"
    unfolding m using decode_take_drop[of ?off ?c "full_len ?h"] decode_write_encode[OF r] r by (simp add: full_len_def)
  have "drop sizeof_msg (drop ?off ?c) = drop sizeof_msg (drop ?off (chunk ?b))"
    by (intro nth_equalityI) (simp_all add: write_bytes_def length_encode_msg)
  then show "drop sizeof_msg (msg_bytes ?s p) = drop sizeof_msg (msg_bytes s p)" unfolding m m0 by (simp add: drop_take)
qed

lemma set_header_ready:
  assumes "tx_ready i s" "tx_items (get_conn s i) = []" "valid_buf s p"
  shows "tx_ready i (set_header p f s)" "get_conn (set_header p f s) i = get_conn s i" "valid_buf (set_header p f s) p" "ref_cnt (get_buf (set_header p f s) p) = ref_cnt (get_buf s p)"
    "sent_pkts (set_header p f s) = sent_pkts s" "sys_calls (set_header p f s) (sys_pos (set_header p f s)) = sys_calls s (sys_pos s)"
proof -
  show c: "get_conn (set_header p f s) i = get_conn s i" by (simp add: set_header_def get_conn_def)
  have "pool_ok (set_header p f s)" unfolding set_header_def using assms(1,3) by (intro pool_ok_upd_buf) (auto simp: tx_ready_def Let_def)
  moreover have "shm_objs (set_header p f s) = shm_objs s" by (simp add: set_header_def)
  note chan_ok_cong[OF this]
  ultimately show "tx_ready i (set_header p f s)" using assms(1,2) c by (simp add: tx_ready_def queue_held_def set_header_def split: option.splits)
  show "valid_buf (set_header p f s) p" "ref_cnt (get_buf (set_header p f s) p) = ref_cnt (get_buf s p)"
    using assms(3) get_buf_upd_buf[OF assms(3)] by (simp_all add: set_header_def Let_def)
qed (simp_all add: set_header_def)

text \<open>A message for an empty queue is sent at once when the socket takes it.\<close>

lemma enqueue_on_idle:
  assumes "tx_ready i s" "rx_idle i s" "c_shm (get_conn s i) = None" "valid_buf s p" "1 \<le> ref_cnt (get_buf s p)" "fits s p"
    and "sys_send (sys_calls s (sys_pos s)) = Sent"
  shows "\<exists>s1. tx_enqueue i p s = (NOS_OK, s1) \<and> c_state (get_conn s1 i) = NOS_IPC_CONNECTED \<and> 0 \<le> c_fd (get_conn s1 i)
     \<and> sent_pkts (nos_ipc_process_tx i s1) = sent_pkts s @ [(c_fd (get_conn s i), msg_bytes s p)]"
proof -
  let ?c = "get_conn s i"
  have r: "i < length (g_remote_conns s)" "tx_ok ?c" using assms(1) by (simp_all add: tx_ready_def)
  have e: "tx_items ?c = []" using tx_items_empty[OF r(2)] assms(2) by (simp add: rx_idle_def)
  obtain s1 c1 where q: "tx_enqueue i p s = (NOS_OK, s1)" "get_conn s1 i = c1" "tx_put (Some p) ?c = Some c1" "s1 = upd_conn i (\<lambda>_. c1) (nos_buffer_retain (Some p) s)"
    "tx_ok c1" "tx_items c1 = [Some p]" "\<And>q. get_buf s1 q = (if q = p then (get_buf s p)\<lparr>ref_cnt := ref_cnt (get_buf s p) + 1\<rparr> else get_buf s q)"
    using tx_enqueue_spec(2)[OF r assms(4)] e by auto
  have rdy: "tx_ready i s1" using assms(5) e by (intro enqueue_ready[OF assms(1,4,5,6) _ q(1)]) simp
  have c1: "c_state c1 = c_state ?c" "c_fd c1 = c_fd ?c" "c_shm c1 = None" using q(3) assms(3) by (auto simp: tx_put_def Let_def split: if_splits)
  have m: "msg_bytes s1 p = msg_bytes s p" using q(7)[of p] by (simp add: msg_bytes_def msg_header_def buf_bytes_def Let_def)
  have sys: "sys_calls s1 (sys_pos s1) = sys_calls s (sys_pos s)" "sent_pkts s1 = sent_pkts s" by (simp_all add: q(4) nos_buffer_retain_def)
  obtain go s2 where t: "tx_one i p s1 = (go, s2)" by fastforce
  have "try_shm i p s1 = (NOS_ERR, s1)" using c1(3) q(2) by (simp add: try_shm_def Let_def)
  then have go: "tx_one i p s1 = (True, s2)" using t sys(1) assms(7) by (simp add: tx_one_def sock_send_def next_sys_def Let_def)
  have it: "tx_items (get_conn s1 i) = Some p # []" using q(2,6) by simp
  have shm: "c_shm (get_conn s1 i) = None" using c1(3) q(2) by simp
  note snt = tx_one_sends[OF rdy it go shm]
  have ne: "tx_head c1 \<noteq> tx_tail c1" using tx_items_empty[OF q(5)] q(6) by auto
  have "tx_queue c1 ! tx_head c1 = Some p" using tx_pop_spec[OF q(5) ne] q(6) by simp
  then have "tx_loop 1 i s1 = s2" using ne go q(2) by simp
  moreover have "ipc_queue_len c1 = 1" using length_tx_items[OF q(5)] q(6) by simp
  ultimately have "nos_ipc_process_tx i s1 = s2" using c1 q(2) assms(2) by (simp add: nos_ipc_process_tx_def Let_def rx_idle_def)
  then show ?thesis using q(1,2) c1 assms(2) snt sys(2) m by (simp add: rx_idle_def)
qed

lemma send_on_idle:
  assumes "tx_ready i s" "rx_idle i s" "c_shm (get_conn s i) = None" "valid_buf s p" "1 \<le> ref_cnt (get_buf s p)" "fits s p"
    and "sys_send (sys_calls s (sys_pos s)) = Sent"
  shows "\<exists>s'. nos_ipc_send_reply (Some i) (generation (get_conn s i)) (Some p) s = (NOS_OK, s') \<and> sent_pkts s' = sent_pkts s @ [(c_fd (get_conn s i), msg_bytes s p)]"
    "find_idx (\<lambda>c. c_uds_path c = path) (g_remote_conns s) (g_remote_conn_count s) = Some i \<Longrightarrow>
      \<exists>s'. nos_ipc_send_enqueue node path p s = (NOS_OK, s') \<and> sent_pkts s' = sent_pkts s @ [(c_fd (get_conn s i), msg_bytes s p)]"
  using enqueue_on_idle[OF assms] assms(2)
  by (auto simp: nos_ipc_send_reply_def nos_ipc_send_enqueue_def get_or_create_conn_def rx_idle_def Let_def)


section \<open>A request and its context\<close>

lemma reg_view_dest: "reg_view s (dst_service h) = Some (Route_Local prov (Some t)) \<Longrightarrow> \<not> is_reply_msg h \<Longrightarrow> local_dest s h = Some t"
  by (auto simp: reg_view_def entry_route_def local_dest_def split: if_splits)

lemma reg_view_same: "rx_same s s' \<Longrightarrow> reg_view s' = reg_view s"
  by (auto simp: rx_same_def same_routes_def reg_view_def find_service_entry_def get_entry_def fun_eq_iff)

text \<open>A request is delivered with a context that says where its answer belongs.\<close>

lemma recv_request:
  assumes "rx_ok s" "data_pkt pkt" "sock_rx s d = pkt # rest" "flags (decode_msg pkt 0) AND NOS_MSG_F_REPLY = 0"
    and "reg_view s (dst_service (decode_msg pkt 0)) = Some (Route_Local prov (Some t))" "t < length (g_threads s)" "rx_room (length pkt) 1 t s"
    and "sys_calloc (sys_calls s (sys_pos s + 1)) = Some rc"
  shows "\<exists>s' q. nos_ipc_recv_handler fuel d (Some i) th s = Some s' \<and> arrived t pkt q s s' \<and> reply_ctx (get_buf s' q) = Some rc
     \<and> g_reply_ctxs s' rc = Some \<lparr>rc_ref_cnt = 1, ipc_conn = Some i, ipc_generation = generation (get_conn s i),
          corr_id = seq (decode_msg pkt 0), requester_component = src_component (decode_msg pkt 0)\<rparr>"
proof -
  let ?h = "decode_msg pkt 0" and ?s1 = "s\<lparr>sys_pos := sys_pos s + 1\<rparr>" and ?n = "of_nat (length pkt) :: u32"
  have nr: "\<not> is_reply_msg ?h" using assms(4) by (simp add: is_reply_msg_def)
  note l = data_pkt_length[OF assms(2)]
  obtain s' q where s': "nos_ipc_recv_handler fuel d (Some i) th s = Some s'" "arrived t pkt q s s'"
    using recv_one[OF assms(1-3) reg_view_dest[OF assms(5) nr] assms(6), of fuel i th] assms(7) by (auto simp: reception_def)
  have b1: "g_bins ?s1 = g_bins s" "g_threads ?s1 = g_threads s" by simp_all
  note s1 = same_bins[OF b1]
  have ok1: "rx_ok ?s1" using s1(1) assms(1) by simp
  have "can_take (length pkt) t s" using assms(7) by (auto simp: can_take_def rx_room_def)
  then have "can_take (length pkt) t ?s1" unfolding s1(4) .
  then obtain p s2 where a: "nos_buffer_alloc ?n 0 ?s1 = (Some p, s2)" using alloc_fails_full[OF ok1 assms(2)] by (metis not_None_eq prod.collapse)
  define s3 where "s3 = put_bytes p pkt (sock_discard d s2)"
  note c = recv_copy[OF ok1 assms(2) a s3_def]
  have same: "rx_same s s3" by (rule rx_same_trans[OF rx_same_parts(2) c(3)])
  have th3: "g_threads s3 = g_threads s" using c(5) by simp
  obtain k where k: "k < length (g_bins s)" "length pkt \<le> unat (chunk_size (g_bins s ! k))" "1 < free_bufs s k" "length (queue_items (get_thread s t)) < 1023"
    using assms(7) by (auto simp: rx_room_def)
  have f3: "free_bufs s k = free_bufs s3 k + (if k = fst p then 1 else 0)" using c(11) s1(3) by simp
  have "k < length (g_bins s3)" "length pkt \<le> unat (chunk_size (g_bins s3 ! k))" using k(1,2) c(1) by (simp_all add: only_buf_def)
  moreover have "0 < free_bufs s3 k" using f3 k(3) by (simp split: if_splits)
  ultimately have "can_take (length pkt) t s3" using k(4) th3 by (auto simp: can_take_def)
  then obtain r s4 where b: "nos_buffer_alloc ?n 0 s3 = (Some r, s4)" using alloc_fails_full[OF c(2) assms(2)] by (metis not_None_eq prod.collapse)
  define s5 where "s5 = ipc_deliver_rx_data (Some pkt) ?n (Some i) s3"
  have ok3: "pool_ok s3" "bufs_ok s3" "queue_ok (get_thread s3 t)" "t < length (g_threads s3)" using c(2) assms(6) th3 by (simp_all add: rx_ok_def)
  have pl: "length pkt = full_len ?h" "payload_len ?h \<le> NOS_IPC_MAX_PAYLOAD_LEN" using assms(2) by (simp_all add: data_pkt_def Let_def)
  have rv: "reg_view s3 (dst_service ?h) = Some (Route_Local prov (Some t))" using assms(5) reg_view_same[OF same] by simp
  have q3: "length (queue_items (get_thread s3 t)) < 1023" using k(4) th3 by simp
  have ca: "sys_calloc (sys_calls s3 (sys_pos s3)) = Some rc" using assms(8) c(13,14) by simp
  have gen: "generation (get_conn s3 i) = generation (get_conn s i)" using same by (simp add: rx_same_def link_part_def)
  note D = ipc_deliver_correct[OF ok3(1,2) refl pl assms(4) rv ok3(4,3) q3 b ca s5_def, unfolded gen]
  have e: "s' = nos_buffer_release (Some p) s5" using recv_split[OF assms(1-3) a s3_def, of fuel i th] s'(1) by (simp add: s5_def)
  have "queue_items (get_thread s' t) = queue_items (get_thread s t) @ [Some r]" using D th3 by (simp add: e)
  then have q: "q = r" using s'(2) by (simp add: arrived_def)
  have "local_dest s3 ?h = Some t" by (rule reg_view_dest[OF rv nr])
  then have dl: "delivery t pkt s3 s5" using deliver_one[OF c(2) assms(2) _ ok3(4), of i] by (simp add: s5_def)
  then have k35: "kept s3 s5" "pool_ok s5" "bufs_ok s5" by (simp_all add: delivery_def rx_ok_def)
  have p5: "valid_buf s5 p" "get_buf s5 p = get_buf s3 p" using k35(1) c(7,8) by (auto simp: kept_def)
  have "ref_cnt (get_buf s3 r) \<le> 0" using alloc_frame(2)[OF b ok3(1)] .
  then have rp: "r \<noteq> p" using c(8) by auto
  note rel = only_buf_release[OF k35(2,3) p5(1)]
  have "get_buf s' r = get_buf s5 r" using rel(1) rp by (simp add: only_buf_def e)
  moreover have "g_reply_ctxs s' = g_reply_ctxs s5" using p5(2) c(12) by (simp add: e nos_buffer_release_def nos_reply_ctx_release_def Let_def upd_buf_def upd_bin_def)
  ultimately show ?thesis using s' q D by auto
qed


section \<open>Two concrete nodes\<close>

definition demo_sender :: ipc_state where
  "demo_sender = put_bytes (0, 1) demo_packet demo_up"

definition demo_receiver :: ipc_state where
  "demo_receiver = demo_ipc ((replicate MAX_REMOTE_CONNS null_conn)[0 := demo_conn\<lparr>tx_tail := 0\<rparr>]) 1"

lemma demo_sender_buf: "msg_bytes (put_bytes (0, 1) demo_packet demo_held) (0, 1) = demo_packet" "full_len (msg_header (put_bytes (0, 1) demo_packet demo_held) (0, 1)) = 32"
  "msg_header (put_bytes (0, 1) demo_packet demo_held) (0, 1) = decode_msg demo_packet 0" "ref_cnt (get_buf (put_bytes (0, 1) demo_packet demo_held) (0, 1)) = 2"
  by code_simp+

lemma demo_sender_ok:
  shows "tx_ready 0 demo_sender" "get_conn demo_sender 0 = demo_conn" "msg_bytes demo_sender (0, 1) = demo_packet"
proof -
  have g: "g_bins demo_sender = g_bins (put_bytes (0, 1) demo_packet demo_held)" using demo_up_conn(3) by (simp add: demo_sender_def put_bytes_def upd_buf_def upd_bin_def)
  have v: "valid_buf demo_up (0, 1)" by (rule demo_up_buf(2))
  show c: "get_conn demo_sender 0 = demo_conn" using demo_up_conn(1) by (simp add: demo_sender_def put_bytes_def get_conn_def)
  have b: "msg_bytes demo_sender p = msg_bytes (put_bytes (0, 1) demo_packet demo_held) p" "msg_header demo_sender p = msg_header (put_bytes (0, 1) demo_packet demo_held) p" for p
    using bytes_cong[OF g] bins_cong[OF g] by (simp_all add: msg_bytes_def buf_bytes_def)
  then show m: "msg_bytes demo_sender (0, 1) = demo_packet" using demo_sender_buf(1) by simp
  have "pool_ok demo_sender" unfolding demo_sender_def put_bytes_def by (rule pool_ok_upd_buf[OF demo_up_buf(1) v]) simp_all
  moreover have "ref_cnt (get_buf demo_sender (0, 1)) = 2" "valid_buf demo_sender (0, 1)"
    using get_buf_upd_buf[OF v] demo_up_buf(3) v by (simp_all add: demo_sender_def put_bytes_def)
  moreover have "length (g_remote_conns demo_sender) = 16" using demo_up_conn(4) by (simp add: demo_sender_def put_bytes_def)
  moreover have "fits demo_sender (0, 1)" using m b(2) demo_sender_buf(2) demo_packet_header(1) by (simp add: fits_def)
  moreover have "c_shm demo_conn = None" by (simp add: demo_conn_def null_conn_def)
  ultimately show "tx_ready 0 demo_sender" using c demo_conn_ok(1,2) by (simp add: tx_ready_def queue_held_def)
qed

lemma demo_receiver_ok: "rx_ok demo_receiver" "rx_idle 0 demo_receiver" "routable demo_receiver demo_packet" "sock_rx demo_receiver 7 = []"
proof -
  have g: "g_bins demo_receiver = g_bins demo_up" "g_threads demo_receiver = [demo_thread]" "get_conn demo_receiver 0 = demo_conn\<lparr>tx_tail := 0\<rparr>"
    by (simp_all add: demo_receiver_def demo_up_def demo_ipc_def get_conn_def MAX_REMOTE_CONNS_def)
  show "rx_ok demo_receiver"
    using pool_ok_cong[OF g(1)] bins_cong[OF g(1)] demo_up_buf(1) demo_up_bufs_ok demo_thread_queue g(2) by (simp add: rx_ok_def bufs_ok_def)
  show "rx_idle 0 demo_receiver" using g(3) by (simp add: rx_idle_def demo_conn_def null_conn_def)
  have h: "magic (decode_msg demo_packet 0) = NOS_IPC_MAGIC" "\<not> ipc_is_ctrl_msg (decode_msg demo_packet 0)" "\<not> is_reply_msg (decode_msg demo_packet 0)"
    by code_simp+
  have "local_dest demo_receiver (decode_msg demo_packet 0) = Some 0"
    using h(3) demo_packet_header(3)
    by (simp add: local_dest_def find_service_entry_def find_idx_def demo_receiver_def demo_ipc_def get_entry_def null_entry_def)
  then show "routable demo_receiver demo_packet"
    using h(1,2) demo_packet_header g(2) by (simp add: routable_def data_pkt_def to_thread_def full_len_def sizeof_msg_def NOS_IPC_MAX_PAYLOAD_LEN_def Let_def)
  show "sock_rx demo_receiver 7 = []" by (simp add: demo_receiver_def demo_ipc_def)
qed


text \<open>The answer to request 6 of component 4, whose node has all its buffers.\<close>

definition demo_answering :: ipc_state where
  "demo_answering = put_bytes (0, 1) demo_packet (demo_receiver\<lparr>g_reply_ctxs := [3 \<mapsto> \<lparr>rc_ref_cnt = 1, ipc_conn = Some 0, ipc_generation = 1, corr_id = 6, requester_component = 4\<rparr>]\<rparr>)"

definition demo_asking :: ipc_state where
  "demo_asking = demo_receiver\<lparr>g_bins := g_bins demo_pool, g_comps := [4 \<mapsto> null_component\<lparr>comp_id := 4\<rparr>],
     loaded_info := (replicate MAX_COMPONENTS_PER_NODE null_info)[0 := null_info\<lparr>li_comp := Some 4, li_owner_thread := Some 0\<rparr>], loaded_count := 1\<rparr>"

lemma demo_free: "free_bufs demo_pool 0 = 2" "chunk_size (g_bins demo_pool ! 0) = 64" "0 < length (g_bins demo_pool)"
  by code_simp+

lemma demo_asking_ok: "rx_ok demo_asking" "rx_idle 0 demo_asking" "sock_rx demo_asking 7 = []" "0 < length (g_threads demo_asking)"
  "find_loaded_component_info demo_asking 4 = Some 0" "li_owner_thread (loaded_info demo_asking ! 0) = Some 0" "rx_room 32 1 0 demo_asking"
proof -
  have g: "g_bins demo_asking = g_bins demo_pool" "g_threads demo_asking = [demo_thread]" "get_conn demo_asking 0 = get_conn demo_receiver 0" "sock_rx demo_asking = sock_rx demo_receiver"
    by (simp_all add: demo_asking_def demo_receiver_def demo_ipc_def get_conn_def)
  show "rx_ok demo_asking" using pool_ok_cong[of demo_asking demo_pool] g demo_pool_ok demo_bufs_ok demo_thread_queue
    by (simp add: rx_ok_def bufs_ok_iff pool_ok_def)
  show "rx_idle 0 demo_asking" "sock_rx demo_asking 7 = []" "0 < length (g_threads demo_asking)" using g demo_receiver_ok(2,4) by (simp_all add: rx_idle_def)
  show "find_loaded_component_info demo_asking 4 = Some 0" "li_owner_thread (loaded_info demo_asking ! 0) = Some 0"
    by (simp_all add: demo_asking_def find_loaded_component_info_def find_idx_def get_comp_def null_info_def MAX_COMPONENTS_PER_NODE_def)
  have "free_bufs demo_asking 0 = 2" using g(1) demo_free(1) by (simp add: free_bufs_def)
  then show "rx_room 32 1 0 demo_asking" using g(1,2) demo_free(2,3) demo_thread_queue by (simp add: rx_room_def) (intro exI[of _ 0], simp)
qed

lemma demo_answering_ok: "tx_ready 0 demo_answering" "rx_idle 0 demo_answering" "get_conn demo_answering 0 = demo_conn\<lparr>tx_tail := 0\<rparr>"
  "valid_buf demo_answering (0, 1)" "1 \<le> ref_cnt (get_buf demo_answering (0, 1))" "fits demo_answering (0, 1)" "msg_header demo_answering (0, 1) = decode_msg demo_packet 0"
proof -
  let ?r = "demo_receiver\<lparr>g_reply_ctxs := [3 \<mapsto> \<lparr>rc_ref_cnt = 1, ipc_conn = Some 0, ipc_generation = 1, corr_id = 6, requester_component = 4\<rparr>]\<rparr>"
  have b: "g_bins ?r = g_bins demo_held" by (simp add: demo_receiver_def demo_ipc_def)
  then have g: "g_bins demo_answering = g_bins (put_bytes (0, 1) demo_packet demo_held)" by (simp add: demo_answering_def put_bytes_def upd_buf_def upd_bin_def)
  have v: "valid_buf ?r (0, 1)" using bins_cong[of ?r demo_up] b demo_up_conn(3) demo_up_buf(2) by simp
  note c = bytes_cong[OF g] bins_cong[OF g]
  show h: "msg_header demo_answering (0, 1) = decode_msg demo_packet 0" using conjunct2[OF conjunct2[OF c(2)]] demo_sender_buf(3) by (rule trans)
  show f: "fits demo_answering (0, 1)" using c(1) h demo_sender_buf demo_packet_header(1) by (simp add: fits_def)
  show vb: "valid_buf demo_answering (0, 1)" using v by (simp add: demo_answering_def put_bytes_def)
  have "get_buf demo_answering (0, 1) = get_buf (put_bytes (0, 1) demo_packet demo_held) (0, 1)" using c(2) by blast
  then show "1 \<le> ref_cnt (get_buf demo_answering (0, 1))" using demo_sender_buf(4) by simp
  show gc: "get_conn demo_answering 0 = demo_conn\<lparr>tx_tail := 0\<rparr>" "rx_idle 0 demo_answering"
    by (simp_all add: demo_answering_def put_bytes_def get_conn_def demo_receiver_def demo_ipc_def MAX_REMOTE_CONNS_def rx_idle_def demo_conn_def null_conn_def)
  have "pool_ok ?r" using pool_ok_cong[of ?r demo_up] b demo_up_conn(3) demo_up_buf(1) by simp
  then have "pool_ok demo_answering" unfolding demo_answering_def put_bytes_def by (rule pool_ok_upd_buf[OF _ v]) simp_all
  moreover have "tx_ok (demo_conn\<lparr>tx_tail := 0\<rparr>)" "tx_items (demo_conn\<lparr>tx_tail := 0\<rparr>) = []" "c_shm (demo_conn\<lparr>tx_tail := 0\<rparr>) = None"
    by (simp_all add: demo_conn_def null_conn_def tx_ok_def tx_items_def ring_ok_def ring_items_def ring_len_def TX_QUEUE_SIZE_def)
  moreover have "length (g_remote_conns demo_answering) = 16" by (simp add: demo_answering_def put_bytes_def demo_receiver_def demo_ipc_def MAX_REMOTE_CONNS_def)
  ultimately show "tx_ready 0 demo_answering" using gc by (simp add: tx_ready_def queue_held_def)
qed


text \<open>A node whose registry places the service on the other node.\<close>

definition demo_calling :: ipc_state where
  "demo_calling = demo_answering\<lparr>g_service_registry := (replicate 64 null_entry)[0 := null_entry\<lparr>is_remote := True, remote_node := ''n2'', remote_uds_path := ''/tmp/n2''\<rparr>]\<rparr>"

lemma demo_calling_ok: "tx_ready 0 demo_calling" "rx_idle 0 demo_calling" "get_conn demo_calling 0 = demo_conn\<lparr>tx_tail := 0\<rparr>" "sys_send (sys_calls demo_calling (sys_pos demo_calling)) = Sent"
  "find_idx (\<lambda>c. c_uds_path c = ''/tmp/n2'') (g_remote_conns demo_calling) (g_remote_conn_count demo_calling) = Some 0"
  "valid_buf demo_calling (0, 1)" "1 \<le> ref_cnt (get_buf demo_calling (0, 1))" "fits demo_calling (0, 1)" "msg_header demo_calling (0, 1) = decode_msg demo_packet 0"
  "reg_view demo_calling 0 = Some (Route_Remote ''n2'' ''/tmp/n2'')"
proof -
  have g: "g_bins demo_calling = g_bins demo_answering" "get_conn demo_calling = get_conn demo_answering" by (simp_all add: demo_calling_def get_conn_def fun_eq_iff)
  note c = bytes_cong[OF g(1)] bins_cong[OF g(1)] pool_ok_cong[OF g(1)]
  show r: "get_conn demo_calling 0 = demo_conn\<lparr>tx_tail := 0\<rparr>" "rx_idle 0 demo_calling" using demo_answering_ok(2,3) g(2) by (simp_all add: rx_idle_def)
  have "tx_items (get_conn demo_calling 0) = []" "c_shm (get_conn demo_calling 0) = None"
    by (simp_all add: r(1)) (simp_all add: demo_conn_def null_conn_def tx_items_def ring_items_def ring_len_def TX_QUEUE_SIZE_def)
  moreover have "length (g_remote_conns demo_calling) = length (g_remote_conns demo_answering)" by (simp add: demo_calling_def)
  ultimately show "tx_ready 0 demo_calling" using demo_answering_ok(1) c(3) g(2) by (simp add: tx_ready_def queue_held_def)
  show "sys_send (sys_calls demo_calling (sys_pos demo_calling)) = Sent" "reg_view demo_calling 0 = Some (Route_Remote ''n2'' ''/tmp/n2'')"
    "find_idx (\<lambda>c. c_uds_path c = ''/tmp/n2'') (g_remote_conns demo_calling) (g_remote_conn_count demo_calling) = Some 0"
    by (simp_all add: demo_calling_def demo_answering_def put_bytes_def demo_receiver_def demo_ipc_def reg_view_def find_service_entry_def find_idx_def get_entry_def null_entry_def
        entry_route_def MAX_REMOTE_CONNS_def demo_conn_def)
  show "valid_buf demo_calling (0, 1)" "1 \<le> ref_cnt (get_buf demo_calling (0, 1))" "fits demo_calling (0, 1)" "msg_header demo_calling (0, 1) = decode_msg demo_packet 0"
    using demo_answering_ok(4-7) c(1,2) by (simp_all add: fits_def)
qed


end
