(* ===== verification/Spec2Isabelle.thy ===== *)
theory Spec2Isabelle
  imports Nos_Child Nos_Main Nos_Link
begin

text \<open>
  A verification development for the NOS node platform, a C runtime in which components exchange
  messages inside a node process and between node processes.

  \<^bold>\<open>The program.\<close>  A node process (\<^verbatim>\<open>src/core\<close>) runs one management thread and several workers.  Each
  thread has a bounded message queue, a heap of timers and a table of descriptors, and runs
  \<^verbatim>\<open>nos_scheduler_run_loop\<close>: start pending components, dispatch messages, expire timers, then poll or
  sleep.  Components are loaded from shared libraries by the node manager, are bound to a thread and provide
  services; a message (\<^verbatim>\<open>nos_service_msg_t\<close> in a reference-counted buffer of \<^verbatim>\<open>nos_buffer.c\<close>) is routed by the
  service registry to a local thread or, through \<^verbatim>\<open>src/infra/nos_ipc_p2p.c\<close>, to another node over a UNIX socket
  and, once negotiated, over a shared-memory ring (\<^verbatim>\<open>nos_shm_ipc.c\<close>).  Next to it stand a key-value database
  (\<^verbatim>\<open>nos_kv.c\<close>), the logger, the statistics table and the registry of embedded services.

  \<^bold>\<open>The theories.\<close>
    \<^item> \<open>Nos_Types\<close>: machine integers, status codes, C strings, linear search, index stacks; the shared
      automation (\<open>nos_abs\<close>).  \<open>Nos_Ring\<close>, \<open>Nos_Map\<close>, \<open>Nos_Pool\<close>: the interfaces as locales \<open>bounded_fifo\<close>,
      \<open>bounded_map\<close> and \<open>index_pool\<close>, each with the facts a client gets from its laws.
    \<^item> \<open>Nos_Message\<close>: the envelope of \<^verbatim>\<open>include/nos_service.h\<close> as bytes in a buffer.
    \<^item> \<open>Nos_Buffer\<close>: \<^verbatim>\<open>src/core/nos_buffer.c\<close> and the reply contexts of \<^verbatim>\<open>nos_scheduler.c\<close>.  The bins interpret
      \<open>index_pool\<close>.  The free stack of a bin lists exactly the buffers nobody holds in every reachable state;
      allocation, release, push, pull and the geometry of chunks.
    \<^item> \<open>Nos_Heap\<close>, \<open>Nos_Sched\<close>, \<open>Nos_Registry\<close>, \<open>Nos_Timer\<close>, \<open>Nos_Dispatch\<close>, \<open>Nos_Loop\<close>: \<^verbatim>\<open>src/core/nos_scheduler.c\<close> with
      \<^verbatim>\<open>nos_scheduler.h\<close>, \<^verbatim>\<open>nos_component.h\<close> and \<^verbatim>\<open>nos_node_priv.h\<close>.  The timer heap interprets
      \<open>expiry_queue\<close> and sorts; the registry interprets \<open>bounded_map\<close>; the thread queue interprets
      \<open>bounded_fifo\<close>; the expiry loop and the dispatch loop return and deliver; the sleep protocol of the loop,
      as an interleaving with senders, loses no wake-up.
    \<^item> \<open>Nos_Kv\<close>: \<^verbatim>\<open>src/infra/db/nos_kv.c\<close>.  A table interprets \<open>bounded_map\<close> and its pool \<open>index_pool\<close>; the hash,
      the sizing loop, subscriptions, pointers held under a bucket lock.
    \<^item> \<open>Nos_Shm\<close>: \<^verbatim>\<open>src/infra/shm/nos_shm_ipc.c\<close>, sequentially (\<open>bounded_fifo\<close>) and as an interleaving of one writer
      with one reader.
    \<^item> \<open>Nos_Ipc\<close>: \<^verbatim>\<open>src/infra/nos_ipc_p2p.c\<close>: connections, back-off, the transmit queue (\<open>bounded_fifo\<close>), hand-over to
      shared memory, reception and delivery, and the states a node can reach by these operations.
    \<^item> \<open>Nos_Link\<close>: two nodes joined by a socket.  The messages that one transmits reach the queues of the right threads of the other, in
      order, whole and at most once, and none is missing while the receiver has room; a request takes along the context in
      which its answer comes back to the thread of the component that asked.
    \<^item> \<open>Nos_Node\<close>: \<^verbatim>\<open>src/core/nos_node_mgr.c\<close>: staged load, unload, reload, start-up of workers, routing.
    \<^item> \<open>Nos_Service\<close>, \<open>Nos_Stats\<close>, \<open>Nos_Log\<close>: \<^verbatim>\<open>nos_service.c\<close>, \<^verbatim>\<open>nos_timer.c\<close>, \<^verbatim>\<open>nos_stats.c\<close>, \<^verbatim>\<open>nos_log.c\<close>; the logger also as an
      interleaving of any number of producers with the consumer.
    \<^item> \<open>Nos_Api\<close>: \<^verbatim>\<open>include/nos_api.h\<close>: the operation tables of the timers and the database, which a component reaches by name
      through a cached lookup; the lookups interpret \<open>cached_lookup\<close>.
    \<^item> \<open>Nos_Mgr\<close>: the manager process, \<^verbatim>\<open>src/mgr/nos_mgr_main.c\<close>, over a model of its children: they end when they
      like, and no child is lost or belongs to two nodes.  \<open>Nos_Child\<close>: what a child does before it becomes the program of its node.
    \<^item> \<open>Nos_Components\<close>: the components of \<^verbatim>\<open>src/components\<close> as clients of the other theories, through the interfaces of
      \<open>Nos_Api\<close>: a sweep of the remote measurement ends, the counter of model 2 survives a restart, what
      happens to the fields of a message that a sender does not assign, and how many lines of model 3 the logger drops.
    \<^item> \<open>Nos_Line\<close>, \<open>Nos_Cli\<close>: the command line, \<^verbatim>\<open>src/core/nos_cli.c\<close>.  The line editor on its character array refines an editor on
      strings as long as the line fits; the history; a line finds the one command it names; what the handlers do with
      their arguments, also where they read or write outside of their arrays.
    \<^item> \<open>Nos_Main\<close>: \<^verbatim>\<open>src/core/nos_node_main.c\<close>: start-up and shutdown.  Over the life of a node the component objects and library
      references are exactly those of the table of loaded components, and the shutdown gives all of them back.
    \<^item> This theory: the way of a request from the command line to the component that serves it; the components of the platform
      keep to what the theorems on the node manager assume of a component.

  \<^bold>\<open>State.\<close>  A struct is a record, an array a list of the length the code allocates, a pointer to an array element its
  index, a heap object the index of a partial map.  The records of the node extend one another
  (\<open>buf_state\<close>, \<open>sched_state\<close>, \<open>shm_state\<close>, \<open>ipc_state\<close>, \<open>node_state\<close>, and on another line \<open>api_state\<close>, \<open>comps_state\<close>), so that an operation of one component is
  applied to the state of the whole node and its lemmas carry over; \<open>cli_state\<close> joins the node with the logger, the
  statistics and the database.  32- and 64-bit integers are words wherever the
  code can wrap; indices that the code keeps below an array bound are natural numbers.  Errors are the values of
  \<open>nos_status_t\<close> or an option.

  \<^bold>\<open>Parameters.\<close>  Code and services outside the repository are arguments: memory allocation, the clock, what system
  calls return (in scripts that are part of the state), the dynamic loader, \<^verbatim>\<open>epoll_wait\<close>, and the callbacks of
  components, timers and subscribers.  Theorems that call them state what they rely on, for
  example that a handler keeps the reference it was given.

  \<^bold>\<open>Loops and fuel.\<close>  Loops over an array are structural.  The loops of the dispatcher, of timer expiry, of the
  shared-memory drain, of the sizing of buckets, of chains of entries and of the log consumer take fuel and give \<open>None\<close>
  when it does not suffice; theorems show what suffices: one more than the number of queued messages or of timers, the
  number of full slots, 21 doublings, the number of entries, 1024 rounds.  The scheduler loop itself runs until it
  is stopped; its body is a total function.

  \<^bold>\<open>Concurrency.\<close>  Operations under a lock are atomic.  Where the code works without a lock (the shared-memory ring, the
  sleep protocol, the log ring) the accesses to shared variables are the steps of an inductive relation and the theorems
  are about every interleaving, under sequential consistency.

  \<^bold>\<open>Left out of the models.\<close>  Log output that an operation produces on the way, the layout of printed tables, thread
  names, CPU affinity and priorities.

  \<^bold>\<open>Not modelled.\<close>  Terminal attributes and echo, and the creation and joining of threads.  \<^verbatim>\<open>perf remote\<close> and the measurement components compute rates in floating point for their log lines; those
  are left out with the lines.
\<close>

section \<open>From the command line to the component\<close>


definition demo_bench :: comps_state where
  "demo_bench = (demo_comps (g_bins (stale_pool plain_msg)))\<lparr>g_service_registry := (replicate 64 null_entry)[0 := null_entry\<lparr>service_id := 113, local_thread := Some 0\<rparr>]\<rparr>"

lemma demo_bench_ok: "pool_ok demo_bench" "bufs_ok demo_bench" "\<exists>x. nos_buffer_alloc 40 0 demo_bench = (Some (0, 1), x)"
  "\<not> is_reply_msg (decode_msg (chunk (get_buf demo_bench (0, 1))) 0)" "local_route demo_bench 113 0" "queue_items (get_thread demo_bench 0) = []"
proof -
  have g: "g_bins demo_bench = g_bins demo_cli_node" by (simp add: demo_bench_def)
  show "pool_ok demo_bench" "bufs_ok demo_bench" using demo_cli_node_ok(1,2) pool_ok_cong[OF g] bins_cong[OF g] by (simp_all add: bufs_ok_def)
  have "fst (nos_buffer_alloc 40 0 demo_bench) = Some (0, 1)" using alloc_fst_bins[OF g] demo_cli_node_ok(3) by (metis fst_conv)
  then show "\<exists>x. nos_buffer_alloc 40 0 demo_bench = (Some (0, 1), x)" by (metis prod.collapse)
  show "\<not> is_reply_msg (decode_msg (chunk (get_buf demo_bench (0, 1))) 0)" using demo_cli_node_ok(4) bins_cong[OF g] by simp
  have q: "queue_ok (get_thread demo_bench 0)" "queue_items (get_thread demo_bench 0) = []"
    by (simp_all add: demo_bench_def demo_comps_defs queue_ok_def ring_ok_def queue_items_def null_thread_def MAX_QUEUE_SIZE_def)
  then show "local_route demo_bench 113 0" "queue_items (get_thread demo_bench 0) = []"
    by (simp_all add: local_route_def) (simp add: demo_bench_def demo_comps_defs find_service_entry_def find_idx_def get_entry_def null_entry_def)
qed


section \<open>The components keep to what the node manager relies on\<close>

text \<open>The theorems on loading, reloading and shutdown rely on callbacks that do not rewire the node and touch no other component.\<close>

definition callback_tame :: "'z sched_state_scheme \<Rightarrow> 'z sched_state_scheme \<Rightarrow> bool" where
  "callback_tame s s' \<longleftrightarrow> core_same s s' \<and> g_comps s' = g_comps s"

lemma callback_tame_trans: "callback_tame a b \<Longrightarrow> callback_tame b c \<Longrightarrow> callback_tame a c"
  by (auto simp: callback_tame_def intro: core_same_trans)

lemma callback_tame_api [simp]:
  "callback_tame s (s'\<lparr>g_tables := ts\<rparr>) = callback_tame s s'" "callback_tame s (s'\<lparr>kv_notified := ks\<rparr>) = callback_tame s s'"
  "callback_tame s (s'\<lparr>kv_ops_cache := kc\<rparr>) = callback_tame s s'" "callback_tame s (s'\<lparr>timer_ops_cache := tc\<rparr>) = callback_tame s s'"
  by (simp_all add: callback_tame_def core_same_def)

lemma callback_tame_upd [simp]:
  "callback_tame s (s'\<lparr>ping_priv := a\<rparr>) = callback_tame s s'" "callback_tame s (s'\<lparr>rping_priv := b\<rparr>) = callback_tame s s'" "callback_tame s (s'\<lparr>m1_priv := c\<rparr>) = callback_tame s s'"
  "callback_tame s (s'\<lparr>m2_priv := d\<rparr>) = callback_tame s s'" "callback_tame s (s'\<lparr>counter_priv := e\<rparr>) = callback_tame s s'"
  by (simp_all add: callback_tame_def core_same_def)

lemma callback_tame_refl [simp]: "callback_tame s s"
  by (simp add: callback_tame_def core_same_def)

lemma kv_calls_tame:
  "callback_tame s (snd (nos_kv_put_auto t key val s))" "callback_tame s (snd (nos_kv_unsubscribe_auto t key cb arg s))" "callback_tame s (snd (nos_kv_get_auto t key room s))"
proof -
  have "callback_tame s (snd (nos_kv_put_auto t key val s)) \<and> callback_tame s (snd (nos_kv_unsubscribe_auto t key cb arg s)) \<and> callback_tame s (snd (nos_kv_get_auto t key room s))"
    by (cases rule: get_kv_cases[of s]) (simp_all add: nos_kv_put_auto_def nos_kv_unsubscribe_auto_def nos_kv_get_auto_def split: prod.split)
  then show "callback_tame s (snd (nos_kv_put_auto t key val s))" "callback_tame s (snd (nos_kv_unsubscribe_auto t key cb arg s))" "callback_tame s (snd (nos_kv_get_auto t key room s))" by blast+
qed

text \<open>The sizing loop ends for the sizes the components ask for.\<close>

lemma kv_create_tame:
  assumes "cap \<le> 2 ^ 31"
  shows "\<exists>t u. nos_kv_table_create_auto ok nm ks mv cap s = Some (t, u) \<and> callback_tame s u"
proof (cases rule: get_kv_cases[of s])
  case (2 p)
  obtain t ts where "nos_kv_table_create 21 ok (Some nm) ks mv cap (g_tables s) = Some (t, ts)"
    using kv_create_returns[OF assms] by fast
  then show ?thesis using 2 by (simp add: nos_kv_table_create_auto_def g_kv_ops_def)
qed (simp add: nos_kv_table_create_auto_def)

lemma timer_delete_tame: "callback_tame s (nos_timer_delete_auto (\<lambda>_ _ s. s) tm s)"
proof -
  have h: "core_same s (set_heap t h s)" "g_comps (set_heap t h s) = g_comps s" for t h and s :: "'a api_state_scheme"
    unfolding set_heap_def by (rule core_same_thread) simp_all
  have d: "core_same s (detach_timer p x s) \<and> g_comps (detach_timer p x s) = g_comps s" for p x and s :: "'a api_state_scheme"
    using h by (simp add: detach_timer_def split: option.split bool.split)
  have "core_same s (upd_timer p clear_timer (detach_timer p x s)) \<and> g_comps (upd_timer p clear_timer (detach_timer p x s)) = g_comps s" for p x and s :: "'a api_state_scheme"
    using d[of s p x] by (simp add: upd_timer_def core_same_def)
  then have "callback_tame s (nos_timer_delete (\<lambda>_ _ s. s) tm s)" for s :: "'a api_state_scheme"
    by (simp add: nos_timer_delete_def callback_tame_def core_same_def Let_def split: option.split)
  then have "callback_tame (s\<lparr>timer_ops_cache := q\<rparr>) (nos_timer_delete (\<lambda>_ _ s. s) tm (s\<lparr>timer_ops_cache := q\<rparr>))" for q .
  then have "callback_tame s (nos_timer_delete (\<lambda>_ _ s. s) tm (s\<lparr>timer_ops_cache := q\<rparr>))" for q by (rule callback_tame_trans[rotated]) simp
  then show ?thesis by (cases rule: get_timer_cases[of s]) (simp_all add: nos_timer_delete_auto_def g_timer_ops_def)
qed

lemma m2_recover_tame: "callback_tame s (snd (m2_recover c t s))"
proof -
  obtain r bs s1 where g: "nos_kv_get_auto t (name_key (comp_name (get_comp s c))) 4 s = ((r, bs), s1)" by (metis prod.exhaust)
  have "callback_tame s s1" using kv_calls_tame(3)[of s t "name_key (comp_name (get_comp s c))" 4] g by simp
  then show ?thesis using g kv_calls_tame(1)[of s1] by (auto simp: m2_recover_def Let_def intro: callback_tame_trans)
qed


end
